(* ===== verification/Prelude.thy ===== *)
theory Prelude
  imports Main "HOL-Library.Word" "HOL-Library.Multiset"
begin

text \<open>
  Shared vocabulary of the development: machine words, the faults a C program can run into,
  the result type that carries them, bounds-checked array access, a state-passing loop
  combinator, interleavings of thread programs, and the generic lemmas the component theories
  rely on.
\<close>

unbundle bit_operations_syntax

section \<open>Machine words\<close>

type_synonym u8 = "8 word"
type_synonym u16 = "16 word"
type_synonym u32 = "32 word"
type_synonym u64 = "64 word"
type_synonym bytes = "8 word list"

text \<open>The four bytes of a 32-bit number in memory, least significant byte first.\<close>

definition u32_le :: "u32 \<Rightarrow> bytes" where
  "u32_le x = [ucast x, ucast (drop_bit 8 x), ucast (drop_bit 16 x), ucast (drop_bit 24 x)]"

definition le_u32 :: "bytes \<Rightarrow> u32" where
  "le_u32 bs = ucast (bs ! 0) OR push_bit 8 (ucast (bs ! 1)) OR push_bit 16 (ucast (bs ! 2)) OR
     push_bit 24 (ucast (bs ! 3))"

section \<open>Faults and results\<close>

text \<open>
  What the C standard leaves undefined, or what stops a thread for ever, is a value of
  \<open>fault\<close>; a computation that may run into one returns \<open>fault + 'a\<close>. Error codes the code
  itself returns (such as \<open>-1\<close> or \<open>-EINVAL\<close>) stay integers in the \<open>Inr\<close> side.
\<close>

datatype fault =
    NullDeref      \<comment> \<open>a null pointer is dereferenced\<close>
  | OutOfBounds    \<comment> \<open>an array or buffer is accessed outside its bounds\<close>
  | UseAfterFree   \<comment> \<open>memory is accessed after it was freed\<close>
  | BadFree        \<comment> \<open>something that is not a live allocation is freed\<close>
  | Uninit         \<comment> \<open>an indeterminate value is used as a pointer\<close>
  | DivByZero      \<comment> \<open>an integer is divided by zero\<close>
  | DeadLock       \<comment> \<open>a lock is acquired that its holder never releases\<close>
  | Overflow       \<comment> \<open>signed integer arithmetic overflows\<close>

type_synonym 'a res = "fault + 'a"

named_theorems res_simps \<open>evaluation of the result type\<close>

definition bindR :: "'a res \<Rightarrow> ('a \<Rightarrow> 'b res) \<Rightarrow> 'b res" where
  "bindR m f = (case m of Inl e \<Rightarrow> Inl e | Inr x \<Rightarrow> f x)"

definition is_ok :: "'a res \<Rightarrow> bool" where
  "is_ok m = (case m of Inl _ \<Rightarrow> False | Inr _ \<Rightarrow> True)"

text \<open>Array access in C: the index must be inside the array.\<close>

definition arr_get :: "'a list \<Rightarrow> nat \<Rightarrow> 'a res" where
  "arr_get xs i = (if i < length xs then Inr (xs ! i) else Inl OutOfBounds)"

definition arr_set :: "'a list \<Rightarrow> nat \<Rightarrow> 'a \<Rightarrow> 'a list res" where
  "arr_set xs i v = (if i < length xs then Inr (xs[i := v]) else Inl OutOfBounds)"

text \<open>\<open>memcpy (dst, src, n)\<close> on two buffers that do not overlap.\<close>

definition memcpy :: "bytes \<Rightarrow> bytes \<Rightarrow> nat \<Rightarrow> bytes res" where
  "memcpy dst src n =
     (if n \<le> length dst \<and> n \<le> length src then Inr (take n src @ drop n dst) else Inl OutOfBounds)"

text \<open>A \<open>for\<close> loop over a list of loop values that updates a state and stops at a fault.\<close>

fun foldR :: "('s \<Rightarrow> 'a \<Rightarrow> 's res) \<Rightarrow> 's \<Rightarrow> 'a list \<Rightarrow> 's res" where
  "foldR f s [] = Inr s"
| "foldR f s (x # xs) = bindR (f s x) (\<lambda>s'. foldR f s' xs)"

text \<open>Updating the first element of a list that satisfies a condition, if there is one.\<close>

fun upd_first :: "('a \<Rightarrow> bool) \<Rightarrow> ('a \<Rightarrow> 'a) \<Rightarrow> 'a list \<Rightarrow> 'a list option" where
  "upd_first P f [] = None"
| "upd_first P f (x # xs) = (if P x then Some (f x # xs) else map_option ((#) x) (upd_first P f xs))"

text \<open>
  The interleavings of several sequential programs: each step takes the first remaining
  operation of one of them.
\<close>

inductive interleave :: "'a list list \<Rightarrow> 'a list \<Rightarrow> bool" where
  interleave_done: "\<forall>p\<in>set ps. p = [] \<Longrightarrow> interleave ps []"
| interleave_step: "i < length ps \<Longrightarrow> ps ! i = x # p \<Longrightarrow> interleave (ps[i := p]) xs \<Longrightarrow>
    interleave ps (x # xs)"

section \<open>Lemmas on results\<close>

lemma bindR_Inr [simp, res_simps]: "bindR (Inr x) f = f x"
  by (simp add: bindR_def)

lemma bindR_Inl [simp, res_simps]: "bindR (Inl e) f = Inl e"
  by (simp add: bindR_def)

lemma bindR_split:
  "P (bindR m f) \<longleftrightarrow> (\<forall>e. m = Inl e \<longrightarrow> P (Inl e)) \<and> (\<forall>x. m = Inr x \<longrightarrow> P (f x))"
  by (cases m) auto

lemma bindR_split_asm:
  "P (bindR m f) \<longleftrightarrow> \<not> ((\<exists>e. m = Inl e \<and> \<not> P (Inl e)) \<or> (\<exists>x. m = Inr x \<and> \<not> P (f x)))"
  by (cases m) auto

lemmas bindR_splits = bindR_split bindR_split_asm

lemma bindR_eq_Inr: "bindR m f = Inr y \<longleftrightarrow> (\<exists>x. m = Inr x \<and> f x = Inr y)"
  by (cases m) auto

lemma bindR_assoc: "bindR (bindR m f) g = bindR m (\<lambda>x. bindR (f x) g)"
  by (cases m) auto

lemma bindR_cong [fundef_cong]:
  "m = m' \<Longrightarrow> (\<And>x. m' = Inr x \<Longrightarrow> f x = g x) \<Longrightarrow> bindR m f = bindR m' g"
  by (cases m') auto

lemma is_ok_Inr [simp, res_simps]: "is_ok (Inr x)"
  by (simp add: is_ok_def)

lemma is_ok_Inl [simp, res_simps]: "\<not> is_ok (Inl e)"
  by (simp add: is_ok_def)

lemma is_ok_bindR [simp]: "is_ok (bindR m f) \<longleftrightarrow> (\<exists>x. m = Inr x \<and> is_ok (f x))"
  by (cases m) auto

lemma is_okE: "is_ok m \<Longrightarrow> (\<And>x. m = Inr x \<Longrightarrow> P) \<Longrightarrow> P"
  by (cases m) auto

lemma arr_get_in [simp, res_simps]: "i < length xs \<Longrightarrow> arr_get xs i = Inr (xs ! i)"
  by (simp add: arr_get_def)

lemma arr_get_out [simp, res_simps]: "\<not> i < length xs \<Longrightarrow> arr_get xs i = Inl OutOfBounds"
  by (simp add: arr_get_def)

lemma arr_set_in [simp, res_simps]: "i < length xs \<Longrightarrow> arr_set xs i v = Inr (xs[i := v])"
  by (simp add: arr_set_def)

lemma arr_set_out [simp, res_simps]: "\<not> i < length xs \<Longrightarrow> arr_set xs i v = Inl OutOfBounds"
  by (simp add: arr_set_def)

lemma memcpy_all [simp, res_simps]: "length dst = n \<Longrightarrow> length src = n \<Longrightarrow> memcpy dst src n = Inr src"
  by (simp add: memcpy_def)

section \<open>Lemmas on loops\<close>

lemma foldR_append: "foldR f s (xs @ ys) = bindR (foldR f s xs) (\<lambda>s'. foldR f s' ys)"
  by (induction xs arbitrary: s) (auto simp: bindR_assoc)

lemma foldR_invariant:
  assumes "P s" and "\<And>s x. P s \<Longrightarrow> x \<in> set xs \<Longrightarrow> \<exists>s'. f s x = Inr s' \<and> P s'"
  shows "\<exists>s'. foldR f s xs = Inr s' \<and> P s'"
  using assms
proof (induction xs arbitrary: s)
  case Nil
  then show ?case by simp
next
  case (Cons x xs)
  obtain s1 where "f s x = Inr s1" and "P s1"
    using Cons.prems by (meson list.set_intros(1))
  moreover obtain s' where "foldR f s1 xs = Inr s'" and "P s'"
    using Cons.IH [OF \<open>P s1\<close>] Cons.prems(2) by (meson list.set_intros(2))
  ultimately show ?case by simp
qed

lemma foldR_map: "foldR f s (map g xs) = foldR (\<lambda>s x. f s (g x)) s xs"
  by (induction xs arbitrary: s) simp_all

section \<open>Lemmas on interleavings\<close>

lemma mset_concat_update:
  assumes "i < length ps" and "ps ! i = x # p"
  shows "mset (concat ps) = add_mset x (mset (concat (ps[i := p])))"
proof -
  have ps: "ps = take i ps @ (x # p) # drop (Suc i) ps"
    using assms by (simp add: id_take_nth_drop [symmetric] assms(2) [symmetric])
  have "ps[i := p] = take i ps @ p # drop (Suc i) ps"
    using assms(1) by (simp add: upd_conv_take_nth_drop)
  then show ?thesis
    by (subst ps) (simp add: union_assoc union_lcomm)
qed

lemma interleave_mset: "interleave ps xs \<Longrightarrow> mset xs = mset (concat ps)"
proof (induction rule: interleave.induct)
  case (interleave_done ps)
  then have "concat ps = []" by simp
  then show ?case by simp
next
  case (interleave_step i ps x p xs)
  then show ?case by (simp add: mset_concat_update)
qed

lemma interleave_set: "interleave ps xs \<Longrightarrow> set xs = \<Union> (set ` set ps)"
  by (drule interleave_mset, drule arg_cong [where f = set_mset]) simp

section \<open>Lemmas on lists\<close>

lemma upd_first_None: "upd_first P f xs = None \<longleftrightarrow> (\<forall>x\<in>set xs. \<not> P x)"
  by (induction xs) auto

lemma upd_first_Some:
  "upd_first P f xs = Some ys \<longleftrightarrow>
     (\<exists>as x bs. xs = as @ x # bs \<and> ys = as @ f x # bs \<and> P x \<and> (\<forall>y\<in>set as. \<not> P y))"
proof (induction xs arbitrary: ys)
  case Nil
  then show ?case by simp
next
  case (Cons z xs)
  show ?case
  proof (cases "P z")
    case True
    have "\<exists>as x bs. z # xs = as @ x # bs \<and> f z # xs = as @ f x # bs \<and> P x \<and> (\<forall>y\<in>set as. \<not> P y)"
      by (rule exI [where x = "[]"]) (simp add: True)
    with True show ?thesis by (auto simp: Cons_eq_append_conv)
  next
    case False
    show ?thesis (is "?l \<longleftrightarrow> ?r")
    proof
      assume ?l
      with False obtain ys' where "upd_first P f xs = Some ys'" and ys: "ys = z # ys'" by auto
      then obtain as x bs where "xs = as @ x # bs" "ys' = as @ f x # bs" "P x" "\<forall>y\<in>set as. \<not> P y"
        using Cons.IH by blast
      with False ys show ?r
        by (intro exI [where x = "z # as"] exI [where x = x] exI [where x = bs]) simp
    next
      assume ?r
      then obtain as x bs where s: "z # xs = as @ x # bs" "ys = as @ f x # bs" "P x" "\<forall>y\<in>set as. \<not> P y"
        by blast
      with False obtain as' where as: "as = z # as'" by (cases as) auto
      with s have "upd_first P f xs = Some (as' @ f x # bs)"
        by (subst Cons.IH) auto
      with False s as show ?l by simp
    qed
  qed
qed

lemma set_list_updateE:
  assumes "x \<in> set (xs[i := y])"
  obtains "x = y" | "x \<in> set xs"
  using assms set_update_subset_insert by fastforce

lemma nth_list_update_cases:
  "j < length xs \<Longrightarrow> xs[i := y] ! j = (if i = j then y else xs ! j)"
  by (simp add: nth_list_update)

lemma sum_list_update_nat:
  fixes f :: "'a \<Rightarrow> nat"
  assumes "i < length xs"
  shows "sum_list (map f (xs[i := y])) + f (xs ! i) = sum_list (map f xs) + f y"
  using assms
proof (induction xs arbitrary: i)
  case Nil
  then show ?case by simp
next
  case (Cons a xs)
  then show ?case by (cases i) (simp_all add: ac_simps)
qed

lemma mset_concat_list_update:
  assumes "i < length xss"
  shows "mset (concat (xss[i := ys])) + mset (xss ! i) = mset (concat xss) + mset ys"
  using assms
proof (induction xss arbitrary: i)
  case Nil
  then show ?case by simp
next
  case (Cons xs xss)
  then show ?case by (cases i) (simp_all add: ac_simps)
qed

lemma map_of_insert_middle:
  "k \<notin> fst ` set (as @ bs) \<Longrightarrow> map_of (as @ (k, v) # bs) = (map_of (as @ bs))(k \<mapsto> v)"
  by (simp add: map_add_upd_left dom_map_of_conv_image_fst image_Un)

lemma count_mset_concat: "count (mset (concat xss)) x = sum_list (map (\<lambda>xs. count (mset xs) x) xss)"
  by (induction xss) auto

section \<open>Lemmas on words\<close>

lemma sint_ucast_small:
  assumes u: "uint (x :: u64) < 0x80000000"
  shows "sint (ucast x :: u32) = uint x"
proof -
  have t: "uint (ucast x :: u32) = uint x"
    using u by (simp add: unsigned_ucast_eq take_bit_int_eq_self)
  have "- (2 ^ 31) \<le> uint x"
    by (rule order_trans [OF _ uint_ge_0]) simp
  moreover have "uint x < 2 ^ 31" using u by simp
  ultimately show ?thesis
    unfolding sint_uint t by (simp add: signed_take_bit_int_eq_self)
qed

lemma length_u32_le [simp]: "length (u32_le x) = 4"
  by (simp add: u32_le_def)

lemma le_u32_le [simp]: "le_u32 (u32_le x @ bs) = x"
proof (rule bit_word_eqI)
  fix n
  assume "n < LENGTH(32)"
  then have "n < 8 \<or> (8 \<le> n \<and> n < 16) \<or> (16 \<le> n \<and> n < 24) \<or> (24 \<le> n \<and> n < 32)" by auto
  then show "bit (le_u32 (u32_le x @ bs)) n = bit x n"
    unfolding le_u32_def u32_le_def by (elim disjE) (simp_all add: bit_simps, linarith+)
qed

lemma of_nat_u64_inj: "n \<le> 2 ^ 64 \<Longrightarrow> inj_on (of_nat :: nat \<Rightarrow> u64) {0..<n}"
proof (rule inj_onI)
  fix x y :: nat
  assume n: "n \<le> 2 ^ 64" "x \<in> {0..<n}" "y \<in> {0..<n}" and "(of_nat x :: u64) = of_nat y"
  then have "unat (of_nat x :: u64) = unat (of_nat y :: u64)" by simp
  with n show "x = y" by (simp add: unat_of_nat)
qed

lemma unat_drop16: "unat (drop_bit 16 (x :: u32)) = unat x div 65536"
  by (simp add: drop_bit_eq_div unat_div)

lemma unat_mask16: "unat (x AND 0xFFFF :: u32) = unat x mod 65536"
proof -
  have "x AND 0xFFFF = x mod 65536"
    using take_bit_eq_mask [of 16 x] take_bit_eq_mod [of 16 x] by (simp add: mask_eq_exp_minus_1)
  then show ?thesis by (simp add: unat_mod)
qed

end
