(* ===== verification/Interfaces.thy ===== *)
theory Interfaces
  imports Prelude
begin

text \<open>
  The contract that the map components share, as a locale: \<open>key_map\<close> is what the two hash maps
  (the mutex-per-bucket map of \<open>data-hashmap-concurrent\<close> and the RCU map of \<open>ksync-rcu-cmap\<close>)
  promise to the loops that fill, update and empty them.
\<close>

section \<open>A map from keys to values\<close>

locale key_map =
  fixes invar :: "'m \<Rightarrow> bool"
    and lookup :: "'m \<Rightarrow> 'k \<Rightarrow> 'v option"
    and insert :: "'m \<Rightarrow> 'k \<Rightarrow> 'v \<Rightarrow> 'm res"
    and remove :: "'m \<Rightarrow> 'k \<Rightarrow> 'm res"
  assumes insert_new: "invar m \<Longrightarrow> lookup m k = None \<Longrightarrow>
      \<exists>m'. insert m k v = Inr m' \<and> invar m' \<and> lookup m' = (lookup m)(k \<mapsto> v)"
    and remove_old: "invar m \<Longrightarrow> lookup m k \<noteq> None \<Longrightarrow>
      \<exists>m'. remove m k = Inr m' \<and> invar m' \<and> lookup m' = (lookup m)(k := None)"
begin

lemma insert_all:
  assumes "invar m" and "distinct ks" and "\<forall>k\<in>set ks. lookup m k = None"
  shows "\<exists>m'. foldR (\<lambda>m k. insert m k (f k)) m ks = Inr m' \<and> invar m' \<and>
    lookup m' = (\<lambda>k. if k \<in> set ks then Some (f k) else lookup m k)"
  using assms
proof (induction ks arbitrary: m)
  case Nil
  then show ?case by simp
next
  case (Cons k ks)
  obtain m1 where m1: "insert m k (f k) = Inr m1" "invar m1" "lookup m1 = (lookup m)(k \<mapsto> f k)"
    using insert_new [of m k "f k"] Cons.prems by auto
  have "\<forall>j\<in>set ks. lookup m1 j = None"
    using Cons.prems m1(3) by auto
  then obtain m' where "foldR (\<lambda>m k. insert m k (f k)) m1 ks = Inr m'" "invar m'"
    and m': "lookup m' = (\<lambda>j. if j \<in> set ks then Some (f j) else lookup m1 j)"
    using Cons.IH [OF m1(2)] Cons.prems(2) by auto
  moreover have "lookup m' = (\<lambda>j. if j \<in> set (k # ks) then Some (f j) else lookup m j)"
    unfolding m' m1(3) by (rule ext) simp
  ultimately show ?case using m1(1) by simp
qed

lemma remove_all:
  assumes "invar m" and "distinct ks" and "\<forall>k\<in>set ks. lookup m k \<noteq> None"
  shows "\<exists>m'. foldR remove m ks = Inr m' \<and> invar m' \<and>
    lookup m' = (\<lambda>k. if k \<in> set ks then None else lookup m k)"
  using assms
proof (induction ks arbitrary: m)
  case Nil
  then show ?case by simp
next
  case (Cons k ks)
  obtain m1 where m1: "remove m k = Inr m1" "invar m1" "lookup m1 = (lookup m)(k := None)"
    using remove_old [of m k] Cons.prems by auto
  have "\<forall>j\<in>set ks. lookup m1 j \<noteq> None"
    using Cons.prems m1(3) by auto
  then obtain m' where "foldR remove m1 ks = Inr m'" "invar m'"
    and m': "lookup m' = (\<lambda>j. if j \<in> set ks then None else lookup m1 j)"
    using Cons.IH [OF m1(2)] Cons.prems(2) by auto
  moreover have "lookup m' = (\<lambda>j. if j \<in> set (k # ks) then None else lookup m j)"
    unfolding m' m1(3) by (rule ext) simp
  ultimately show ?case using m1(1) by simp
qed

end

text \<open>A map whose insertion replaces the value of a key that is present.\<close>

locale key_map_replace = key_map +
  assumes insert_any: "invar m \<Longrightarrow>
      \<exists>m'. insert m k v = Inr m' \<and> invar m' \<and> lookup m' = (lookup m)(k \<mapsto> v)"
begin

lemma replace_all:
  assumes "invar m"
  shows "\<exists>m'. foldR (\<lambda>m k. insert m k (f k)) m ks = Inr m' \<and> invar m' \<and>
    lookup m' = (\<lambda>k. if k \<in> set ks then Some (f k) else lookup m k)"
  using assms
proof (induction ks arbitrary: m)
  case Nil
  then show ?case by simp
next
  case (Cons k ks)
  obtain m1 where m1: "insert m k (f k) = Inr m1" "invar m1" "lookup m1 = (lookup m)(k \<mapsto> f k)"
    using insert_any [OF Cons.prems] by blast
  obtain m' where "foldR (\<lambda>m k. insert m k (f k)) m1 ks = Inr m'" "invar m'"
    and m': "lookup m' = (\<lambda>j. if j \<in> set ks then Some (f j) else lookup m1 j)"
    using Cons.IH [OF m1(2)] by blast
  moreover have "lookup m' = (\<lambda>j. if j \<in> set (k # ks) then Some (f j) else lookup m j)"
    unfolding m' m1(3) by (rule ext) simp
  ultimately show ?case using m1(1) by simp
qed

end

end
