(* ===== verification/Cmap.thy ===== *)
theory Cmap
  imports Interfaces
begin

text \<open>
  The hash map of \<open>src/data-hashmap-concurrent\<close> (\<open>cmap.h\<close>, \<open>cmap.c\<close>): an array of buckets,
  each a chain of nodes guarded by a mutex. A chain is the list of its nodes, first node first;
  \<open>b_null\<close> says that the last \<open>next\<close> pointer is null (\<open>cmap_alloc\<close> builds chains on top of
  whatever the freshly allocated bucket array holds). Every operation runs between locking and
  unlocking one bucket, so that an execution of several threads is a sequence of operations.
\<close>

section \<open>Data\<close>

record bogus_data =
  d_index :: u64
  d_value :: u64
  d_in_use :: u64

record bogus_bucket =
  b_data :: "bogus_data list"
  b_null :: bool
  b_lock :: bool

record bogus_cmap =
  cm_buck :: "bogus_bucket list"
  cm_buck_size :: int

definition zero_data :: bogus_data where
  "zero_data = \<lparr>d_index = 0, d_value = 0, d_in_use = 0\<rparr>"

section \<open>The FNV-1 hash\<close>

definition FNV1_64_INIT :: u64 where
  "FNV1_64_INIT = 0xcbf29ce484222325"

definition FNV_64_PRIME :: u64 where
  "FNV_64_PRIME = 0x100000001b3"

text \<open>One round of the loop, as compiled by default: the multiplication by the FNV prime is a
  sum of shifts.\<close>

definition fnv_round :: "u64 \<Rightarrow> u8 \<Rightarrow> u64" where
  "fnv_round hval b =
     (hval + (push_bit 1 hval + push_bit 4 hval + push_bit 5 hval +
        push_bit 7 hval + push_bit 8 hval + push_bit 40 hval)) XOR ucast b"

text \<open>The other preprocessor branch, \<open>NO_FNV_GCC_OPTIMIZATION\<close>.\<close>

definition fnv_round_mul :: "u64 \<Rightarrow> u8 \<Rightarrow> u64" where
  "fnv_round_mul hval b = (hval * FNV_64_PRIME) XOR ucast b"

fun fnv_loop :: "u64 \<Rightarrow> bytes \<Rightarrow> u64" where
  "fnv_loop hval [] = hval"
| "fnv_loop hval (b # bs) = fnv_loop (fnv_round hval b) bs"

definition hashfunc :: "bytes \<Rightarrow> u64 \<Rightarrow> u64" where
  "hashfunc data dv = fnv_loop FNV1_64_INIT data mod dv"

text \<open>The eight bytes of the key as they lie in memory (little endian).\<close>

definition key_bytes :: "u64 \<Rightarrow> bytes" where
  "key_bytes k = map (\<lambda>i. ucast (drop_bit (8 * i) k)) [0..<8]"

definition cmap_idx :: "bogus_cmap \<Rightarrow> u64 \<Rightarrow> int" where
  "cmap_idx cm k = sint (ucast (hashfunc (key_bytes k) (word_of_int (cm_buck_size cm))) :: u32)"

section \<open>Locking a bucket\<close>

text \<open>The index is a C \<open>int\<close>; a negative one addresses memory before the bucket array.\<close>

definition buck_at :: "bogus_cmap \<Rightarrow> int \<Rightarrow> bogus_bucket res" where
  "buck_at cm i = (if i < 0 then Inl OutOfBounds else arr_get (cm_buck cm) (nat i))"

definition buck_put :: "bogus_cmap \<Rightarrow> int \<Rightarrow> bogus_bucket \<Rightarrow> bogus_cmap" where
  "buck_put cm i b = cm\<lparr>cm_buck := (cm_buck cm)[nat i := b]\<rparr>"

definition buck_lock :: "bogus_cmap \<Rightarrow> int \<Rightarrow> bogus_cmap res" where
  "buck_lock cm i = bindR (buck_at cm i) (\<lambda>b.
     if b_lock b then Inl DeadLock else Inr (buck_put cm i (b\<lparr>b_lock := True\<rparr>)))"

definition buck_unlock :: "bogus_cmap \<Rightarrow> int \<Rightarrow> bogus_cmap res" where
  "buck_unlock cm i = bindR (buck_at cm i) (\<lambda>b. Inr (buck_put cm i (b\<lparr>b_lock := False\<rparr>)))"

section \<open>Operations\<close>

text \<open>
  \<open>cmap_alloc\<close>: \<open>fresh_null i\<close> says whether the memory that \<open>malloc\<close> returned for the head
  pointer of bucket \<open>i\<close> happened to hold a null pointer.
\<close>

definition cmap_alloc :: "(nat \<Rightarrow> bool) \<Rightarrow> int \<Rightarrow> int \<Rightarrow> bogus_cmap" where
  "cmap_alloc fresh_null buck_size data_size =
     \<lparr>cm_buck = map (\<lambda>i. \<lparr>b_data = replicate (nat data_size) zero_data,
        b_null = fresh_null i, b_lock = False\<rparr>) [0..<nat buck_size],
      cm_buck_size = buck_size\<rparr>"

text \<open>
  The loop of \<open>cmap_set\<close>: the first node that is not in use is filled; \<open>None\<close> when the end of
  the chain is reached.
\<close>

fun set_loop :: "bool \<Rightarrow> bogus_data \<Rightarrow> bogus_data list \<Rightarrow> bogus_data list option res" where
  "set_loop null val [] = (if null then Inr None else Inl Uninit)"
| "set_loop null val (d # ds) =
     (if d_in_use d \<noteq> 0
      then bindR (set_loop null val ds) (\<lambda>r. Inr (map_option ((#) d) r))
      else Inr (Some (d\<lparr>d_index := d_index val, d_value := d_value val, d_in_use := 1\<rparr> # ds)))"

definition cmap_set :: "bogus_cmap \<Rightarrow> bogus_data \<Rightarrow> (bogus_cmap \<times> int) res" where
  "cmap_set cm val =
    (let idx = cmap_idx cm (d_index val) in
     bindR (buck_lock cm idx) (\<lambda>cm.
     bindR (buck_at cm idx) (\<lambda>b.
     bindR (set_loop (b_null b) val (b_data b)) (\<lambda>r.
     let ds = (case r of
         Some ds \<Rightarrow> ds
       | None \<Rightarrow> zero_data\<lparr>d_index := d_index val, d_value := d_value val, d_in_use := 1\<rparr> # b_data b);
         cm = buck_put cm idx (b\<lparr>b_data := ds\<rparr>)
     in bindR (buck_unlock cm idx) (\<lambda>cm. Inr (cm, idx))))))"

text \<open>
  The loop of \<open>cmap_get\<close> together with the callback on the node it finds. The callback is
  \<open>None\<close> when \<open>ret\<close> or \<open>cb\<close> is null.
\<close>

fun get_loop ::
  "bool \<Rightarrow> u64 \<Rightarrow> (bogus_data \<Rightarrow> bogus_data) option \<Rightarrow> bogus_data list \<Rightarrow> bogus_data list option res"
where
  "get_loop null k cb [] = (if null then Inr None else Inl Uninit)"
| "get_loop null k cb (d # ds) =
     (if d_in_use d \<noteq> 0 \<and> d_index d = k
      then Inr (Some ((case cb of Some f \<Rightarrow> f d | None \<Rightarrow> d) # ds))
      else bindR (get_loop null k cb ds) (\<lambda>r. Inr (map_option ((#) d) r)))"

text \<open>When no node is found the code sets \<open>idx\<close> to \<open>-1\<close> before it unlocks bucket \<open>idx\<close>.\<close>

definition cmap_get ::
  "bogus_cmap \<Rightarrow> u64 \<Rightarrow> (bogus_data \<Rightarrow> bogus_data) option \<Rightarrow> (bogus_cmap \<times> int) res"
where
  "cmap_get cm k cb =
    (let idx = cmap_idx cm k in
     bindR (buck_lock cm idx) (\<lambda>cm.
     bindR (buck_at cm idx) (\<lambda>b.
     bindR (get_loop (b_null b) k cb (b_data b)) (\<lambda>r.
     let (idx, cm) = (case r of
         None \<Rightarrow> (-1, cm)
       | Some ds \<Rightarrow> (idx, buck_put cm idx (b\<lparr>b_data := ds\<rparr>)))
     in bindR (buck_unlock cm idx) (\<lambda>cm. Inr (cm, idx))))))"

text \<open>The loop of \<open>cmap_del\<close>: the node is zeroed and stays in the chain.\<close>

fun del_loop :: "bool \<Rightarrow> u64 \<Rightarrow> bogus_data list \<Rightarrow> bogus_data list option res" where
  "del_loop null k [] = (if null then Inr None else Inl Uninit)"
| "del_loop null k (d # ds) =
     (if d_in_use d \<noteq> 0 \<and> d_index d = k
      then Inr (Some (zero_data # ds))
      else bindR (del_loop null k ds) (\<lambda>r. Inr (map_option ((#) d) r)))"

definition cmap_del :: "bogus_cmap \<Rightarrow> u64 \<Rightarrow> (bogus_cmap \<times> int) res" where
  "cmap_del cm k =
    (let idx = cmap_idx cm k in
     bindR (buck_lock cm idx) (\<lambda>cm.
     bindR (buck_at cm idx) (\<lambda>b.
     bindR (del_loop (b_null b) k (b_data b)) (\<lambda>r.
     let (idx, cm) = (case r of
         None \<Rightarrow> (-1, cm)
       | Some ds \<Rightarrow> (idx, buck_put cm idx (b\<lparr>b_data := ds\<rparr>)))
     in bindR (buck_unlock cm idx) (\<lambda>cm. Inr (cm, idx))))))"

text \<open>\<open>cmap_free\<close> empties every chain; the result is the number of nodes it freed.\<close>

fun free_loop :: "bool \<Rightarrow> bogus_data list \<Rightarrow> nat res" where
  "free_loop null [] = (if null then Inr 0 else Inl Uninit)"
| "free_loop null (d # ds) = bindR (free_loop null ds) (\<lambda>n. Inr (Suc n))"

definition cmap_free :: "bogus_cmap \<Rightarrow> nat res" where
  "cmap_free cm = foldR (\<lambda>n i.
     bindR (arr_get (cm_buck cm) i) (\<lambda>b.
     if b_lock b then Inl DeadLock
     else bindR (free_loop (b_null b) (b_data b)) (\<lambda>k. Inr (n + k)))) 0 [0..<nat (cm_buck_size cm)]"

section \<open>The test program: concurrent increments and decrements\<close>

definition inc_func :: "bogus_data \<Rightarrow> bogus_data" where
  "inc_func d = d\<lparr>d_value := d_value d + d_index d\<rparr>"

definition dec_func :: "bogus_data \<Rightarrow> bogus_data" where
  "dec_func d = d\<lparr>d_value := d_value d - d_index d\<rparr>"

text \<open>
  One iteration of \<open>increase_thread\<close> (\<open>Inc i\<close>) or \<open>decrease_thread\<close> (\<open>Dec i\<close>), and the
  iterations a thread makes, one per key.
\<close>

datatype thread_op = Inc u64 | Dec u64

fun op_key :: "thread_op \<Rightarrow> u64" where
  "op_key (Inc k) = k"
| "op_key (Dec k) = k"

fun op_func :: "thread_op \<Rightarrow> bogus_data \<Rightarrow> bogus_data" where
  "op_func (Inc k) = inc_func"
| "op_func (Dec k) = dec_func"

definition increase_thread :: "nat \<Rightarrow> thread_op list" where
  "increase_thread n = map (\<lambda>i. Inc (of_nat i)) [0..<n]"

definition decrease_thread :: "nat \<Rightarrow> thread_op list" where
  "decrease_thread n = map (\<lambda>i. Dec (of_nat i)) [0..<n]"

definition run_op :: "bogus_cmap \<Rightarrow> thread_op \<Rightarrow> bogus_cmap res" where
  "run_op cm t = bindR (cmap_get cm (op_key t) (Some (op_func t))) (\<lambda>(cm, r). Inr cm)"

text \<open>
  The loop of \<open>main\<close> that fills the map, and its final check of every node. The code also stops
  when \<open>cmap_set\<close> or \<open>cmap_get\<close> returns a negative number, which they never do
  (\<open>cmap_set_nonneg\<close>, \<open>cmap_get_nonneg\<close>).
\<close>

definition insert_data :: "bogus_cmap \<Rightarrow> nat \<Rightarrow> bogus_cmap res" where
  "insert_data cm n = foldR (\<lambda>cm i.
     bindR (cmap_set cm \<lparr>d_index = of_nat i, d_value = 0, d_in_use = 0\<rparr>) (\<lambda>(cm, r). Inr cm)) cm [0..<n]"

definition all_valid :: "bogus_cmap \<Rightarrow> bool" where
  "all_valid cm = list_all (\<lambda>b. list_all (\<lambda>d. d_value d = 0) (b_data b)) (cm_buck cm)"

text \<open>
  \<open>main\<close>: \<open>n\<close> keys are inserted, then the threads run; \<open>sched\<close> is the order in which their
  operations take the bucket locks. The result is the exit status.
\<close>

definition cmap_main :: "(nat \<Rightarrow> bool) \<Rightarrow> int \<Rightarrow> int \<Rightarrow> nat \<Rightarrow> thread_op list \<Rightarrow> int res" where
  "cmap_main fresh_null buck_size data_size n sched =
     bindR (insert_data (cmap_alloc fresh_null buck_size data_size) n) (\<lambda>cm.
     bindR (foldR run_op cm sched) (\<lambda>cm.
     let result = (if all_valid cm then 0 else -1)
     in bindR (cmap_free cm) (\<lambda>_. Inr result)))"

section \<open>The map a chained table stands for, and its invariant\<close>

definition live :: "bogus_data list \<Rightarrow> (u64 \<times> u64) list" where
  "live ds = map (\<lambda>d. (d_index d, d_value d)) (filter (\<lambda>d. d_in_use d \<noteq> 0) ds)"

definition bucket_of :: "bogus_cmap \<Rightarrow> u64 \<Rightarrow> bogus_bucket" where
  "bucket_of cm k = cm_buck cm ! nat (cmap_idx cm k)"

definition cmap_lookup :: "bogus_cmap \<Rightarrow> u64 \<Rightarrow> u64 option" where
  "cmap_lookup cm k = map_of (live (b_data (bucket_of cm k))) k"

text \<open>
  Chains end in null and are unlocked; the keys in use in a bucket are distinct and hash to that
  bucket; nodes not in use hold the value 0.
\<close>

definition bucket_ok :: "bogus_cmap \<Rightarrow> nat \<Rightarrow> bogus_bucket \<Rightarrow> bool" where
  "bucket_ok cm i b \<longleftrightarrow> b_null b \<and> \<not> b_lock b \<and> distinct (map fst (live (b_data b))) \<and>
     (\<forall>k\<in>fst ` set (live (b_data b)). nat (cmap_idx cm k) = i) \<and>
     (\<forall>d\<in>set (b_data b). d_in_use d = 0 \<longrightarrow> d_value d = 0)"

definition cmap_wf :: "bogus_cmap \<Rightarrow> bool" where
  "cmap_wf cm \<longleftrightarrow> 0 < cm_buck_size cm \<and> cm_buck_size cm < 0x80000000 \<and>
     length (cm_buck cm) = nat (cm_buck_size cm) \<and>
     (\<forall>i<length (cm_buck cm). bucket_ok cm i (cm_buck cm ! i))"

text \<open>What \<open>cmap_set\<close> does to the chain, and the insertion and removal of a key as the loops of the
  program use them.\<close>

definition set_data :: "bogus_data \<Rightarrow> bogus_data list \<Rightarrow> bogus_data list" where
  "set_data val ds = (case upd_first (\<lambda>d. d_in_use d = 0)
       (\<lambda>d. d\<lparr>d_index := d_index val, d_value := d_value val, d_in_use := 1\<rparr>) ds of
     Some ds' \<Rightarrow> ds'
   | None \<Rightarrow> zero_data\<lparr>d_index := d_index val, d_value := d_value val, d_in_use := 1\<rparr> # ds)"

definition cmap_put :: "bogus_cmap \<Rightarrow> u64 \<Rightarrow> u64 \<Rightarrow> bogus_cmap res" where
  "cmap_put cm k v = bindR (cmap_set cm \<lparr>d_index = k, d_value = v, d_in_use = 0\<rparr>) (\<lambda>(cm, r). Inr cm)"

definition cmap_remove :: "bogus_cmap \<Rightarrow> u64 \<Rightarrow> bogus_cmap res" where
  "cmap_remove cm k = bindR (cmap_del cm k) (\<lambda>(cm, r). Inr cm)"

text \<open>What a sequence of thread operations adds to the value of a key.\<close>

fun op_delta :: "u64 \<Rightarrow> thread_op list \<Rightarrow> u64" where
  "op_delta k [] = 0"
| "op_delta k (Inc j # ops) = (if j = k then k else 0) + op_delta k ops"
| "op_delta k (Dec j # ops) = op_delta k ops - (if j = k then k else 0)"

section \<open>Lemmas\<close>

lemma cmap_idx_bounds:
  assumes "0 < cm_buck_size cm" and "cm_buck_size cm < 0x80000000"
  shows "0 \<le> cmap_idx cm k \<and> cmap_idx cm k < cm_buck_size cm"
proof -
  let ?dv = "word_of_int (cm_buck_size cm) :: u64"
  let ?h = "hashfunc (key_bytes k) ?dv"
  have dv: "uint ?dv = cm_buck_size cm"
    using assms by (simp add: uint_word_of_int_eq take_bit_int_eq_self)
  have h: "uint ?h < cm_buck_size cm"
    using assms dv by (simp add: hashfunc_def uint_mod_distrib)
  have "cmap_idx cm k = uint ?h"
    unfolding cmap_idx_def by (rule sint_ucast_small) (use h assms(2) in linarith)
  with h show ?thesis by simp
qed

lemma set_loop_upd_first:
  "set_loop True val ds = Inr (upd_first (\<lambda>d. d_in_use d = 0)
     (\<lambda>d. d\<lparr>d_index := d_index val, d_value := d_value val, d_in_use := 1\<rparr>) ds)"
  by (induction ds) auto

lemma get_loop_upd_first:
  "get_loop True k cb ds = Inr (upd_first (\<lambda>d. d_in_use d \<noteq> 0 \<and> d_index d = k)
     (\<lambda>d. case cb of Some f \<Rightarrow> f d | None \<Rightarrow> d) ds)"
  by (induction ds) auto

lemma del_loop_upd_first:
  "del_loop True k ds = Inr (upd_first (\<lambda>d. d_in_use d \<noteq> 0 \<and> d_index d = k) (\<lambda>d. zero_data) ds)"
  by (induction ds) auto

lemma live_simps [simp]:
  "live [] = []"
  "live (d # ds) = (if d_in_use d \<noteq> 0 then (d_index d, d_value d) # live ds else live ds)"
  "live (as @ bs) = live as @ live bs"
  by (simp_all add: live_def)

lemma fst_set_live: "k \<in> fst ` set (live ds) \<longleftrightarrow> (\<exists>d\<in>set ds. d_in_use d \<noteq> 0 \<and> d_index d = k)"
  by (auto simp: live_def image_iff)

lemma cmap_idx_cong [simp]: "cmap_idx (buck_put cm i b) k = cmap_idx cm k"
  by (simp add: cmap_idx_def buck_put_def)

lemma buck_put_sel [simp]:
  "cm_buck_size (buck_put cm i b) = cm_buck_size cm"
  "cm_buck (buck_put cm i b) = (cm_buck cm)[nat i := b]"
  by (simp_all add: buck_put_def)

lemma buck_put_put [simp]: "buck_put (buck_put cm i b) i b' = buck_put cm i b'"
  by (simp add: buck_put_def)

lemma bucket_ok_cong [simp]: "bucket_ok (buck_put cm i b) = bucket_ok cm"
  by (intro ext) (simp add: bucket_ok_def)

lemma cmap_wf_idx:
  assumes "cmap_wf cm"
  shows "0 \<le> cmap_idx cm k" and "nat (cmap_idx cm k) < length (cm_buck cm)"
    and "bucket_ok cm (nat (cmap_idx cm k)) (bucket_of cm k)"
  using assms cmap_idx_bounds [of cm k] by (auto simp: cmap_wf_def bucket_of_def)

text \<open>Running an operation between locking and unlocking a bucket.\<close>

lemma buck_lock_wf:
  assumes "cmap_wf cm"
  shows "buck_lock cm (cmap_idx cm k) =
    Inr (buck_put cm (cmap_idx cm k) ((bucket_of cm k)\<lparr>b_lock := True\<rparr>))"
  using cmap_wf_idx [OF assms, of k]
  by (simp add: buck_lock_def buck_at_def bucket_of_def bucket_ok_def)

lemma buck_at_put [simp]:
  "0 \<le> i \<Longrightarrow> nat i < length (cm_buck cm) \<Longrightarrow> buck_at (buck_put cm i b) i = Inr b"
  by (simp add: buck_at_def)

lemma buck_unlock_put [simp]:
  "0 \<le> i \<Longrightarrow> nat i < length (cm_buck cm) \<Longrightarrow>
   buck_unlock (buck_put cm i b) i = Inr (buck_put cm i (b\<lparr>b_lock := False\<rparr>))"
  by (simp add: buck_unlock_def)

lemma buck_unlock_neg: "buck_unlock cm (- 1) = Inl OutOfBounds"
  by (simp add: buck_unlock_def buck_at_def)

lemma bucket_unlocked: "bucket_ok cm i b \<Longrightarrow> b\<lparr>b_data := ds, b_lock := False\<rparr> = b\<lparr>b_data := ds\<rparr>"
  by (cases b) (simp add: bucket_ok_def)

lemma cmap_set_eq:
  assumes "cmap_wf cm"
  shows "cmap_set cm val =
    Inr (buck_put cm (cmap_idx cm (d_index val)) ((bucket_of cm (d_index val))
      \<lparr>b_data := set_data val (b_data (bucket_of cm (d_index val)))\<rparr>), cmap_idx cm (d_index val))"
proof -
  note idx = cmap_wf_idx [OF assms, of "d_index val"]
  show ?thesis
    using idx
    by (auto simp: bucket_unlocked [OF idx(3)] cmap_set_def buck_lock_wf [OF assms] Let_def set_loop_upd_first bucket_ok_def
        set_data_def split: option.split)
qed

lemma cmap_get_eq:
  assumes "cmap_wf cm"
  shows "cmap_get cm k cb =
    (case upd_first (\<lambda>d. d_in_use d \<noteq> 0 \<and> d_index d = k) (\<lambda>d. case cb of Some f \<Rightarrow> f d | None \<Rightarrow> d)
        (b_data (bucket_of cm k)) of
      None \<Rightarrow> Inl OutOfBounds
    | Some ds \<Rightarrow> Inr (buck_put cm (cmap_idx cm k) ((bucket_of cm k)\<lparr>b_data := ds\<rparr>), cmap_idx cm k))"
proof -
  note idx = cmap_wf_idx [OF assms, of k]
  show ?thesis
    using idx
    by (auto simp: bucket_unlocked [OF idx(3)] cmap_get_def buck_lock_wf [OF assms] Let_def get_loop_upd_first bucket_ok_def
        buck_unlock_neg split: option.split)
qed

lemma cmap_del_eq:
  assumes "cmap_wf cm"
  shows "cmap_del cm k =
    (case upd_first (\<lambda>d. d_in_use d \<noteq> 0 \<and> d_index d = k) (\<lambda>d. zero_data) (b_data (bucket_of cm k)) of
      None \<Rightarrow> Inl OutOfBounds
    | Some ds \<Rightarrow> Inr (buck_put cm (cmap_idx cm k) ((bucket_of cm k)\<lparr>b_data := ds\<rparr>), cmap_idx cm k))"
proof -
  note idx = cmap_wf_idx [OF assms, of k]
  show ?thesis
    using idx
    by (auto simp: bucket_unlocked [OF idx(3)] cmap_del_def buck_lock_wf [OF assms] Let_def del_loop_upd_first bucket_ok_def
        buck_unlock_neg split: option.split)
qed

text \<open>Replacing the chain of one bucket keeps the invariant and changes the map there only.\<close>

lemma cmap_wf_put:
  assumes "cmap_wf cm" and "bucket_ok cm (nat (cmap_idx cm k)) b"
  shows "cmap_wf (buck_put cm (cmap_idx cm k) b)"
  using assms by (auto simp: cmap_wf_def) (metis nth_list_update_eq nth_list_update_neq)

lemma bucket_of_put:
  assumes "cmap_wf cm"
  shows "bucket_of (buck_put cm (cmap_idx cm k) b) j =
    (if nat (cmap_idx cm j) = nat (cmap_idx cm k) then b else bucket_of cm j)"
  using cmap_wf_idx(2) [OF assms, of k] by (auto simp: bucket_of_def nth_list_update)

lemma cmap_lookup_put:
  assumes wf: "cmap_wf cm" and b: "bucket_ok cm (nat (cmap_idx cm k)) b"
    and m: "map_of (live (b_data b)) = (map_of (live (b_data (bucket_of cm k))))(k := v)"
  shows "cmap_lookup (buck_put cm (cmap_idx cm k) b) = (cmap_lookup cm)(k := v)"
proof
  fix j
  show "cmap_lookup (buck_put cm (cmap_idx cm k) b) j = ((cmap_lookup cm)(k := v)) j"
  proof (cases "nat (cmap_idx cm j) = nat (cmap_idx cm k)")
    case True
    then have "bucket_of cm j = bucket_of cm k" by (simp add: bucket_of_def)
    with True show ?thesis by (simp add: cmap_lookup_def bucket_of_put [OF wf] m)
  next
    case False
    then show ?thesis by (auto simp: cmap_lookup_def bucket_of_put [OF wf])
  qed
qed

lemma live_set_data:
  "\<exists>as bs. live ds = as @ bs \<and> live (set_data val ds) = as @ (d_index val, d_value val) # bs"
proof (cases "upd_first (\<lambda>d. d_in_use d = 0)
    (\<lambda>d. d\<lparr>d_index := d_index val, d_value := d_value val, d_in_use := 1\<rparr>) ds")
  case None
  then have "live (set_data val ds) = (d_index val, d_value val) # live ds"
    by (simp add: set_data_def)
  then show ?thesis by (intro exI [of _ "[]"] exI [of _ "live ds"]) simp
next
  case (Some ds')
  then obtain as d bs where "ds = as @ d # bs" "d_in_use d = 0"
    "ds' = as @ d\<lparr>d_index := d_index val, d_value := d_value val, d_in_use := 1\<rparr> # bs"
    by (auto simp: upd_first_Some)
  with Some show ?thesis
    by (intro exI [of _ "live as"] exI [of _ "live bs"]) (simp add: set_data_def)
qed

lemma set_data_unused:
  assumes "d \<in> set (set_data val ds)" and "d_in_use d = 0"
  shows "d \<in> set ds"
  using assms by (auto simp: set_data_def upd_first_Some split: option.splits)

lemma cmap_lookup_None:
  "cmap_lookup cm k = None \<longleftrightarrow> k \<notin> fst ` set (live (b_data (bucket_of cm k)))"
  by (simp add: cmap_lookup_def map_of_eq_None_iff)

lemma cmap_set_new:
  assumes wf: "cmap_wf cm" and new: "cmap_lookup cm (d_index val) = None"
  shows "\<exists>cm'. cmap_set cm val = Inr (cm', cmap_idx cm (d_index val)) \<and> cmap_wf cm' \<and>
    cmap_lookup cm' = (cmap_lookup cm)(d_index val \<mapsto> d_value val)"
proof -
  let ?k = "d_index val" and ?b = "bucket_of cm (d_index val)"
  let ?b' = "?b\<lparr>b_data := set_data val (b_data ?b)\<rparr>"
  have ok: "bucket_ok cm (nat (cmap_idx cm ?k)) ?b" by (rule cmap_wf_idx(3) [OF wf])
  obtain as bs where ab: "live (b_data ?b) = as @ bs"
    "live (set_data val (b_data ?b)) = as @ (?k, d_value val) # bs"
    using live_set_data by blast
  have fresh: "?k \<notin> fst ` set (as @ bs)"
    using new by (simp add: cmap_lookup_None ab)
  have ok': "bucket_ok cm (nat (cmap_idx cm ?k)) ?b'"
    using ok fresh by (auto simp: bucket_ok_def ab dest: set_data_unused)
  have "map_of (live (b_data ?b')) = (map_of (live (b_data ?b)))(?k := Some (d_value val))"
    using map_of_insert_middle [OF fresh] by (simp add: ab)
  then show ?thesis
    using cmap_wf_put [OF wf ok'] cmap_lookup_put [OF wf ok'] by (simp add: cmap_set_eq [OF wf])
qed

lemma upd_first_live_None:
  "upd_first (\<lambda>d. d_in_use d \<noteq> 0 \<and> d_index d = k) f ds = None \<longleftrightarrow> k \<notin> fst ` set (live ds)"
  unfolding upd_first_None fst_set_live by auto

lemma cmap_get_missing:
  assumes "cmap_wf cm" and "cmap_lookup cm k = None"
  shows "cmap_get cm k cb = Inl OutOfBounds"
  using assms by (simp add: cmap_get_eq cmap_lookup_None upd_first_live_None [THEN iffD2])

lemma cmap_get_found:
  assumes wf: "cmap_wf cm" and v: "cmap_lookup cm k = Some v"
    and f: "\<And>d. d_in_use (f d) = d_in_use d" "\<And>d. d_index (f d) = d_index d"
      "\<And>d. d_index d = k \<Longrightarrow> d_value (f d) = g (d_value d)"
  shows "\<exists>cm'. cmap_get cm k (Some f) = Inr (cm', cmap_idx cm k) \<and> cmap_wf cm' \<and>
    cmap_lookup cm' = (cmap_lookup cm)(k \<mapsto> g v)"
proof -
  let ?b = "bucket_of cm k"
  let ?upd = "upd_first (\<lambda>d. d_in_use d \<noteq> 0 \<and> d_index d = k) f (b_data ?b)"
  have ok: "bucket_ok cm (nat (cmap_idx cm k)) ?b" by (rule cmap_wf_idx(3) [OF wf])
  have "k \<in> fst ` set (live (b_data ?b))"
    using v cmap_lookup_None [of cm k] by simp
  then obtain ds where ds: "?upd = Some ds"
    using upd_first_live_None [of k f "b_data ?b"] by fastforce
  then obtain as d bs where s: "b_data ?b = as @ d # bs" "ds = as @ f d # bs"
    "d_in_use d \<noteq> 0" "d_index d = k"
    by (auto simp: upd_first_Some)
  let ?b' = "?b\<lparr>b_data := ds\<rparr>"
  have kf: "k \<notin> fst ` set (live as @ live bs)"
    using ok s by (auto simp: bucket_ok_def)
  have dv: "d_value d = v"
    using v map_of_insert_middle [OF kf, of "d_value d"] s by (simp add: cmap_lookup_def)
  have ok': "bucket_ok cm (nat (cmap_idx cm k)) ?b'"
    using ok s f by (auto simp: bucket_ok_def)
  have "map_of (live (b_data ?b')) = (map_of (live (b_data ?b)))(k := Some (g v))"
    using map_of_insert_middle [OF kf] s f dv by simp
  then show ?thesis
    using cmap_wf_put [OF wf ok'] cmap_lookup_put [OF wf ok'] ds by (simp add: cmap_get_eq [OF wf])
qed

lemma cmap_del_found:
  assumes wf: "cmap_wf cm" and v: "cmap_lookup cm k \<noteq> None"
  shows "\<exists>cm'. cmap_del cm k = Inr (cm', cmap_idx cm k) \<and> cmap_wf cm' \<and>
    cmap_lookup cm' = (cmap_lookup cm)(k := None)"
proof -
  let ?b = "bucket_of cm k"
  let ?upd = "upd_first (\<lambda>d. d_in_use d \<noteq> 0 \<and> d_index d = k) (\<lambda>d. zero_data) (b_data ?b)"
  have ok: "bucket_ok cm (nat (cmap_idx cm k)) ?b" by (rule cmap_wf_idx(3) [OF wf])
  have "k \<in> fst ` set (live (b_data ?b))"
    using v cmap_lookup_None [of cm k] by simp
  then obtain ds where ds: "?upd = Some ds"
    using upd_first_live_None [of k "\<lambda>d. zero_data" "b_data ?b"] by fastforce
  then obtain as d bs where s: "b_data ?b = as @ d # bs" "ds = as @ zero_data # bs"
    "d_in_use d \<noteq> 0" "d_index d = k"
    by (auto simp: upd_first_Some)
  let ?b' = "?b\<lparr>b_data := ds\<rparr>"
  have kf: "k \<notin> fst ` set (live as @ live bs)"
    using ok s by (auto simp: bucket_ok_def)
  have ok': "bucket_ok cm (nat (cmap_idx cm k)) ?b'"
    using ok s by (auto simp: bucket_ok_def zero_data_def)
  have "map_of (live as @ live bs) k = None"
    using kf by (metis map_of_eq_None_iff)
  then have "map_of (live (b_data ?b')) = (map_of (live (b_data ?b)))(k := None)"
    using map_of_insert_middle [OF kf] s by (auto simp: zero_data_def)
  then show ?thesis
    using cmap_wf_put [OF wf ok'] cmap_lookup_put [OF wf ok'] ds by (simp add: cmap_del_eq [OF wf])
qed

interpretation cmap: key_map cmap_wf cmap_lookup cmap_put cmap_remove
proof unfold_locales
  fix cm k v
  assume "cmap_wf cm" and "cmap_lookup cm k = None"
  then show "\<exists>m'. cmap_put cm k v = Inr m' \<and> cmap_wf m' \<and> cmap_lookup m' = (cmap_lookup cm)(k \<mapsto> v)"
    using cmap_set_new [of cm "\<lparr>d_index = k, d_value = v, d_in_use = 0\<rparr>"]
    by (auto simp: cmap_put_def)
next
  fix cm k
  assume "cmap_wf cm" and "cmap_lookup cm k \<noteq> None"
  then show "\<exists>m'. cmap_remove cm k = Inr m' \<and> cmap_wf m' \<and> cmap_lookup m' = (cmap_lookup cm)(k := None)"
    using cmap_del_found [of cm k] by (auto simp: cmap_remove_def)
qed

lemma live_replicate_zero [simp]: "live (replicate n zero_data) = []"
  by (simp add: live_def zero_data_def)

lemma cmap_alloc_wf:
  assumes "0 < bs" and "bs < 0x80000000" and "\<forall>i<nat bs. fresh_null i"
  shows "cmap_wf (cmap_alloc fresh_null bs ds)"
  using assms by (simp add: cmap_wf_def cmap_alloc_def bucket_ok_def zero_data_def)
    (simp add: zero_data_def [symmetric])

lemma cmap_alloc_lookup:
  assumes "0 < bs" and "bs < 0x80000000"
  shows "cmap_lookup (cmap_alloc fresh_null bs ds) = Map.empty"
proof
  fix k
  have "nat (cmap_idx (cmap_alloc fresh_null bs ds) k) < nat bs"
    using cmap_idx_bounds [of "cmap_alloc fresh_null bs ds" k] assms by (simp add: cmap_alloc_def)
  then show "cmap_lookup (cmap_alloc fresh_null bs ds) k = None"
    by (simp add: cmap_lookup_def bucket_of_def) (simp add: cmap_alloc_def)
qed

lemma insert_data_ok:
  assumes "cmap_wf cm" and "cmap_lookup cm = Map.empty" and "n \<le> 2 ^ 64"
  shows "\<exists>cm'. insert_data cm n = Inr cm' \<and> cmap_wf cm' \<and>
    cmap_lookup cm' = (\<lambda>k. if k \<in> of_nat ` {0..<n} then Some 0 else None)"
proof -
  have "distinct (map (of_nat :: nat \<Rightarrow> u64) [0..<n])"
    using of_nat_u64_inj [OF assms(3)] by (simp add: distinct_map)
  moreover have e: "cmap_lookup cm k = None" for k
    using assms(2) by simp
  ultimately show ?thesis
    using cmap.insert_all [OF assms(1), of "map of_nat [0..<n]" "\<lambda>_. 0"]
    by (simp add: insert_data_def cmap_put_def foldR_map e cong: if_cong)
qed

lemma run_op_ok:
  assumes "cmap_wf cm" and "cmap_lookup cm (op_key t) \<noteq> None"
  shows "\<exists>cm'. run_op cm t = Inr cm' \<and> cmap_wf cm' \<and>
    cmap_lookup cm' = (\<lambda>k. map_option (\<lambda>v. v + op_delta k [t]) (cmap_lookup cm k))"
proof -
  obtain v where v: "cmap_lookup cm (op_key t) = Some v" using assms(2) by auto
  have "\<exists>cm'. cmap_get cm (op_key t) (Some (op_func t)) = Inr (cm', cmap_idx cm (op_key t)) \<and> cmap_wf cm' \<and>
      cmap_lookup cm' = (cmap_lookup cm)(op_key t \<mapsto> v + op_delta (op_key t) [t])"
    by (rule cmap_get_found [OF assms(1) v]) (cases t; simp add: inc_func_def dec_func_def)+
  then show ?thesis
    using v by (cases t) (fastforce simp: run_op_def option.map_ident cong: map_option_cong)+
qed

lemma op_delta_append: "op_delta k (xs @ ys) = op_delta k xs + op_delta k ys"
  by (induction k xs rule: op_delta.induct) (simp_all add: algebra_simps)

lemma run_ops_ok:
  assumes "cmap_wf cm" and "\<forall>t\<in>set ops. cmap_lookup cm (op_key t) \<noteq> None"
  shows "\<exists>cm'. foldR run_op cm ops = Inr cm' \<and> cmap_wf cm' \<and>
    cmap_lookup cm' = (\<lambda>k. map_option (\<lambda>v. v + op_delta k ops) (cmap_lookup cm k))"
  using assms
proof (induction ops arbitrary: cm)
  case Nil
  then show ?case by (simp add: option.map_ident)
next
  case (Cons t ops)
  obtain c1 where c1: "run_op cm t = Inr c1" "cmap_wf c1"
    "cmap_lookup c1 = (\<lambda>k. map_option (\<lambda>v. v + op_delta k [t]) (cmap_lookup cm k))"
    using run_op_ok [of cm t] Cons.prems by auto
  have "\<forall>t\<in>set ops. cmap_lookup c1 (op_key t) \<noteq> None"
    using Cons.prems by (simp add: c1(3))
  then obtain c2 where "foldR run_op c1 ops = Inr c2" "cmap_wf c2"
    "cmap_lookup c2 = (\<lambda>k. map_option (\<lambda>v. v + op_delta k ops) (cmap_lookup c1 k))"
    using Cons.IH [OF c1(2)] by auto
  moreover have "op_delta k (t # ops) = op_delta k [t] + op_delta k ops" for k
    using op_delta_append [of k "[t]" ops] by simp
  ultimately show ?case
    by (simp add: c1 option.map_comp comp_def add.assoc)
qed

lemma op_delta_count:
  "op_delta k ops = k * of_nat (count (mset ops) (Inc k)) - k * of_nat (count (mset ops) (Dec k))"
  by (induction k ops rule: op_delta.induct) (auto simp: algebra_simps)

lemma thread_counts:
  "count (mset (increase_thread n)) (Dec k) = 0"
  "count (mset (decrease_thread n)) (Inc k) = 0"
  "count (mset (decrease_thread n)) (Dec k) = count (mset (increase_thread n)) (Inc k)"
proof -
  show "count (mset (increase_thread n)) (Dec k) = 0" "count (mset (decrease_thread n)) (Inc k) = 0"
    by (auto simp: increase_thread_def decrease_thread_def count_eq_zero_iff)
  show "count (mset (decrease_thread n)) (Dec k) = count (mset (increase_thread n)) (Inc k)"
    unfolding increase_thread_def decrease_thread_def by (induction n) auto
qed

lemma interleave_delta:
  assumes "interleave (replicate t (increase_thread n) @ replicate t (decrease_thread n)) ops"
  shows "op_delta k ops = 0"
  using interleave_mset [OF assms]
  by (simp add: op_delta_count count_mset_concat thread_counts sum_list_replicate del: mset_concat concat_append)

lemma interleave_keys:
  assumes "interleave (replicate t (increase_thread n) @ replicate t (decrease_thread n)) ops"
    and "x \<in> set ops"
  shows "op_key x \<in> of_nat ` {0..<n}"
  using assms(2) unfolding interleave_set [OF assms(1)]
  by (auto simp: increase_thread_def decrease_thread_def split: if_splits)

lemma all_validI:
  assumes wf: "cmap_wf cm" and z: "\<And>k v. cmap_lookup cm k = Some v \<Longrightarrow> v = 0"
  shows "all_valid cm"
proof -
  have "d_value d = 0" if b: "b \<in> set (cm_buck cm)" and d: "d \<in> set (b_data b)" for b d
  proof (cases "d_in_use d = 0")
    case True
    obtain i where "i < length (cm_buck cm)" "b = cm_buck cm ! i"
      using b by (auto simp: in_set_conv_nth)
    with wf True d show ?thesis by (auto simp: cmap_wf_def bucket_ok_def)
  next
    case False
    obtain i where i: "i < length (cm_buck cm)" "b = cm_buck cm ! i"
      using b by (auto simp: in_set_conv_nth)
    with wf have ok: "bucket_ok cm i b" by (simp add: cmap_wf_def)
    have m: "(d_index d, d_value d) \<in> set (live (b_data b))"
      using d False by (auto simp: live_def)
    then have "nat (cmap_idx cm (d_index d)) = i"
      using ok by (force simp: bucket_ok_def)
    with i have "bucket_of cm (d_index d) = b" by (simp add: bucket_of_def)
    moreover have "map_of (live (b_data b)) (d_index d) = Some (d_value d)"
      using m ok by (simp add: bucket_ok_def)
    ultimately show ?thesis using z [of "d_index d" "d_value d"] by (simp add: cmap_lookup_def)
  qed
  then show ?thesis by (simp add: all_valid_def list_all_iff)
qed

lemma fnv_round_mul_eq: "fnv_round hval b = fnv_round_mul hval b"
  by (simp add: fnv_round_def fnv_round_mul_def FNV_64_PRIME_def push_bit_eq_mult mult.commute)

lemma fnv_loop_fold: "fnv_loop hval bs = fold (\<lambda>b h. fnv_round_mul h b) bs hval"
  by (induction hval bs rule: fnv_loop.induct) (simp_all add: fnv_round_mul_eq)

lemma live_filter_absent: "k \<notin> fst ` set xs \<Longrightarrow> filter (\<lambda>p. fst p = k) xs = []"
  by (force simp: filter_empty_conv)

lemma cmap_set_nonneg: "cmap_set cm val = Inr (cm', r) \<Longrightarrow> 0 \<le> r"
  by (auto simp: cmap_set_def buck_lock_def buck_at_def Let_def split: bindR_splits if_splits)

lemma cmap_get_nonneg: "cmap_get cm k cb = Inr (cm', r) \<Longrightarrow> 0 \<le> r"
  by (auto simp: cmap_get_def buck_lock_def buck_unlock_def buck_at_def Let_def
      split: bindR_splits if_splits option.splits)

lemma free_loop_null: "free_loop True ds = Inr (length ds)"
  by (induction True ds rule: free_loop.induct) simp_all

lemma cmap_free_ok: "cmap_wf cm \<Longrightarrow> \<exists>n. cmap_free cm = Inr n"
  unfolding cmap_free_def
  by (rule foldR_invariant [where P = "\<lambda>_. True", simplified])
    (auto simp: cmap_wf_def bucket_ok_def free_loop_null)

lemma cmap_example:
  "cmap_wf (cmap_alloc (\<lambda>_. True) 2 1)" "cmap_lookup (cmap_alloc (\<lambda>_. True) 2 1) 7 = None"
  by (simp_all add: cmap_alloc_wf cmap_alloc_lookup)

section \<open>Properties\<close>


lemma cmap_sched_example:
  "interleave (replicate 1 (increase_thread 2) @ replicate 1 (decrease_thread 2)) [Dec 0, Inc 0, Inc 1, Dec 1]"
  by (rule interleave_step [of 1] interleave_step [of 0] interleave_done |
      simp add: increase_thread_def decrease_thread_def upt_rec)+


text \<open>
  C3. The hash map refines a finite map: on a well-formed map, \<open>cmap_set\<close> of an absent key adds it,
  \<open>cmap_get\<close> with the increasing callback updates the value of a present key, and \<open>cmap_del\<close>
  of a present key removes it; each returns the bucket index, keeps well-formedness and changes no
  other key.
\<close>

theorem cmap_refines_map:
  assumes "cmap_wf cm"
  shows "(cmap_lookup cm k = None \<longrightarrow>
      (\<exists>cm'. cmap_set cm \<lparr>d_index = k, d_value = v, d_in_use = u\<rparr> = Inr (cm', cmap_idx cm k) \<and>
        cmap_wf cm' \<and> cmap_lookup cm' = (cmap_lookup cm)(k \<mapsto> v))) \<and>
    (cmap_lookup cm k = Some w \<longrightarrow>
      (\<exists>cm'. cmap_get cm k (Some inc_func) = Inr (cm', cmap_idx cm k) \<and>
        cmap_wf cm' \<and> cmap_lookup cm' = (cmap_lookup cm)(k \<mapsto> w + k))) \<and>
    (cmap_lookup cm k = Some w \<longrightarrow>
      (\<exists>cm'. cmap_del cm k = Inr (cm', cmap_idx cm k) \<and>
        cmap_wf cm' \<and> cmap_lookup cm' = (cmap_lookup cm)(k := None)))"
  using cmap_set_new [OF assms, of "\<lparr>d_index = k, d_value = v, d_in_use = u\<rparr>"]
    cmap_get_found [OF assms, of k w inc_func "\<lambda>x. x + k"] cmap_del_found [OF assms, of k]
  by (simp add: inc_func_def)

theorem cmap_refines_map_witness:
  "\<exists>cm. cmap_set (cmap_alloc (\<lambda>_. True) 2 1) \<lparr>d_index = 7, d_value = 30, d_in_use = 0\<rparr> =
      Inr (cm, cmap_idx (cmap_alloc (\<lambda>_. True) 2 1) 7) \<and> cmap_lookup cm 7 = Some 30 \<and>
    (\<exists>cm'. cmap_get cm 7 (Some inc_func) = Inr (cm', cmap_idx cm 7) \<and> cmap_lookup cm' 7 = Some 37)"
proof -
  let ?cm0 = "cmap_alloc (\<lambda>_. True) 2 1"
  obtain cm where cm: "cmap_set ?cm0 \<lparr>d_index = 7, d_value = 30, d_in_use = 0\<rparr> = Inr (cm, cmap_idx ?cm0 7)"
    "cmap_wf cm" "cmap_lookup cm 7 = Some 30"
    using cmap_refines_map [OF cmap_example(1), of 7 30 0] cmap_example(2) by auto
  with cmap_refines_map [OF cm(2), of 7 _ _ 30] show ?thesis by auto
qed

text \<open>
  A miss is a memory error: for a key that is not stored, \<open>cmap_get\<close> and \<open>cmap_del\<close> overwrite
  the bucket index by -1 and then unlock \<open>buck[-1]\<close>.
\<close>

lemma cmap_miss_out_of_bounds:
  assumes "cmap_wf cm" and "cmap_lookup cm k = None"
  shows "cmap_get cm k cb = Inl OutOfBounds \<and> cmap_del cm k = Inl OutOfBounds"
  using assms
  by (simp add: cmap_get_eq cmap_del_eq cmap_lookup_None upd_first_live_None [THEN iffD2])

theorem cmap_miss_witness:
  "cmap_get (cmap_alloc (\<lambda>_. True) 2 1) 7 None = Inl OutOfBounds \<and>
   cmap_del (cmap_alloc (\<lambda>_. True) 2 1) 7 = Inl OutOfBounds"
  by (rule cmap_miss_out_of_bounds [OF cmap_example])

text \<open>
  \<open>cmap_set\<close> never overwrites: setting a key that is already stored leaves both values in its
  bucket.
\<close>

lemma cmap_set_duplicates:
  assumes wf: "cmap_wf cm" and "cmap_lookup cm k = Some w"
  shows "\<exists>cm'. cmap_set cm \<lparr>d_index = k, d_value = v, d_in_use = u\<rparr> = Inr (cm', cmap_idx cm k) \<and>
    mset (map snd (filter (\<lambda>p. fst p = k) (live (b_data (bucket_of cm' k))))) = {#w, v#}"
proof -
  let ?val = "\<lparr>d_index = k, d_value = v, d_in_use = u\<rparr>" and ?b = "bucket_of cm k"
  obtain as bs where ab: "live (b_data ?b) = as @ bs" "live (set_data ?val (b_data ?b)) = as @ (k, v) # bs"
    using live_set_data [of "b_data ?b" ?val] by auto
  have "(k, w) \<in> set (live (b_data ?b))"
    using assms(2) by (simp add: cmap_lookup_def map_of_SomeD)
  then obtain xs ys where xy: "live (b_data ?b) = xs @ (k, w) # ys"
    by (auto simp: in_set_conv_decomp)
  have "distinct (map fst (live (b_data ?b)))"
    using cmap_wf_idx(3) [OF wf, of k] by (simp add: bucket_ok_def)
  then have "filter (\<lambda>p. fst p = k) (as @ bs) = [(k, w)]"
    unfolding ab(1) [symmetric] xy by (simp add: live_filter_absent)
  then have "mset (map snd (filter (\<lambda>p. fst p = k) (as @ (k, v) # bs))) = {#w, v#}"
    by (auto simp: append_eq_Cons_conv simp flip: mset_filter)
  then show ?thesis
    by (simp add: cmap_set_eq [OF wf] bucket_of_put [OF wf] ab)
qed

theorem cmap_set_duplicates_witness:
  "\<exists>cm cm'. cmap_set (cmap_alloc (\<lambda>_. True) 2 1) \<lparr>d_index = 7, d_value = 1, d_in_use = 0\<rparr> = Inr (cm, cmap_idx cm 7) \<and>
     cmap_set cm \<lparr>d_index = 7, d_value = 2, d_in_use = 0\<rparr> = Inr (cm', cmap_idx cm 7) \<and>
     mset (map snd (filter (\<lambda>p. fst p = 7) (live (b_data (bucket_of cm' 7))))) = {#1, 2#}"
proof -
  let ?cm0 = "cmap_alloc (\<lambda>_. True) 2 1"
  obtain cm where cm: "cmap_set ?cm0 \<lparr>d_index = 7, d_value = 1, d_in_use = 0\<rparr> = Inr (cm, cmap_idx ?cm0 7)"
    "cmap_wf cm" "cmap_lookup cm 7 = Some 1"
    using cmap_set_new [OF cmap_example(1), of "\<lparr>d_index = 7, d_value = 1, d_in_use = 0\<rparr>"] cmap_example(2)
    by auto
  then have "cmap_idx ?cm0 7 = cmap_idx cm 7"
    by (auto simp: cmap_set_eq [OF cmap_example(1)])
  with cm cmap_set_duplicates [OF cm(2,3), of 2 0] show ?thesis by metis
qed

text \<open>
  The hash function, written with shifts and additions, is the reference FNV-1 hash: multiply by
  the 64-bit FNV prime, then XOR the next octet, starting from the offset basis, reduced modulo the
  divisor.
\<close>

lemma hashfunc_reference:
  "hashfunc data dv = fold (\<lambda>b h. (h * FNV_64_PRIME) XOR ucast b) data FNV1_64_INIT mod dv"
  by (simp add: hashfunc_def fnv_loop_fold fnv_round_mul_def)

end
