(* ===== verification/Spsc.thy ===== *)
theory Spsc
  imports Prelude
begin

text \<open>
  One producer thread and one consumer thread that share a queue guarded by a mutex and a condition
  variable, as the queue programs \<open>static.c\<close>, \<open>dynamic.c\<close> (\<open>data-queue-concurrent\<close>) and \<open>chan.c\<close>
  (\<open>data-queue-channel\<close>) run them. A step is what a thread does while it holds the mutex. A call
  either ends, or waits on the condition variable keeping its local variables, or (after it was
  woken) starts over. \<open>pthread_cond_signal\<close> marks the other thread as woken if it waits;
  \<open>pthread_cond_wait\<close> may also return without a signal, which is a step of its own.
  The locales state what a queue has to promise for the pair of threads to work.
\<close>

section \<open>Threads\<close>

datatype ('w, 'a) attempt =
    Wait 'w   \<comment> \<open>the thread waits; its local variables\<close>
  | Retry     \<comment> \<open>the loop of the operation starts over\<close>
  | Done 'a

record ('q, 'w, 'd) qops =
  q_enq :: "'q \<Rightarrow> 'd \<Rightarrow> ('w, 'q \<times> bool) attempt res"
  q_enq_wake :: "'q \<Rightarrow> 'w \<Rightarrow> 'd \<Rightarrow> ('w, 'q \<times> bool) attempt res"
  q_deq :: "'q \<Rightarrow> 'd \<Rightarrow> ('w, 'q \<times> 'd \<times> bool) attempt res"
  q_deq_wake :: "'q \<Rightarrow> 'w \<Rightarrow> 'd \<Rightarrow> ('w, 'q \<times> 'd \<times> bool) attempt res"

datatype 'w pc = Run | Waiting 'w bool

text \<open>
  The state: the queue, the items still to be enqueued, the items dequeued so far, how many items
  the consumer still wants, the buffer it dequeues into, and the two threads.
\<close>

record ('q, 'w, 'd) spsc =
  s_q :: 'q
  s_in :: "'d list"
  s_out :: "'d list"
  s_want :: nat
  s_buf :: 'd
  s_prod :: "'w pc"
  s_cons :: "'w pc"

fun signal :: "bool \<Rightarrow> 'w pc \<Rightarrow> 'w pc" where
  "signal sig Run = Run"
| "signal sig (Waiting w k) = Waiting w (k \<or> sig)"

definition enq_result :: "('q, 'w, 'd) spsc \<Rightarrow> 'd list \<Rightarrow> ('w, 'q \<times> bool) attempt \<Rightarrow> ('q, 'w, 'd) spsc" where
  "enq_result s ds r = (case r of
     Wait w \<Rightarrow> s\<lparr>s_prod := Waiting w False\<rparr>
   | Retry \<Rightarrow> s\<lparr>s_prod := Run\<rparr>
   | Done (q, sig) \<Rightarrow> s\<lparr>s_q := q, s_in := ds, s_prod := Run, s_cons := signal sig (s_cons s)\<rparr>)"

definition deq_result :: "('q, 'w, 'd) spsc \<Rightarrow> ('w, 'q \<times> 'd \<times> bool) attempt \<Rightarrow> ('q, 'w, 'd) spsc" where
  "deq_result s r = (case r of
     Wait w \<Rightarrow> s\<lparr>s_cons := Waiting w False\<rparr>
   | Retry \<Rightarrow> s\<lparr>s_cons := Run\<rparr>
   | Done (q, d, sig) \<Rightarrow> s\<lparr>s_q := q, s_out := s_out s @ [d], s_want := s_want s - 1, s_buf := d,
       s_cons := Run, s_prod := signal sig (s_prod s)\<rparr>)"

datatype actor = Producer | Consumer | WakeProducer | WakeConsumer

text \<open>A step of a thread, or a wake-up that nobody signalled; \<open>None\<close> when it is not enabled.\<close>

fun spsc_step :: "('q, 'w, 'd) qops \<Rightarrow> actor \<Rightarrow> ('q, 'w, 'd) spsc \<Rightarrow> ('q, 'w, 'd) spsc option res" where
  "spsc_step ops Producer s = (case s_in s of
     [] \<Rightarrow> Inr None
   | d # ds \<Rightarrow> (case s_prod s of
       Run \<Rightarrow> bindR (q_enq ops (s_q s) d) (\<lambda>r. Inr (Some (enq_result s ds r)))
     | Waiting w True \<Rightarrow> bindR (q_enq_wake ops (s_q s) w d) (\<lambda>r. Inr (Some (enq_result s ds r)))
     | Waiting w False \<Rightarrow> Inr None))"
| "spsc_step ops Consumer s = (if s_want s = 0 then Inr None else (case s_cons s of
       Run \<Rightarrow> bindR (q_deq ops (s_q s) (s_buf s)) (\<lambda>r. Inr (Some (deq_result s r)))
     | Waiting w True \<Rightarrow> bindR (q_deq_wake ops (s_q s) w (s_buf s)) (\<lambda>r. Inr (Some (deq_result s r)))
     | Waiting w False \<Rightarrow> Inr None))"
| "spsc_step ops WakeProducer s = (case s_prod s of
     Waiting w False \<Rightarrow> Inr (Some (s\<lparr>s_prod := Waiting w True\<rparr>)) | _ \<Rightarrow> Inr None)"
| "spsc_step ops WakeConsumer s = (case s_cons s of
     Waiting w False \<Rightarrow> Inr (Some (s\<lparr>s_cons := Waiting w True\<rparr>)) | _ \<Rightarrow> Inr None)"

text \<open>Executions of \<open>n\<close> steps; \<open>sp\<close> says whether wake-ups without a signal are allowed.\<close>

inductive spsc_runs ::
  "('q, 'w, 'd) qops \<Rightarrow> bool \<Rightarrow> nat \<Rightarrow> ('q, 'w, 'd) spsc \<Rightarrow> ('q, 'w, 'd) spsc \<Rightarrow> bool"
  for ops sp where
  runs_refl: "spsc_runs ops sp 0 s s"
| runs_step: "spsc_runs ops sp n s s1 \<Longrightarrow> (a \<in> {WakeProducer, WakeConsumer} \<Longrightarrow> sp) \<Longrightarrow>
    spsc_step ops a s1 = Inr (Some s2) \<Longrightarrow> spsc_runs ops sp (Suc n) s s2"

definition spsc_init :: "'q \<Rightarrow> 'd list \<Rightarrow> 'd \<Rightarrow> ('q, 'w, 'd) spsc" where
  "spsc_init q inp buf = \<lparr>s_q = q, s_in = inp, s_out = [], s_want = length inp, s_buf = buf,
     s_prod = Run, s_cons = Run\<rparr>"

text \<open>Neither thread can move.\<close>

definition spsc_stuck :: "('q, 'w, 'd) qops \<Rightarrow> ('q, 'w, 'd) spsc \<Rightarrow> bool" where
  "spsc_stuck ops s \<longleftrightarrow> spsc_step ops Producer s = Inr None \<and> spsc_step ops Consumer s = Inr None"

definition spsc_size :: "('q, 'w, 'd) spsc \<Rightarrow> nat" where
  "spsc_size s = 2 * length (s_in s) + 2 * s_want s + (if s_prod s = Run then 1 else 0) +
     (if s_cons s = Run then 1 else 0)"

section \<open>The contract of the queue\<close>

fun prod_ok :: "('q \<Rightarrow> 'w \<Rightarrow> bool) \<Rightarrow> nat \<Rightarrow> bool \<Rightarrow> 'q \<Rightarrow> 'd list \<Rightarrow> nat \<Rightarrow> 'w pc \<Rightarrow> bool" where
  "prod_ok pw cap sp q ds n Run = True"
| "prod_ok pw cap sp q ds n (Waiting w k) =
     (pw q w \<and> ds \<noteq> [] \<and> (\<not> k \<longrightarrow> n = cap) \<and> (k \<longrightarrow> \<not> sp \<longrightarrow> n < cap))"

fun cons_ok :: "('q \<Rightarrow> 'w \<Rightarrow> bool) \<Rightarrow> bool \<Rightarrow> 'q \<Rightarrow> nat \<Rightarrow> nat \<Rightarrow> 'w pc \<Rightarrow> bool" where
  "cons_ok cw sp q want n Run = True"
| "cons_ok cw sp q want n (Waiting w k) =
     (cw q w \<and> want \<noteq> 0 \<and> (\<not> k \<longrightarrow> n = 0) \<and> (k \<longrightarrow> \<not> sp \<longrightarrow> 0 < n))"

text \<open>
  \<open>rep q xs\<close>: the queue \<open>q\<close> holds \<open>xs\<close>. \<open>pw q w\<close> and \<open>cw q w\<close>: the locals \<open>w\<close> that a waiting
  producer (consumer) keeps are still those it would compute for \<open>q\<close>. Enqueueing into an empty queue
  and dequeueing from a full one send a signal.
\<close>

locale spsc_queue =
  fixes ops :: "('q, 'w, 'd) qops"
    and rep :: "'q \<Rightarrow> 'd list \<Rightarrow> bool"
    and cap :: nat
    and okd :: "'d \<Rightarrow> bool"
    and pw :: "'q \<Rightarrow> 'w \<Rightarrow> bool"
    and cw :: "'q \<Rightarrow> 'w \<Rightarrow> bool"
  assumes cap_pos: "0 < cap"
    and rep_len: "rep q xs \<Longrightarrow> length xs \<le> cap"
    and rep_okd: "rep q xs \<Longrightarrow> x \<in> set xs \<Longrightarrow> okd x"
    and enq_done: "rep q xs \<Longrightarrow> length xs < cap \<Longrightarrow> okd d \<Longrightarrow>
      \<exists>q' sig. q_enq ops q d = Inr (Done (q', sig)) \<and> rep q' (xs @ [d]) \<and> (xs = [] \<longrightarrow> sig) \<and>
        (\<forall>w. cw q w \<longrightarrow> cw q' w)"
    and enq_wait: "rep q xs \<Longrightarrow> length xs = cap \<Longrightarrow> okd d \<Longrightarrow> \<exists>w. q_enq ops q d = Inr (Wait w) \<and> pw q w"
    and enq_wake: "rep q xs \<Longrightarrow> length xs < cap \<Longrightarrow> okd d \<Longrightarrow> pw q w \<Longrightarrow>
      \<exists>q' sig. q_enq_wake ops q w d = Inr (Done (q', sig)) \<and> rep q' (xs @ [d]) \<and> (xs = [] \<longrightarrow> sig) \<and>
        (\<forall>w. cw q w \<longrightarrow> cw q' w)"
    and deq_done: "rep q (x # xs) \<Longrightarrow> okd b \<Longrightarrow>
      \<exists>q' sig. q_deq ops q b = Inr (Done (q', x, sig)) \<and> rep q' xs \<and> (Suc (length xs) = cap \<longrightarrow> sig) \<and>
        (\<forall>w. pw q w \<longrightarrow> pw q' w)"
    and deq_wait: "rep q [] \<Longrightarrow> okd b \<Longrightarrow> \<exists>w. q_deq ops q b = Inr (Wait w) \<and> cw q w"
    and deq_wake: "rep q (x # xs) \<Longrightarrow> okd b \<Longrightarrow> cw q w \<Longrightarrow>
      \<exists>q' sig. q_deq_wake ops q w b = Inr (Done (q', x, sig)) \<and> rep q' xs \<and> (Suc (length xs) = cap \<longrightarrow> sig) \<and>
        (\<forall>w. pw q w \<longrightarrow> pw q' w)"
begin

definition inv :: "bool \<Rightarrow> 'd list \<Rightarrow> ('q, 'w, 'd) spsc \<Rightarrow> bool" where
  "inv sp inp s \<longleftrightarrow> (\<exists>xs. rep (s_q s) xs \<and> s_out s @ xs @ s_in s = inp \<and>
     s_want s = length xs + length (s_in s) \<and> (\<forall>d\<in>set (s_in s). okd d) \<and> okd (s_buf s) \<and>
     prod_ok pw cap sp (s_q s) (s_in s) (length xs) (s_prod s) \<and> cons_ok cw sp (s_q s) (s_want s) (length xs) (s_cons s))"

lemma invE:
  assumes "inv sp inp s"
  obtains xs where "rep (s_q s) xs" "s_out s @ xs @ s_in s = inp" "s_want s = length xs + length (s_in s)"
    "\<forall>d\<in>set (s_in s). okd d" "okd (s_buf s)" "prod_ok pw cap sp (s_q s) (s_in s) (length xs) (s_prod s)" "cons_ok cw sp (s_q s) (s_want s) (length xs) (s_cons s)"
  using assms by (auto simp: inv_def)

lemma inv_init: "rep q [] \<Longrightarrow> \<forall>d\<in>set inp. okd d \<Longrightarrow> okd buf \<Longrightarrow> inv sp inp (spsc_init q inp buf)"
  unfolding inv_def by (rule exI [of _ "[]"]) (simp add: spsc_init_def)

lemma inv_enq:
  assumes "rep (s_q s) xs" "s_out s @ xs @ s_in s = inp" "s_want s = length xs + length (s_in s)"
    "\<forall>d\<in>set (s_in s). okd d" "okd (s_buf s)" "cons_ok cw sp (s_q s) (s_want s) (length xs) (s_cons s)" "s_in s = d # ds"
    "rep q' (xs @ [d])" "xs = [] \<longrightarrow> sig" "\<forall>w. cw (s_q s) w \<longrightarrow> cw q' w"
  shows "inv sp inp (enq_result s ds (Done (q', sig)))"
  unfolding inv_def enq_result_def using assms
  by (cases "s_cons s") (auto intro!: exI [of _ "xs @ [d]"])

lemma inv_deq:
  assumes "rep (s_q s) (x # xs)" "s_out s @ (x # xs) @ s_in s = inp" "s_want s = length (x # xs) + length (s_in s)"
    "\<forall>d\<in>set (s_in s). okd d" "okd (s_buf s)" "prod_ok pw cap sp (s_q s) (s_in s) (length (x # xs)) (s_prod s)"
    "rep q' xs" "Suc (length xs) = cap \<longrightarrow> sig" "\<forall>w. pw (s_q s) w \<longrightarrow> pw q' w"
  shows "inv sp inp (deq_result s (Done (q', x, sig)))"
proof -
  have "Suc (length xs) \<le> cap" "okd x"
    using rep_len [OF assms(1)] rep_okd [OF assms(1)] by auto
  then show ?thesis
    unfolding inv_def deq_result_def using assms
    by (cases "s_prod s") (auto intro!: exI [of _ xs])
qed

lemma producer_step:
  assumes inv: "inv sp inp s"
    and retry: "\<And>q xs w d. sp \<Longrightarrow> rep q xs \<Longrightarrow> length xs = cap \<Longrightarrow> okd d \<Longrightarrow> pw q w \<Longrightarrow>
      q_enq_wake ops q w d = Inr Retry"
  shows "\<exists>r. spsc_step ops Producer s = Inr r \<and>
    (\<forall>s'. r = Some s' \<longrightarrow> inv sp inp s' \<and> (\<not> sp \<longrightarrow> spsc_size s' < spsc_size s))"
proof -
  obtain xs where xs: "rep (s_q s) xs" "s_out s @ xs @ s_in s = inp" "s_want s = length xs + length (s_in s)"
    "\<forall>d\<in>set (s_in s). okd d" "okd (s_buf s)" "prod_ok pw cap sp (s_q s) (s_in s) (length xs) (s_prod s)" "cons_ok cw sp (s_q s) (s_want s) (length xs) (s_cons s)"
    using inv by (rule invE)
  show ?thesis
  proof (cases "s_in s")
    case Nil
    then show ?thesis by simp
  next
    case (Cons d ds)
    then have d: "okd d" using xs(4) by simp
    have goal: "\<exists>r. Inr (Some (enq_result s ds (Done (q', sig)))) = Inr r \<and>
        (\<forall>s'. r = Some s' \<longrightarrow> inv sp inp s' \<and> (\<not> sp \<longrightarrow> spsc_size s' < spsc_size s))"
      if "rep q' (xs @ [d])" "xs = [] \<longrightarrow> sig" "\<forall>w. cw (s_q s) w \<longrightarrow> cw q' w" for q' sig
      using inv_enq [OF xs(1-5) xs(7) Cons that] Cons
      by (cases "s_cons s") (auto simp: enq_result_def spsc_size_def)
    consider "length xs = cap" | "length xs < cap" using rep_len [OF xs(1)] by linarith
    then show ?thesis
    proof cases
      case 1
      obtain w where w: "q_enq ops (s_q s) d = Inr (Wait w)" "pw (s_q s) w"
        using enq_wait [OF xs(1) 1 d] by auto
      have "inv sp inp (s\<lparr>s_prod := Waiting w False\<rparr>)" "inv sp inp (s\<lparr>s_prod := Run\<rparr>)"
        unfolding inv_def using xs w 1 Cons
        by (auto intro!: exI [of _ xs])
      with Cons w xs(6) 1 retry [OF _ xs(1) 1 d] show ?thesis
        by (auto simp: enq_result_def spsc_size_def  split: pc.splits bool.splits)
    next
      case 2
      show ?thesis
      proof (cases "s_prod s")
        case Run
        then show ?thesis using Cons enq_done [OF xs(1) 2 d] goal by auto
      next
        case (Waiting w k)
        with xs(6) 2 have k: "k" and w: "pw (s_q s) w" by auto
        then show ?thesis using Cons Waiting enq_wake [OF xs(1) 2 d w] goal by auto
      qed
    qed
  qed
qed

lemma consumer_step:
  assumes inv: "inv sp inp s"
    and retry: "\<And>q w b. sp \<Longrightarrow> rep q [] \<Longrightarrow> okd b \<Longrightarrow> cw q w \<Longrightarrow> q_deq_wake ops q w b = Inr Retry"
  shows "\<exists>r. spsc_step ops Consumer s = Inr r \<and>
    (\<forall>s'. r = Some s' \<longrightarrow> inv sp inp s' \<and> (\<not> sp \<longrightarrow> spsc_size s' < spsc_size s))"
proof -
  obtain xs where xs: "rep (s_q s) xs" "s_out s @ xs @ s_in s = inp" "s_want s = length xs + length (s_in s)"
    "\<forall>d\<in>set (s_in s). okd d" "okd (s_buf s)" "prod_ok pw cap sp (s_q s) (s_in s) (length xs) (s_prod s)" "cons_ok cw sp (s_q s) (s_want s) (length xs) (s_cons s)"
    using inv by (rule invE)
  show ?thesis
  proof (cases "s_want s = 0")
    case True
    then show ?thesis by simp
  next
    case want: False
    show ?thesis
    proof (cases xs)
      case Nil
      with xs(1) have e: "rep (s_q s) []" by simp
      obtain w where w: "q_deq ops (s_q s) (s_buf s) = Inr (Wait w)" "cw (s_q s) w"
        using deq_wait [OF e xs(5)] by auto
      have "inv sp inp (s\<lparr>s_cons := Waiting w False\<rparr>)" "inv sp inp (s\<lparr>s_cons := Run\<rparr>)"
        unfolding inv_def using xs w Nil want
        by (auto intro!: exI [of _ xs])
      with want w xs(7) Nil retry [OF _ e xs(5)] show ?thesis
        by (auto simp: deq_result_def spsc_size_def  split: pc.splits bool.splits)
    next
      case (Cons x ys)
      have goal: "\<exists>r. Inr (Some (deq_result s (Done (q', x, sig)))) = Inr r \<and>
          (\<forall>s'. r = Some s' \<longrightarrow> inv sp inp s' \<and> (\<not> sp \<longrightarrow> spsc_size s' < spsc_size s))"
        if "rep q' ys" "Suc (length ys) = cap \<longrightarrow> sig" "\<forall>w. pw (s_q s) w \<longrightarrow> pw q' w" for q' sig
        using inv_deq [OF xs(1-6) [unfolded Cons] that] want
        by (cases "s_prod s") (auto simp: deq_result_def spsc_size_def)
      show ?thesis
      proof (cases "s_cons s")
        case Run
        then show ?thesis using want deq_done [OF xs(1) [unfolded Cons] xs(5)] goal by auto
      next
        case (Waiting w k)
        with xs(7) Cons have k: "k" and w: "cw (s_q s) w" by auto
        then show ?thesis using want Waiting deq_wake [OF xs(1) [unfolded Cons] xs(5) w] goal by auto
      qed
    qed
  qed
qed

lemma not_stuck:
  assumes inv: "inv sp inp s" and "s_out s \<noteq> inp"
    and safe: "is_ok (spsc_step ops Producer s)" "is_ok (spsc_step ops Consumer s)"
  shows "\<not> spsc_stuck ops s"
proof -
  obtain xs where xs: "rep (s_q s) xs" "s_out s @ xs @ s_in s = inp" "s_want s = length xs + length (s_in s)"
    "prod_ok pw cap sp (s_q s) (s_in s) (length xs) (s_prod s)" "cons_ok cw sp (s_q s) (s_want s) (length xs) (s_cons s)"
    using inv by (rule invE)
  have enq: "s_in s = [] \<or> (\<exists>w. s_prod s = Waiting w False)" if "spsc_step ops Producer s = Inr None"
    using that by (auto simp: bindR_eq_Inr split: list.splits pc.splits bool.splits)
  have deq: "s_want s = 0 \<or> (\<exists>w. s_cons s = Waiting w False)" if "spsc_step ops Consumer s = Inr None"
    using that by (auto simp: bindR_eq_Inr split: if_splits pc.splits bool.splits)
  show ?thesis
  proof
    assume "spsc_stuck ops s"
    then have e: "s_in s = [] \<or> (\<exists>w. s_prod s = Waiting w False)"
      and d: "s_want s = 0 \<or> (\<exists>w. s_cons s = Waiting w False)"
      using enq deq by (auto simp only: spsc_stuck_def)
    have "xs \<noteq> [] \<or> s_in s \<noteq> []" using xs(2) assms(2) by auto
    with d xs(3) have "xs = []" "s_in s \<noteq> []" using xs(5) by auto
    with e xs(4) cap_pos show False by auto
  qed
qed

lemma runs_inv:
  assumes "spsc_runs ops False n s s'" and "inv False inp s"
  shows "inv False inp s' \<and> n + spsc_size s' \<le> spsc_size s"
  using assms
proof (induction rule: spsc_runs.induct)
  case (runs_refl s)
  then show ?case by simp
next
  case (runs_step n s s1 a s2)
  then have i: "inv False inp s1" and n: "n + spsc_size s1 \<le> spsc_size s" by auto
  have "inv False inp s2 \<and> spsc_size s2 < spsc_size s1"
  proof (cases a)
    case Producer
    with runs_step(3) producer_step [OF i] show ?thesis by auto
  next
    case Consumer
    with runs_step(3) consumer_step [OF i] show ?thesis by auto
  qed (use runs_step in auto)
  with n show ?case by auto
qed

text \<open>
  Without spurious wake-ups: no fault, no more steps than four per item plus two, and when neither
  thread can move every item has arrived, in order.
\<close>

lemma runs_complete:
  assumes run: "spsc_runs ops False n (spsc_init q inp buf) s"
    and q: "rep q []" and "\<forall>d\<in>set inp. okd d" and "okd buf"
  shows "n \<le> 4 * length inp + 2" and "is_ok (spsc_step ops a s)"
    and "\<exists>rest. inp = s_out s @ rest" and "spsc_stuck ops s \<Longrightarrow> s_out s = inp"
proof -
  have i: "inv False inp s" and n: "n + spsc_size s \<le> 4 * length inp + 2"
    using runs_inv [OF run inv_init] assms by (auto simp: spsc_size_def spsc_init_def)
  from n show "n \<le> 4 * length inp + 2" by simp
  have "is_ok (spsc_step ops Producer s)" "is_ok (spsc_step ops Consumer s)"
    by (metis producer_step [OF i] is_ok_Inr, metis consumer_step [OF i] is_ok_Inr)
  then have ok: "is_ok (spsc_step ops a s)" for a
    by (cases a) (simp_all split: pc.splits bool.splits)
  then show "is_ok (spsc_step ops a s)" .
  show "\<exists>rest. inp = s_out s @ rest" using i by (auto simp: inv_def)
  show "s_out s = inp" if "spsc_stuck ops s" using not_stuck [OF i _ ok ok] that by blast
qed

end

text \<open>
  A queue whose operations look again at the condition after they were woken also tolerates
  wake-ups without a signal.
\<close>

locale spsc_robust = spsc_queue +
  assumes enq_retry: "rep q xs \<Longrightarrow> length xs = cap \<Longrightarrow> okd d \<Longrightarrow> pw q w \<Longrightarrow> q_enq_wake ops q w d = Inr Retry"
    and deq_retry: "rep q [] \<Longrightarrow> okd b \<Longrightarrow> cw q w \<Longrightarrow> q_deq_wake ops q w b = Inr Retry"
begin

lemma wake_inv:
  assumes i: "inv True inp s" and "spsc_step ops a s = Inr (Some s')" and "a \<in> {WakeProducer, WakeConsumer}"
  shows "inv True inp s'"
proof -
  obtain xs where "rep (s_q s) xs" "s_out s @ xs @ s_in s = inp" "s_want s = length xs + length (s_in s)"
    "\<forall>d\<in>set (s_in s). okd d" "okd (s_buf s)" "prod_ok pw cap True (s_q s) (s_in s) (length xs) (s_prod s)" "cons_ok cw True (s_q s) (s_want s) (length xs) (s_cons s)"
    using i by (rule invE)
  with assms(2,3) show ?thesis
    unfolding inv_def
    by (auto intro!: exI [of _ xs] split: pc.splits bool.splits)
qed

lemma step_robust:
  assumes i: "inv True inp s"
  shows "\<exists>r. spsc_step ops a s = Inr r \<and> (\<forall>s'. r = Some s' \<longrightarrow> inv True inp s')"
proof (cases a)
  case Producer
  then show ?thesis using producer_step [OF i enq_retry] by auto
next
  case Consumer
  then show ?thesis using consumer_step [OF i deq_retry] by auto
qed (use wake_inv [OF i, of a] in \<open>auto split: pc.splits bool.splits\<close>)

lemma runs_robust:
  assumes "spsc_runs ops sp n s s'" and "inv True inp s"
  shows "inv True inp s'"
  using assms
proof (induction rule: spsc_runs.induct)
  case (runs_refl s)
  then show ?case .
next
  case (runs_step n s s1 a s2)
  then show ?case using step_robust [of inp s1 a] by auto
qed

lemma runs_safe:
  assumes run: "spsc_runs ops sp n (spsc_init q inp buf) s"
    and "rep q []" and "\<forall>d\<in>set inp. okd d" and "okd buf"
  shows "is_ok (spsc_step ops a s)" and "\<exists>xs. rep (s_q s) xs \<and> s_out s @ xs @ s_in s = inp"
    and "spsc_stuck ops s \<Longrightarrow> s_out s = inp"
proof -
  have i: "inv True inp s" using runs_robust [OF run inv_init] assms by auto
  have ok: "is_ok (spsc_step ops a s)" for a
    using step_robust [OF i, of a] by auto
  then show "is_ok (spsc_step ops a s)" .
  show "\<exists>xs. rep (s_q s) xs \<and> s_out s @ xs @ s_in s = inp" using i by (auto simp: inv_def)
  show "s_out s = inp" if "spsc_stuck ops s" using not_stuck [OF i _ ok ok] that by blast
qed

end

end
