(* ===== verification/RingQueue.thy ===== *)
theory RingQueue
  imports Spsc
begin

text \<open>
  The array queues of \<open>src/data-queue-concurrent/static.c\<close> and \<open>src/data-queue-channel/chan.c\<close>: an
  array of \<open>limit\<close> nodes and two 32-bit counters \<open>head\<close> and \<open>tail\<close> that are only ever incremented
  and are reduced modulo \<open>limit\<close> when a node is addressed. Both programs are compiled with the
  pthread mutex and condition variable. The two files share the node and queue structures and the
  code that follows the waiting; they differ in what a woken thread does.
\<close>

section \<open>Data\<close>

record node =
  n_in_use :: u8
  n_data :: bytes
  n_datalen :: u32

record bucket =
  q_limit :: u32
  q_arr :: "node list"
  q_head :: u32
  q_tail :: u32

record testdata =
  td_top :: u32
  td_bottom :: u32

text \<open>The memory of a \<open>testdata\<close>, and reading it back.\<close>

definition td_bytes :: "testdata \<Rightarrow> bytes" where
  "td_bytes td = u32_le (td_top td) @ u32_le (td_bottom td)"

definition td_of :: "bytes \<Rightarrow> testdata" where
  "td_of bs = \<lparr>td_top = le_u32 bs, td_bottom = le_u32 (drop 4 bs)\<rparr>"

definition BUFFSIZE :: nat where
  "BUFFSIZE = 2048"

section \<open>Creating and deleting a queue\<close>

text \<open>\<open>fresh i j\<close> is byte \<open>j\<close> of the memory that \<open>malloc\<close> returns for node \<open>i\<close>.\<close>

definition make_queue :: "(nat \<Rightarrow> nat \<Rightarrow> u8) \<Rightarrow> u32 \<Rightarrow> int \<Rightarrow> bucket" where
  "make_queue fresh datalen mx =
     \<lparr>q_limit = word_of_int mx,
      q_arr = map (\<lambda>i. \<lparr>n_in_use = 0, n_data = map (fresh i) [0..<unat datalen], n_datalen = datalen\<rparr>)
        [0..<nat mx],
      q_head = 0, q_tail = 0\<rparr>"

text \<open>In \<open>chan.c\<close> the line that zeroes the structure is commented out: \<open>head\<close> and \<open>tail\<close> are what the
  allocated memory holds.\<close>

definition make_queue_chan :: "(nat \<Rightarrow> nat \<Rightarrow> u8) \<Rightarrow> u32 \<Rightarrow> u32 \<Rightarrow> u32 \<Rightarrow> int \<Rightarrow> bucket" where
  "make_queue_chan fresh head0 tail0 datalen mx =
     \<lparr>q_limit = word_of_int mx,
      q_arr = map (\<lambda>i. \<lparr>n_in_use = 0, n_data = map (fresh i) [0..<unat datalen], n_datalen = datalen\<rparr>)
        [0..<nat mx],
      q_head = head0, q_tail = tail0\<rparr>"

text \<open>The result is the list of the buffers that were freed.\<close>

definition delete_queue :: "bucket option \<Rightarrow> bytes list res" where
  "delete_queue q = (case q of
     None \<Rightarrow> Inr []
   | Some q \<Rightarrow> foldR (\<lambda>fs i. bindR (arr_get (q_arr q) i) (\<lambda>n. Inr (fs @ [n_data n]))) [] [0..<unat (q_limit q)])"

definition delete_queue_chan :: "bucket option \<Rightarrow> bytes list res" where
  "delete_queue_chan q = (case q of
     None \<Rightarrow> Inr []
   | Some q \<Rightarrow> foldR (\<lambda>fs i. bindR (arr_get (q_arr q) i) (\<lambda>n. Inr (fs @ [n_data n]))) [] [0..<unat (q_limit q)])"

section \<open>Enqueue and dequeue\<close>

definition ring_idx :: "bucket \<Rightarrow> u32 \<Rightarrow> nat res" where
  "ring_idx q c = (if q_limit q = 0 then Inl DivByZero else Inr (unat (c mod q_limit q)))"

text \<open>\<open>(hidx == tidx) && (q->arr[hidx].in_use == 1)\<close>, and the same with \<open>!=\<close>.\<close>

definition slot_used :: "bucket \<Rightarrow> nat \<Rightarrow> nat \<Rightarrow> bool res" where
  "slot_used q hidx tidx =
     (if hidx = tidx then bindR (arr_get (q_arr q) hidx) (\<lambda>n. Inr (n_in_use n = 1)) else Inr False)"

definition slot_free :: "bucket \<Rightarrow> nat \<Rightarrow> nat \<Rightarrow> bool res" where
  "slot_free q hidx tidx =
     (if hidx = tidx then bindR (arr_get (q_arr q) hidx) (\<lambda>n. Inr (n_in_use n \<noteq> 1)) else Inr False)"

text \<open>From the \<open>memcpy\<close> to the end of the operation. The flag of the result tells whether a signal
  was sent.\<close>

definition enqueue_finish :: "bucket \<Rightarrow> nat \<Rightarrow> nat \<Rightarrow> bytes \<Rightarrow> (bucket \<times> bool) res" where
  "enqueue_finish q hidx tidx data =
     bindR (arr_get (q_arr q) tidx) (\<lambda>n.
     bindR (memcpy (n_data n) data (unat (n_datalen n))) (\<lambda>d.
     let q = q\<lparr>q_arr := (q_arr q)[tidx := n\<lparr>n_data := d\<rparr>]\<rparr> in
     bindR (slot_free q hidx tidx) (\<lambda>sig.
     Inr (q\<lparr>q_arr := (q_arr q)[tidx := n\<lparr>n_data := d, n_in_use := 1\<rparr>], q_tail := q_tail q + 1\<rparr>, sig))))"

definition dequeue_finish :: "bucket \<Rightarrow> nat \<Rightarrow> nat \<Rightarrow> bytes \<Rightarrow> (bucket \<times> bytes \<times> bool) res" where
  "dequeue_finish q hidx tidx data =
     bindR (arr_get (q_arr q) hidx) (\<lambda>n.
     bindR (memcpy data (n_data n) (unat (n_datalen n))) (\<lambda>d.
     bindR (slot_used q hidx tidx) (\<lambda>sig.
     Inr (q\<lparr>q_arr := (q_arr q)[hidx := n\<lparr>n_in_use := 0\<rparr>], q_head := q_head q + 1\<rparr>, d, sig))))"

text \<open>\<open>static.c\<close>: from taking the lock to waiting or returning, and from waking up to starting over
  or returning.\<close>

definition enqueue :: "bucket \<Rightarrow> bytes \<Rightarrow> (nat \<times> nat, bucket \<times> bool) attempt res" where
  "enqueue q data =
     bindR (ring_idx q (q_head q)) (\<lambda>hidx.
     bindR (ring_idx q (q_tail q)) (\<lambda>tidx.
     bindR (slot_used q hidx tidx) (\<lambda>full.
     if full then Inr (Wait (hidx, tidx))
     else bindR (enqueue_finish q hidx tidx data) (\<lambda>r. Inr (Done r)))))"

fun enqueue_wake :: "bucket \<Rightarrow> nat \<times> nat \<Rightarrow> bytes \<Rightarrow> (nat \<times> nat, bucket \<times> bool) attempt res" where
  "enqueue_wake q (hidx, tidx) data =
     bindR (slot_used q hidx tidx) (\<lambda>full.
     if full then Inr Retry
     else bindR (enqueue_finish q hidx tidx data) (\<lambda>r. Inr (Done r)))"

definition dequeue :: "bucket \<Rightarrow> bytes \<Rightarrow> (nat \<times> nat, bucket \<times> bytes \<times> bool) attempt res" where
  "dequeue q data =
     bindR (ring_idx q (q_head q)) (\<lambda>hidx.
     bindR (ring_idx q (q_tail q)) (\<lambda>tidx.
     bindR (slot_free q hidx tidx) (\<lambda>empty.
     if empty then Inr (Wait (hidx, tidx))
     else bindR (dequeue_finish q hidx tidx data) (\<lambda>r. Inr (Done r)))))"

fun dequeue_wake :: "bucket \<Rightarrow> nat \<times> nat \<Rightarrow> bytes \<Rightarrow> (nat \<times> nat, bucket \<times> bytes \<times> bool) attempt res" where
  "dequeue_wake q (hidx, tidx) data =
     bindR (slot_free q hidx tidx) (\<lambda>empty.
     if empty then Inr Retry
     else bindR (dequeue_finish q hidx tidx data) (\<lambda>r. Inr (Done r)))"

text \<open>\<open>chan.c\<close>: a woken thread goes on without looking at the queue again.\<close>

definition enqueue_chan :: "bucket \<Rightarrow> bytes \<Rightarrow> (nat \<times> nat, bucket \<times> bool) attempt res" where
  "enqueue_chan q data =
     bindR (ring_idx q (q_head q)) (\<lambda>hidx.
     bindR (ring_idx q (q_tail q)) (\<lambda>tidx.
     bindR (slot_used q hidx tidx) (\<lambda>full.
     if full then Inr (Wait (hidx, tidx))
     else bindR (enqueue_finish q hidx tidx data) (\<lambda>r. Inr (Done r)))))"

fun enqueue_chan_wake :: "bucket \<Rightarrow> nat \<times> nat \<Rightarrow> bytes \<Rightarrow> (nat \<times> nat, bucket \<times> bool) attempt res" where
  "enqueue_chan_wake q (hidx, tidx) data = bindR (enqueue_finish q hidx tidx data) (\<lambda>r. Inr (Done r))"

definition dequeue_chan :: "bucket \<Rightarrow> bytes \<Rightarrow> (nat \<times> nat, bucket \<times> bytes \<times> bool) attempt res" where
  "dequeue_chan q data =
     bindR (ring_idx q (q_head q)) (\<lambda>hidx.
     bindR (ring_idx q (q_tail q)) (\<lambda>tidx.
     bindR (slot_free q hidx tidx) (\<lambda>empty.
     if empty then Inr (Wait (hidx, tidx))
     else bindR (dequeue_finish q hidx tidx data) (\<lambda>r. Inr (Done r)))))"

fun dequeue_chan_wake :: "bucket \<Rightarrow> nat \<times> nat \<Rightarrow> bytes \<Rightarrow> (nat \<times> nat, bucket \<times> bytes \<times> bool) attempt res" where
  "dequeue_chan_wake q (hidx, tidx) data = bindR (dequeue_finish q hidx tidx data) (\<lambda>r. Inr (Done r))"

definition static_ops :: "(bucket, nat \<times> nat, bytes) qops" where
  "static_ops = \<lparr>q_enq = enqueue, q_enq_wake = enqueue_wake, q_deq = dequeue, q_deq_wake = dequeue_wake\<rparr>"

definition chan_ops :: "(bucket, nat \<times> nat, bytes) qops" where
  "chan_ops = \<lparr>q_enq = enqueue_chan, q_enq_wake = enqueue_chan_wake,
     q_deq = dequeue_chan, q_deq_wake = dequeue_chan_wake\<rparr>"

section \<open>The threads of the test programs\<close>

text \<open>The items \<open>do_enqueue\<close> sends (the loop counter is an \<open>int\<close>), and the checks \<open>do_dequeue\<close> makes on
  what it receives: the result is the error code, or \<open>None\<close> when the loop ran to its end.\<close>

definition do_enqueue :: "nat \<Rightarrow> bytes list" where
  "do_enqueue n = map (\<lambda>i. td_bytes \<lparr>td_top = of_nat i + 1, td_bottom = of_nat i - 1\<rparr>) [0..<n]"

fun do_dequeue :: "nat \<Rightarrow> bytes list \<Rightarrow> int option" where
  "do_dequeue counter [] = None"
| "do_dequeue counter (bs # rest) =
     (if td_top (td_of bs) \<noteq> of_nat counter + 1 then Some (-1)
      else if td_bottom (td_of bs) \<noteq> of_nat counter - 1 then Some (-2)
      else do_dequeue (Suc counter) rest)"

text \<open>\<open>static.c\<close> has no \<open>return\<close> at the end of \<open>do_dequeue\<close>, and \<open>main\<close> uses its value; in \<open>chan.c\<close> the
  thread leaves \<open>result\<close> at 0.\<close>

definition static_result :: "bytes list \<Rightarrow> int res" where
  "static_result out = (case do_dequeue 0 out of Some e \<Rightarrow> Inr e | None \<Rightarrow> Inl Uninit)"

definition chan_result :: "bytes list \<Rightarrow> int res" where
  "chan_result out = (case do_dequeue 0 out of Some e \<Rightarrow> Inr e | None \<Rightarrow> Inr 0)"

section \<open>The sequence a ring stands for\<close>

definition slot :: "nat \<Rightarrow> bucket \<Rightarrow> nat \<Rightarrow> nat" where
  "slot lim q i = (unat (q_head q) + i) mod lim"

definition ring_rep :: "nat \<Rightarrow> u32 \<Rightarrow> bucket \<Rightarrow> bytes list \<Rightarrow> bool" where
  "ring_rep lim dlen q xs \<longleftrightarrow> q_limit q = of_nat lim \<and> length (q_arr q) = lim \<and> length xs \<le> lim \<and>
     q_tail q = q_head q + of_nat (length xs) \<and>
     (\<forall>n\<in>set (q_arr q). n_datalen n = dlen \<and> length (n_data n) = unat dlen) \<and>
     (\<forall>i<lim. if i < length xs
        then n_in_use (q_arr q ! slot lim q i) = 1 \<and> n_data (q_arr q ! slot lim q i) = xs ! i
        else n_in_use (q_arr q ! slot lim q i) \<noteq> 1)"

definition ring_pw :: "nat \<Rightarrow> bucket \<Rightarrow> nat \<times> nat \<Rightarrow> bool" where
  "ring_pw lim q w \<longleftrightarrow> w = (unat (q_tail q) mod lim, unat (q_tail q) mod lim)"

definition ring_cw :: "nat \<Rightarrow> bucket \<Rightarrow> nat \<times> nat \<Rightarrow> bool" where
  "ring_cw lim q w \<longleftrightarrow> w = (unat (q_head q) mod lim, unat (q_head q) mod lim)"

section \<open>Lemmas\<close>

locale ring_dims =
  fixes lim :: nat and dlen :: u32
  assumes lim_pos: "0 < lim" and lim_dvd: "lim dvd 2 ^ 32" and lim_less: "lim < 2 ^ 32"
begin

lemma unat_limit: "unat (of_nat lim :: u32) = lim"
  using lim_less by (simp add: unat_of_nat)

lemma limit_nz: "(of_nat lim :: u32) \<noteq> 0"
  using unat_limit lim_pos by (metis unat_0 less_irrefl)

lemma wrap: "unat (c + of_nat n :: u32) mod lim = (unat c + n) mod lim"
proof -
  have "unat (c + of_nat n :: u32) = (unat c + n) mod 2 ^ 32"
    by (simp add: unat_word_ariths unat_of_nat mod_simps)
  then show ?thesis using lim_dvd by (simp only: mod_mod_cancel)
qed

lemma slot_inj: "i < lim \<Longrightarrow> j < lim \<Longrightarrow> slot lim q i = slot lim q j \<longleftrightarrow> i = j"
proof (induction i j rule: linorder_wlog)
  case (le a b)
  have "a = b" if "slot lim q a = slot lim q b"
  proof -
    have "(unat (q_head q) + b) mod lim = (unat (q_head q) + a) mod lim"
      using that by (simp add: slot_def)
    then have "lim dvd b - a" using le by (simp add: mod_eq_dvd_iff_nat)
    with le show ?thesis using nat_dvd_not_less [of "b - a" lim] by (cases "b = a") auto
  qed
  then show ?case by auto
next
  case (sym a b)
  then show ?case by auto
qed

lemma slot_less: "slot lim q i < lim"
  using lim_pos by (simp add: slot_def)

lemma slot_lim: "slot lim q lim = slot lim q 0"
  by (simp add: slot_def)

lemma ring_idx_eq: "ring_rep lim dlen q xs \<Longrightarrow> ring_idx q c = Inr (unat c mod lim)"
  by (simp add: ring_rep_def ring_idx_def limit_nz unat_mod unat_limit)

lemma hidx: "unat (q_head q) mod lim = slot lim q 0"
  by (simp add: slot_def)

lemma tidx: "ring_rep lim dlen q xs \<Longrightarrow> unat (q_tail q) mod lim = slot lim q (length xs)"
  by (simp add: ring_rep_def slot_def wrap)

lemma used: "ring_rep lim dlen q xs \<Longrightarrow> i < lim \<Longrightarrow> n_in_use (q_arr q ! slot lim q i) = 1 \<longleftrightarrow> i < length xs"
  unfolding ring_rep_def by meson

lemma slot_used_eq:
  assumes r: "ring_rep lim dlen q xs"
  shows "slot_used q (slot lim q 0) (slot lim q (length xs)) = Inr (length xs = lim)"
proof (cases "length xs = lim")
  case True
  with r used [OF r, of 0] lim_pos show ?thesis
    by (simp add: slot_used_def slot_lim slot_less ring_rep_def)
next
  case False
  then have "length xs < lim" using r by (simp add: ring_rep_def)
  with r used [OF r, of 0] lim_pos slot_inj [of 0 "length xs" q] show ?thesis
    by (simp add: slot_used_def slot_less ring_rep_def)
qed

lemma slot_free_eq:
  assumes r: "ring_rep lim dlen q xs"
  shows "slot_free q (slot lim q 0) (slot lim q (length xs)) = Inr (xs = [])"
proof (cases "length xs = lim")
  case True
  with r used [OF r, of 0] lim_pos show ?thesis
    by (auto simp: slot_free_def slot_lim slot_less ring_rep_def)
next
  case False
  then have "length xs < lim" using r by (simp add: ring_rep_def)
  with r used [OF r, of 0] lim_pos slot_inj [of 0 "length xs" q] show ?thesis
    by (auto simp: slot_free_def slot_less ring_rep_def)
qed

lemma enqueue_finish_ok:
  assumes r: "ring_rep lim dlen q xs" and l: "length xs < lim" and d: "length d = unat dlen"
    and h: "h < lim" "h = slot lim q (length xs) \<or> h = slot lim q 0"
  shows "\<exists>q'. enqueue_finish q h (slot lim q (length xs)) d = Inr (q', h = slot lim q (length xs)) \<and>
    ring_rep lim dlen q' (xs @ [d]) \<and> q_head q' = q_head q"
proof -
  let ?t = "slot lim q (length xs)"
  let ?n = "(q_arr q ! ?t)\<lparr>n_data := d, n_in_use := 1\<rparr>"
  let ?q = "q\<lparr>q_arr := (q_arr q)[?t := ?n], q_tail := q_tail q + 1\<rparr>"
  have t: "?t < length (q_arr q)" using r slot_less by (simp add: ring_rep_def)
  then have n: "n_datalen (q_arr q ! ?t) = dlen" "length (n_data (q_arr q ! ?t)) = unat dlen"
    using r by (simp_all add: ring_rep_def)
  have free: "n_in_use (q_arr q ! ?t) \<noteq> 1" using used [OF r l] by simp
  have eq: "enqueue_finish q h ?t d = Inr (?q, h = ?t)"
    using t n d free by (auto simp: enqueue_finish_def slot_free_def)
  have s: "slot lim ?q = slot lim q" by (simp add: slot_def fun_eq_iff)
  have "ring_rep lim dlen ?q (xs @ [d])"
    unfolding ring_rep_def s
  proof (intro conjI allI impI ballI)
    fix i assume i: "i < lim"
    show "if i < length (xs @ [d])
      then n_in_use (q_arr ?q ! slot lim q i) = 1 \<and> n_data (q_arr ?q ! slot lim q i) = (xs @ [d]) ! i
      else n_in_use (q_arr ?q ! slot lim q i) \<noteq> 1"
      using r i l t slot_inj [of i "length xs" q] slot_less
      by (auto simp: ring_rep_def nth_list_update nth_append)
  qed (use r l d n in \<open>auto simp: ring_rep_def elim!: set_list_updateE\<close>)
  with eq show ?thesis by auto
qed

lemma dequeue_finish_ok:
  assumes r: "ring_rep lim dlen q (x # xs)" and d: "length d = unat dlen"
    and h: "t = slot lim q (Suc (length xs)) \<or> t = slot lim q 0"
  shows "\<exists>q'. dequeue_finish q (slot lim q 0) t d = Inr (q', x, slot lim q 0 = t) \<and>
    ring_rep lim dlen q' xs \<and> q_tail q' = q_tail q"
proof -
  let ?h = "slot lim q 0"
  let ?q = "q\<lparr>q_arr := (q_arr q)[?h := (q_arr q ! ?h)\<lparr>n_in_use := 0\<rparr>], q_head := q_head q + 1\<rparr>"
  have hh: "?h < length (q_arr q)" using r slot_less by (simp add: ring_rep_def)
  then have n: "n_datalen (q_arr q ! ?h) = dlen" "length (n_data (q_arr q ! ?h)) = unat dlen"
    using r nth_mem [OF hh] unfolding ring_rep_def by blast+
  have u: "n_in_use (q_arr q ! ?h) = 1" "n_data (q_arr q ! ?h) = x"
    using r lim_pos by (auto simp: ring_rep_def)
  then have x: "length x = unat dlen" using n by simp
  have eq: "dequeue_finish q ?h t d = Inr (?q, x, ?h = t)"
    using hh n d u x by (auto simp: dequeue_finish_def slot_used_def)
  have s: "slot lim ?q i = slot lim q (Suc i)" for i
    using wrap [of "q_head q" 1] by (simp add: slot_def mod_simps) (metis mod_add_left_eq add.commute add_Suc)
  have "ring_rep lim dlen ?q xs"
    unfolding ring_rep_def s
  proof (intro conjI allI impI ballI)
    fix i assume i: "i < lim"
    show "if i < length xs
      then n_in_use (q_arr ?q ! slot lim q (Suc i)) = 1 \<and> n_data (q_arr ?q ! slot lim q (Suc i)) = xs ! i
      else n_in_use (q_arr ?q ! slot lim q (Suc i)) \<noteq> 1"
    proof (cases "Suc i < lim")
      case True
      then have "slot lim q (Suc i) \<noteq> ?h" using slot_inj [of "Suc i" 0 q] lim_pos by simp
      moreover have "slot lim q (Suc i) < length (q_arr q)" using r slot_less by (simp add: ring_rep_def)
      ultimately show ?thesis using r True by (auto simp: ring_rep_def nth_list_update)
    next
      case False
      with i have "Suc i = lim" by simp
      moreover have "\<not> i < length xs" using r calculation by (auto simp: ring_rep_def)
      ultimately show ?thesis using hh by (simp add: slot_lim)
    qed
  next
    fix m assume "m \<in> set (q_arr ?q)"
    then have "m \<in> set ((q_arr q)[?h := (q_arr q ! ?h)\<lparr>n_in_use := 0\<rparr>])" by simp
    then have "n_datalen m = dlen \<and> length (n_data m) = unat dlen"
    proof (cases rule: set_list_updateE)
      case 1
      then show ?thesis using n by simp
    next
      case 2
      then show ?thesis using r by (simp add: ring_rep_def)
    qed
    then show "n_datalen m = dlen" "length (n_data m) = unat dlen" by simp_all
  qed (use r in \<open>simp_all add: ring_rep_def\<close>)
  with eq show ?thesis by auto
qed

lemma rep_datalen:
  assumes r: "ring_rep lim dlen q xs" and "x \<in> set xs"
  shows "length x = unat dlen"
proof -
  obtain i where i: "i < length xs" "x = xs ! i" using assms(2) by (auto simp: in_set_conv_nth)
  then have "q_arr q ! slot lim q i \<in> set (q_arr q)" "n_data (q_arr q ! slot lim q i) = x"
    using r slot_less by (auto simp: ring_rep_def)
  with r show ?thesis by (auto simp: ring_rep_def)
qed

lemma enqueue_done:
  assumes "ring_rep lim dlen q xs" "length xs < lim" "length d = unat dlen"
  shows "\<exists>q' sig. enqueue q d = Inr (Done (q', sig)) \<and> ring_rep lim dlen q' (xs @ [d]) \<and> (xs = [] \<longrightarrow> sig) \<and>
    (\<forall>w. ring_cw lim q w \<longrightarrow> ring_cw lim q' w)"
proof -
  obtain q' where q': "enqueue_finish q (slot lim q 0) (slot lim q (length xs)) d = Inr (q', slot lim q 0 = slot lim q (length xs))"
    "ring_rep lim dlen q' (xs @ [d])" "q_head q' = q_head q"
    using enqueue_finish_ok [OF assms slot_less [of q 0]] by auto
  moreover have "enqueue q d = bindR (enqueue_finish q (slot lim q 0) (slot lim q (length xs)) d) (\<lambda>r. Inr (Done r))"
    using assms(2)
    by (simp add: enqueue_def ring_idx_eq [OF assms(1)] hidx tidx [OF assms(1)] slot_used_eq [OF assms(1)])
  ultimately show ?thesis by (simp add: ring_cw_def)
qed

lemma finish_woken:
  assumes "ring_rep lim dlen q xs" "length xs < lim" "length d = unat dlen" "ring_pw lim q (h, t)"
  shows "\<exists>q' sig. enqueue_finish q h t d = Inr (q', sig) \<and> ring_rep lim dlen q' (xs @ [d]) \<and> (xs = [] \<longrightarrow> sig) \<and>
    (\<forall>w. ring_cw lim q w \<longrightarrow> ring_cw lim q' w)"
  using enqueue_finish_ok [OF assms(1-3) slot_less [of q "length xs"]] assms(4)
  by (auto simp: ring_pw_def tidx [OF assms(1)] ring_cw_def)

lemma enqueue_waits:
  assumes "ring_rep lim dlen q xs" "length xs = lim"
  shows "\<exists>w. enqueue q d = Inr (Wait w) \<and> ring_pw lim q w"
  using assms(2)
  by (simp add: enqueue_def ring_idx_eq [OF assms(1)] hidx tidx [OF assms(1)]
      slot_used_eq [OF assms(1), unfolded assms(2) slot_lim] ring_pw_def slot_lim)

lemma slot_used_woken:
  assumes "ring_rep lim dlen q xs" "ring_pw lim q (h, t)"
  shows "slot_used q h t = Inr (length xs = lim)"
proof -
  let ?t = "slot lim q (length xs)"
  have "h = ?t" "t = ?t" using assms by (auto simp: ring_pw_def tidx)
  moreover have "slot_used q ?t ?t = Inr (length xs = lim)"
  proof (cases "length xs = lim")
    case True
    with slot_used_eq [OF assms(1)] show ?thesis by (simp add: slot_lim)
  next
    case False
    then have "length xs < lim" using assms(1) by (simp add: ring_rep_def)
    with used [OF assms(1) this] assms(1) slot_less show ?thesis
      by (simp add: slot_used_def ring_rep_def)
  qed
  ultimately show ?thesis by simp
qed

lemma dequeue_done:
  assumes "ring_rep lim dlen q (x # xs)" "length b = unat dlen"
  shows "\<exists>q' sig. dequeue q b = Inr (Done (q', x, sig)) \<and> ring_rep lim dlen q' xs \<and>
    (Suc (length xs) = lim \<longrightarrow> sig) \<and> (\<forall>w. ring_pw lim q w \<longrightarrow> ring_pw lim q' w)"
proof -
  obtain q' where q': "dequeue_finish q (slot lim q 0) (slot lim q (Suc (length xs))) b =
      Inr (q', x, slot lim q 0 = slot lim q (Suc (length xs)))"
    "ring_rep lim dlen q' xs" "q_tail q' = q_tail q"
    using dequeue_finish_ok [OF assms] by blast
  moreover have "dequeue q b =
      bindR (dequeue_finish q (slot lim q 0) (slot lim q (Suc (length xs))) b) (\<lambda>r. Inr (Done r))"
    using slot_free_eq [OF assms(1)]
    by (simp add: dequeue_def ring_idx_eq [OF assms(1)] hidx tidx [OF assms(1)])
  ultimately show ?thesis using slot_lim by (auto simp: ring_pw_def)
qed

lemma finish_woken_deq:
  assumes "ring_rep lim dlen q (x # xs)" "length b = unat dlen" "ring_cw lim q (h, t)"
  shows "\<exists>q' sig. dequeue_finish q h t b = Inr (q', x, sig) \<and> ring_rep lim dlen q' xs \<and>
    (Suc (length xs) = lim \<longrightarrow> sig) \<and> (\<forall>w. ring_pw lim q w \<longrightarrow> ring_pw lim q' w)"
proof -
  have "h = slot lim q 0" "t = slot lim q 0" using assms(3) by (auto simp: ring_cw_def hidx)
  moreover obtain q' where "dequeue_finish q (slot lim q 0) (slot lim q 0) b = Inr (q', x, True)"
    "ring_rep lim dlen q' xs" "q_tail q' = q_tail q"
    using dequeue_finish_ok [OF assms(1,2), of "slot lim q 0"] by auto
  ultimately show ?thesis by (auto simp: ring_pw_def)
qed

lemma dequeue_waits:
  assumes "ring_rep lim dlen q []"
  shows "\<exists>w. dequeue q b = Inr (Wait w) \<and> ring_cw lim q w"
  using slot_free_eq [OF assms]
  by (simp add: dequeue_def ring_idx_eq [OF assms] hidx tidx [OF assms] ring_cw_def)

lemma slot_free_woken:
  assumes "ring_rep lim dlen q xs" "ring_cw lim q (h, t)"
  shows "slot_free q h t = Inr (xs = [])"
  using used [OF assms(1), of 0] lim_pos assms slot_less
  by (auto simp: ring_cw_def hidx slot_free_def ring_rep_def)

end

lemma enqueue_chan_eq: "enqueue_chan = enqueue"
  by (simp add: fun_eq_iff enqueue_chan_def enqueue_def)

lemma dequeue_chan_eq: "dequeue_chan = dequeue"
  by (simp add: fun_eq_iff dequeue_chan_def dequeue_def)

text \<open>\<open>static.c\<close> keeps the contract, wake-ups without a signal included; \<open>chan.c\<close> keeps it when there are
  none.\<close>

sublocale ring_dims \<subseteq> static: spsc_robust static_ops "ring_rep lim dlen" lim "\<lambda>d. length d = unat dlen"
    "ring_pw lim" "ring_cw lim"
proof (unfold_locales, goal_cases)
  case 1 show ?case by (rule lim_pos)
next
  case 2 then show ?case by (simp add: ring_rep_def)
next
  case 3 then show ?case by (rule rep_datalen)
next
  case 4 then show ?case unfolding static_ops_def qops.simps by (rule enqueue_done)
next
  case 5 show ?case unfolding static_ops_def qops.simps by (rule enqueue_waits [OF 5(1,2)])
next
  case (6 q xs d w) then show ?case
    using finish_woken by (cases w) (fastforce simp: static_ops_def slot_used_woken)
next
  case 7 then show ?case unfolding static_ops_def qops.simps by (rule dequeue_done)
next
  case 8 show ?case unfolding static_ops_def qops.simps by (rule dequeue_waits [OF 8(1)])
next
  case (9 q x xs b w) then show ?case
    using finish_woken_deq by (cases w) (fastforce simp: static_ops_def slot_free_woken)
next
  case (10 q xs d w) then show ?case by (cases w) (simp add: static_ops_def slot_used_woken)
next
  case (11 q b w) then show ?case by (cases w) (simp add: static_ops_def slot_free_woken)
qed

sublocale ring_dims \<subseteq> chan: spsc_queue chan_ops "ring_rep lim dlen" lim "\<lambda>d. length d = unat dlen"
    "ring_pw lim" "ring_cw lim"
proof (unfold_locales, goal_cases)
  case 1 show ?case by (rule lim_pos)
next
  case 2 then show ?case by (simp add: ring_rep_def)
next
  case 3 then show ?case by (rule rep_datalen)
next
  case 4 then show ?case unfolding chan_ops_def qops.simps enqueue_chan_eq by (rule enqueue_done)
next
  case 5 show ?case unfolding chan_ops_def qops.simps enqueue_chan_eq by (rule enqueue_waits [OF 5(1,2)])
next
  case (6 q xs d w) then show ?case
    using finish_woken by (cases w) (fastforce simp: chan_ops_def)
next
  case 7 then show ?case unfolding chan_ops_def qops.simps dequeue_chan_eq by (rule dequeue_done)
next
  case 8 show ?case unfolding chan_ops_def qops.simps dequeue_chan_eq by (rule dequeue_waits [OF 8(1)])
next
  case (9 q x xs b w) then show ?case
    using finish_woken_deq by (cases w) (fastforce simp: chan_ops_def)
qed


context ring_dims
begin

lemmas static_runs_safe = static.runs_safe
lemmas static_runs_complete = static.runs_complete
lemmas chan_runs_complete = chan.runs_complete

end

interpretation buff: ring_dims BUFFSIZE 8
  by unfold_locales (simp_all add: BUFFSIZE_def dvd_def)

lemma td_of_bytes [simp]: "td_of (td_bytes td) = td"
proof -
  have "le_u32 (u32_le (td_bottom td) @ []) = td_bottom td" by (rule le_u32_le)
  then show ?thesis by (simp add: td_of_def td_bytes_def)
qed

lemma length_td_bytes [simp]: "length (td_bytes td) = 8"
  by (simp add: td_bytes_def)

lemma do_enqueue_okd: "\<forall>d\<in>set (do_enqueue n). length d = unat (8 :: u32)"
  by (auto simp: do_enqueue_def)

lemma do_dequeue_items:
  "do_dequeue c (map (\<lambda>i. td_bytes \<lparr>td_top = of_nat i + 1, td_bottom = of_nat i - 1\<rparr>) [c..<n]) = None"
proof (induction "n - c" arbitrary: c)
  case 0
  then show ?case by simp
next
  case (Suc m)
  then have "c < n" by simp
  then have "[c..<n] = c # [Suc c..<n]" by (rule upt_conv_Cons)
  with Suc.hyps(1) [of "Suc c"] Suc.hyps(2) show ?case by simp
qed

lemma do_dequeue_prefix: "do_dequeue c (xs @ ys) = None \<Longrightarrow> do_dequeue c xs = None"
  by (induction c xs rule: do_dequeue.induct) (auto split: if_splits)

lemma do_dequeue_sent: "out @ rest = do_enqueue n \<Longrightarrow> do_dequeue 0 out = None"
  using do_dequeue_items [of 0 n] do_dequeue_prefix [of 0 out rest] by (simp add: do_enqueue_def)

lemma make_queue_rep: "lim < 2 ^ 32 \<Longrightarrow> ring_rep lim dlen (make_queue fresh dlen (int lim)) []"
  by (auto simp: ring_rep_def make_queue_def slot_def)

lemma make_queue_chan_rep: "lim < 2 ^ 32 \<Longrightarrow> ring_rep lim dlen (make_queue_chan fresh h h dlen (int lim)) []"
  by (auto simp: ring_rep_def make_queue_chan_def slot_def)

context ring_dims
begin

lemma chan_wake_full:
  assumes r: "ring_rep lim dlen q xs" "length xs = lim" and d: "length d = unat dlen" "length buf = unat dlen"
  shows "\<exists>q' q'' sig'. enqueue_chan_wake q (slot lim q 0, slot lim q 0) d = Inr (Done (q', False)) \<and>
    dequeue_chan q' buf = Inr (Done (q'', d, sig'))"
proof -
  let ?h = "slot lim q 0"
  let ?q = "q\<lparr>q_arr := (q_arr q)[?h := (q_arr q ! ?h)\<lparr>n_data := d, n_in_use := 1\<rparr>], q_tail := q_tail q + 1\<rparr>"
  have h: "?h < length (q_arr q)" using r slot_less by (simp add: ring_rep_def)
  then have n: "n_datalen (q_arr q ! ?h) = dlen" "length (n_data (q_arr q ! ?h)) = unat dlen"
    using r nth_mem [OF h] unfolding ring_rep_def by blast+
  have u: "n_in_use (q_arr q ! ?h) = 1" using used [OF r(1), of 0] r lim_pos by simp
  have "enqueue_chan_wake q (?h, ?h) d = Inr (Done (?q, False))"
    using h n d u by (simp add: enqueue_finish_def slot_free_def)
  moreover have idx: "ring_idx ?q c = Inr (unat c mod lim)" for c
    using r by (simp add: ring_idx_def ring_rep_def limit_nz unat_mod unat_limit)
  have "\<exists>q'' sig'. dequeue_chan ?q buf = Inr (Done (q'', d, sig'))"
    using h n d u by (auto simp: dequeue_chan_def idx [simplified] hidx slot_free_def dequeue_finish_def slot_used_def)
  ultimately show ?thesis by auto
qed

end

lemma ring_wraps_early:
  "\<exists>q1 s. enqueue (make_queue_chan fresh 0xFFFFFFFF 0xFFFFFFFF 8 3) (td_bytes a) = Inr (Done (q1, s)) \<and>
    enqueue q1 (td_bytes b) = Inr (Wait (0, 0))"
  by (auto simp: enqueue_def make_queue_chan_def ring_idx_def unat_mod slot_used_def slot_free_def enqueue_finish_def upt_rec)

lemma spsc_two_steps:
  assumes "\<exists>s1 s2. spsc_step ops Producer s0 = Inr (Some s1) \<and> spsc_step ops Consumer s1 = Inr (Some s2) \<and> P s2"
  shows "\<exists>s2. spsc_runs ops sp 2 s0 s2 \<and> P s2"
  using assms runs_step [OF runs_step [OF runs_refl], of Producer sp ops s0 _ Consumer]
  by (auto simp: numeral_2_eq_2)

lemma static_run_example:
  "\<exists>s. spsc_runs static_ops True 2 (spsc_init (make_queue (\<lambda>_ _. 0) 8 (int 1)) (do_enqueue 1) (replicate 8 0)) s \<and>
     spsc_stuck static_ops s"
  by (rule spsc_two_steps)
    (simp add: static_ops_def enqueue_def dequeue_def make_queue_def ring_idx_def slot_used_def slot_free_def
      enqueue_finish_def dequeue_finish_def upt_rec spsc_init_def do_enqueue_def enq_result_def deq_result_def
      spsc_stuck_def)

lemma chan_run_example:
  "\<exists>s. spsc_runs chan_ops False 2 (spsc_init (make_queue_chan (\<lambda>_ _. 0) 5 5 8 (int 1)) (do_enqueue 1) (replicate 8 0)) s \<and>
     spsc_stuck chan_ops s"
  by (rule spsc_two_steps)
    (simp add: chan_ops_def enqueue_chan_def dequeue_chan_def make_queue_chan_def ring_idx_def slot_used_def
      slot_free_def enqueue_finish_def dequeue_finish_def upt_rec spsc_init_def do_enqueue_def enq_result_def
      deq_result_def spsc_stuck_def)

lemma full_ring_example:
  "ring_rep 1 1 \<lparr>q_limit = 1, q_arr = [\<lparr>n_in_use = 1, n_data = [7], n_datalen = 1\<rparr>], q_head = 0, q_tail = 1\<rparr> [[7]]"
  by (simp add: ring_rep_def slot_def)

section \<open>Properties\<close>

text \<open>
  C15. The producer and the consumer of \<open>static.c\<close> work together under every schedule, wake-ups
  without a signal included: with a limit that divides \<open>2^32\<close>, no reachable step faults, what was
  received, what is in the ring and what is still to be sent are at every moment the sent sequence,
  the checks of \<open>do_dequeue\<close> never fail, and the two threads only come to rest when everything was
  received.
\<close>

theorem static_spsc_correct:
  assumes "0 < lim" "lim dvd 2 ^ 32" "lim < 2 ^ 32" "length buf = 8"
    and run: "spsc_runs static_ops sp k (spsc_init (make_queue fresh 8 (int lim)) (do_enqueue n) buf) s"
  shows "(\<forall>a. is_ok (spsc_step static_ops a s)) \<and>
    (\<exists>xs. ring_rep lim 8 (s_q s) xs \<and> s_out s @ xs @ s_in s = do_enqueue n) \<and>
    do_dequeue 0 (s_out s) = None \<and>
    (spsc_stuck static_ops s \<longrightarrow> s_out s = do_enqueue n)"
proof -
  have dims: "ring_dims lim" using assms by unfold_locales
  have buf: "length buf = unat (8 :: u32)" using assms(4) by simp
  note safe = ring_dims.static_runs_safe [OF dims run make_queue_rep [OF assms(3)] do_enqueue_okd buf]
  from safe(2) obtain xs where "ring_rep lim 8 (s_q s) xs" "s_out s @ xs @ s_in s = do_enqueue n" by blast
  then show ?thesis using safe(1,3) do_dequeue_sent [of "s_out s" "xs @ s_in s" n] by blast
qed

theorem static_spsc_witness:
  "\<exists>s. spsc_runs static_ops True 2 (spsc_init (make_queue (\<lambda>_ _. 0) 8 (int 1)) (do_enqueue 1) (replicate 8 0)) s \<and>
     s_out s = do_enqueue 1 \<and> do_dequeue 0 (s_out s) = None"
proof -
  obtain s where s: "spsc_runs static_ops True 2
      (spsc_init (make_queue (\<lambda>_ _. 0) 8 (int 1)) (do_enqueue 1) (replicate 8 0)) s" "spsc_stuck static_ops s"
    using static_run_example by blast
  with static_spsc_correct [OF _ _ _ _ s(1)] show ?thesis by auto
qed

text \<open>
  C26. When \<open>chan.c\<close> starts with \<open>head\<close> equal to \<open>tail\<close> and the condition variable only wakes threads that
  were signalled, the program terminates: no execution of the two threads has more than \<open>4 n + 2\<close>
  steps, none faults, and when no thread can move all \<open>n\<close> items were received in order and the
  result is 0.
\<close>

theorem chan_spsc_total:
  assumes "0 < lim" "lim dvd 2 ^ 32" "lim < 2 ^ 32" "length buf = 8"
    and run: "spsc_runs chan_ops False k (spsc_init (make_queue_chan fresh h h 8 (int lim)) (do_enqueue n) buf) s"
  shows "k \<le> 4 * n + 2 \<and> (\<forall>a. is_ok (spsc_step chan_ops a s)) \<and>
    (spsc_stuck chan_ops s \<longrightarrow> s_out s = do_enqueue n \<and> chan_result (s_out s) = Inr 0)"
proof -
  have dims: "ring_dims lim" using assms by unfold_locales
  have buf: "length buf = unat (8 :: u32)" using assms(4) by simp
  note total = ring_dims.chan_runs_complete [OF dims run make_queue_chan_rep [OF assms(3)] do_enqueue_okd buf]
  have "chan_result (do_enqueue n) = Inr 0"
    using do_dequeue_sent [of "do_enqueue n" "[]" n] by (simp add: chan_result_def)
  moreover have "k \<le> 4 * n + 2" using total(1) by (simp add: do_enqueue_def)
  ultimately show ?thesis using total(2,4) by simp
qed

theorem chan_spsc_witness:
  "\<exists>s. spsc_runs chan_ops False 2 (spsc_init (make_queue_chan (\<lambda>_ _. 0) 5 5 8 (int 1)) (do_enqueue 1) (replicate 8 0)) s \<and>
     s_out s = do_enqueue 1 \<and> chan_result (s_out s) = Inr 0"
proof -
  obtain s where s: "spsc_runs chan_ops False 2
      (spsc_init (make_queue_chan (\<lambda>_ _. 0) 5 5 8 (int 1)) (do_enqueue 1) (replicate 8 0)) s" "spsc_stuck chan_ops s"
    using chan_run_example by blast
  with chan_spsc_total [OF _ _ _ _ s(1)] show ?thesis by auto
qed

text \<open>
  \<open>chan.c\<close> does not look at the queue again after \<open>pthread_cond_wait\<close>: when the wait on a full queue
  returns without a signal, the item is written over the oldest one, and the next \<open>dequeue\<close>
  returns the new item.
\<close>

lemma chan_spurious_overwrites:
  assumes "0 < lim" "lim dvd 2 ^ 32" "lim < 2 ^ 32" "length d = unat dlen" "length buf = unat dlen"
    and rep: "ring_rep lim dlen q xs" "length xs = lim"
  shows "\<exists>w q' q'' sig. enqueue_chan q d = Inr (Wait w) \<and>
    enqueue_chan_wake q w d = Inr (Done (q', False)) \<and>
    dequeue_chan q' buf = Inr (Done (q'', d, sig))"
proof -
  have dims: "ring_dims lim" using assms by unfold_locales
  obtain w where w: "enqueue_chan q d = Inr (Wait w)" "ring_pw lim q w"
    using ring_dims.enqueue_waits [OF dims rep] unfolding enqueue_chan_eq by metis
  then have "w = (slot lim q 0, slot lim q 0)"
    using rep ring_dims.slot_lim [OF dims] by (simp add: ring_pw_def ring_dims.tidx [OF dims rep(1)])
  with w ring_dims.chan_wake_full [OF dims rep assms(4,5)] show ?thesis by metis
qed

theorem chan_spurious_witness:
  "\<exists>w q' q'' sig.
     enqueue_chan \<lparr>q_limit = 1, q_arr = [\<lparr>n_in_use = 1, n_data = [7], n_datalen = 1\<rparr>], q_head = 0, q_tail = 1\<rparr> [9] =
       Inr (Wait w) \<and>
     enqueue_chan_wake \<lparr>q_limit = 1, q_arr = [\<lparr>n_in_use = 1, n_data = [7], n_datalen = 1\<rparr>], q_head = 0, q_tail = 1\<rparr>
       w [9] = Inr (Done (q', False)) \<and>
     dequeue_chan q' [0] = Inr (Done (q'', [9], sig))"
  by (rule chan_spurious_overwrites [OF _ _ _ _ _ full_ring_example]) simp_all

text \<open>
  \<open>chan.c\<close> leaves \<open>head\<close> and \<open>tail\<close> uninitialised: when they differ modulo the limit, \<open>dequeue\<close> on the
  new, empty queue returns uninitialised memory instead of waiting.
\<close>

lemma chan_uninit_counters:
  assumes "0 < lim" "lim < 2 ^ 32" "length buf = unat dlen"
    and "unat head0 mod lim \<noteq> unat tail0 mod lim"
  shows "\<exists>q' sig. dequeue_chan (make_queue_chan fresh head0 tail0 dlen (int lim)) buf =
    Inr (Done (q', map (fresh (unat head0 mod lim)) [0..<unat dlen], sig))"
proof -
  have "unat (of_nat lim :: u32) = lim" using assms(2) by (simp add: unat_of_nat)
  moreover from this have "(of_nat lim :: u32) \<noteq> 0" using assms(1) by (metis unat_0 less_irrefl)
  moreover have "unat head0 mod lim < lim" using assms(1) by simp
  ultimately show ?thesis
    using assms(3,4)
    by (auto simp: dequeue_chan_def make_queue_chan_def ring_idx_def unat_mod slot_free_def slot_used_def dequeue_finish_def)
qed

theorem chan_uninit_witness:
  "\<exists>q' sig. dequeue_chan (make_queue_chan (\<lambda>_ _. 0xAA) 1 0 2 (int 4)) [0, 0] = Inr (Done (q', [0xAA, 0xAA], sig))"
  using chan_uninit_counters [of 4 "[0, 0]" 2 1 0 "\<lambda>_ _. 0xAA"] by (simp add: upt_rec)

end
