(* ===== verification/DynQueue.thy ===== *)
theory DynQueue
  imports RingQueue
begin

text \<open>
  The linked queue of \<open>src/data-queue-concurrent/dynamic.c\<close>: a doubly linked list of allocated nodes.
  Items enter at \<open>qhead\<close> and leave at \<open>qtail\<close>; \<open>prev\<close> points to the next younger node, \<open>next\<close> to the
  next older one. The heap maps the addresses of live nodes to their contents; \<open>dq_brk\<close> is an address
  that was never given out, which the next \<open>malloc\<close> returns, so that an access to a freed node is seen
  as a fault. Producer, consumer and their test data are those of the array queue.
\<close>

section \<open>Data\<close>

type_synonym ptr = "nat option"

record dnode =
  dn_data :: bytes
  dn_datalen :: u32
  dn_prev :: ptr
  dn_next :: ptr

record dqueue =
  dq_limit :: u32
  dq_len :: u32
  dq_head :: ptr
  dq_tail :: ptr
  dq_heap :: "nat \<Rightarrow> dnode option"
  dq_brk :: nat

definition load :: "(nat \<Rightarrow> dnode option) \<Rightarrow> ptr \<Rightarrow> (nat \<times> dnode) res" where
  "load h p = (case p of
     None \<Rightarrow> Inl NullDeref
   | Some a \<Rightarrow> (case h a of None \<Rightarrow> Inl UseAfterFree | Some n \<Rightarrow> Inr (a, n)))"

section \<open>Operations\<close>

definition make_queue_dyn :: "int \<Rightarrow> dqueue" where
  "make_queue_dyn mx = \<lparr>dq_limit = word_of_int mx, dq_len = 0, dq_head = None, dq_tail = None,
     dq_heap = Map.empty, dq_brk = 0\<rparr>"

text \<open>The loop of \<open>delete_queue\<close>, with a bound on the number of iterations; the result is the heap
  that is left. \<open>None\<close> is a loop that did not end within the bound.\<close>

fun delete_loop :: "nat \<Rightarrow> (nat \<Rightarrow> dnode option) \<Rightarrow> ptr \<Rightarrow> (nat \<Rightarrow> dnode option) option res" where
  "delete_loop fuel h None = Inr (Some h)"
| "delete_loop 0 h (Some a) = Inr None"
| "delete_loop (Suc fuel) h (Some a) =
     bindR (load h (Some a)) (\<lambda>(a, n). delete_loop fuel (h(a := None)) (dn_next n))"

definition delete_queue_dyn :: "nat \<Rightarrow> dqueue option \<Rightarrow> (nat \<Rightarrow> dnode option) option res" where
  "delete_queue_dyn fuel q = (case q of
     None \<Rightarrow> Inr (Some Map.empty)
   | Some q \<Rightarrow> delete_loop fuel (dq_heap q) (dq_head q))"

text \<open>What \<open>enqueue\<close> and \<open>dequeue\<close> do once they do not (or no longer) wait.\<close>

definition enqueue_dyn_finish :: "dqueue \<Rightarrow> bytes \<Rightarrow> u32 \<Rightarrow> (dqueue \<times> bool) res" where
  "enqueue_dyn_finish q data datalen =
     (if length data < unat datalen then Inl OutOfBounds else
      let a = dq_brk q;
          newd = \<lparr>dn_data = take (unat datalen) data, dn_datalen = datalen, dn_prev = None, dn_next = dq_head q\<rparr>;
          q = q\<lparr>dq_heap := (dq_heap q)(a \<mapsto> newd), dq_brk := Suc a\<rparr>
      in if dq_len q = 0
         then Inr (q\<lparr>dq_tail := Some a, dq_head := Some a, dq_len := dq_len q + 1\<rparr>, True)
         else bindR (load (dq_heap q) (dq_head q)) (\<lambda>(b, n).
           Inr (q\<lparr>dq_heap := (dq_heap q)(b \<mapsto> n\<lparr>dn_prev := Some a\<rparr>), dq_head := Some a,
                  dq_len := dq_len q + 1\<rparr>, False)))"

definition dequeue_dyn_finish :: "dqueue \<Rightarrow> bytes \<Rightarrow> u32 \<Rightarrow> (dqueue \<times> bytes \<times> bool) res" where
  "dequeue_dyn_finish q data datalen =
     bindR (load (dq_heap q) (dq_tail q)) (\<lambda>(a, d).
     bindR (memcpy data (dn_data d) (unat datalen)) (\<lambda>buf.
     let q = q\<lparr>dq_tail := dn_prev d, dq_heap := (dq_heap q)(a := None)\<rparr>
     in if dq_len q = 1
        then Inr (q\<lparr>dq_head := None, dq_tail := None, dq_len := dq_len q - 1\<rparr>, buf, False)
        else bindR (load (dq_heap q) (dq_tail q)) (\<lambda>(b, n).
          Inr (q\<lparr>dq_heap := (dq_heap q)(b \<mapsto> n\<lparr>dn_next := None\<rparr>), dq_len := dq_len q - 1\<rparr>, buf,
               dq_len q = dq_limit q))))"

definition enqueue_dyn :: "u32 \<Rightarrow> dqueue \<Rightarrow> bytes \<Rightarrow> (unit, dqueue \<times> bool) attempt res" where
  "enqueue_dyn datalen q data =
     (if dq_len q = dq_limit q then Inr (Wait ())
      else bindR (enqueue_dyn_finish q data datalen) (\<lambda>r. Inr (Done r)))"

definition enqueue_dyn_wake :: "u32 \<Rightarrow> dqueue \<Rightarrow> unit \<Rightarrow> bytes \<Rightarrow> (unit, dqueue \<times> bool) attempt res" where
  "enqueue_dyn_wake datalen q w data = bindR (enqueue_dyn_finish q data datalen) (\<lambda>r. Inr (Done r))"

definition dequeue_dyn :: "u32 \<Rightarrow> dqueue \<Rightarrow> bytes \<Rightarrow> (unit, dqueue \<times> bytes \<times> bool) attempt res" where
  "dequeue_dyn datalen q data =
     (if dq_len q = 0 then Inr (Wait ())
      else bindR (dequeue_dyn_finish q data datalen) (\<lambda>r. Inr (Done r)))"

definition dequeue_dyn_wake :: "u32 \<Rightarrow> dqueue \<Rightarrow> unit \<Rightarrow> bytes \<Rightarrow> (unit, dqueue \<times> bytes \<times> bool) attempt res" where
  "dequeue_dyn_wake datalen q w data = bindR (dequeue_dyn_finish q data datalen) (\<lambda>r. Inr (Done r))"

definition dyn_ops :: "u32 \<Rightarrow> (dqueue, unit, bytes) qops" where
  "dyn_ops datalen = \<lparr>q_enq = enqueue_dyn datalen, q_enq_wake = enqueue_dyn_wake datalen,
     q_deq = dequeue_dyn datalen, q_deq_wake = dequeue_dyn_wake datalen\<rparr>"

section \<open>The sequence a linked queue stands for\<close>

text \<open>\<open>as\<close> are the addresses of the nodes, oldest first.\<close>

definition nth_ptr :: "nat list \<Rightarrow> nat \<Rightarrow> ptr" where
  "nth_ptr as i = (if i < length as then Some (as ! i) else None)"

definition dyn_node :: "u32 \<Rightarrow> nat list \<Rightarrow> nat \<Rightarrow> bytes \<Rightarrow> dnode" where
  "dyn_node dlen as i x = \<lparr>dn_data = x, dn_datalen = dlen, dn_prev = nth_ptr as (Suc i),
     dn_next = (if i = 0 then None else Some (as ! (i - 1)))\<rparr>"

definition dyn_links :: "u32 \<Rightarrow> (nat \<Rightarrow> dnode option) \<Rightarrow> nat list \<Rightarrow> bytes list \<Rightarrow> bool" where
  "dyn_links dlen h as xs \<longleftrightarrow> length as = length xs \<and> distinct as \<and> dom h = set as \<and>
     (\<forall>i<length xs. length (xs ! i) = unat dlen \<and> h (as ! i) = Some (dyn_node dlen as i (xs ! i)))"

definition dyn_rep :: "nat \<Rightarrow> u32 \<Rightarrow> dqueue \<Rightarrow> bytes list \<Rightarrow> bool" where
  "dyn_rep lim dlen q xs \<longleftrightarrow> dq_limit q = of_nat lim \<and> dq_len q = of_nat (length xs) \<and> length xs \<le> lim \<and>
     (\<exists>as. dyn_links dlen (dq_heap q) as xs \<and> (\<forall>a\<in>set as. a < dq_brk q) \<and> dq_tail q = nth_ptr as 0 \<and>
        dq_head q = (if as = [] then None else Some (last as)))"

text \<open>The \<open>next\<close> pointers alone, which \<open>delete_queue\<close> follows.\<close>

definition next_links :: "(nat \<Rightarrow> dnode option) \<Rightarrow> nat list \<Rightarrow> bool" where
  "next_links h as \<longleftrightarrow> distinct as \<and> dom h = set as \<and>
     (\<forall>i<length as. \<exists>n. h (as ! i) = Some n \<and> dn_next n = (if i = 0 then None else Some (as ! (i - 1))))"

section \<open>Lemmas\<close>

lemma load_Some [simp]: "h a = Some n \<Longrightarrow> load h (Some a) = Inr (a, n)"
  by (simp add: load_def)

lemma load_None [simp]: "load h None = Inl NullDeref"
  by (simp add: load_def)

lemma dyn_links_last: "dyn_links dlen h [a] [x] \<Longrightarrow> dyn_links dlen (h(a := None)) [] []"
  by (auto simp: dyn_links_def)

lemma dyn_links_tl:
  assumes l: "dyn_links dlen h (a # b # as) (x # xs)"
  shows "\<exists>n. (h(a := None)) b = Some n \<and> dyn_links dlen (h(a := None, b \<mapsto> n\<lparr>dn_next := None\<rparr>)) (b # as) xs"
proof -
  obtain y ys where xs: "xs = y # ys" using l by (cases xs) (auto simp: dyn_links_def)
  let ?n = "dyn_node dlen (a # b # as) 1 y"
  have nodes: "i < Suc (Suc (length ys)) \<Longrightarrow> length ((x # y # ys) ! i) = unat dlen \<and>
      h ((a # b # as) ! i) = Some (dyn_node dlen (a # b # as) i ((x # y # ys) ! i))" for i
    using l by (simp add: dyn_links_def xs)
  have b: "(h(a := None)) b = Some ?n" using nodes [of 1] l by (auto simp: dyn_links_def)
  have "dyn_links dlen (h(a := None, b \<mapsto> ?n\<lparr>dn_next := None\<rparr>)) (b # as) xs"
    unfolding dyn_links_def
  proof (intro conjI allI impI)
    fix i assume i: "i < length xs"
    show "length (xs ! i) = unat dlen" using nodes [of "Suc i"] i by (simp add: xs)
    show "(h(a := None, b \<mapsto> ?n\<lparr>dn_next := None\<rparr>)) ((b # as) ! i) = Some (dyn_node dlen (b # as) i (xs ! i))"
    proof (cases i)
      case 0
      then show ?thesis by (simp add: xs dyn_node_def nth_ptr_def)
    next
      case (Suc j)
      then have "as ! j \<in> set as" using i l by (auto simp: dyn_links_def xs)
      then have "as ! j \<noteq> a" "as ! j \<noteq> b" using l by (auto simp: dyn_links_def)
      then show ?thesis
        using nodes [of "Suc i"] i Suc by (simp add: xs dyn_node_def nth_ptr_def nth_Cons')
    qed
  qed (use l in \<open>auto simp: dyn_links_def xs\<close>)
  with b show ?thesis by blast
qed

lemma dyn_links_single:
  "dyn_links dlen h [] [] \<Longrightarrow> length d = unat dlen \<Longrightarrow>
   dyn_links dlen (h(a \<mapsto> \<lparr>dn_data = d, dn_datalen = dlen, dn_prev = None, dn_next = None\<rparr>)) [a] [d]"
  by (auto simp: dyn_links_def dyn_node_def nth_ptr_def)

lemma dyn_links_snoc:
  assumes l: "dyn_links dlen h as xs" "as \<noteq> []" "a \<notin> set as" and d: "length d = unat dlen"
  shows "\<exists>n. (h(a \<mapsto> new)) (last as) = Some n \<and>
    (new = \<lparr>dn_data = d, dn_datalen = dlen, dn_prev = None, dn_next = Some (last as)\<rparr> \<longrightarrow>
     dyn_links dlen (h(a \<mapsto> new, last as \<mapsto> n\<lparr>dn_prev := Some a\<rparr>)) (as @ [a]) (xs @ [d]))"
proof -
  let ?k = "length as - 1"
  let ?n = "dyn_node dlen as ?k (xs ! ?k)"
  have len: "length as = length xs" and dist: "distinct as" using l by (simp_all add: dyn_links_def)
  have nodes: "i < length xs \<Longrightarrow> length (xs ! i) = unat dlen \<and> h (as ! i) = Some (dyn_node dlen as i (xs ! i))" for i
    using l by (simp add: dyn_links_def)
  have k: "?k < length xs" using l len by (cases as) auto
  have last: "last as = as ! ?k" using l by (simp add: last_conv_nth)
  have ne: "last as \<noteq> a" using l by auto
  then have n: "(h(a \<mapsto> new)) (last as) = Some ?n" using nodes [OF k] by (simp add: last)
  have "dyn_links dlen (h(a \<mapsto> new, last as \<mapsto> ?n\<lparr>dn_prev := Some a\<rparr>)) (as @ [a]) (xs @ [d])"
    if new: "new = \<lparr>dn_data = d, dn_datalen = dlen, dn_prev = None, dn_next = Some (last as)\<rparr>"
    unfolding dyn_links_def
  proof (intro conjI allI impI)
    fix i assume i: "i < length (xs @ [d])"
    show "length ((xs @ [d]) ! i) = unat dlen" using nodes [of i] i d by (auto simp: nth_append)
    have "i < ?k \<or> i = ?k \<or> i = length xs" using i len by simp arith
    then consider "i < ?k" | "i = ?k" | "i = length xs" by blast
    then show "(h(a \<mapsto> new, last as \<mapsto> ?n\<lparr>dn_prev := Some a\<rparr>)) ((as @ [a]) ! i) =
      Some (dyn_node dlen (as @ [a]) i ((xs @ [d]) ! i))"
    proof cases
      case 1
      then have "as ! i \<noteq> last as" "as ! i \<noteq> a"
        using dist l(3) k len by (auto simp: last nth_eq_iff_index_eq)
      moreover have "Suc i < length xs" "i - Suc 0 < length xs" using 1 len by linarith+
      ultimately show ?thesis using nodes [of i] len by (simp add: nth_append dyn_node_def nth_ptr_def)
    next
      case 2
      obtain m where "length xs = Suc m" using k by (cases xs) auto
      with 2 len show ?thesis by (cases m) (simp_all add: nth_append last dyn_node_def nth_ptr_def)
    next
      case 3
      with k len ne new show ?thesis by (auto simp: nth_append last dyn_node_def nth_ptr_def)
    qed
  qed (use l in \<open>auto simp: dyn_links_def\<close>)
  with n show ?thesis by blast
qed

text \<open>The queue must have room for two items: with a limit of one no signal is ever sent to a
  waiting producer.\<close>

locale dyn_dims =
  fixes lim :: nat and dlen :: u32
  assumes lim_two: "2 \<le> lim" and lim_small: "lim < 2 ^ 32"
begin

lemma len_eq: "n \<le> lim \<Longrightarrow> k \<le> lim \<Longrightarrow> (of_nat n :: u32) = of_nat k \<longleftrightarrow> n = k"
  using lim_small by (auto simp: word_of_nat_eq_iff take_bit_nat_eq_self)

lemma rep_limit: "dyn_rep lim dlen q xs \<Longrightarrow> dq_len q = dq_limit q \<longleftrightarrow> length xs = lim"
  using len_eq [of "length xs" lim] by (auto simp: dyn_rep_def)

lemma rep_empty: "dyn_rep lim dlen q xs \<Longrightarrow> dq_len q = 0 \<longleftrightarrow> xs = []"
  using len_eq [of "length xs" 0] by (auto simp: dyn_rep_def)

lemma rep_one: "dyn_rep lim dlen q xs \<Longrightarrow> dq_len q = 1 \<longleftrightarrow> length xs = 1"
  using len_eq [of "length xs" 1] lim_two by (auto simp: dyn_rep_def)

lemma enqueue_dyn_finish_ok:
  assumes r: "dyn_rep lim dlen q xs" and l: "length xs < lim" and d: "length d = unat dlen"
  shows "\<exists>q'. enqueue_dyn_finish q d dlen = Inr (q', xs = []) \<and> dyn_rep lim dlen q' (xs @ [d])"
proof -
  obtain as where as: "dyn_links dlen (dq_heap q) as xs" "\<forall>a\<in>set as. a < dq_brk q" "dq_tail q = nth_ptr as 0"
      "dq_head q = (if as = [] then None else Some (last as))"
    and lim: "dq_limit q = of_nat lim" "dq_len q = of_nat (length xs)"
    using r by (auto simp: dyn_rep_def)
  show ?thesis
  proof (cases "xs = []")
    case True
    then have "as = []" using as(1) by (simp add: dyn_links_def)
    with True as lim l d dyn_links_single [of dlen "dq_heap q" d "dq_brk q"] show ?thesis
      by (auto simp: enqueue_dyn_finish_def Let_def dyn_rep_def nth_ptr_def intro!: exI [of _ "[dq_brk q]"])
  next
    case False
    then have ne: "as \<noteq> []" using as(1) by (auto simp: dyn_links_def)
    have fresh: "dq_brk q \<notin> set as" using as(2) by auto
    let ?new = "\<lparr>dn_data = d, dn_datalen = dlen, dn_prev = None, dn_next = Some (last as)\<rparr>"
    obtain n where n: "((dq_heap q)(dq_brk q \<mapsto> ?new)) (last as) = Some n"
      "dyn_links dlen ((dq_heap q)(dq_brk q \<mapsto> ?new, last as \<mapsto> n\<lparr>dn_prev := Some (dq_brk q)\<rparr>)) (as @ [dq_brk q]) (xs @ [d])"
      using dyn_links_snoc [OF as(1) ne fresh d, of ?new] by blast
    have "nth_ptr (as @ [dq_brk q]) 0 = nth_ptr as 0" using ne by (simp add: nth_ptr_def nth_append)
    with n False as lim l d ne rep_empty [OF r] show ?thesis
      by (auto simp: enqueue_dyn_finish_def Let_def dyn_rep_def less_SucI intro!: exI [of _ "as @ [dq_brk q]"])
  qed
qed

lemma dequeue_dyn_finish_ok:
  assumes r: "dyn_rep lim dlen q (x # xs)" and d: "length b = unat dlen"
  shows "\<exists>q' sig. dequeue_dyn_finish q b dlen = Inr (q', x, sig) \<and> dyn_rep lim dlen q' xs \<and>
    (Suc (length xs) = lim \<longrightarrow> sig)"
proof -
  obtain a as where as: "dyn_links dlen (dq_heap q) (a # as) (x # xs)" "\<forall>c\<in>set (a # as). c < dq_brk q"
      "dq_tail q = Some a" "dq_head q = Some (last (a # as))"
    and lim: "dq_limit q = of_nat lim" "dq_len q = of_nat (Suc (length xs))" "Suc (length xs) \<le> lim"
  proof -
    obtain cs where cs: "dyn_links dlen (dq_heap q) cs (x # xs)" "\<forall>c\<in>set cs. c < dq_brk q"
        "dq_tail q = nth_ptr cs 0" "dq_head q = (if cs = [] then None else Some (last cs))"
      using r by (auto simp: dyn_rep_def)
    moreover obtain a as where "cs = a # as" using cs(1) by (cases cs) (auto simp: dyn_links_def)
    ultimately show ?thesis using that [of a as] r by (simp add: nth_ptr_def dyn_rep_def)
  qed
  have node: "dq_heap q a = Some (dyn_node dlen (a # as) 0 x)" "length x = unat dlen"
    using as(1) unfolding dyn_links_def by force+
  show ?thesis
  proof (cases as)
    case Nil
    then have xs: "xs = []" using as(1) by (simp add: dyn_links_def)
    with Nil as have "dyn_links dlen ((dq_heap q)(a := None)) [] []" using dyn_links_last by simp
    with Nil xs as lim lim_two node d show ?thesis
      by (auto simp: dequeue_dyn_finish_def dyn_node_def dyn_rep_def nth_ptr_def intro!: exI [of _ "[]"])
  next
    case (Cons c cs)
    then have xs: "xs \<noteq> []" using as(1) by (auto simp: dyn_links_def)
    obtain n where n: "((dq_heap q)(a := None)) c = Some n"
      "dyn_links dlen ((dq_heap q)(a := None, c \<mapsto> n\<lparr>dn_next := None\<rparr>)) (c # cs) xs"
      using dyn_links_tl [OF as(1) [unfolded Cons]] by blast
    have ca: "c \<noteq> a" using as(1) Cons by (auto simp: dyn_links_def)
    with n(1) have c: "dq_heap q c = Some n" by simp
    let ?q = "q\<lparr>dq_tail := Some c, dq_heap := (dq_heap q)(a := None, c \<mapsto> n\<lparr>dn_next := None\<rparr>), dq_len := dq_len q - 1\<rparr>"
    have "dq_len q \<noteq> 1" "dq_len q = dq_limit q \<longleftrightarrow> Suc (length xs) = lim"
      using rep_one [OF r] rep_limit [OF r] xs by auto
    then have "dequeue_dyn_finish q b dlen = Inr (?q, x, Suc (length xs) = lim)"
      using as(3) node d ca c Cons
      by (simp add: dequeue_dyn_finish_def dyn_node_def nth_ptr_def)
    moreover have "dyn_rep lim dlen ?q xs"
      unfolding dyn_rep_def using lim as(2,4) Cons n(2)
      by (intro conjI exI [of _ "c # cs"]) (simp_all add: nth_ptr_def)
    ultimately show ?thesis by blast
  qed
qed

end

sublocale dyn_dims \<subseteq> dyn: spsc_queue "dyn_ops dlen" "dyn_rep lim dlen" lim "\<lambda>d. length d = unat dlen"
    "\<lambda>_ _. True" "\<lambda>_ _. True"
proof (unfold_locales, goal_cases)
  case 1 show ?case using lim_two by simp
next
  case 2 then show ?case by (simp add: dyn_rep_def)
next
  case (3 q xs x) then show ?case by (auto simp: dyn_rep_def dyn_links_def in_set_conv_nth)
next
  case (4 q xs d) then show ?case
    using enqueue_dyn_finish_ok [of q xs d] rep_limit [of q xs] by (auto simp: dyn_ops_def enqueue_dyn_def)
next
  case (5 q xs d) then show ?case
    using rep_limit [of q xs] by (auto simp: dyn_ops_def enqueue_dyn_def)
next
  case (6 q xs d w) then show ?case
    using enqueue_dyn_finish_ok [of q xs d] by (auto simp: dyn_ops_def enqueue_dyn_wake_def)
next
  case (7 q x xs b) then show ?case
    using dequeue_dyn_finish_ok [of q x xs b] rep_empty [of q "x # xs"] by (auto simp: dyn_ops_def dequeue_dyn_def)
next
  case (8 q b) then show ?case
    using rep_empty [of q "[]"] by (auto simp: dyn_ops_def dequeue_dyn_def)
next
  case (9 q x xs b w) then show ?case
    using dequeue_dyn_finish_ok [of q x xs b] by (auto simp: dyn_ops_def dequeue_dyn_wake_def)
qed

context dyn_dims
begin

lemmas dyn_runs_complete = dyn.runs_complete
lemmas dyn_runs_inv = dyn.runs_inv
lemmas dyn_inv_init = dyn.inv_init
lemmas dyn_invE = dyn.invE

end

interpretation dynq: dyn_dims 100000000 8
  by unfold_locales simp_all

lemma make_queue_dyn_rep: "dyn_rep lim dlen (make_queue_dyn (int lim)) []"
  by (auto simp: dyn_rep_def make_queue_dyn_def dyn_links_def nth_ptr_def)

lemma delete_loop_all:
  "next_links h as \<Longrightarrow> length as \<le> fuel \<Longrightarrow>
   delete_loop fuel h (if as = [] then None else Some (last as)) = Inr (Some Map.empty)"
proof (induction as arbitrary: h fuel rule: rev_induct)
  case Nil
  then show ?case by (simp add: next_links_def)
next
  case (snoc a as)
  obtain n where n: "h a = Some n" "dn_next n = (if as = [] then None else Some (last as))"
    using snoc.prems(1) unfolding next_links_def
    by (auto simp: nth_append last_conv_nth dest!: spec [of _ "length as"])
  have links: "next_links (h(a := None)) as"
    unfolding next_links_def
  proof (intro conjI allI impI)
    fix i assume i: "i < length as"
    then have "as ! i \<noteq> a" using snoc.prems(1) by (auto simp: next_links_def)
    then show "\<exists>n. (h(a := None)) (as ! i) = Some n \<and> dn_next n = (if i = 0 then None else Some (as ! (i - 1)))"
      using snoc.prems(1) i unfolding next_links_def by (auto simp: nth_append dest!: spec [of _ i])
  qed (use snoc.prems(1) in \<open>auto simp: next_links_def\<close>)
  obtain f where f: "fuel = Suc f" "length as \<le> f" using snoc.prems(2) by (cases fuel) auto
  have "delete_loop f (h(a := None)) (dn_next n) = Inr (Some Map.empty)"
    unfolding n(2) by (rule snoc.IH [OF links f(2)])
  with n(1) f(1) show ?case by simp
qed

lemma delete_queue_dyn_all:
  assumes "dyn_rep lim dlen q xs" and "length xs \<le> fuel"
  shows "delete_queue_dyn fuel (Some q) = Inr (Some Map.empty)"
proof -
  obtain as where as: "dyn_links dlen (dq_heap q) as xs" "dq_head q = (if as = [] then None else Some (last as))"
    using assms(1) by (auto simp: dyn_rep_def)
  have "next_links (dq_heap q) as"
    using as(1) by (auto simp: next_links_def dyn_links_def dyn_node_def)
  with as assms(2) delete_loop_all [of "dq_heap q" as fuel] show ?thesis
    by (simp add: delete_queue_dyn_def dyn_links_def)
qed

lemma spsc_four_steps:
  assumes "\<exists>s1 s2 s3 s4. spsc_step ops Producer s0 = Inr (Some s1) \<and> spsc_step ops Producer s1 = Inr (Some s2) \<and>
    spsc_step ops Consumer s2 = Inr (Some s3) \<and> spsc_step ops Consumer s3 = Inr (Some s4) \<and> P s4"
  shows "\<exists>s4. spsc_runs ops sp 4 s0 s4 \<and> P s4"
proof -
  obtain s1 s2 s3 s4 where s: "spsc_step ops Producer s0 = Inr (Some s1)" "spsc_step ops Producer s1 = Inr (Some s2)"
    "spsc_step ops Consumer s2 = Inr (Some s3)" "spsc_step ops Consumer s3 = Inr (Some s4)" "P s4"
    using assms by blast
  have "spsc_runs ops sp (Suc (Suc (Suc (Suc 0)))) s0 s4"
    by (rule runs_step [OF runs_step [OF runs_step [OF runs_step [OF runs_refl _ s(1)] _ s(2)] _ s(3)] _ s(4)]) simp_all
  with s(5) show ?thesis by (auto simp: eval_nat_numeral)
qed

lemmas dyn_eval = dyn_ops_def enqueue_dyn_def enqueue_dyn_wake_def enqueue_dyn_finish_def dequeue_dyn_def
  dequeue_dyn_wake_def dequeue_dyn_finish_def make_queue_dyn_def spsc_init_def do_enqueue_def enq_result_def
  deq_result_def spsc_stuck_def load_def

lemma dyn_run_example:
  "\<exists>s. spsc_runs (dyn_ops 8) False 4 (spsc_init (make_queue_dyn (int 2)) (do_enqueue 2) (replicate 8 0)) s \<and>
     spsc_stuck (dyn_ops 8) s"
  by (rule spsc_four_steps) (simp add: dyn_eval upt_rec)

section \<open>Properties\<close>

text \<open>
  C32. With a limit of at least two and a condition variable that only wakes signalled threads, the
  linked queue takes every execution of the two threads to its end: at most \<open>4 n + 2\<close> steps, no access
  to a null or freed node, all items received in order when no thread can move; and at every moment
  \<open>delete_queue\<close> frees exactly the nodes that are left.
\<close>

theorem dyn_spsc_total:
  assumes "2 \<le> lim" "lim < 2 ^ 32" "length buf = 8"
    and run: "spsc_runs (dyn_ops 8) False k (spsc_init (make_queue_dyn (int lim)) (do_enqueue n) buf) s"
  shows "k \<le> 4 * n + 2 \<and> (\<forall>a. is_ok (spsc_step (dyn_ops 8) a s)) \<and>
    (spsc_stuck (dyn_ops 8) s \<longrightarrow> s_out s = do_enqueue n \<and> do_dequeue 0 (s_out s) = None) \<and>
    delete_queue_dyn lim (Some (s_q s)) = Inr (Some Map.empty)"
proof -
  have dims: "dyn_dims lim" using assms by unfold_locales
  have buf: "length buf = unat (8 :: u32)" using assms(3) by simp
  note total = dyn_dims.dyn_runs_complete [OF dims run make_queue_dyn_rep do_enqueue_okd buf]
  obtain xs where "dyn_rep lim 8 (s_q s) xs"
    using dyn_dims.dyn_invE [OF dims] dyn_dims.dyn_runs_inv [OF dims run]
      dyn_dims.dyn_inv_init [OF dims make_queue_dyn_rep do_enqueue_okd buf] by metis
  then have "delete_queue_dyn lim (Some (s_q s)) = Inr (Some Map.empty)"
    by (rule delete_queue_dyn_all) (use \<open>dyn_rep lim 8 (s_q s) xs\<close> in \<open>simp add: dyn_rep_def\<close>)
  moreover have "k \<le> 4 * n + 2" using total(1) by (simp add: do_enqueue_def)
  ultimately show ?thesis using total(2,4) do_dequeue_sent [of "do_enqueue n" "[]" n] by simp
qed

theorem dyn_spsc_witness:
  "\<exists>s. spsc_runs (dyn_ops 8) False 4 (spsc_init (make_queue_dyn (int 2)) (do_enqueue 2) (replicate 8 0)) s \<and>
     s_out s = do_enqueue 2 \<and> delete_queue_dyn 2 (Some (s_q s)) = Inr (Some Map.empty)"
proof -
  obtain s where s: "spsc_runs (dyn_ops 8) False 4
      (spsc_init (make_queue_dyn (int 2)) (do_enqueue 2) (replicate 8 0)) s" "spsc_stuck (dyn_ops 8) s"
    using dyn_run_example by blast
  with dyn_spsc_total [OF _ _ _ s(1)] show ?thesis by auto
qed

text \<open>
  With a limit of one the program can deadlock: \<open>dequeue\<close> of the only item sends no signal, so that a
  producer that waits for room is never woken.
\<close>

lemma dyn_limit_one_deadlock:
  "\<exists>s. spsc_runs (dyn_ops 8) False 4 (spsc_init (make_queue_dyn (int 1)) (do_enqueue 2) (replicate 8 0)) s \<and>
     spsc_stuck (dyn_ops 8) s \<and> length (s_out s) = 1 \<and> length (s_in s) = 1"
  by (rule spsc_four_steps) (simp add: dyn_eval upt_rec)

text \<open>
  When the wait of \<open>dequeue\<close> on an empty queue returns without a signal, the null pointer \<open>qtail\<close> is
  dereferenced.
\<close>

lemma dyn_spurious_null:
  assumes "dyn_rep lim dlen q []"
  shows "dequeue_dyn dlen q buf = Inr (Wait ()) \<and> dequeue_dyn_wake dlen q () buf = Inl NullDeref"
  using assms by (auto simp: dequeue_dyn_def dequeue_dyn_wake_def dequeue_dyn_finish_def dyn_rep_def
      dyn_links_def nth_ptr_def)

theorem dyn_spurious_witness:
  "dequeue_dyn 8 (make_queue_dyn (int 4)) (replicate 8 0) = Inr (Wait ()) \<and>
   dequeue_dyn_wake 8 (make_queue_dyn (int 4)) () (replicate 8 0) = Inl NullDeref"
  by (rule dyn_spurious_null [OF make_queue_dyn_rep])

end
