(* ===== verification/RcuCmap.thy ===== *)
theory RcuCmap
  imports Interfaces
begin

text \<open>
  The kernel hash map of \<open>src/ksync-rcu-cmap/rcucmap.c\<close>: buckets of linked nodes, a spinlock per bucket
  for the writers, and readers that only hold the RCU read lock. A node carries the address it was
  allocated at: \<open>list_replace_rcu\<close> puts a new node where the old one was, and the old one is handed to
  \<open>call_rcu\<close>. The map also records the next unused address and the addresses handed to
  \<open>call_rcu\<close>. \<open>kzalloc\<close> may fail; whether it does is an argument of the operation.
\<close>

section \<open>Data\<close>

record rnode =
  rn_addr :: nat
  rn_key :: u32
  rn_value :: u32

record cc_map =
  cc_buckets :: "rnode list list"
  cc_count :: int
  cc_brk :: nat
  cc_rcu :: "nat list"

definition OP_COUNT :: nat where
  "OP_COUNT = 10"

section \<open>Operations\<close>

definition ccmap_hash :: "u32 \<Rightarrow> u32 \<Rightarrow> u32 res" where
  "ccmap_hash key bcount =
    (let h = ((drop_bit 16 key) XOR key) * 0x45d9f3b;
         h = ((drop_bit 16 h) XOR h) * 0x45d9f3b;
         h = (drop_bit 16 h) XOR h
     in if bcount = 0 then Inl DivByZero else Inr (h mod bcount))"

definition make_ccmap :: "int \<Rightarrow> cc_map" where
  "make_ccmap bcount = \<lparr>cc_buckets = replicate (nat bcount) [], cc_count = bcount, cc_brk = 0, cc_rcu = []\<rparr>"

text \<open>The \<open>list_for_each_entry\<close> loops: the first node with the key.\<close>

fun find_node :: "u32 \<Rightarrow> rnode list \<Rightarrow> rnode option" where
  "find_node key [] = None"
| "find_node key (n # ns) = (if rn_key n \<noteq> key then find_node key ns else Some n)"

text \<open>\<open>list_replace_rcu\<close> and \<open>list_del_rcu\<close> work on the node itself, which its address identifies.\<close>

definition list_replace_rcu :: "rnode \<Rightarrow> rnode \<Rightarrow> rnode list \<Rightarrow> rnode list" where
  "list_replace_rcu old new ns = map (\<lambda>n. if rn_addr n = rn_addr old then new else n) ns"

definition list_del_rcu :: "rnode \<Rightarrow> rnode list \<Rightarrow> rnode list" where
  "list_del_rcu old ns = filter (\<lambda>n. rn_addr n \<noteq> rn_addr old) ns"

definition update_ccmap :: "bool \<Rightarrow> cc_map \<Rightarrow> u32 \<Rightarrow> u32 \<Rightarrow> (cc_map \<times> int) res" where
  "update_ccmap alloc_ok cm key value =
     bindR (ccmap_hash key (word_of_int (cc_count cm))) (\<lambda>idx.
     bindR (arr_get (cc_buckets cm) (unat idx)) (\<lambda>ns.
     if \<not> alloc_ok then Inr (cm, -1)
     else
       (let a = cc_brk cm; cm = cm\<lparr>cc_brk := Suc a\<rparr> in
        (case find_node key ns of
          None \<Rightarrow>
            (let new_n = \<lparr>rn_addr = a, rn_key = key, rn_value = value\<rparr>
             in Inr (cm\<lparr>cc_buckets := (cc_buckets cm)[unat idx := new_n # ns]\<rparr>, sint idx))
        | Some old_n \<Rightarrow>
            (let new_n = old_n\<lparr>rn_addr := a, rn_value := value\<rparr>
             in Inr (cm\<lparr>cc_buckets := (cc_buckets cm)[unat idx := list_replace_rcu old_n new_n ns],
                       cc_rcu := cc_rcu cm @ [rn_addr old_n]\<rparr>, sint idx))))))"

definition remove_ccmap :: "cc_map \<Rightarrow> u32 \<Rightarrow> (cc_map \<times> int) res" where
  "remove_ccmap cm key =
     bindR (ccmap_hash key (word_of_int (cc_count cm))) (\<lambda>idx.
     bindR (arr_get (cc_buckets cm) (unat idx)) (\<lambda>ns.
     case find_node key ns of
       None \<Rightarrow> Inr (cm, -1)
     | Some n \<Rightarrow> Inr (cm\<lparr>cc_buckets := (cc_buckets cm)[unat idx := list_del_rcu n ns],
                        cc_rcu := cc_rcu cm @ [rn_addr n]\<rparr>, sint idx)))"

definition get_ccmap_rcu :: "cc_map \<Rightarrow> u32 \<Rightarrow> rnode option res" where
  "get_ccmap_rcu cm key =
     bindR (ccmap_hash key (word_of_int (cc_count cm))) (\<lambda>idx.
     bindR (arr_get (cc_buckets cm) (unat idx)) (\<lambda>ns. Inr (find_node key ns)))"

text \<open>\<open>delete_ccmap\<close>: the addresses that are freed, bucket by bucket.\<close>

definition delete_ccmap :: "cc_map option \<Rightarrow> nat list res" where
  "delete_ccmap cm = (case cm of
     None \<Rightarrow> Inr []
   | Some cm \<Rightarrow> foldR (\<lambda>fs i. bindR (arr_get (cc_buckets cm) i) (\<lambda>ns. Inr (fs @ map rn_addr ns)))
       [] [0..<nat (cc_count cm)])"

section \<open>The writer and the reader task\<close>

text \<open>The writer ignores the results of the operations, which it only prints. Here every allocation
  succeeds.\<close>

definition writer_update :: "cc_map \<Rightarrow> u32 \<Rightarrow> u32 \<Rightarrow> cc_map res" where
  "writer_update cm k v = bindR (update_ccmap True cm k v) (\<lambda>(cm, idx). Inr cm)"

definition writer_remove :: "cc_map \<Rightarrow> u32 \<Rightarrow> cc_map res" where
  "writer_remove cm k = bindR (remove_ccmap cm k) (\<lambda>(cm, idx). Inr cm)"

definition op_keys :: "u32 list" where
  "op_keys = map of_nat [0..<OP_COUNT]"

text \<open>One round of updates, the rounds of the \<open>while\<close> loop, and the whole task.\<close>

definition update_round :: "(u32 \<Rightarrow> u32) \<Rightarrow> cc_map \<Rightarrow> cc_map res" where
  "update_round f cm = foldR (\<lambda>cm k. writer_update cm k (f k)) cm op_keys"

definition writer_ready :: "cc_map res" where
  "writer_ready = update_round (\<lambda>k. k) (make_ccmap (int OP_COUNT))"

definition writer_steps :: "cc_map \<Rightarrow> cc_map res" where
  "writer_steps cm = foldR (\<lambda>cm step. update_round (\<lambda>k. k * of_nat step) cm) cm [1..<OP_COUNT div 2]"

definition task_writer :: "cc_map res" where
  "task_writer =
     bindR writer_ready (\<lambda>cm.
     bindR (writer_steps cm) (\<lambda>cm. foldR writer_remove cm op_keys))"

text \<open>One pass of the reader over all keys; \<open>st\<close> gives the map it sees at each key, since the writer
  may run in between.\<close>

definition reader_pass :: "(u32 \<Rightarrow> cc_map) \<Rightarrow> u32 res" where
  "reader_pass st = foldR (\<lambda>sum k. bindR (get_ccmap_rcu (st k) k) (\<lambda>n.
     Inr (case n of None \<Rightarrow> sum | Some n \<Rightarrow> sum + rn_value n))) 0 op_keys"

section \<open>Readers, writers and grace periods\<close>

text \<open>
  One reader next to any number of updates and removals. The reader is outside its read-side
  section, inside it, or inside it holding the node it found. A pending callback remembers whether
  the reader was inside a section when \<open>call_rcu\<close> was called; it may run, and free its node, once that
  section has ended.
\<close>

datatype reader = Outside | Inside | Holding rnode

record rcu_state =
  rs_map :: cc_map
  rs_reader :: reader
  rs_pending :: "(nat \<times> bool) list"
  rs_freed :: "nat list"

definition queue_callbacks :: "rcu_state \<Rightarrow> cc_map \<Rightarrow> rcu_state" where
  "queue_callbacks s cm = s\<lparr>rs_map := cm,
     rs_pending := rs_pending s @ map (\<lambda>a. (a, rs_reader s \<noteq> Outside)) (drop (length (cc_rcu (rs_map s))) (cc_rcu cm))\<rparr>"

inductive rcu_step :: "rcu_state \<Rightarrow> rcu_state \<Rightarrow> bool" where
  rcu_update: "update_ccmap ok (rs_map s) k v = Inr (cm, r) \<Longrightarrow> rcu_step s (queue_callbacks s cm)"
| rcu_remove: "remove_ccmap (rs_map s) k = Inr (cm, r) \<Longrightarrow> rcu_step s (queue_callbacks s cm)"
| rcu_lock: "rs_reader s = Outside \<Longrightarrow> rcu_step s (s\<lparr>rs_reader := Inside\<rparr>)"
| rcu_find: "rs_reader s = Inside \<Longrightarrow> get_ccmap_rcu (rs_map s) k = Inr (Some n) \<Longrightarrow>
    rcu_step s (s\<lparr>rs_reader := Holding n\<rparr>)"
| rcu_unlock: "rs_reader s \<noteq> Outside \<Longrightarrow>
    rcu_step s (s\<lparr>rs_reader := Outside, rs_pending := map (\<lambda>(a, w). (a, False)) (rs_pending s)\<rparr>)"
| rcu_callback: "rs_pending s = ps @ (a, False) # qs \<Longrightarrow>
    rcu_step s (s\<lparr>rs_pending := ps @ qs, rs_freed := rs_freed s @ [a]\<rparr>)"

inductive rcu_reachable :: "rcu_state \<Rightarrow> bool" where
  rcu_start: "0 < n \<Longrightarrow> n < 0x80000000 \<Longrightarrow>
    rcu_reachable \<lparr>rs_map = make_ccmap n, rs_reader = Outside, rs_pending = [], rs_freed = []\<rparr>"
| rcu_next: "rcu_reachable s \<Longrightarrow> rcu_step s s' \<Longrightarrow> rcu_reachable s'"

section \<open>The map a table stands for, and its invariant\<close>

definition ccmap_idx :: "cc_map \<Rightarrow> u32 \<Rightarrow> nat" where
  "ccmap_idx cm k = (case ccmap_hash k (word_of_int (cc_count cm)) of Inl _ \<Rightarrow> 0 | Inr i \<Rightarrow> unat i)"

definition ccmap_lookup :: "cc_map \<Rightarrow> u32 \<Rightarrow> u32 option" where
  "ccmap_lookup cm k = map_option rn_value (find_node k (cc_buckets cm ! ccmap_idx cm k))"

definition ccmap_addrs :: "cc_map \<Rightarrow> nat list" where
  "ccmap_addrs cm = map rn_addr (concat (cc_buckets cm)) @ cc_rcu cm"

text \<open>Keys lie in their bucket, once; every address given out is in the map or was handed to
  \<open>call_rcu\<close>, exactly once.\<close>

definition ccmap_wf :: "cc_map \<Rightarrow> bool" where
  "ccmap_wf cm \<longleftrightarrow> 0 < cc_count cm \<and> cc_count cm < 0x80000000 \<and> length (cc_buckets cm) = nat (cc_count cm) \<and>
     (\<forall>i<length (cc_buckets cm). distinct (map rn_key (cc_buckets cm ! i)) \<and>
        (\<forall>n\<in>set (cc_buckets cm ! i). ccmap_idx cm (rn_key n) = i)) \<and>
     mset (ccmap_addrs cm) = mset [0..<cc_brk cm]"

text \<open>What holds of the map while the writer has not started to remove: key \<open>i\<close> has the value \<open>i * s\<close>
  of one of its rounds.\<close>

definition values_ok :: "cc_map \<Rightarrow> bool" where
  "values_ok cm \<longleftrightarrow> ccmap_wf cm \<and>
     (\<forall>i<OP_COUNT. \<exists>s\<in>{1..<OP_COUNT div 2}. ccmap_lookup cm (of_nat i) = Some (of_nat (i * s)))"

text \<open>Callbacks that are pending or have run are those of \<open>call_rcu\<close>, and a node that the reader holds is
  still in the map or its callback waits for this reader.\<close>

definition rcu_inv :: "rcu_state \<Rightarrow> bool" where
  "rcu_inv s \<longleftrightarrow> ccmap_wf (rs_map s) \<and>
     mset (map fst (rs_pending s)) + mset (rs_freed s) = mset (cc_rcu (rs_map s)) \<and>
     (\<forall>n. rs_reader s = Holding n \<longrightarrow>
        rn_addr n \<in> set (map rn_addr (concat (cc_buckets (rs_map s)))) \<or> (rn_addr n, True) \<in> set (rs_pending s))"

section \<open>Lemmas\<close>

lemma find_node_None: "find_node k ns = None \<longleftrightarrow> k \<notin> rn_key ` set ns"
  by (induction k ns rule: find_node.induct) auto

lemma find_node_Some:
  "find_node k ns = Some n \<Longrightarrow> \<exists>as bs. ns = as @ n # bs \<and> rn_key n = k \<and> k \<notin> rn_key ` set as"
proof (induction k ns rule: find_node.induct)
  case (2 k m ns)
  show ?case
  proof (cases "rn_key m = k")
    case True
    with 2(2) show ?thesis by (intro exI [of _ "[]"] exI [of _ ns]) auto
  next
    case False
    with 2 obtain as bs where "ns = as @ n # bs" "rn_key n = k" "k \<notin> rn_key ` set as" by auto
    with False show ?thesis by (intro exI [of _ "m # as"] exI [of _ bs]) auto
  qed
qed simp

lemma find_node_append:
  "find_node k (as @ bs) = (case find_node k as of None \<Rightarrow> find_node k bs | Some n \<Rightarrow> Some n)"
  by (induction k as rule: find_node.induct) auto

lemma rn_addr_apart:
  assumes "distinct (map rn_addr (as @ old # bs))" and "n \<in> set as \<union> set bs"
  shows "rn_addr n \<noteq> rn_addr old"
proof -
  have "rn_addr old \<notin> rn_addr ` (set as \<union> set bs)" using assms(1) by auto
  with assms(2) show ?thesis by (metis image_eqI)
qed

lemma list_replace_rcu_middle:
  assumes "distinct (map rn_addr (as @ old # bs))"
  shows "list_replace_rcu old new (as @ old # bs) = as @ new # bs"
  using rn_addr_apart [OF assms] by (simp add: list_replace_rcu_def map_idI)

lemma list_del_rcu_middle:
  assumes "distinct (map rn_addr (as @ old # bs))"
  shows "list_del_rcu old (as @ old # bs) = as @ bs"
  using rn_addr_apart [OF assms] by (simp add: list_del_rcu_def)

lemma ccmap_idx:
  assumes "ccmap_wf cm"
  shows "\<exists>i. ccmap_hash k (word_of_int (cc_count cm)) = Inr i \<and> unat i = ccmap_idx cm k \<and>
    ccmap_idx cm k < length (cc_buckets cm)"
proof -
  have c: "0 < cc_count cm" "cc_count cm < 0x80000000" using assms by (simp_all add: ccmap_wf_def)
  then have u: "uint (word_of_int (cc_count cm) :: u32) = cc_count cm"
    by (simp add: uint_word_of_int take_bit_int_eq_self)
  then have nz: "(word_of_int (cc_count cm) :: u32) \<noteq> 0" using c by auto
  then obtain i where i: "ccmap_hash k (word_of_int (cc_count cm)) = Inr i"
    and "uint i < cc_count cm"
    using u c by (auto simp: ccmap_hash_def Let_def uint_mod)
  then have "unat i < nat (cc_count cm)" by (simp add: zless_nat_eq_int_zless)
  with i assms show ?thesis by (simp add: ccmap_idx_def ccmap_wf_def)
qed

lemma ccmap_idx_count: "cc_count cm' = cc_count cm \<Longrightarrow> ccmap_idx cm' k = ccmap_idx cm k"
  by (simp add: ccmap_idx_def)

lemma ccmap_wf_bucket:
  assumes "ccmap_wf cm" and "j < length (cc_buckets cm)"
  shows "distinct (map rn_key (cc_buckets cm ! j))" and "distinct (map rn_addr (cc_buckets cm ! j))"
    and "n \<in> set (cc_buckets cm ! j) \<Longrightarrow> ccmap_idx cm (rn_key n) = j"
proof -
  have "distinct (map rn_key (cc_buckets cm ! j)) \<and> (\<forall>n\<in>set (cc_buckets cm ! j). ccmap_idx cm (rn_key n) = j)"
    using assms unfolding ccmap_wf_def by blast
  then show "distinct (map rn_key (cc_buckets cm ! j))"
    and "n \<in> set (cc_buckets cm ! j) \<Longrightarrow> ccmap_idx cm (rn_key n) = j" by blast+
  have "mset (ccmap_addrs cm) = mset [0..<cc_brk cm]" using assms(1) unfolding ccmap_wf_def by blast
  then have "distinct (ccmap_addrs cm)"
    using mset_eq_imp_distinct_iff [of "ccmap_addrs cm" "[0..<cc_brk cm]"] by simp
  then have "distinct (concat (map (map rn_addr) (cc_buckets cm)))"
    by (simp add: ccmap_addrs_def map_concat)
  then show "distinct (map rn_addr (cc_buckets cm ! j))"
    using assms(2) unfolding distinct_concat_iff by (metis nth_mem list.set_map image_eqI)
qed

text \<open>The effect of replacing the nodes of one bucket.\<close>

lemma ccmap_wf_set_bucket:
  assumes wf: "ccmap_wf cm" and j: "j < length (cc_buckets cm)"
    and "distinct (map rn_key ns')" "\<forall>n\<in>set ns'. ccmap_idx cm (rn_key n) = j"
    and m: "mset (map rn_addr ns') + mset (map rn_addr (concat (cc_buckets cm))) + mset rs =
      mset (map rn_addr (cc_buckets cm ! j)) + mset [0..<b]"
  shows "ccmap_wf (cm\<lparr>cc_buckets := (cc_buckets cm)[j := ns'], cc_brk := b, cc_rcu := rs\<rparr>)" (is "ccmap_wf ?cm")
proof -
  let ?A = "image_mset rn_addr"
  let ?X = "?A (mset (concat ((cc_buckets cm)[j := ns'])))" and ?B = "?A (mset (cc_buckets cm ! j))"
  have eq: "?X + ?B = ?A (mset (concat (cc_buckets cm))) + ?A (mset ns')"
    using arg_cong [OF mset_concat_list_update [OF j, of ns'], of ?A] by (simp only: image_mset_union)
  have "?B + (?X + mset rs) = (?X + ?B) + mset rs" by (simp only: ac_simps)
  also have "\<dots> = ?B + mset [0..<b]" unfolding eq using m by (simp add: ac_simps)
  finally have "mset (ccmap_addrs ?cm) = mset [0..<b]" by (simp add: ccmap_addrs_def)
  moreover have "ccmap_idx ?cm = ccmap_idx cm" by (rule ext, rule ccmap_idx_count) simp
  ultimately show ?thesis
    using wf j assms(3,4) unfolding ccmap_wf_def by (simp add: nth_list_update)
qed

lemma ccmap_lookup_set_bucket:
  assumes "ccmap_wf cm" "cc_buckets cm' = (cc_buckets cm)[ccmap_idx cm k := ns']" "cc_count cm' = cc_count cm"
    and "\<And>k'. k' \<noteq> k \<Longrightarrow> find_node k' ns' = find_node k' (cc_buckets cm ! ccmap_idx cm k)"
  shows "ccmap_lookup cm' = (ccmap_lookup cm)(k := map_option rn_value (find_node k ns'))"
proof
  fix k'
  have "ccmap_idx cm k < length (cc_buckets cm)" using ccmap_idx [OF assms(1)] by blast
  then have "cc_buckets cm' ! ccmap_idx cm k' =
      (if ccmap_idx cm k' = ccmap_idx cm k then ns' else cc_buckets cm ! ccmap_idx cm k')"
    by (simp add: assms(2) nth_list_update)
  moreover have "ccmap_idx cm' k' = ccmap_idx cm k'" by (rule ccmap_idx_count [OF assms(3)])
  ultimately show "ccmap_lookup cm' k' = ((ccmap_lookup cm)(k := map_option rn_value (find_node k ns'))) k'"
    using assms(4) [of k'] by (cases "k' = k") (simp_all add: ccmap_lookup_def)
qed

lemma sint_small:
  assumes "uint (x :: u32) < 0x80000000"
  shows "sint x = uint x"
proof -
  have "- (2 ^ 31) \<le> uint x" by (rule order_trans [OF _ uint_ge_0]) simp
  with assms show ?thesis unfolding sint_uint by (simp add: signed_take_bit_int_eq_self)
qed

lemma ccmap_index:
  assumes wf: "ccmap_wf cm"
  shows "\<exists>i. ccmap_hash k (word_of_int (cc_count cm)) = Inr i \<and> unat i = ccmap_idx cm k \<and>
    arr_get (cc_buckets cm) (unat i) = Inr (cc_buckets cm ! ccmap_idx cm k) \<and> sint i = int (ccmap_idx cm k)"
proof -
  obtain i where i: "ccmap_hash k (word_of_int (cc_count cm)) = Inr i" "unat i = ccmap_idx cm k"
    "ccmap_idx cm k < length (cc_buckets cm)"
    using ccmap_idx [OF wf] by blast
  then have "int (unat i) < 0x80000000" using wf by (simp add: ccmap_wf_def zless_nat_eq_int_zless)
  then have "sint i = int (unat i)" using sint_small [of i] by simp
  with i show ?thesis by (metis arr_get_in)
qed

lemma find_node_value: "find_node k (cc_buckets cm ! ccmap_idx cm k) = Some n \<Longrightarrow> ccmap_lookup cm k = Some (rn_value n)"
  by (simp add: ccmap_lookup_def)

lemma update_ccmap_ok:
  assumes wf: "ccmap_wf cm"
  shows "\<exists>cm' rs. update_ccmap True cm k v = Inr (cm', int (ccmap_idx cm k)) \<and> ccmap_wf cm' \<and>
    ccmap_lookup cm' = (ccmap_lookup cm)(k \<mapsto> v) \<and> cc_rcu cm' = cc_rcu cm @ rs \<and>
    mset (map rn_addr (concat (cc_buckets cm'))) + mset rs = add_mset (cc_brk cm) (mset (map rn_addr (concat (cc_buckets cm))))"
proof -
  let ?j = "ccmap_idx cm k" and ?a = "cc_brk cm"
  let ?ns = "cc_buckets cm ! ?j"
  obtain i where i: "ccmap_hash k (word_of_int (cc_count cm)) = Inr i" "unat i = ?j"
    "arr_get (cc_buckets cm) (unat i) = Inr ?ns" "sint i = int ?j"
    using ccmap_index [OF wf] by blast
  have j: "?j < length (cc_buckets cm)" using ccmap_idx [OF wf] by blast
  note bucket = ccmap_wf_bucket [OF wf j]
  have addrs: "mset (map rn_addr (concat (cc_buckets cm))) + mset (cc_rcu cm) = mset [0..<?a]"
    using wf by (simp add: ccmap_wf_def ccmap_addrs_def)
  show ?thesis
  proof (cases "find_node k ?ns")
    case None
    let ?new = "\<lparr>rn_addr = ?a, rn_key = k, rn_value = v\<rparr>"
    let ?cm = "cm\<lparr>cc_buckets := (cc_buckets cm)[?j := ?new # ?ns], cc_brk := Suc ?a, cc_rcu := cc_rcu cm\<rparr>"
    have u: "update_ccmap True cm k v = Inr (?cm, int ?j)"
      using i None by (simp add: update_ccmap_def Let_def)
    moreover have w: "ccmap_wf ?cm"
      by (rule ccmap_wf_set_bucket [OF wf j])
        (use bucket None find_node_None [of k ?ns] addrs in \<open>auto simp: ac_simps\<close>)
    moreover have "ccmap_lookup ?cm = (ccmap_lookup cm)(k \<mapsto> v)"
      using ccmap_lookup_set_bucket [OF wf, of ?cm k "?new # ?ns"] by simp
    moreover have "mset (map rn_addr (concat (cc_buckets ?cm))) + mset [] = add_mset ?a (mset (map rn_addr (concat (cc_buckets cm))))"
      using arg_cong [OF mset_concat_list_update [OF j, of "?new # ?ns"], of "image_mset rn_addr"] by simp
    ultimately show ?thesis by (intro exI [of _ ?cm] exI [of _ "[]"]) simp
  next
    case (Some old)
    obtain as bs where ns: "?ns = as @ old # bs" and old: "rn_key old = k" "k \<notin> rn_key ` set as"
      using find_node_Some [OF Some] by blast
    let ?new = "old\<lparr>rn_addr := ?a, rn_value := v\<rparr>"
    let ?cm = "cm\<lparr>cc_buckets := (cc_buckets cm)[?j := as @ ?new # bs], cc_brk := Suc ?a, cc_rcu := cc_rcu cm @ [rn_addr old]\<rparr>"
    have repl: "list_replace_rcu old ?new ?ns = as @ ?new # bs"
      unfolding ns by (rule list_replace_rcu_middle) (use bucket(2) ns in simp)
    have u: "update_ccmap True cm k v = Inr (?cm, int ?j)"
      using i Some repl by (simp add: update_ccmap_def Let_def)
    moreover have w: "ccmap_wf ?cm"
    proof (rule ccmap_wf_set_bucket [OF wf j])
      show "distinct (map rn_key (as @ ?new # bs))" using bucket(1) old by (simp add: ns)
      show "\<forall>n\<in>set (as @ ?new # bs). ccmap_idx cm (rn_key n) = ?j"
        using bucket(3) old unfolding ns by auto
      show "mset (map rn_addr (as @ ?new # bs)) + mset (map rn_addr (concat (cc_buckets cm))) +
          mset (cc_rcu cm @ [rn_addr old]) = mset (map rn_addr ?ns) + mset [0..<Suc ?a]"
        using addrs by (simp add: ns ac_simps)
    qed
    moreover have "ccmap_lookup ?cm = (ccmap_lookup cm)(k \<mapsto> v)"
    proof -
      have "find_node k as = None" using old by (simp add: find_node_None)
      then show ?thesis
        using ccmap_lookup_set_bucket [OF wf, of ?cm k "as @ ?new # bs"] old
        by (simp add: ns find_node_append split: option.split)
    qed
    moreover have "mset (map rn_addr (concat (cc_buckets ?cm))) + mset [rn_addr old] =
        add_mset ?a (mset (map rn_addr (concat (cc_buckets cm))))"
      using arg_cong [OF mset_concat_list_update [OF j, of "as @ ?new # bs"], of "image_mset rn_addr"]
      by (simp add: ns)
    ultimately show ?thesis by (intro exI [of _ ?cm] exI [of _ "[rn_addr old]"]) simp
  qed
qed

lemma remove_ccmap_ok:
  assumes wf: "ccmap_wf cm" and k: "ccmap_lookup cm k \<noteq> None"
  shows "\<exists>cm' a. remove_ccmap cm k = Inr (cm', int (ccmap_idx cm k)) \<and> ccmap_wf cm' \<and>
    ccmap_lookup cm' = (ccmap_lookup cm)(k := None) \<and> cc_rcu cm' = cc_rcu cm @ [a] \<and>
    mset (map rn_addr (concat (cc_buckets cm'))) + mset [a] = mset (map rn_addr (concat (cc_buckets cm)))"
proof -
  let ?j = "ccmap_idx cm k"
  let ?ns = "cc_buckets cm ! ?j"
  obtain i where i: "ccmap_hash k (word_of_int (cc_count cm)) = Inr i" "unat i = ?j"
    "arr_get (cc_buckets cm) (unat i) = Inr ?ns" "sint i = int ?j"
    using ccmap_index [OF wf] by blast
  have j: "?j < length (cc_buckets cm)" using ccmap_idx [OF wf] by blast
  note bucket = ccmap_wf_bucket [OF wf j]
  have addrs: "mset (map rn_addr (concat (cc_buckets cm))) + mset (cc_rcu cm) = mset [0..<cc_brk cm]"
    using wf by (simp add: ccmap_wf_def ccmap_addrs_def)
  obtain old where Some: "find_node k ?ns = Some old" using k by (auto simp: ccmap_lookup_def)
  obtain as bs where ns: "?ns = as @ old # bs" and old: "rn_key old = k" "k \<notin> rn_key ` set as"
    using find_node_Some [OF Some] by blast
  let ?cm = "cm\<lparr>cc_buckets := (cc_buckets cm)[?j := as @ bs], cc_brk := cc_brk cm, cc_rcu := cc_rcu cm @ [rn_addr old]\<rparr>"
  have "list_del_rcu old ?ns = as @ bs"
    unfolding ns by (rule list_del_rcu_middle) (use bucket(2) ns in simp)
  then have "remove_ccmap cm k = Inr (?cm, int ?j)"
    using i Some by (simp add: remove_ccmap_def)
  moreover have "ccmap_wf ?cm"
  proof (rule ccmap_wf_set_bucket [OF wf j])
    show "distinct (map rn_key (as @ bs))" using bucket(1) by (simp add: ns)
    show "\<forall>n\<in>set (as @ bs). ccmap_idx cm (rn_key n) = ?j" using bucket(3) unfolding ns by auto
    show "mset (map rn_addr (as @ bs)) + mset (map rn_addr (concat (cc_buckets cm))) +
        mset (cc_rcu cm @ [rn_addr old]) = mset (map rn_addr ?ns) + mset [0..<cc_brk cm]"
      using addrs by (simp add: ns ac_simps)
  qed
  moreover have "ccmap_lookup ?cm = (ccmap_lookup cm)(k := None)"
  proof -
    have "find_node k (as @ bs) = None" using bucket(1) old by (auto simp: find_node_None ns)
    then show ?thesis
      using ccmap_lookup_set_bucket [OF wf, of ?cm k "as @ bs"] old
      by (simp add: ns find_node_append split: option.split)
  qed
  moreover have "mset (map rn_addr (concat (cc_buckets ?cm))) + mset [rn_addr old] =
      mset (map rn_addr (concat (cc_buckets cm)))"
    using arg_cong [OF mset_concat_list_update [OF j, of "as @ bs"], of "image_mset rn_addr"]
    by (simp add: ns)
  ultimately show ?thesis by (intro exI [of _ ?cm] exI [of _ "rn_addr old"]) simp
qed

lemma remove_ccmap_miss:
  assumes wf: "ccmap_wf cm" and k: "ccmap_lookup cm k = None"
  shows "remove_ccmap cm k = Inr (cm, -1)"
  using ccmap_index [OF wf, of k] k by (auto simp: remove_ccmap_def ccmap_lookup_def)

lemma update_ccmap_fail: "ccmap_wf cm \<Longrightarrow> update_ccmap False cm k v = Inr (cm, -1)"
  using ccmap_index [of cm k] by (auto simp: update_ccmap_def)

lemma get_ccmap_ok:
  assumes wf: "ccmap_wf cm"
  shows "\<exists>n. get_ccmap_rcu cm k = Inr n \<and> map_option rn_value n = ccmap_lookup cm k \<and>
    (\<forall>m. n = Some m \<longrightarrow> rn_addr m \<in> set (map rn_addr (concat (cc_buckets cm))))"
proof -
  let ?ns = "cc_buckets cm ! ccmap_idx cm k"
  have g: "get_ccmap_rcu cm k = Inr (find_node k ?ns)"
    using ccmap_index [OF wf, of k] by (auto simp: get_ccmap_rcu_def)
  have "?ns \<in> set (cc_buckets cm)" using ccmap_idx [OF wf, of k] by auto
  then have "\<forall>m. find_node k ?ns = Some m \<longrightarrow> rn_addr m \<in> set (map rn_addr (concat (cc_buckets cm)))"
    using find_node_Some [of k ?ns] by fastforce
  with g show ?thesis by (simp add: ccmap_lookup_def)
qed

lemma make_ccmap_wf: "0 < n \<Longrightarrow> n < 0x80000000 \<Longrightarrow> ccmap_wf (make_ccmap n)"
  by (simp add: ccmap_wf_def make_ccmap_def ccmap_addrs_def)

lemma make_ccmap_lookup: "0 < n \<Longrightarrow> n < 0x80000000 \<Longrightarrow> ccmap_lookup (make_ccmap n) = Map.empty"
proof
  fix k
  assume "0 < n" "n < 0x80000000"
  then show "ccmap_lookup (make_ccmap n) k = None"
    using ccmap_idx [OF make_ccmap_wf, of n k] by (auto simp: ccmap_lookup_def make_ccmap_def)
qed

interpretation ccmap: key_map_replace ccmap_wf ccmap_lookup writer_update writer_remove
proof unfold_locales
  fix cm k v
  assume "ccmap_wf cm"
  then show "\<exists>m'. writer_update cm k v = Inr m' \<and> ccmap_wf m' \<and> ccmap_lookup m' = (ccmap_lookup cm)(k \<mapsto> v)"
    using update_ccmap_ok [of cm k v] by (auto simp: writer_update_def)
next
  fix cm k
  assume "ccmap_wf cm" "ccmap_lookup cm k \<noteq> None"
  then show "\<exists>m'. writer_remove cm k = Inr m' \<and> ccmap_wf m' \<and> ccmap_lookup m' = (ccmap_lookup cm)(k := None)"
    using remove_ccmap_ok [of cm k] by (auto simp: writer_remove_def)
next
  fix cm k v
  assume "ccmap_wf cm"
  then show "\<exists>m'. writer_update cm k v = Inr m' \<and> ccmap_wf m' \<and> ccmap_lookup m' = (ccmap_lookup cm)(k \<mapsto> v)"
    using update_ccmap_ok [of cm k v] by (auto simp: writer_update_def)
qed

lemma update_round_ok:
  assumes "ccmap_wf cm"
  shows "\<exists>cm'. update_round f cm = Inr cm' \<and> ccmap_wf cm' \<and>
    ccmap_lookup cm' = (\<lambda>k. if k \<in> set op_keys then Some (f k) else ccmap_lookup cm k)"
  using ccmap.replace_all [OF assms, of f op_keys] by (simp add: update_round_def)

lemma writer_ready_ok:
  "\<exists>cm. writer_ready = Inr cm \<and> ccmap_wf cm \<and>
    ccmap_lookup cm = (\<lambda>k. if k \<in> set op_keys then Some k else None)"
proof -
  have n: "0 < int OP_COUNT" "int OP_COUNT < 0x80000000" by (simp_all add: OP_COUNT_def)
  show ?thesis
    using update_round_ok [OF make_ccmap_wf [OF n], of "\<lambda>k. k"] unfolding writer_ready_def make_ccmap_lookup [OF n] .
qed

lemma writer_steps_ok:
  assumes "ccmap_wf cm" "dom (ccmap_lookup cm) = set op_keys"
  shows "\<exists>cm'. writer_steps cm = Inr cm' \<and> ccmap_wf cm' \<and> dom (ccmap_lookup cm') = set op_keys"
  unfolding writer_steps_def
proof (rule foldR_invariant [where P = "\<lambda>cm. ccmap_wf cm \<and> dom (ccmap_lookup cm) = set op_keys"])
  fix m step
  assume m: "ccmap_wf m \<and> dom (ccmap_lookup m) = set op_keys"
  then obtain m' where "update_round (\<lambda>k. k * of_nat step) m = Inr m'" "ccmap_wf m'"
    "ccmap_lookup m' = (\<lambda>k. if k \<in> set op_keys then Some (k * of_nat step) else ccmap_lookup m k)"
    using update_round_ok by blast
  moreover from this m have "dom (ccmap_lookup m') = set op_keys" by (auto split: if_splits)
  ultimately show "\<exists>s'. update_round (\<lambda>k. k * of_nat step) m = Inr s' \<and> ccmap_wf s' \<and> dom (ccmap_lookup s') = set op_keys"
    by blast
qed (use assms in simp)

lemma distinct_op_keys: "distinct op_keys"
  by (simp add: op_keys_def OP_COUNT_def upt_rec)

lemma ccmap_empty_buckets:
  assumes wf: "ccmap_wf cm" and e: "ccmap_lookup cm = Map.empty"
  shows "concat (cc_buckets cm) = []"
proof -
  have "cc_buckets cm ! j = []" if j: "j < length (cc_buckets cm)" for j
  proof (rule ccontr)
    assume "cc_buckets cm ! j \<noteq> []"
    then obtain n where n: "n \<in> set (cc_buckets cm ! j)" by (cases "cc_buckets cm ! j") auto
    then have "ccmap_idx cm (rn_key n) = j" by (rule ccmap_wf_bucket(3) [OF wf j])
    with n have "ccmap_lookup cm (rn_key n) \<noteq> None"
      using find_node_None [of "rn_key n" "cc_buckets cm ! j"] by (simp add: ccmap_lookup_def)
    with e show False by simp
  qed
  then show ?thesis by (auto simp: in_set_conv_nth)
qed

lemma task_writer_ok:
  "\<exists>cm. task_writer = Inr cm \<and> ccmap_wf cm \<and> ccmap_lookup cm = Map.empty"
proof -
  obtain c1 where c1: "writer_ready = Inr c1" "ccmap_wf c1"
    "ccmap_lookup c1 = (\<lambda>k. if k \<in> set op_keys then Some k else None)"
    using writer_ready_ok by blast
  then have "dom (ccmap_lookup c1) = set op_keys" by (auto split: if_splits)
  then obtain c2 where c2: "writer_steps c1 = Inr c2" "ccmap_wf c2" "dom (ccmap_lookup c2) = set op_keys"
    using writer_steps_ok [OF c1(2)] by blast
  obtain c3 where c3: "foldR writer_remove c2 op_keys = Inr c3" "ccmap_wf c3"
    "ccmap_lookup c3 = (\<lambda>k. if k \<in> set op_keys then None else ccmap_lookup c2 k)"
    using ccmap.remove_all [OF c2(2) distinct_op_keys] c2(3) by blast
  have "ccmap_lookup c3 = Map.empty" using c2(3) by (auto simp: c3(3) fun_eq_iff)
  moreover have "task_writer = Inr c3" unfolding task_writer_def c1(1) by (simp add: c2(1) c3(1))
  ultimately show ?thesis using c3(2) by blast
qed

lemma values_ok_update:
  assumes "values_ok cm" and "i < OP_COUNT" and "s \<in> {1..<OP_COUNT div 2}"
  shows "\<exists>cm'. writer_update cm (of_nat i) (of_nat i * of_nat s) = Inr cm' \<and> values_ok cm'"
proof -
  obtain cm' where cm': "writer_update cm (of_nat i) (of_nat i * of_nat s) = Inr cm'" "ccmap_wf cm'"
    "ccmap_lookup cm' = (ccmap_lookup cm)(of_nat i \<mapsto> of_nat i * of_nat s)"
    using ccmap.insert_any assms(1) by (metis values_ok_def)
  have inj: "(of_nat j :: u32) = of_nat i \<longleftrightarrow> j = i" if "j < OP_COUNT" for j
    using that assms(2) by (simp add: word_of_nat_eq_iff take_bit_nat_eq_self OP_COUNT_def)
  have "values_ok cm'"
    unfolding values_ok_def
  proof (intro conjI allI impI)
    fix j assume "j < OP_COUNT"
    with inj assms show "\<exists>s\<in>{1..<OP_COUNT div 2}. ccmap_lookup cm' (of_nat j) = Some (of_nat (j * s))"
      by (cases "j = i") (auto simp: values_ok_def cm'(3))
  qed (rule cm'(2))
  with cm'(1) show ?thesis by blast
qed

lemma reader_pass_foldR:
  assumes "\<And>k. k \<in> set ks \<Longrightarrow> ccmap_wf (st k) \<and> ccmap_lookup (st k) k = Some (f k)"
  shows "foldR (\<lambda>sum k. bindR (get_ccmap_rcu (st k) k) (\<lambda>n.
     Inr (case n of None \<Rightarrow> sum | Some n \<Rightarrow> sum + rn_value n))) t ks = Inr (t + sum_list (map f ks))"
  using assms
proof (induction ks arbitrary: t)
  case Nil
  then show ?case by simp
next
  case (Cons k ks)
  obtain n where "get_ccmap_rcu (st k) k = Inr (Some n)" "rn_value n = f k"
    using get_ccmap_ok [of "st k" k] Cons.prems [of k] by auto
  with Cons show ?case by (simp add: add.assoc)
qed

lemma reader_pass_live:
  assumes "\<And>k. values_ok (st k)"
  shows "\<exists>sum. reader_pass st = Inr sum \<and> sum \<noteq> 0"
proof -
  have "\<forall>i. \<exists>s. i < OP_COUNT \<longrightarrow> s \<in> {1..<OP_COUNT div 2} \<and>
      ccmap_lookup (st (of_nat i)) (of_nat i) = Some (of_nat (i * s))"
    using assms unfolding values_ok_def by blast
  then obtain s where s: "\<And>i. i < OP_COUNT \<Longrightarrow> s i \<in> {1..<OP_COUNT div 2} \<and>
      ccmap_lookup (st (of_nat i)) (of_nat i) = Some (of_nat (i * s i))"
    by metis
  define f where "f k = the (ccmap_lookup (st k) k)" for k
  have f: "f (of_nat i) = of_nat (i * s i)" if "i < OP_COUNT" for i
    using s [OF that] by (simp add: f_def)
  have pass: "reader_pass st = Inr (sum_list (map f op_keys))"
    unfolding reader_pass_def
    by (subst reader_pass_foldR [where f = f]) (use assms s f in \<open>auto simp: op_keys_def values_ok_def\<close>)
  define xs where "xs = map (\<lambda>i. i * s i) [0..<OP_COUNT]"
  have "map f op_keys = map of_nat xs" by (simp add: op_keys_def xs_def f)
  moreover have "sum_list (map of_nat ys) = (of_nat (sum_list ys) :: u32)" for ys
    by (induction ys) simp_all
  ultimately have pass: "reader_pass st = Inr (of_nat (sum_list xs))" using pass by simp
  have pos: "0 < sum_list xs"
    using s [of 1] by (simp add: xs_def OP_COUNT_def upt_rec)
  have "sum_list xs \<le> sum_list (map (\<lambda>i. i * 5) [0..<OP_COUNT])"
    unfolding xs_def using s by (intro sum_list_mono) (auto simp: OP_COUNT_def less_imp_le)
  then have "sum_list xs < 2 ^ 32" by (simp add: OP_COUNT_def upt_rec)
  with pos have "(of_nat (sum_list xs) :: u32) \<noteq> 0"
    by (simp add: word_of_nat_eq_0_iff nat_dvd_not_less)
  with pass show ?thesis by blast
qed

lemma reader_pass_empty:
  assumes "ccmap_wf cm" "ccmap_lookup cm = Map.empty"
  shows "reader_pass (\<lambda>_. cm) = Inr 0"
proof -
  have "get_ccmap_rcu cm k = Inr None" for k using get_ccmap_ok [OF assms(1), of k] assms(2) by auto
  then have "foldR (\<lambda>sum k. bindR (get_ccmap_rcu cm k) (\<lambda>n.
     Inr (case n of None \<Rightarrow> sum | Some n \<Rightarrow> sum + rn_value n))) t ks = Inr t" for t ks
    by (induction ks) simp_all
  then show ?thesis by (simp add: reader_pass_def)
qed

lemma delete_ccmap_all:
  assumes "ccmap_wf cm"
  shows "delete_ccmap (Some cm) = Inr (map rn_addr (concat (cc_buckets cm)))"
proof -
  have l: "length (cc_buckets cm) = nat (cc_count cm)" using assms by (simp add: ccmap_wf_def)
  have "foldR (\<lambda>fs i. bindR (arr_get bs i) (\<lambda>ns. Inr (fs @ map rn_addr ns))) t [0..<m] =
      Inr (t @ map rn_addr (concat (take m bs)))" if "m \<le> length bs" for m bs t
    using that
  proof (induction m)
    case 0
    then show ?case by simp
  next
    case (Suc m)
    then show ?case by (simp add: foldR_append take_Suc_conv_app_nth)
  qed
  from this [of "nat (cc_count cm)" "cc_buckets cm" "[]"] l show ?thesis by (simp add: delete_ccmap_def)
qed

lemma rcu_inv_queue:
  assumes inv: "rcu_inv s" and wf: "ccmap_wf cm" and rs: "cc_rcu cm = cc_rcu (rs_map s) @ rs"
    and addrs: "set (map rn_addr (concat (cc_buckets (rs_map s)))) \<subseteq> set (map rn_addr (concat (cc_buckets cm))) \<union> set rs"
  shows "rcu_inv (queue_callbacks s cm)"
proof -
  have "rn_addr n \<in> set (map rn_addr (concat (cc_buckets cm))) \<or>
      (rn_addr n, True) \<in> set (rs_pending (queue_callbacks s cm))" if "rs_reader s = Holding n" for n
  proof -
    have "rn_addr n \<in> set (map rn_addr (concat (cc_buckets (rs_map s)))) \<or> (rn_addr n, True) \<in> set (rs_pending s)"
      using inv that unfolding rcu_inv_def by blast
    then show ?thesis using addrs that by (auto simp: queue_callbacks_def rs)
  qed
  moreover have "mset (map fst (rs_pending (queue_callbacks s cm))) + mset (rs_freed s) = mset (cc_rcu cm)"
    using inv by (simp add: queue_callbacks_def rs rcu_inv_def comp_def ac_simps)
  ultimately show ?thesis
    using wf by (simp add: rcu_inv_def queue_callbacks_def)
qed

lemma update_ccmap_cases:
  assumes "ccmap_wf m" "update_ccmap ok m k v = Inr (cm, r)"
  shows "ccmap_wf cm \<and> (\<exists>rs. cc_rcu cm = cc_rcu m @ rs \<and>
    set (map rn_addr (concat (cc_buckets m))) \<subseteq> set (map rn_addr (concat (cc_buckets cm))) \<union> set rs)"
proof (cases ok)
  case True
  then obtain rs where "ccmap_wf cm" "cc_rcu cm = cc_rcu m @ rs" and
    a: "mset (map rn_addr (concat (cc_buckets cm))) + mset rs = add_mset (cc_brk m) (mset (map rn_addr (concat (cc_buckets m))))"
    using update_ccmap_ok [OF assms(1), of k v] assms(2) by auto
  moreover have "set (map rn_addr (concat (cc_buckets m))) \<subseteq> set (map rn_addr (concat (cc_buckets cm))) \<union> set rs"
    using arg_cong [OF a, of set_mset] by auto
  ultimately show ?thesis by blast
next
  case False
  then show ?thesis using update_ccmap_fail [OF assms(1)] assms by auto
qed

lemma remove_ccmap_cases:
  assumes "ccmap_wf m" "remove_ccmap m k = Inr (cm, r)"
  shows "ccmap_wf cm \<and> (\<exists>rs. cc_rcu cm = cc_rcu m @ rs \<and>
    set (map rn_addr (concat (cc_buckets m))) \<subseteq> set (map rn_addr (concat (cc_buckets cm))) \<union> set rs)"
proof (cases "ccmap_lookup m k = None")
  case True
  then show ?thesis using remove_ccmap_miss [OF assms(1)] assms by auto
next
  case False
  then obtain a where "ccmap_wf cm" "cc_rcu cm = cc_rcu m @ [a]" and
    m: "mset (map rn_addr (concat (cc_buckets cm))) + mset [a] = mset (map rn_addr (concat (cc_buckets m)))"
    using remove_ccmap_ok [OF assms(1) False] assms(2) by auto
  moreover have "set (map rn_addr (concat (cc_buckets m))) \<subseteq> set (map rn_addr (concat (cc_buckets cm))) \<union> set [a]"
    using arg_cong [OF m, of set_mset] by auto
  ultimately show ?thesis by blast
qed

lemma rcu_inv_step: "rcu_step s s' \<Longrightarrow> rcu_inv s \<Longrightarrow> rcu_inv s'"
proof (induction rule: rcu_step.induct)
  case (rcu_update ok s k v cm r)
  then show ?case using update_ccmap_cases [of "rs_map s" ok k v cm r] rcu_inv_queue [of s cm] by (auto simp: rcu_inv_def)
next
  case (rcu_remove s k cm r)
  then show ?case using remove_ccmap_cases [of "rs_map s" k cm r] rcu_inv_queue [of s cm] by (auto simp: rcu_inv_def)
next
  case (rcu_lock s)
  then show ?case by (simp add: rcu_inv_def)
next
  case (rcu_find s k n)
  then show ?case using get_ccmap_ok [of "rs_map s" k] by (auto simp: rcu_inv_def)
next
  case (rcu_unlock s)
  then show ?case by (simp add: rcu_inv_def comp_def case_prod_beta)
next
  case (rcu_callback s ps a qs)
  then show ?case by (auto simp: rcu_inv_def)
qed

lemma rcu_inv_reachable: "rcu_reachable s \<Longrightarrow> rcu_inv s"
proof (induction rule: rcu_reachable.induct)
  case (rcu_start n)
  then show ?case using make_ccmap_wf [of n] by (simp add: rcu_inv_def make_ccmap_def)
next
  case (rcu_next s s')
  then show ?case by (simp add: rcu_inv_step)
qed

lemma values_ok_ready: "\<exists>cm. writer_ready = Inr cm \<and> values_ok cm"
proof -
  obtain cm where cm: "writer_ready = Inr cm" "ccmap_wf cm"
    "ccmap_lookup cm = (\<lambda>k. if k \<in> set op_keys then Some k else None)"
    using writer_ready_ok by blast
  have "values_ok cm"
    unfolding values_ok_def using cm(2)
    by (auto simp: cm(3) op_keys_def OP_COUNT_def intro!: bexI [of _ 1])
  with cm(1) show ?thesis by blast
qed

lemma rcu_example:
  "\<exists>s n. rcu_reachable s \<and> rs_reader s = Holding n \<and> rn_value n = 5 \<and> ccmap_lookup (rs_map s) 1 = Some 6"
proof -
  let ?s0 = "\<lparr>rs_map = make_ccmap 10, rs_reader = Outside, rs_pending = [], rs_freed = []\<rparr>"
  have wf: "ccmap_wf (make_ccmap 10)" by (rule make_ccmap_wf) simp_all
  obtain m1 where m1: "update_ccmap True (make_ccmap 10) 1 5 = Inr (m1, int (ccmap_idx (make_ccmap 10) 1))"
    "ccmap_wf m1" "ccmap_lookup m1 1 = Some 5"
    using update_ccmap_ok [OF wf, of 1 5] by auto
  obtain n where n: "get_ccmap_rcu m1 1 = Inr (Some n)" "rn_value n = 5"
    using get_ccmap_ok [OF m1(2), of 1] m1(3) by auto
  obtain m2 r where m2: "update_ccmap True m1 1 6 = Inr (m2, r)" "ccmap_lookup m2 1 = Some 6"
    using update_ccmap_ok [OF m1(2), of 1 6] by auto
  let ?s1 = "queue_callbacks ?s0 m1"
  let ?s3 = "?s1\<lparr>rs_reader := Holding n\<rparr>"
  have r1: "rcu_reachable ?s1"
    using rcu_next [OF rcu_start rcu_update [of True ?s0 1 5]] m1(1) by simp
  have r2: "rcu_reachable (?s1\<lparr>rs_reader := Inside\<rparr>)"
    by (rule rcu_next [OF r1 rcu_lock]) (simp add: queue_callbacks_def)
  have r3: "rcu_reachable ?s3"
    using rcu_next [OF r2 rcu_find [of _ 1 n]] n by (simp add: queue_callbacks_def)
  have "rcu_reachable (queue_callbacks ?s3 m2)"
    by (rule rcu_next [OF r3 rcu_update [of True _ 1 6 m2 r]]) (simp add: queue_callbacks_def m2(1))
  moreover have "rs_reader (queue_callbacks ?s3 m2) = Holding n" "rs_map (queue_callbacks ?s3 m2) = m2"
    by (simp_all add: queue_callbacks_def)
  ultimately show ?thesis using n(2) m2(2) by metis
qed

section \<open>Properties\<close>

text \<open>
  C33. On a well-formed table, \<open>update_ccmap\<close> inserts or replaces the value of a key, \<open>remove_ccmap\<close> deletes
  a key that is present and answers -1 for an absent one, \<open>get_ccmap_rcu\<close> finds the value of a key, and a
  failed allocation leaves the table as it was and answers -1; every other key keeps its value.
\<close>

theorem ccmap_refines_map:
  assumes "ccmap_wf cm"
  shows "(\<exists>cm'. update_ccmap True cm k v = Inr (cm', int (ccmap_idx cm k)) \<and> ccmap_wf cm' \<and>
      ccmap_lookup cm' = (ccmap_lookup cm)(k \<mapsto> v)) \<and>
    update_ccmap False cm k v = Inr (cm, -1) \<and>
    (ccmap_lookup cm k = None \<longrightarrow> remove_ccmap cm k = Inr (cm, -1)) \<and>
    (ccmap_lookup cm k \<noteq> None \<longrightarrow> (\<exists>cm'. remove_ccmap cm k = Inr (cm', int (ccmap_idx cm k)) \<and> ccmap_wf cm' \<and>
      ccmap_lookup cm' = (ccmap_lookup cm)(k := None))) \<and>
    (\<exists>n. get_ccmap_rcu cm k = Inr n \<and> map_option rn_value n = ccmap_lookup cm k)"
  using update_ccmap_ok [OF assms, of k v] update_ccmap_fail [OF assms] remove_ccmap_ok [OF assms, of k]
    remove_ccmap_miss [OF assms, of k] get_ccmap_ok [OF assms, of k] by blast

theorem ccmap_refines_witness:
  "\<exists>cm. update_ccmap True (make_ccmap 10) 3 30 = Inr (cm, int (ccmap_idx (make_ccmap 10) 3)) \<and>
     ccmap_lookup cm 3 = Some 30 \<and> update_ccmap False (make_ccmap 10) 3 30 = Inr (make_ccmap 10, -1)"
  using ccmap_refines_map [OF make_ccmap_wf [of 10], of 3 30] by auto



text \<open>
  The reader does not stop early: after the writer is ready, and after each of its updates, key \<open>i\<close> has a
  value \<open>i * s\<close> with \<open>s\<close> from 1 to 4, and a pass of the reader over maps of this kind, however the writer
  moves on in between, ends with a sum that is not 0.
\<close>

lemma reader_keeps_running:
  "(\<exists>cm. writer_ready = Inr cm \<and> values_ok cm) \<and>
   (\<forall>cm i s. values_ok cm \<and> i < OP_COUNT \<and> s \<in> {1..<OP_COUNT div 2} \<longrightarrow>
     (\<exists>cm'. writer_update cm (of_nat i) (of_nat i * of_nat s) = Inr cm' \<and> values_ok cm')) \<and>
   (\<forall>st. (\<forall>k. values_ok (st k)) \<longrightarrow> (\<exists>sum. reader_pass st = Inr sum \<and> sum \<noteq> 0))"
  using values_ok_ready values_ok_update reader_pass_live by blast

theorem reader_keeps_running_witness:
  "\<exists>cm sum. writer_ready = Inr cm \<and> reader_pass (\<lambda>_. cm) = Inr sum \<and> sum \<noteq> 0"
proof -
  obtain cm where "writer_ready = Inr cm" "values_ok cm" using reader_keeps_running by blast
  then show ?thesis using reader_keeps_running by (metis (full_types))
qed

text \<open>
  The writer task runs to its end without a fault and leaves an empty map: a pass of the reader then
  gives 0 (so the reader stops), \<open>delete_ccmap\<close> has no node left to free, and every node that was ever
  allocated was handed to \<open>call_rcu\<close> exactly once.
\<close>

lemma task_writer_ends:
  "\<exists>cm. task_writer = Inr cm \<and> ccmap_lookup cm = Map.empty \<and> reader_pass (\<lambda>_. cm) = Inr 0 \<and>
     delete_ccmap (Some cm) = Inr [] \<and> mset (cc_rcu cm) = mset [0..<cc_brk cm]"
proof -
  obtain cm where cm: "task_writer = Inr cm" "ccmap_wf cm" "ccmap_lookup cm = Map.empty"
    using task_writer_ok by blast
  have e: "concat (cc_buckets cm) = []" by (rule ccmap_empty_buckets [OF cm(2,3)])
  have "mset (cc_rcu cm) = mset [0..<cc_brk cm]"
    using cm(2) by (simp add: ccmap_wf_def ccmap_addrs_def e del: concat_eq_Nil_conv)
  moreover have "delete_ccmap (Some cm) = Inr []" using delete_ccmap_all [OF cm(2)] unfolding e by simp
  ultimately show ?thesis using cm reader_pass_empty [OF cm(2,3)] by blast
qed

end
