(* ===== verification/RcuList.thy ===== *)
theory RcuList
  imports Prelude
begin

text \<open>
  The RCU-protected list of books of \<open>src/ksync-rcu/list_rcu.c\<close>. A book carries the address of its
  node. An update copies the node, changes the copy and puts it in the place of the old node, which is
  freed after a grace period: either at once (\<open>synchronize_rcu\<close> and \<open>kfree\<close>) or through \<open>call_rcu\<close>. The
  state records the addresses given out, freed and handed to \<open>call_rcu\<close>. Whether \<open>kzalloc\<close> succeeds is an
  argument.
\<close>

section \<open>Data\<close>

record book =
  bk_addr :: nat
  bk_id :: int
  bk_name :: string
  bk_author :: string
  bk_borrow :: int

record books =
  bs_list :: "book list"
  bs_brk :: nat
  bs_freed :: "nat list"
  bs_rcu :: "nat list"

definition no_books :: books where
  "no_books = \<lparr>bs_list = [], bs_brk = 0, bs_freed = [], bs_rcu = []\<rparr>"

text \<open>\<open>strncpy\<close> into a zeroed array of \<open>n\<close> characters: at most \<open>n\<close> characters of the string.\<close>

definition strncpy :: "nat \<Rightarrow> string \<Rightarrow> string" where
  "strncpy n src = take n src"

section \<open>Operations\<close>

definition add_book :: "bool \<Rightarrow> books \<Rightarrow> int \<Rightarrow> string \<Rightarrow> string \<Rightarrow> books" where
  "add_book alloc_ok s bid name author =
     (if \<not> alloc_ok then s
      else s\<lparr>bs_list := \<lparr>bk_addr = bs_brk s, bk_id = bid, bk_name = strncpy 64 name,
               bk_author = strncpy 64 author, bk_borrow = 0\<rparr> # bs_list s,
             bs_brk := Suc (bs_brk s)\<rparr>)"

text \<open>The first book with the given id.\<close>

fun find_book :: "int \<Rightarrow> book list \<Rightarrow> book option" where
  "find_book bid [] = None"
| "find_book bid (b # bs) = (if bk_id b = bid then Some b else find_book bid bs)"

definition replace_book :: "book \<Rightarrow> book \<Rightarrow> book list \<Rightarrow> book list" where
  "replace_book old_b new_b bs = map (\<lambda>b. if bk_addr b = bk_addr old_b then new_b else b) bs"

definition reclaim :: "bool \<Rightarrow> nat \<Rightarrow> books \<Rightarrow> books" where
  "reclaim async a s = (if async then s\<lparr>bs_rcu := bs_rcu s @ [a]\<rparr> else s\<lparr>bs_freed := bs_freed s @ [a]\<rparr>)"

definition borrow_book :: "bool \<Rightarrow> books \<Rightarrow> int \<Rightarrow> bool \<Rightarrow> books \<times> int" where
  "borrow_book alloc_ok s bid async =
    (case find_book bid (bs_list s) of
       None \<Rightarrow> (s, -1)
     | Some old_b \<Rightarrow>
         if bk_borrow old_b \<noteq> 0 then (s, -1)
         else if \<not> alloc_ok then (s, -1)
         else
           (let new_b = old_b\<lparr>bk_addr := bs_brk s, bk_borrow := 1\<rparr>;
                s = s\<lparr>bs_list := replace_book old_b new_b (bs_list s), bs_brk := Suc (bs_brk s)\<rparr>
            in (reclaim async (bk_addr old_b) s, 0)))"

definition is_borrowed_book :: "books \<Rightarrow> int \<Rightarrow> int" where
  "is_borrowed_book s bid = (case find_book bid (bs_list s) of Some b \<Rightarrow> bk_borrow b | None \<Rightarrow> -1)"

definition return_book :: "bool \<Rightarrow> books \<Rightarrow> int \<Rightarrow> bool \<Rightarrow> books \<times> int" where
  "return_book alloc_ok s bid async =
    (case find_book bid (bs_list s) of
       None \<Rightarrow> (s, -1)
     | Some old_b \<Rightarrow>
         if bk_borrow old_b = 0 then (s, -1)
         else if \<not> alloc_ok then (s, -1)
         else
           (let new_b = old_b\<lparr>bk_addr := bs_brk s, bk_borrow := 0\<rparr>;
                s = s\<lparr>bs_list := replace_book old_b new_b (bs_list s), bs_brk := Suc (bs_brk s)\<rparr>
            in (reclaim async (bk_addr old_b) s, 0)))"

definition delete_book :: "books \<Rightarrow> int \<Rightarrow> bool \<Rightarrow> books" where
  "delete_book s bid async =
    (case find_book bid (bs_list s) of
       None \<Rightarrow> s
     | Some b \<Rightarrow> reclaim async (bk_addr b) (s\<lparr>bs_list := filter (\<lambda>c. bk_addr c \<noteq> bk_addr b) (bs_list s)\<rparr>))"

text \<open>What \<open>print_book\<close> prints, without the address; \<open>None\<close> is the message that there is no such book.\<close>

definition print_book :: "books \<Rightarrow> int \<Rightarrow> (int \<times> string \<times> string \<times> int) option" where
  "print_book s bid = map_option (\<lambda>b. (bk_id b, bk_name b, bk_author b, bk_borrow b)) (find_book bid (bs_list s))"

text \<open>\<open>test_example\<close>: the final state, what the calls of \<open>print_book\<close> print, and the two answers of
  \<open>is_borrowed_book\<close>. Allocations succeed.\<close>

definition test_example ::
  "books \<Rightarrow> bool \<Rightarrow> books \<times> (int \<times> string \<times> string \<times> int) option list \<times> int list"
where
  "test_example s async =
    (let s = add_book True s 0 ''book1'' ''jb'';
         s = add_book True s 1 ''book2'' ''jb'';
         p1 = [print_book s 0, print_book s 1];
         q = [is_borrowed_book s 0, is_borrowed_book s 1];
         s = fst (borrow_book True s 0 async);
         s = fst (borrow_book True s 1 async);
         p2 = [print_book s 0, print_book s 1];
         s = fst (return_book True s 0 async);
         s = fst (return_book True s 1 async);
         p3 = [print_book s 0, print_book s 1];
         s = delete_book s 0 async;
         s = delete_book s 1 async;
         p4 = [print_book s 0, print_book s 1]
     in (s, p1 @ p2 @ p3 @ p4, q))"

definition list_rcu_init :: books where
  "list_rcu_init = fst (test_example (fst (test_example no_books False)) True)"

section \<open>Specification\<close>

definition contents :: "books \<Rightarrow> (int \<times> string \<times> string \<times> int) list" where
  "contents s = map (\<lambda>b. (bk_id b, bk_name b, bk_author b, bk_borrow b)) (bs_list s)"

text \<open>Setting the borrow mark of the first book with an id.\<close>

fun mark :: "int \<Rightarrow> int \<Rightarrow> (int \<times> string \<times> string \<times> int) list \<Rightarrow> (int \<times> string \<times> string \<times> int) list" where
  "mark bid w [] = []"
| "mark bid w ((i, n, a, m) # bs) = (if i = bid then (i, n, a, w) # bs else (i, n, a, m) # mark bid w bs)"

text \<open>Every address given out is in the list, was freed, or was handed to \<open>call_rcu\<close>, exactly once.\<close>

definition books_wf :: "books \<Rightarrow> bool" where
  "books_wf s \<longleftrightarrow> mset (map bk_addr (bs_list s) @ bs_freed s @ bs_rcu s) = mset [0..<bs_brk s]"

section \<open>Lemmas\<close>

lemma find_book_split:
  "find_book bid bs = Some b \<Longrightarrow> \<exists>xs ys. bs = xs @ b # ys \<and> bk_id b = bid \<and> (\<forall>x\<in>set xs. bk_id x \<noteq> bid)"
proof (induction bid bs rule: find_book.induct)
  case (2 bid c bs)
  show ?case
  proof (cases "bk_id c = bid")
    case True
    with 2(2) show ?thesis by (intro exI [of _ "[]"] exI [of _ bs]) auto
  next
    case False
    with 2 obtain xs ys where "bs = xs @ b # ys" "bk_id b = bid" "\<forall>x\<in>set xs. bk_id x \<noteq> bid" by auto
    with False show ?thesis by (intro exI [of _ "c # xs"] exI [of _ ys]) auto
  qed
qed simp

lemma bk_addr_apart:
  assumes "distinct (map bk_addr (xs @ old # ys))" and "b \<in> set xs \<union> set ys"
  shows "bk_addr b \<noteq> bk_addr old"
proof -
  have "bk_addr old \<notin> bk_addr ` (set xs \<union> set ys)" using assms(1) by auto
  with assms(2) show ?thesis by (metis image_eqI)
qed

lemma replace_book_middle:
  assumes "distinct (map bk_addr (xs @ old # ys))"
  shows "replace_book old new (xs @ old # ys) = xs @ new # ys"
  using bk_addr_apart [OF assms] by (simp add: replace_book_def map_idI)

lemma filter_book_middle:
  assumes "distinct (map bk_addr (xs @ old # ys))"
  shows "filter (\<lambda>c. bk_addr c \<noteq> bk_addr old) (xs @ old # ys) = xs @ ys"
  using bk_addr_apart [OF assms] by simp

lemma books_wf_distinct: "books_wf s \<Longrightarrow> distinct (map bk_addr (bs_list s))"
  unfolding books_wf_def by (drule mset_eq_imp_distinct_iff) simp

lemma mark_middle:
  "\<forall>x\<in>set xs. bk_id x \<noteq> bid \<Longrightarrow> bk_id b = bid \<Longrightarrow>
   mark bid w (map (\<lambda>b. (bk_id b, bk_name b, bk_author b, bk_borrow b)) (xs @ b # ys)) =
   map (\<lambda>b. (bk_id b, bk_name b, bk_author b, bk_borrow b)) (xs @ b\<lparr>bk_addr := n, bk_borrow := w\<rparr> # ys)"
  by (induction xs) auto

text \<open>The step that \<open>borrow_book\<close> and \<open>return_book\<close> share.\<close>

lemma replace_step:
  assumes wf: "books_wf s" and f: "find_book bid (bs_list s) = Some old_b"
    and s': "s' = reclaim async (bk_addr old_b)
    (s\<lparr>bs_list := replace_book old_b (old_b\<lparr>bk_addr := bs_brk s, bk_borrow := w\<rparr>) (bs_list s), bs_brk := Suc (bs_brk s)\<rparr>)"
  shows "books_wf s' \<and> contents s' = mark bid w (contents s)"
proof -
  obtain xs ys where l: "bs_list s = xs @ old_b # ys" "bk_id old_b = bid" "\<forall>x\<in>set xs. bk_id x \<noteq> bid"
    using find_book_split [OF f] by blast
  have r: "replace_book old_b new (bs_list s) = xs @ new # ys" for new
    unfolding l(1) by (rule replace_book_middle) (use books_wf_distinct [OF wf] l(1) in simp)
  have "contents s' = mark bid w (contents s)"
    using mark_middle [OF l(3,2), of w ys "bs_brk s"] unfolding s' r by (simp add: contents_def reclaim_def l(1))
  moreover have "books_wf s'"
    using wf unfolding s' reclaim_def r by (auto simp: books_wf_def l(1) ac_simps simp del: mset_upt)
  ultimately show ?thesis by blast
qed

lemma delete_step:
  assumes wf: "books_wf s" and f: "find_book bid (bs_list s) = Some b"
  shows "books_wf (delete_book s bid async) \<and>
    (\<exists>xs ys. bs_list s = xs @ b # ys \<and> bs_list (delete_book s bid async) = xs @ ys)"
proof -
  obtain xs ys where l: "bs_list s = xs @ b # ys" using find_book_split [OF f] by blast
  have d: "filter (\<lambda>c. bk_addr c \<noteq> bk_addr b) (bs_list s) = xs @ ys"
    unfolding l by (rule filter_book_middle) (use books_wf_distinct [OF wf] l in simp)
  show ?thesis
    using wf l f d by (auto simp: delete_book_def reclaim_def books_wf_def ac_simps)
qed

lemma add_book_wf: "books_wf s \<Longrightarrow> books_wf (add_book ok s bid name author)"
  by (simp add: add_book_def books_wf_def del: mset_upt)

lemma mark_mark [simp]: "mark bid v (mark bid w xs) = mark bid v xs"
  by (induction bid w xs rule: mark.induct) auto

lemma mark_same:
  "find_book bid bs = Some b \<Longrightarrow> bk_borrow b = w \<Longrightarrow>
   mark bid w (map (\<lambda>b. (bk_id b, bk_name b, bk_author b, bk_borrow b)) bs) =
   map (\<lambda>b. (bk_id b, bk_name b, bk_author b, bk_borrow b)) bs"
  by (induction bid bs rule: find_book.induct) (auto split: if_splits)

lemma find_book_mark:
  "contents s' = mark bid w (contents s) \<Longrightarrow> find_book bid (bs_list s) \<noteq> None \<Longrightarrow>
   \<exists>b. find_book bid (bs_list s') = Some b \<and> bk_borrow b = w"
  unfolding contents_def
proof (induction "bs_list s" arbitrary: s s')
  case Nil
  then show ?case by simp
next
  case (Cons c cs)
  obtain d ds where s': "bs_list s' = d # ds"
    using Cons.prems(1) Cons.hyps(2) [symmetric] by (cases "bs_list s'") (auto split: if_splits)
  show ?case
  proof (cases "bk_id c = bid")
    case True
    with Cons.prems(1) Cons.hyps(2) [symmetric] s' show ?thesis by auto
  next
    case False
    with Cons.prems Cons.hyps(2) [symmetric] s' Cons.hyps(1) [of "s\<lparr>bs_list := cs\<rparr>" "s'\<lparr>bs_list := ds\<rparr>"]
    show ?thesis by auto
  qed
qed

lemma borrow_book_ok:
  assumes "books_wf s" "find_book bid (bs_list s) = Some b" "bk_borrow b = 0"
  shows "\<exists>s'. borrow_book True s bid async = (s', 0) \<and> books_wf s' \<and> contents s' = mark bid 1 (contents s)"
  using replace_step [OF assms(1,2) refl, of async 1] assms(2,3) by (simp add: borrow_book_def Let_def)

lemma return_book_ok:
  assumes "books_wf s" "find_book bid (bs_list s) = Some b" "bk_borrow b \<noteq> 0"
  shows "\<exists>s'. return_book True s bid async = (s', 0) \<and> books_wf s' \<and> contents s' = mark bid 0 (contents s)"
  using replace_step [OF assms(1,2) refl, of async 0] assms(2,3) by (simp add: return_book_def Let_def)

lemma one_book_wf: "books_wf (add_book True no_books 7 name author)"
  by (rule add_book_wf) (simp add: books_wf_def no_books_def)

section \<open>Properties\<close>

text \<open>
  Borrowing a book that is in the list and free marks exactly that book, a second \<open>borrow_book\<close> is
  refused, and \<open>return_book\<close> brings the contents of the list back; returning a free book, and borrowing
  when the allocation fails, answer -1 and change nothing. Every node stays accounted for.
\<close>

lemma borrow_return_roundtrip:
  assumes wf: "books_wf s" and b: "find_book bid (bs_list s) = Some b" "bk_borrow b = 0"
  shows "\<exists>s1 s2. borrow_book True s bid async = (s1, 0) \<and> is_borrowed_book s1 bid = 1 \<and>
    return_book True s1 bid async = (s2, 0) \<and> contents s2 = contents s \<and> books_wf s2 \<and>
    borrow_book ok s1 bid async = (s1, -1) \<and> return_book ok s bid async = (s, -1) \<and>
    borrow_book False s bid async = (s, -1)"
proof -
  obtain s1 where s1: "borrow_book True s bid async = (s1, 0)" "books_wf s1" "contents s1 = mark bid 1 (contents s)"
    using borrow_book_ok [OF assms] by blast
  obtain b1 where b1: "find_book bid (bs_list s1) = Some b1" "bk_borrow b1 = 1"
    using find_book_mark [OF s1(3)] b by auto
  obtain s2 where s2: "return_book True s1 bid async = (s2, 0)" "books_wf s2" "contents s2 = mark bid 0 (contents s1)"
    using return_book_ok [OF s1(2) b1(1)] b1(2) by auto
  have "contents s2 = contents s"
    using mark_same [OF b] unfolding s2(3) s1(3) by (simp add: contents_def)
  with s1 s2 b b1 show ?thesis
    by (simp add: is_borrowed_book_def) (simp add: borrow_book_def return_book_def)
qed

theorem borrow_return_witness:
  "\<exists>s1 s2. borrow_book True (add_book True no_books 7 ''c'' ''kr'') 7 True = (s1, 0) \<and>
     return_book True s1 7 True = (s2, 0) \<and> contents s2 = [(7, ''c'', ''kr'', 0)]"
proof -
  let ?s = "add_book True no_books 7 ''c'' ''kr''"
  have c: "contents ?s = [(7, ''c'', ''kr'', 0)]" by code_simp
  show ?thesis
    using borrow_return_roundtrip [OF one_book_wf, of 7 "''c''" "''kr''" _ True True]
    by (fastforce simp: c [symmetric] add_book_def)
qed

text \<open>
  \<open>test_example\<close> prints the books first free, then borrowed, then free again, and after the deletion
  neither exists; after \<open>list_rcu_init\<close> the list is empty, the six nodes of the first run were freed and
  the six of the second were handed to \<open>call_rcu\<close>.
\<close>

lemma test_example_log:
  "snd (test_example no_books async) =
    ([Some (0, ''book1'', ''jb'', 0), Some (1, ''book2'', ''jb'', 0),
      Some (0, ''book1'', ''jb'', 1), Some (1, ''book2'', ''jb'', 1),
      Some (0, ''book1'', ''jb'', 0), Some (1, ''book2'', ''jb'', 0), None, None], [0, 0]) \<and>
   list_rcu_init = \<lparr>bs_list = [], bs_brk = 12, bs_freed = [0, 1, 2, 3, 4, 5], bs_rcu = [6, 7, 8, 9, 10, 11]\<rparr>"
  by (rule conjI, cases async) (simp_all only:, code_simp+)

end
