(* ===== verification/CHeap.thy ===== *)
theory CHeap
  imports Prelude
begin

text \<open>
  A heap for the C programs that allocate strings, arrays and the \<open>VectorString\<close> structure: a map from
  the addresses of live blocks to their contents. Addresses are never given out twice, so that the use
  of a freed block is a fault. \<open>realloc\<close> always moves the block, the case that invalidates other
  pointers to it. An entry \<open>None\<close> of an array, and a pointer \<open>None\<close>, is indeterminate.
  A string is its characters before the terminating null; the block has room for exactly these.
\<close>

section \<open>Blocks\<close>

datatype block =
    BStr string
  | BPtrs "nat option list"       \<comment> \<open>an array of pointers to strings\<close>
  | BInts "int option list"
  | BVec int "nat option"         \<comment> \<open>\<open>struct VectorString\<close>: size and vector\<close>

record cheap =
  c_blk :: "nat \<Rightarrow> block option"
  c_brk :: nat

definition empty_heap :: cheap where
  "empty_heap = \<lparr>c_blk = Map.empty, c_brk = 0\<rparr>"

definition malloc :: "cheap \<Rightarrow> block \<Rightarrow> cheap \<times> nat" where
  "malloc h b = (h\<lparr>c_blk := (c_blk h)(c_brk h \<mapsto> b), c_brk := Suc (c_brk h)\<rparr>, c_brk h)"

text \<open>Following a pointer.\<close>

definition deref :: "cheap \<Rightarrow> nat option \<Rightarrow> (nat \<times> block) res" where
  "deref h p = (case p of None \<Rightarrow> Inl Uninit
     | Some a \<Rightarrow> (case c_blk h a of None \<Rightarrow> Inl UseAfterFree | Some b \<Rightarrow> Inr (a, b)))"

definition c_free :: "cheap \<Rightarrow> nat option \<Rightarrow> cheap res" where
  "c_free h p = (case p of None \<Rightarrow> Inl Uninit
     | Some a \<Rightarrow> if c_blk h a = None then Inl BadFree else Inr (h\<lparr>c_blk := (c_blk h)(a := None)\<rparr>))"

definition get_str :: "cheap \<Rightarrow> nat option \<Rightarrow> string res" where
  "get_str h p = bindR (deref h p) (\<lambda>(a, b). case b of BStr s \<Rightarrow> Inr s | _ \<Rightarrow> Inl OutOfBounds)"

definition get_ptrs :: "cheap \<Rightarrow> nat option \<Rightarrow> nat option list res" where
  "get_ptrs h p = bindR (deref h p) (\<lambda>(a, b). case b of BPtrs ps \<Rightarrow> Inr ps | _ \<Rightarrow> Inl OutOfBounds)"

definition get_ints :: "cheap \<Rightarrow> nat option \<Rightarrow> int option list res" where
  "get_ints h p = bindR (deref h p) (\<lambda>(a, b). case b of BInts xs \<Rightarrow> Inr xs | _ \<Rightarrow> Inl OutOfBounds)"

definition get_vec :: "cheap \<Rightarrow> nat option \<Rightarrow> (int \<times> nat option) res" where
  "get_vec h p = bindR (deref h p) (\<lambda>(a, b). case b of BVec n v \<Rightarrow> Inr (n, v) | _ \<Rightarrow> Inl OutOfBounds)"

definition put_blk :: "cheap \<Rightarrow> nat option \<Rightarrow> block \<Rightarrow> cheap res" where
  "put_blk h p b = bindR (deref h p) (\<lambda>(a, _). Inr (h\<lparr>c_blk := (c_blk h)(a \<mapsto> b)\<rparr>))"

text \<open>\<open>p[i]\<close> and \<open>p[i] = v\<close> for an array of pointers or of integers.\<close>

definition ptr_at :: "cheap \<Rightarrow> nat option \<Rightarrow> nat \<Rightarrow> nat option res" where
  "ptr_at h p i = bindR (get_ptrs h p) (\<lambda>ps. arr_get ps i)"

definition set_ptr :: "cheap \<Rightarrow> nat option \<Rightarrow> nat \<Rightarrow> nat option \<Rightarrow> cheap res" where
  "set_ptr h p i v = bindR (get_ptrs h p) (\<lambda>ps. bindR (arr_set ps i v) (\<lambda>ps. put_blk h p (BPtrs ps)))"

definition int_at :: "cheap \<Rightarrow> nat option \<Rightarrow> nat \<Rightarrow> int option res" where
  "int_at h p i = bindR (get_ints h p) (\<lambda>xs. arr_get xs i)"

definition set_int :: "cheap \<Rightarrow> nat option \<Rightarrow> nat \<Rightarrow> int option \<Rightarrow> cheap res" where
  "set_int h p i v = bindR (get_ints h p) (\<lambda>xs. bindR (arr_set xs i v) (\<lambda>xs. put_blk h p (BInts xs)))"

definition resize :: "nat \<Rightarrow> 'a option list \<Rightarrow> 'a option list" where
  "resize n xs = take n xs @ replicate (n - length xs) None"

definition realloc_ptrs :: "cheap \<Rightarrow> nat option \<Rightarrow> nat \<Rightarrow> (cheap \<times> nat) res" where
  "realloc_ptrs h p n = bindR (get_ptrs h p) (\<lambda>ps. bindR (c_free h p) (\<lambda>h. Inr (malloc h (BPtrs (resize n ps)))))"

definition realloc_ints :: "cheap \<Rightarrow> nat option \<Rightarrow> nat \<Rightarrow> (cheap \<times> nat) res" where
  "realloc_ints h p n = bindR (get_ints h p) (\<lambda>xs. bindR (c_free h p) (\<lambda>h. Inr (malloc h (BInts (resize n xs)))))"

section \<open>Strings\<close>

text \<open>\<open>strsep\<close> with the delimiter newline, called until it returns null: the fields of the string.\<close>

definition nl :: char where
  "nl = CHR 0x0A"

fun strsep_all :: "string \<Rightarrow> string list" where
  "strsep_all [] = [[]]"
| "strsep_all (c # cs) = (if c = nl then [] # strsep_all cs
     else (case strsep_all cs of [] \<Rightarrow> [[c]] | l # ls \<Rightarrow> (c # l) # ls))"

fun is_prefix :: "string \<Rightarrow> string \<Rightarrow> bool" where
  "is_prefix [] ys = True"
| "is_prefix (x # xs) [] = False"
| "is_prefix (x # xs) (y # ys) = (x = y \<and> is_prefix xs ys)"

text \<open>\<open>strstr\<close>: the rest of the string from the first occurrence on.\<close>

fun strstr :: "string \<Rightarrow> string \<Rightarrow> string option" where
  "strstr [] needle = (if needle = [] then Some [] else None)"
| "strstr (c # cs) needle = (if is_prefix needle (c # cs) then Some (c # cs) else strstr cs needle)"

fun join_lines :: "string list \<Rightarrow> string" where
  "join_lines [] = []"
| "join_lines [l] = l"
| "join_lines (l # m # ls) = l @ nl # join_lines (m # ls)"

section \<open>Lemmas\<close>

lemma strsep_all_not_Nil [simp]: "strsep_all s \<noteq> []"
  by (induction s rule: strsep_all.induct) (auto split: list.splits)

lemma join_strsep: "join_lines (strsep_all s) = s"
proof (induction s rule: strsep_all.induct)
  case 1
  then show ?case by simp
next
  case (2 c cs)
  obtain l ls where l: "strsep_all cs = l # ls" by (cases "strsep_all cs") auto
  with 2 show ?case by (cases ls) auto
qed

lemma strsep_no_nl: "l \<in> set (strsep_all s) \<Longrightarrow> nl \<notin> set l"
  by (induction s arbitrary: l rule: strsep_all.induct) (auto split: if_splits list.splits)

lemma is_prefix_iff: "is_prefix xs ys \<longleftrightarrow> (\<exists>zs. ys = xs @ zs)"
  by (induction xs ys rule: is_prefix.induct) auto

lemma strstr_Some: "strstr hay needle = Some r \<longleftrightarrow>
    (\<exists>as. hay = as @ r \<and> is_prefix needle r \<and> (\<forall>bs cs. hay = bs @ cs \<and> length bs < length as \<longrightarrow> \<not> is_prefix needle cs))"
proof (induction hay needle arbitrary: r rule: strstr.induct)
  case (1 needle)
  then show ?case by (cases needle) auto
next
  case (2 c cs needle)
  show ?case
  proof (cases "is_prefix needle (c # cs)")
    case True
    have "(\<exists>as. c # cs = as @ r \<and> is_prefix needle r \<and>
        (\<forall>bs ds. c # cs = bs @ ds \<and> length bs < length as \<longrightarrow> \<not> is_prefix needle ds)) \<longleftrightarrow> r = c # cs"
    proof
      assume "\<exists>as. c # cs = as @ r \<and> is_prefix needle r \<and>
        (\<forall>bs ds. c # cs = bs @ ds \<and> length bs < length as \<longrightarrow> \<not> is_prefix needle ds)"
      then obtain as where a: "c # cs = as @ r"
        "\<forall>bs ds. c # cs = bs @ ds \<and> length bs < length as \<longrightarrow> \<not> is_prefix needle ds" by blast
      have "as = []" using spec [OF spec [OF a(2), of "[]"], of "c # cs"] True by auto
      with a(1) show "r = c # cs" by simp
    qed (use True in \<open>auto intro!: exI [of _ "[]"]\<close>)
    with True show ?thesis by auto
  next
    case False
    have "(\<exists>as. c # cs = as @ r \<and> is_prefix needle r \<and>
        (\<forall>bs ds. c # cs = bs @ ds \<and> length bs < length as \<longrightarrow> \<not> is_prefix needle ds)) \<longleftrightarrow>
      (\<exists>as. cs = as @ r \<and> is_prefix needle r \<and>
        (\<forall>bs ds. cs = bs @ ds \<and> length bs < length as \<longrightarrow> \<not> is_prefix needle ds))" (is "?l \<longleftrightarrow> ?r")
    proof
      assume ?l
      then obtain as where a: "c # cs = as @ r" "is_prefix needle r"
        "\<forall>bs ds. c # cs = bs @ ds \<and> length bs < length as \<longrightarrow> \<not> is_prefix needle ds" by blast
      obtain as' where as: "as = c # as'" using a(1,2) False by (cases as) auto
      have "\<not> is_prefix needle ds" if "cs = bs @ ds" "length bs < length as'" for bs ds
        using a(3) [rule_format, of "c # bs" ds] that as by simp
      with a as show ?r by auto
    next
      assume ?r
      then obtain as where a: "cs = as @ r" "is_prefix needle r"
        "\<forall>bs ds. cs = bs @ ds \<and> length bs < length as \<longrightarrow> \<not> is_prefix needle ds" by blast
      have "\<not> is_prefix needle ds" if "c # cs = bs @ ds" "length bs < length (c # as)" for bs ds
        using that False a(3) by (cases bs) auto
      with a show ?l by (intro exI [of _ "c # as"]) auto
    qed
    with False 2 show ?thesis by simp
  qed
qed

lemma strstr_None: "strstr hay needle = None \<longleftrightarrow> (\<nexists>as bs. hay = as @ needle @ bs)"
proof (induction hay needle rule: strstr.induct)
  case (1 needle)
  then show ?case by auto
next
  case (2 c cs needle)
  show ?case
  proof (cases "is_prefix needle (c # cs)")
    case True
    then obtain zs where "c # cs = [] @ needle @ zs" by (auto simp: is_prefix_iff)
    with True show ?thesis by (metis strstr.simps(2) option.distinct(1))
  next
    case False
    then have "(\<exists>as bs. c # cs = as @ needle @ bs) \<longleftrightarrow> (\<exists>as bs. cs = as @ needle @ bs)"
      by (auto simp: is_prefix_iff) (metis append_Cons append_Nil list.sel(3) tl_append2, metis append_Cons)
    with False 2 show ?thesis by simp
  qed
qed

lemma deref_Some [simp]: "c_blk h a = Some b \<Longrightarrow> deref h (Some a) = Inr (a, b)"
  by (simp add: deref_def)

lemma c_free_Some [simp]: "c_blk h a = Some b \<Longrightarrow> c_free h (Some a) = Inr (h\<lparr>c_blk := (c_blk h)(a := None)\<rparr>)"
  by (simp add: c_free_def)

lemma get_str_Some [simp]: "c_blk h a = Some (BStr s) \<Longrightarrow> get_str h (Some a) = Inr s"
  by (simp add: get_str_def)

lemma get_ptrs_Some [simp]: "c_blk h a = Some (BPtrs ps) \<Longrightarrow> get_ptrs h (Some a) = Inr ps"
  by (simp add: get_ptrs_def)

lemma get_ints_Some [simp]: "c_blk h a = Some (BInts xs) \<Longrightarrow> get_ints h (Some a) = Inr xs"
  by (simp add: get_ints_def)

lemma get_vec_Some [simp]: "c_blk h a = Some (BVec n v) \<Longrightarrow> get_vec h (Some a) = Inr (n, v)"
  by (simp add: get_vec_def)

lemma ptr_at_Some [simp]: "c_blk h a = Some (BPtrs ps) \<Longrightarrow> i < length ps \<Longrightarrow> ptr_at h (Some a) i = Inr (ps ! i)"
  by (simp add: ptr_at_def)

lemma int_at_Some [simp]: "c_blk h a = Some (BInts xs) \<Longrightarrow> i < length xs \<Longrightarrow> int_at h (Some a) i = Inr (xs ! i)"
  by (simp add: int_at_def)

lemma set_ptr_Some [simp]: "c_blk h a = Some (BPtrs ps) \<Longrightarrow> i < length ps \<Longrightarrow>
    set_ptr h (Some a) i v = Inr (h\<lparr>c_blk := (c_blk h)(a \<mapsto> BPtrs (ps[i := v]))\<rparr>)"
  by (simp add: set_ptr_def put_blk_def)

lemma set_int_Some [simp]: "c_blk h a = Some (BInts xs) \<Longrightarrow> i < length xs \<Longrightarrow>
    set_int h (Some a) i v = Inr (h\<lparr>c_blk := (c_blk h)(a \<mapsto> BInts (xs[i := v]))\<rparr>)"
  by (simp add: set_int_def put_blk_def)

lemma resize_Suc [simp]: "resize (Suc (length xs)) xs = xs @ [None]"
  by (simp add: resize_def)

lemma resize_take: "n \<le> length xs \<Longrightarrow> resize n xs = take n xs"
  by (simp add: resize_def)

end
