(* ===== verification/Vector.thy ===== *)
theory Vector
  imports CHeap
begin

text \<open>
  The growing arrays of \<open>src/data-vector\<close>: vectors of strings and of integers that are reallocated for
  every element (\<open>string.c\<close>, \<open>int.c\<close>), the older variants that copy every string
  (\<open>inefficient.c\<close>), and the program that splits a text into lines, erases two of them and frees the rest
  (\<open>interface.c\<close>). A vector is a pointer to an array of pointers; the caller keeps its length.
\<close>

section \<open>\<open>string.c\<close> and \<open>int.c\<close>\<close>

definition VECTOR_PushBackString :: "cheap \<Rightarrow> int \<Rightarrow> nat option \<Rightarrow> string \<Rightarrow> (cheap \<times> nat option \<times> int) res" where
  "VECTOR_PushBackString h rowc vec new_el =
     bindR (if rowc = 0 then Inr (malloc h (BPtrs [None])) else realloc_ptrs h vec (nat (rowc + 1))) (\<lambda>(h, v).
     case malloc h (BStr new_el) of (h, p) \<Rightarrow>
     bindR (set_ptr h (Some v) (nat rowc) (Some p)) (\<lambda>h. Inr (h, Some v, 0)))"

definition erase_string_step :: "int \<Rightarrow> int \<Rightarrow> nat option \<Rightarrow> cheap \<Rightarrow> nat \<Rightarrow> cheap res" where
  "erase_string_step rowc index vec h i =
     (if int i < index then Inr h
      else if int i = index then bindR (ptr_at h vec i) (\<lambda>p. c_free h p)
      else if int i \<noteq> rowc - 1 then bindR (ptr_at h vec i) (\<lambda>p. set_ptr h vec (i - 1) p)
      else bindR (ptr_at h vec i) (\<lambda>p. bindR (get_str h p) (\<lambda>s.
        case malloc h (BStr s) of (h, new_last) \<Rightarrow>
        bindR (c_free h p) (\<lambda>h. set_ptr h vec (i - 1) (Some new_last)))))"

definition VECTOR_EraseString :: "cheap \<Rightarrow> int \<Rightarrow> nat option \<Rightarrow> int \<Rightarrow> (cheap \<times> nat option \<times> int) res" where
  "VECTOR_EraseString h rowc vec index =
     (if rowc - 1 < 0 then Inr (h, vec, -1)
      else if index \<ge> rowc \<or> index < 0 then Inr (h, vec, -2)
      else bindR (foldR (erase_string_step rowc index vec) h [0..<nat rowc]) (\<lambda>h.
        if rowc - 1 = 0 then bindR (c_free h vec) (\<lambda>h. Inr (h, vec, 1))
        else bindR (realloc_ptrs h vec (nat (rowc - 1))) (\<lambda>(h, v). Inr (h, Some v, 0))))"

definition VECTOR_PushBackInt :: "cheap \<Rightarrow> int \<Rightarrow> nat option \<Rightarrow> int \<Rightarrow> (cheap \<times> nat option \<times> int) res" where
  "VECTOR_PushBackInt h cnt vec new_el =
     bindR (if cnt = 0 then Inr (malloc h (BInts [None])) else realloc_ints h vec (nat (cnt + 1))) (\<lambda>(h, v).
     bindR (set_int h (Some v) (nat cnt) (Some new_el)) (\<lambda>h. Inr (h, Some v, 0)))"

definition erase_int_step :: "int \<Rightarrow> nat option \<Rightarrow> cheap \<Rightarrow> nat \<Rightarrow> cheap res" where
  "erase_int_step index vec h i =
     (if int i \<le> index then Inr h else bindR (int_at h vec i) (\<lambda>x. set_int h vec (i - 1) x))"

definition VECTOR_EraseInt :: "cheap \<Rightarrow> int \<Rightarrow> nat option \<Rightarrow> int \<Rightarrow> (cheap \<times> nat option \<times> int) res" where
  "VECTOR_EraseInt h cnt vec index =
     (if cnt - 1 < 0 then Inr (h, vec, -1)
      else if index \<ge> cnt \<or> index < 0 then Inr (h, vec, -2)
      else bindR (foldR (erase_int_step index vec) h [0..<nat cnt]) (\<lambda>h.
        if cnt - 1 = 0 then bindR (c_free h vec) (\<lambda>h. Inr (h, vec, 1))
        else bindR (realloc_ints h vec (nat (cnt - 1))) (\<lambda>(h, v). Inr (h, Some v, 0))))"

section \<open>\<open>inefficient.c\<close>\<close>

text \<open>The loop that copies every string into the new array and frees the old one.\<close>

definition copy_step :: "nat option \<Rightarrow> nat option \<Rightarrow> cheap \<Rightarrow> nat \<Rightarrow> cheap res" where
  "copy_step old new h i =
     bindR (ptr_at h old i) (\<lambda>p. bindR (get_str h p) (\<lambda>s.
     case malloc h (BStr s) of (h, q) \<Rightarrow>
     bindR (set_ptr h new i (Some q)) (\<lambda>h. c_free h p)))"

definition PushBackString :: "cheap \<Rightarrow> nat option \<Rightarrow> string \<Rightarrow> (cheap \<times> nat option) res" where
  "PushBackString h sv new_str =
     bindR (get_vec h sv) (\<lambda>(org_vec_size, vector).
     case malloc h (BVec 0 None) of (h, new_vec) \<Rightarrow>
     case malloc h (BPtrs (replicate (nat (org_vec_size + 1)) None)) of (h, v) \<Rightarrow>
     bindR (foldR (copy_step vector (Some v)) h [0..<nat org_vec_size]) (\<lambda>h.
     bindR (if org_vec_size > 0 then c_free h vector else Inr h) (\<lambda>h.
     bindR (c_free h sv) (\<lambda>h.
     case malloc h (BStr new_str) of (h, p) \<Rightarrow>
     bindR (set_ptr h (Some v) (nat org_vec_size) (Some p)) (\<lambda>h.
     bindR (put_blk h (Some new_vec) (BVec (org_vec_size + 1) (Some v))) (\<lambda>h. Inr (h, Some new_vec)))))))"

definition PushBackString2 :: "cheap \<Rightarrow> nat option \<Rightarrow> string \<Rightarrow> (cheap \<times> nat option) res" where
  "PushBackString2 h sv new_str =
     bindR (get_vec h sv) (\<lambda>(org_vec_size, vector).
     case malloc h (BVec 0 None) of (h, new_vec) \<Rightarrow>
     case malloc h (BPtrs (replicate (nat (org_vec_size + 1)) None)) of (h, v) \<Rightarrow>
     bindR (foldR (copy_step vector (Some v)) h [0..<nat org_vec_size]) (\<lambda>h.
     bindR (if org_vec_size > 0 then c_free h vector else Inr h) (\<lambda>h.
     bindR (c_free h sv) (\<lambda>h.
     case malloc h (BStr new_str) of (h, p) \<Rightarrow>
     bindR (set_ptr h (Some v) (nat org_vec_size) (Some p)) (\<lambda>h.
     bindR (put_blk h (Some new_vec) (BVec (org_vec_size + 1) (Some v))) (\<lambda>h. Inr (h, Some new_vec)))))))"

definition VS_new :: "cheap \<Rightarrow> cheap \<times> nat" where
  "VS_new h = malloc h (BVec 0 None)"

definition VS_append :: "cheap \<Rightarrow> nat option \<Rightarrow> string \<Rightarrow> cheap res" where
  "VS_append h sv new_str =
     bindR (get_vec h sv) (\<lambda>(org_vec_size, vector).
     case malloc h (BPtrs (replicate (nat (org_vec_size + 1)) None)) of (h, v) \<Rightarrow>
     bindR (foldR (copy_step vector (Some v)) h [0..<nat org_vec_size]) (\<lambda>h.
     bindR (c_free h vector) (\<lambda>h.
     case malloc h (BStr new_str) of (h, p) \<Rightarrow>
     bindR (set_ptr h (Some v) (nat org_vec_size) (Some p)) (\<lambda>h.
     put_blk h sv (BVec (org_vec_size + 1) (Some v))))))"

definition VS_delete :: "cheap \<Rightarrow> nat option \<Rightarrow> cheap res" where
  "VS_delete h sv =
     bindR (get_vec h sv) (\<lambda>(v_size, vector).
     bindR (foldR (\<lambda>h i. bindR (ptr_at h vector i) (\<lambda>p. c_free h p)) h [0..<nat v_size]) (\<lambda>h. c_free h sv))"

section \<open>\<open>interface.c\<close>\<close>

text \<open>Filling a vector line by line (false: a push failed), reading it for printing, and freeing it.\<close>

fun fill_lines ::
  "(cheap \<Rightarrow> int \<Rightarrow> nat option \<Rightarrow> string \<Rightarrow> (cheap \<times> nat option \<times> int) res) \<Rightarrow>
   cheap \<times> nat option \<times> int \<Rightarrow> string list \<Rightarrow> (cheap \<times> nat option \<times> int \<times> bool) res"
where
  "fill_lines push (h, v, n) [] = Inr (h, v, n, True)"
| "fill_lines push (h, v, n) (l # ls) = bindR (push h n v l) (\<lambda>(h, v, status).
     if status < -1 then Inr (h, v, n, False) else fill_lines push (h, v, n + 1) ls)"

definition read_lines :: "cheap \<Rightarrow> nat option \<Rightarrow> int \<Rightarrow> string list res" where
  "read_lines h v n = foldR (\<lambda>out i. bindR (ptr_at h v i) (\<lambda>p. bindR (get_str h p) (\<lambda>s. Inr (out @ [s])))) [] [0..<nat n]"

definition free_lines :: "cheap \<Rightarrow> nat option \<Rightarrow> int \<Rightarrow> cheap res" where
  "free_lines h v n =
     bindR (foldR (\<lambda>h i. bindR (ptr_at h v i) (\<lambda>p. c_free h p)) h [0..<nat n]) (\<lambda>h. c_free h v)"

text \<open>\<open>PrintReducedVectorString\<close>: the three lists it prints and the heap it leaves, or the exit status. The
  vector pointer is indeterminate at the start.\<close>

definition PrintReducedVectorString :: "cheap \<Rightarrow> string \<Rightarrow> (int + cheap \<times> string list list) res" where
  "PrintReducedVectorString h source =
     bindR (fill_lines VECTOR_PushBackString (h, None, 0) (strsep_all source)) (\<lambda>(h, v, n, ok).
     if \<not> ok then Inr (Inl (-1)) else
     bindR (read_lines h v n) (\<lambda>l1.
     bindR (VECTOR_EraseString h n v 17) (\<lambda>(h, v, status).
     if status < 0 then Inr (Inl (-2))
     else bindR (read_lines h v (n - 1)) (\<lambda>l2.
       bindR (VECTOR_EraseString h (n - 1) v 19) (\<lambda>(h, v, status).
       if status < 0 then Inr (Inl (-2))
       else bindR (read_lines h v (n - 2)) (\<lambda>l3.
         bindR (free_lines h v (n - 2)) (\<lambda>h. Inr (Inr (h, [l1, l2, l3])))))))))"

section \<open>The sequence a vector stands for\<close>

definition heap_ok :: "cheap \<Rightarrow> bool" where
  "heap_ok h \<longleftrightarrow> (\<forall>a. c_blk h a \<noteq> None \<longrightarrow> a < c_brk h)"

text \<open>\<open>vrep h v ps xs\<close>: the vector \<open>v\<close> holds the strings \<open>xs\<close>, at the addresses \<open>ps\<close>. An empty vector has no
  array. \<open>vfoot\<close> are the blocks that belong to it.\<close>

definition vrep :: "cheap \<Rightarrow> nat option \<Rightarrow> nat list \<Rightarrow> string list \<Rightarrow> bool" where
  "vrep h v ps xs \<longleftrightarrow> length ps = length xs \<and> distinct ps \<and>
     (xs \<noteq> [] \<longrightarrow> (\<exists>a. v = Some a \<and> a \<notin> set ps \<and> c_blk h a = Some (BPtrs (map Some ps)))) \<and>
     (\<forall>i<length xs. c_blk h (ps ! i) = Some (BStr (xs ! i)))"

definition vfoot :: "nat option \<Rightarrow> nat list \<Rightarrow> nat set" where
  "vfoot v ps = (if ps = [] then {} else set_option v \<union> set ps)"

text \<open>Outside the blocks of the old and the new vector nothing changed, and nothing else was allocated.\<close>

definition same_outside :: "cheap \<Rightarrow> nat set \<Rightarrow> cheap \<Rightarrow> nat set \<Rightarrow> bool" where
  "same_outside h F h' F' \<longleftrightarrow> c_blk h' |` (- F') = c_blk h |` (- F)"

definition irep :: "cheap \<Rightarrow> nat option \<Rightarrow> int list \<Rightarrow> bool" where
  "irep h v xs \<longleftrightarrow> (xs \<noteq> [] \<longrightarrow> (\<exists>a. v = Some a \<and> c_blk h a = Some (BInts (map Some xs))))"

definition ifoot :: "nat option \<Rightarrow> 'a list \<Rightarrow> nat set" where
  "ifoot v xs = (if xs = [] then {} else set_option v)"

definition erase :: "nat \<Rightarrow> 'a list \<Rightarrow> 'a list" where
  "erase i xs = take i xs @ drop (Suc i) xs"

text \<open>An array whose entries from \<open>idx\<close> on have moved down, up to position \<open>k\<close>.\<close>

definition shifted :: "nat \<Rightarrow> nat \<Rightarrow> 'a list \<Rightarrow> 'a list" where
  "shifted idx k xs = map (\<lambda>j. if idx \<le> j \<and> Suc j < k then xs ! Suc j else xs ! j) [0..<length xs]"

text \<open>The heap in which block \<open>a\<close> was replaced.\<close>

abbreviation upd :: "cheap \<Rightarrow> nat \<Rightarrow> block option \<Rightarrow> cheap" where
  "upd h a b \<equiv> h\<lparr>c_blk := (c_blk h)(a := b)\<rparr>"

text \<open>A \<open>struct VectorString\<close> at \<open>s\<close> that holds \<open>xs\<close>.\<close>

definition svrep :: "cheap \<Rightarrow> nat \<Rightarrow> nat option \<Rightarrow> nat list \<Rightarrow> string list \<Rightarrow> bool" where
  "svrep h s v ps xs \<longleftrightarrow> c_blk h s = Some (BVec (int (length xs)) v) \<and> vrep h v ps xs \<and> s \<notin> vfoot v ps"

text \<open>The heap after \<open>k\<close> strings were copied from the array at \<open>a\<close> to the new array at \<open>w\<close>.\<close>

definition copied :: "cheap \<Rightarrow> nat \<Rightarrow> nat \<Rightarrow> nat list \<Rightarrow> string list \<Rightarrow> nat \<Rightarrow> cheap" where
  "copied h w n ps xs k = h\<lparr>c_blk := (\<lambda>x. if x \<in> set (take k ps) then None
      else if x = w then Some (BPtrs (map Some [c_brk h..<c_brk h + k] @ replicate (n - k) None))
      else if c_brk h \<le> x \<and> x < c_brk h + k then Some (BStr (xs ! (x - c_brk h))) else c_blk h x),
    c_brk := c_brk h + k\<rparr>"

text \<open>The blocks of a vector after a push that copied every string to fresh memory: \<open>w\<close> is the array, the
  strings follow from \<open>b\<close> on.\<close>

definition rebuilt :: "cheap \<Rightarrow> nat set \<Rightarrow> nat \<Rightarrow> nat \<Rightarrow> nat \<Rightarrow> string list \<Rightarrow> nat \<Rightarrow> block option" where
  "rebuilt h F sv w b xs x =
    (if x = sv then Some (BVec (int (length xs)) (Some w))
     else if x = w then Some (BPtrs (map Some [b..<b + length xs]))
     else if b \<le> x \<and> x < b + length xs then Some (BStr (xs ! (x - b)))
     else if x \<in> F then None else c_blk h x)"

section \<open>Lemmas\<close>

lemma same_outside_trans: "same_outside h F h' F' \<Longrightarrow> same_outside h' F' h'' F'' \<Longrightarrow> same_outside h F h'' F''"
  by (simp add: same_outside_def)

lemma same_outside_frame: "same_outside h F h' F' \<Longrightarrow> same_outside h (F \<union> G) h' (F' \<union> G)"
proof -
  have "m |` (- (A \<union> G)) = (m |` (- A)) |` (- G)" for m :: "nat \<Rightarrow> block option" and A
    by (auto simp: restrict_map_def fun_eq_iff)
  then show "same_outside h F h' F' \<Longrightarrow> same_outside h (F \<union> G) h' (F' \<union> G)"
    unfolding same_outside_def by (simp only:)
qed

lemma same_outsideI:
  assumes "\<And>a. a \<notin> F' \<Longrightarrow> c_blk h' a = (if a \<in> F then None else c_blk h a)"
    and "\<And>a. a \<in> F' \<Longrightarrow> a \<notin> F \<Longrightarrow> c_blk h a = None"
  shows "same_outside h F h' F'"
  unfolding same_outside_def using assms by (auto simp: fun_eq_iff restrict_map_def)

lemma same_outside_keep:
  assumes "same_outside h F h' F'" and "a \<notin> F" and "c_blk h a = Some b"
  shows "a \<notin> F'" and "c_blk h' a = Some b"
proof -
  have "(c_blk h' |` (- F')) a = (c_blk h |` (- F)) a" using assms(1) by (simp add: same_outside_def)
  with assms(2,3) show "a \<notin> F'" "c_blk h' a = Some b" by (auto simp: restrict_map_def split: if_splits)
qed

lemma fresh_None: "heap_ok h \<Longrightarrow> c_brk h \<le> a \<Longrightarrow> c_blk h a = None"
  by (metis heap_ok_def not_le)

lemma heap_ok_upd: "heap_ok h \<Longrightarrow> (b \<noteq> None \<Longrightarrow> a < n) \<Longrightarrow> c_brk h \<le> n \<Longrightarrow>
    heap_ok (h\<lparr>c_blk := (c_blk h)(a := b), c_brk := n\<rparr>)"
  by (auto simp: heap_ok_def)

lemma vfoot_Some: "ps \<noteq> [] \<Longrightarrow> vfoot (Some a) ps = insert a (set ps)"
  by (simp add: vfoot_def)

lemma vfoot_Nil [simp]: "vfoot v [] = {}"
  by (simp add: vfoot_def)

lemma vrep_addr_less: "heap_ok h \<Longrightarrow> vrep h v ps xs \<Longrightarrow> a \<in> vfoot v ps \<Longrightarrow> a < c_brk h"
  by (auto simp: heap_ok_def vrep_def vfoot_def in_set_conv_nth split: if_splits)

lemma vrep_keep:
  assumes s: "same_outside h F h' F'" and r: "vrep h v ps xs" and d: "vfoot v ps \<inter> F = {}"
  shows "vrep h' v ps xs" and "vfoot v ps \<inter> F' = {}"
proof -
  have blk: "a \<in> vfoot v ps \<Longrightarrow> c_blk h a \<noteq> None" for a
    using r by (auto simp: vrep_def vfoot_def in_set_conv_nth split: if_splits)
  have k: "a \<in> vfoot v ps \<Longrightarrow> a \<notin> F' \<and> c_blk h' a = c_blk h a" for a
    using same_outside_keep [OF s] d blk by (metis disjoint_iff option.exhaust)
  then show "vfoot v ps \<inter> F' = {}" by blast
  show "vrep h' v ps xs"
  proof (cases "ps = []")
    case True
    with r show ?thesis by (simp add: vrep_def)
  next
    case False
    then obtain a where a: "v = Some a" using r by (auto simp: vrep_def)
    with False k have k': "c_blk h' a = c_blk h a" "\<And>p. p \<in> set ps \<Longrightarrow> c_blk h' p = c_blk h p"
      by (simp_all add: vfoot_Some)
    with r a show ?thesis by (simp add: vrep_def)
  qed
qed

lemma push_string_ok:
  assumes h: "heap_ok h" and r: "vrep h v ps xs"
  shows "\<exists>h' v' p. VECTOR_PushBackString h (int (length xs)) v s = Inr (h', v', 0) \<and> heap_ok h' \<and>
    vrep h' v' (ps @ [p]) (xs @ [s]) \<and> same_outside h (vfoot v ps) h' (vfoot v' (ps @ [p]))"
proof (cases "xs = []")
  case True
  let ?a = "c_brk h"
  let ?h = "h\<lparr>c_blk := (c_blk h)(?a \<mapsto> BPtrs [Some (Suc ?a)], Suc ?a \<mapsto> BStr s), c_brk := Suc (Suc ?a)\<rparr>"
  from True r have ps: "ps = []" by (simp add: vrep_def)
  have "VECTOR_PushBackString h (int (length xs)) v s = Inr (?h, Some ?a, 0)"
    using True by (simp add: VECTOR_PushBackString_def malloc_def fun_upd_twist)
  moreover have "heap_ok ?h" using h by (auto simp: heap_ok_def)
  moreover have "vrep ?h (Some ?a) (ps @ [Suc ?a]) (xs @ [s])"
    using True ps by (simp add: vrep_def)
  moreover have "same_outside h (vfoot v ps) ?h (vfoot (Some ?a) (ps @ [Suc ?a]))"
    using fresh_None [OF h] by (intro same_outsideI) (auto simp: vfoot_def ps)
  ultimately show ?thesis by blast
next
  case False
  let ?b = "c_brk h"
  obtain a where a: "v = Some a" "a \<notin> set ps" "c_blk h a = Some (BPtrs (map Some ps))" and l: "length ps = length xs"
    and d: "distinct ps" and st: "\<forall>i<length xs. c_blk h (ps ! i) = Some (BStr (xs ! i))"
    using r False by (auto simp: vrep_def)
  have less: "\<forall>p\<in>set ps. p < ?b" "a < ?b"
  proof -
    have "ps \<noteq> []" using False l by auto
    then show "\<forall>p\<in>set ps. p < ?b" "a < ?b"
      using vrep_addr_less [OF h r] by (simp_all add: a(1) vfoot_Some)
  qed
  let ?h = "h\<lparr>c_blk := (c_blk h)(a := None, ?b \<mapsto> BPtrs (map Some ps @ [Some (Suc ?b)]), Suc ?b \<mapsto> BStr s), c_brk := Suc (Suc ?b)\<rparr>"
  have rs: "resize (Suc (length xs)) (map Some ps) = map Some ps @ [None]"
    using resize_Suc [of "map Some ps"] l by simp
  have n: "nat (int (length xs) + 1) = Suc (length xs)" by simp
  have "VECTOR_PushBackString h (int (length xs)) v s = Inr (?h, Some ?b, 0)"
    using False a l
    by (simp add: VECTOR_PushBackString_def realloc_ptrs_def malloc_def n rs fun_upd_twist list_update_append)
  moreover have "heap_ok ?h" using h by (auto simp: heap_ok_def)
  moreover have "vrep ?h (Some ?b) (ps @ [Suc ?b]) (xs @ [s])"
  proof -
    have "c_blk ?h ((ps @ [Suc ?b]) ! i) = Some (BStr ((xs @ [s]) ! i))" if "i < length (xs @ [s])" for i
    proof (cases "i < length xs")
      case True
      then have "ps ! i \<in> set ps" using l by simp
      then have "ps ! i < ?b" "ps ! i \<noteq> a" using less a(2) by auto
      then show ?thesis using True l st by (simp add: nth_append)
    next
      case False
      then show ?thesis using that l by (simp add: nth_append)
    qed
    then show ?thesis using l d less by (auto simp: vrep_def)
  qed
  moreover have "same_outside h (vfoot v ps) ?h (vfoot (Some ?b) (ps @ [Suc ?b]))"
  proof -
    have "ps \<noteq> []" using False l by auto
    then show ?thesis
      using fresh_None [OF h] by (intro same_outsideI) (auto simp: a(1) vfoot_Some)
  qed
  ultimately show ?thesis by blast
qed


lemma foldR_skip: "(\<And>x. x \<in> set xs \<Longrightarrow> f s x = Inr s) \<Longrightarrow> foldR f s xs = Inr s"
  by (induction xs) simp_all

lemma length_shifted [simp]: "length (shifted idx k xs) = length xs"
  by (simp add: shifted_def)

lemma shifted_nth: "j < length xs \<Longrightarrow> shifted idx k xs ! j = (if idx \<le> j \<and> Suc j < k then xs ! Suc j else xs ! j)"
  by (simp add: shifted_def)

lemma shifted_start: "shifted idx (Suc idx) xs = xs"
  by (rule nth_equalityI) (auto simp: shifted_nth)

lemma shifted_step: "idx < k \<Longrightarrow> k < length xs \<Longrightarrow> (shifted idx k xs)[k - 1 := xs ! k] = shifted idx (Suc k) xs"
  by (rule nth_equalityI) (auto simp: shifted_nth nth_list_update)

lemma length_erase: "i < length xs \<Longrightarrow> length (erase i xs) = length xs - 1"
  by (simp add: erase_def)

lemma erase_nth: "i < length xs \<Longrightarrow> j < length xs - 1 \<Longrightarrow> erase i xs ! j = (if j < i then xs ! j else xs ! Suc j)"
  by (auto simp: erase_def nth_append)

lemma shifted_erase: "idx < length xs \<Longrightarrow> take (length xs - 1) (shifted idx (length xs) xs) = erase idx xs"
  by (rule nth_equalityI) (auto simp: shifted_nth length_erase erase_nth)

lemma shift_ptrs:
  assumes "c_blk h a = Some (BPtrs ps)" "idx < length ps" "k < length ps" "idx < k" "int (length ps) = rowc"
  shows "foldR (erase_string_step rowc (int idx) (Some a)) h [Suc idx..<k] =
    Inr (h\<lparr>c_blk := (c_blk h)(a \<mapsto> BPtrs (shifted idx k ps))\<rparr>)"
  using assms(3,4)
proof (induction k)
  case 0
  then show ?case by simp
next
  case (Suc k)
  show ?case
  proof (cases "idx = k")
    case True
    then show ?thesis using assms(1) by (simp add: shifted_start fun_upd_idem)
  next
    case False
    with Suc.prems have k: "idx < k" "k < length ps" by auto
    then have "[Suc idx..<Suc k] = [Suc idx..<k] @ [k]" by simp
    moreover have "erase_string_step rowc (int idx) (Some a) (h\<lparr>c_blk := (c_blk h)(a \<mapsto> BPtrs (shifted idx k ps))\<rparr>) k =
        Inr (h\<lparr>c_blk := (c_blk h)(a \<mapsto> BPtrs (shifted idx (Suc k) ps))\<rparr>)"
      using k Suc.prems assms(5) shifted_step [of idx k ps]
      by (simp add: erase_string_step_def shifted_nth)
    moreover have "foldR (erase_string_step rowc (int idx) (Some a)) h [Suc idx..<k] =
        Inr (h\<lparr>c_blk := (c_blk h)(a \<mapsto> BPtrs (shifted idx k ps))\<rparr>)"
      using Suc.IH k by blast
    ultimately show ?thesis by (simp only: foldR_append foldR.simps bindR_Inr)
  qed
qed


lemma erase_prefix:
  "foldR (erase_string_step rowc (int idx) v) h [0..<idx] = Inr h"
  by (rule foldR_skip) (simp add: erase_string_step_def)

lemma erase_last_ok:
  assumes h: "heap_ok h" and a: "c_blk h a = Some (BPtrs (map Some (ps @ [p])))" "a \<notin> set ps" "ps \<noteq> []"
    and p: "c_blk h p = Some (BStr x)" "p \<notin> set ps" "a \<noteq> p"
  defines "h1 \<equiv> h\<lparr>c_blk := (c_blk h)(p := None, a := None, c_brk h \<mapsto> BPtrs (map Some ps)), c_brk := Suc (c_brk h)\<rparr>"
  shows "VECTOR_EraseString h (int (Suc (length ps))) (Some a) (int (length ps)) = Inr (h1, Some (c_brk h), 0)"
proof -
  have "[0..<Suc (length ps)] = [0..<length ps] @ [length ps]" by simp
  then have "foldR (erase_string_step (int (Suc (length ps))) (int (length ps)) (Some a)) h [0..<Suc (length ps)] =
      Inr (upd h p None)"
    using a p by (simp add: foldR_append erase_prefix erase_string_step_def nth_append)
  moreover have "realloc_ptrs (upd h p None) (Some a) (length ps) = Inr (h1, c_brk h)"
    using a p by (simp add: realloc_ptrs_def malloc_def resize_take h1_def)
  moreover have "nat (int (Suc (length ps))) = Suc (length ps)" "nat (int (Suc (length ps)) - 1) = length ps" by simp_all
  ultimately show ?thesis
    using a(3) by (simp add: VECTOR_EraseString_def del: of_nat_Suc upt_Suc)
qed


lemma shifted_final:
  assumes "Suc idx < length ps"
  shows "take (length ps - 1) ((shifted idx (length ps - 1) (map Some ps))[length ps - 2 := Some q]) =
    map Some ((erase idx ps)[length ps - 2 := q])"
  using assms by (intro nth_equalityI) (auto simp: shifted_nth length_erase erase_nth nth_list_update)

lemma erase_step_last:
  assumes "c_blk h a = Some (BPtrs P)" "P ! i = Some z" "i < length P" "c_blk h z = Some (BStr x)"
    "z \<noteq> a" "a \<noteq> c_brk h" "z \<noteq> c_brk h" "index < int i" "int i = rowc - 1"
  shows "erase_string_step rowc index (Some a) h i =
    Inr (h\<lparr>c_blk := (c_blk h)(c_brk h \<mapsto> BStr x, z := None, a \<mapsto> BPtrs (P[i - 1 := Some (c_brk h)])), c_brk := Suc (c_brk h)\<rparr>)"
  using assms by (simp add: erase_string_step_def malloc_def)

lemma erase_middle_ok:
  assumes a: "c_blk h a = Some (BPtrs (map Some ps))" "a \<notin> set ps" "distinct ps" "Suc idx < length ps"
    and p: "c_blk h (ps ! idx) = Some (BStr y)" "c_blk h (ps ! (length ps - 1)) = Some (BStr x)"
    and h: "heap_ok h"
  shows "VECTOR_EraseString h (int (length ps)) (Some a) (int idx) =
    Inr (h\<lparr>c_blk := (c_blk h)(ps ! idx := None, ps ! (length ps - 1) := None, a := None, c_brk h \<mapsto> BStr x,
        Suc (c_brk h) \<mapsto> BPtrs (map Some ((erase idx ps)[length ps - 2 := c_brk h]))),
      c_brk := Suc (Suc (c_brk h))\<rparr>, Some (Suc (c_brk h)), 0)" (is "_ = Inr (?h', _, _)")
proof -
  let ?n = "length ps" and ?step = "erase_string_step (int (length ps)) (int idx) (Some a)"
  let ?z = "ps ! (?n - 1)" and ?y = "ps ! idx" and ?q = "c_brk h"
  let ?P = "shifted idx (?n - 1) (map Some ps)"
  have mem: "?z \<in> set ps" "?y \<in> set ps" using a(4) by auto
  then have ne: "?z \<noteq> a" "?y \<noteq> a" "?z \<noteq> ?y" using a by (auto simp: nth_eq_iff_index_eq)
  have fr: "a \<noteq> ?q" "?z \<noteq> ?q" "?y \<noteq> ?q" using h a(1) p by (auto simp: heap_ok_def)
  have split: "[0..<?n] = [0..<idx] @ [idx] @ [Suc idx..<?n - 1] @ [?n - 1]"
  proof -
    have "[0..<?n] = [0..<idx] @ [idx..<?n]" using a(4) upt_add_eq_append [of 0 idx "?n - idx"] by simp
    also have "[idx..<?n] = idx # [Suc idx..<?n]" using a(4) by (simp add: upt_conv_Cons)
    also have "[Suc idx..<?n] = [Suc idx..<?n - 1] @ [?n - 1]" using a(4) by (cases "length ps") simp_all
    finally show ?thesis by simp
  qed
  let ?h1 = "upd h ?y None"
  let ?h2 = "?h1\<lparr>c_blk := (c_blk ?h1)(a \<mapsto> BPtrs ?P)\<rparr>"
  let ?h3 = "?h2\<lparr>c_blk := (c_blk ?h2)(c_brk ?h2 \<mapsto> BStr x, ?z := None,
      a \<mapsto> BPtrs (?P[?n - 1 - 1 := Some (c_brk ?h2)])), c_brk := Suc (c_brk ?h2)\<rparr>"
  have 1: "?step h idx = Inr ?h1" using a p by (simp add: erase_string_step_def)
  have 2: "foldR ?step ?h1 [Suc idx..<?n - 1] = Inr ?h2"
    by (rule shift_ptrs) (use a ne in auto)
  have 3: "?step ?h2 (?n - 1) = Inr ?h3"
    by (rule erase_step_last) (use a p ne fr in \<open>simp_all add: shifted_nth\<close>)
  have f: "foldR ?step h [0..<?n] = Inr ?h3"
    unfolding split foldR_append erase_prefix by (simp only: foldR.simps foldR_append bindR_Inr 1 2 3)
  have r: "realloc_ptrs ?h3 (Some a) (?n - 1) = Inr (?h', Suc ?q)"
  proof -
    let ?A = "map Some ((erase idx ps)[?n - 2 := ?q])"
    have "realloc_ptrs ?h3 (Some a) (?n - 1) =
        Inr (h\<lparr>c_blk := (c_blk ?h3)(a := None, Suc ?q \<mapsto> BPtrs ?A), c_brk := Suc (Suc ?q)\<rparr>, Suc ?q)"
      using a(4) shifted_final [of idx ps ?q]
      by (simp add: realloc_ptrs_def malloc_def resize_take numeral_2_eq_2)
    moreover have "(c_blk ?h3)(a := None, Suc ?q \<mapsto> BPtrs ?A) = c_blk ?h'"
      using ne fr by (intro ext) simp
    ultimately show ?thesis by simp
  qed
  have c: "(int ?n - 1 < 0) = False" "(int idx \<ge> int ?n \<or> int idx < 0) = False" "(int ?n - 1 = 0) = False"
    "nat (int ?n) = ?n" "nat (int ?n - 1) = ?n - 1"
    using a(4) by auto
  show ?thesis
    unfolding VECTOR_EraseString_def c if_False f r bindR_Inr by (simp only: prod.case)
qed


lemma erase_single_ok:
  assumes "c_blk h a = Some (BPtrs [Some p])" "c_blk h p = Some (BStr x)" "a \<noteq> p"
  shows "VECTOR_EraseString h 1 (Some a) 0 = Inr (h\<lparr>c_blk := (c_blk h)(p := None, a := None)\<rparr>, Some a, 1)"
  using assms by (simp add: VECTOR_EraseString_def erase_string_step_def)

lemma vrep_parts:
  assumes "vrep h v ps xs" "xs \<noteq> []"
  obtains a where "v = Some a" "a \<notin> set ps" "c_blk h a = Some (BPtrs (map Some ps))" "length ps = length xs" "distinct ps"
    "\<And>i. i < length xs \<Longrightarrow> c_blk h (ps ! i) = Some (BStr (xs ! i))" "ps \<noteq> []"
proof -
  have "ps \<noteq> []" using assms by (auto simp: vrep_def)
  with assms that show ?thesis unfolding vrep_def by blast
qed

text \<open>The addresses after an inner element was erased: all but that of the element and the last one, and
  the copy \<open>q\<close> of the last one.\<close>

lemma erase_addrs:
  assumes n: "Suc idx < length ps" and d: "distinct ps" and q: "q \<notin> set ps"
  defines "qs \<equiv> (erase idx ps)[length ps - 2 := q]"
  shows erase_addrs_nth: "\<And>i. i < length ps - 1 \<Longrightarrow>
      qs ! i = (if i = length ps - 2 then q else if i < idx then ps ! i else ps ! Suc i)"
    and erase_addrs_set: "set qs \<subseteq> insert q (set ps)" "q \<in> set qs"
    and erase_addrs_gone: "\<And>x. x \<in> set ps \<Longrightarrow> x \<notin> set qs \<Longrightarrow> x = ps ! idx \<or> x = ps ! (length ps - 1)"
    and erase_addrs_distinct: "distinct qs"
proof -
  let ?n = "length ps"
  have len: "length qs = ?n - 1" using n by (simp add: qs_def length_erase)
  show nth: "qs ! i = (if i = ?n - 2 then q else if i < idx then ps ! i else ps ! Suc i)" if "i < ?n - 1" for i
    using that n by (auto simp: qs_def nth_list_update length_erase erase_nth)
  show "set qs \<subseteq> insert q (set ps)"
    using set_update_subset_insert [of "erase idx ps" "?n - 2" q]
    by (auto simp: qs_def erase_def dest: in_set_takeD in_set_dropD)
  show "q \<in> set qs" using n nth [of "?n - 2"] nth_mem [of "?n - 2" qs] len by simp
  show "x = ps ! idx \<or> x = ps ! (?n - 1)" if x: "x \<in> set ps" "x \<notin> set qs" for x
  proof (rule ccontr)
    assume c: "\<not> (x = ps ! idx \<or> x = ps ! (?n - 1))"
    obtain j where j: "j < ?n" "x = ps ! j" using x(1) by (auto simp: in_set_conv_nth)
    have ne: "j \<noteq> idx" "j \<noteq> ?n - 1" using c j(2) by auto
    define i where "i = (if j < idx then j else j - 1)"
    have i: "i < ?n - 1" "i \<noteq> ?n - 2" "(if i < idx then i else Suc i) = j"
      using ne j(1) n by (auto simp: i_def)
    then have "qs ! i = x" using nth [of i] j(2) by auto
    with i(1) len x(2) nth_mem [of i qs] show False by simp
  qed
  show "distinct qs"
    unfolding qs_def using d q
    by (intro distinct_list_update)
      (auto simp: erase_def set_take_disj_set_drop_if_distinct dest: in_set_takeD in_set_dropD)
qed

lemma erase_middle_rep:
  assumes h: "heap_ok h" and r: "vrep h v ps xs" and n: "Suc idx < length xs"
  shows "\<exists>h' v' ps'. VECTOR_EraseString h (int (length xs)) v (int idx) = Inr (h', v', 0) \<and>
    heap_ok h' \<and> vrep h' v' ps' (erase idx xs) \<and> same_outside h (vfoot v ps) h' (vfoot v' ps')"
proof -
  have "xs \<noteq> []" using n by auto
  then obtain a where a: "v = Some a" "a \<notin> set ps" "c_blk h a = Some (BPtrs (map Some ps))" "length ps = length xs" "distinct ps"
    and st: "\<And>i. i < length xs \<Longrightarrow> c_blk h (ps ! i) = Some (BStr (xs ! i))" and ne: "ps \<noteq> []"
    using vrep_parts [OF r] by metis
  have F: "vfoot v ps = insert a (set ps)" using ne by (simp add: a(1) vfoot_Some)
  have less: "p \<in> insert a (set ps) \<Longrightarrow> p < c_brk h" for p using vrep_addr_less [OF h r, of p] F by simp
  let ?q = "c_brk h" and ?n = "length ps"
  let ?ps = "(erase idx ps)[?n - 2 := ?q]"
  let ?h = "h\<lparr>c_blk := (c_blk h)(ps ! idx := None, ps ! (?n - 1) := None, a := None, ?q \<mapsto> BStr (xs ! (?n - 1)),
      Suc ?q \<mapsto> BPtrs (map Some ?ps)), c_brk := Suc (Suc ?q)\<rparr>"
  have n': "Suc idx < ?n" using n a(4) by simp
  have q: "?q \<notin> set ps" using less by auto
  note addrs = erase_addrs [OF n' a(5) q]
  have "VECTOR_EraseString h (int ?n) (Some a) (int idx) = Inr (?h, Some (Suc ?q), 0)"
    by (rule erase_middle_ok [OF a(3,2,5) n' _ _ h]) (use st n a(4) in auto)
  then have "VECTOR_EraseString h (int (length xs)) v (int idx) = Inr (?h, Some (Suc ?q), 0)"
    using a by simp
  moreover have "heap_ok ?h" using h by (auto simp: heap_ok_def)
  moreover have "vrep ?h (Some (Suc ?q)) ?ps (erase idx xs)"
  proof -
    have "c_blk ?h (?ps ! i) = Some (BStr (erase idx xs ! i))" if i: "i < ?n - 1" for i
    proof (cases "i = ?n - 2")
      case True
      then show ?thesis using addrs(1) [OF i] n a(4) by (auto simp: erase_nth Suc_diff_Suc numeral_2_eq_2)
    next
      case False
      define j where "j = (if i < idx then i else Suc i)"
      have j: "j < ?n" "j \<noteq> idx" "j \<noteq> ?n - 1" using i False n' by (auto simp: j_def)
      then have "ps ! j \<in> set ps" "ps ! j \<noteq> ps ! idx" "ps ! j \<noteq> ps ! (?n - 1)"
        using a(5) n' by (auto simp: nth_eq_iff_index_eq)
      moreover from this have "ps ! j \<noteq> a" "ps ! j < ?q" using a(2) less by auto
      moreover have "?ps ! i = ps ! j" "erase idx xs ! i = xs ! j"
        using addrs(1) [OF i] False i n a(4) by (auto simp: j_def erase_nth)
      ultimately show ?thesis using st [of j] j a(4) by simp
    qed
    moreover have "Suc ?q \<notin> set ?ps" using addrs(2) less by fastforce
    ultimately show ?thesis using n a(4) addrs(5) by (auto simp: vrep_def length_erase)
  qed
  moreover have "same_outside h (vfoot v ps) ?h (vfoot (Some (Suc ?q)) ?ps)"
  proof -
    have F': "vfoot (Some (Suc ?q)) ?ps = insert (Suc ?q) (set ?ps)" using addrs(3) by (intro vfoot_Some) auto
    show ?thesis
      unfolding F F'
    proof (rule same_outsideI)
      fix x assume "x \<notin> insert (Suc ?q) (set ?ps)"
      then have "x \<noteq> Suc ?q" "x \<noteq> ?q" "x \<in> set ps \<Longrightarrow> x = ps ! idx \<or> x = ps ! (?n - 1)" using addrs(3,4) by auto
      then show "c_blk ?h x = (if x \<in> insert a (set ps) then None else c_blk h x)"
        using n' by (cases "x \<in> set ps") auto
    next
      fix x assume "x \<in> insert (Suc ?q) (set ?ps)" "x \<notin> insert a (set ps)"
      then have "x = Suc ?q \<or> x = ?q" using addrs(2) by auto
      then show "c_blk h x = None" using fresh_None [OF h] by auto
    qed
  qed
  ultimately show ?thesis by blast
qed

lemma erase_string_ok:
  assumes h: "heap_ok h" and r: "vrep h v ps xs" and idx: "idx < length xs"
  shows "\<exists>h' v' ps'. VECTOR_EraseString h (int (length xs)) v (int idx) = Inr (h', v', if length xs = 1 then 1 else 0) \<and>
    heap_ok h' \<and> vrep h' v' ps' (erase idx xs) \<and> same_outside h (vfoot v ps) h' (vfoot v' ps')"
proof -
  have "xs \<noteq> []" using idx by auto
  then obtain a where a: "v = Some a" "a \<notin> set ps" "c_blk h a = Some (BPtrs (map Some ps))" "length ps = length xs" "distinct ps"
    and st: "\<And>i. i < length xs \<Longrightarrow> c_blk h (ps ! i) = Some (BStr (xs ! i))" and ne: "ps \<noteq> []"
    using vrep_parts [OF r] by metis
  have less: "p \<in> insert a (set ps) \<Longrightarrow> p < c_brk h" for p
    using vrep_addr_less [OF h r, of p] ne by (simp add: a(1) vfoot_Some)
  have F: "vfoot v ps = insert a (set ps)" using ne by (simp add: a(1) vfoot_Some)
  consider "length xs = 1" | "1 < length xs" "Suc idx = length xs" | "Suc idx < length xs"
    using idx by linarith
  then show ?thesis
  proof cases
    case 1
    then obtain p where p: "ps = [p]" using a(4) by (cases ps) auto
    let ?h = "h\<lparr>c_blk := (c_blk h)(p := None, a := None)\<rparr>"
    have "VECTOR_EraseString h (int (length xs)) v (int idx) = Inr (?h, v, if length xs = 1 then 1 else 0)"
      using erase_single_ok [of h a p "xs ! 0"] st [of 0] a 1 idx p by simp
    moreover have "heap_ok ?h" using h by (simp add: heap_ok_def)
    moreover have "vrep ?h v [] (erase idx xs)" using 1 idx by (simp add: vrep_def erase_def)
    moreover have "same_outside h (vfoot v ps) ?h (vfoot v [])" 
    proof -
      have "vfoot v ps = {a, p}" using F p by auto
      then show ?thesis by (intro same_outsideI) auto
    qed
    ultimately show ?thesis by blast
  next
    case 2
    define qs p where "qs = butlast ps" and "p = last ps"
    have ps: "ps = qs @ [p]" using ne by (simp add: qs_def p_def)
    then have l: "length qs = idx" "qs \<noteq> []" using 2 a(4) by auto
    let ?h = "h\<lparr>c_blk := (c_blk h)(p := None, a := None, c_brk h \<mapsto> BPtrs (map Some qs)), c_brk := Suc (c_brk h)\<rparr>"
    have "VECTOR_EraseString h (int (Suc (length qs))) (Some a) (int (length qs)) = Inr (?h, Some (c_brk h), 0)"
      by (rule erase_last_ok [OF h, of a qs p "xs ! idx"]) (use a ps l st [OF idx] in \<open>auto simp: nth_append\<close>)
    then have "VECTOR_EraseString h (int (length xs)) v (int idx) = Inr (?h, Some (c_brk h), if length xs = 1 then 1 else 0)"
      using 2 l a(1) by simp
    moreover have "heap_ok ?h" using h by (auto simp: heap_ok_def)
    moreover have "vrep ?h (Some (c_brk h)) qs (erase idx xs)"
    proof -
      have "c_blk ?h (qs ! i) = Some (BStr (xs ! i))" if i: "i < idx" for i
      proof -
        have "qs ! i \<in> set qs" using i l by simp
        then have "qs ! i \<noteq> p" "qs ! i \<noteq> a" "qs ! i < c_brk h" using a ps less by auto
        then show ?thesis using st [of i] i 2 l by (simp add: ps nth_append)
      qed
      moreover have "c_brk h \<notin> set qs" using less ps by auto
      ultimately show ?thesis using 2 l a(5) ps by (auto simp: vrep_def erase_def)
    qed
    moreover have "same_outside h (vfoot v ps) ?h (vfoot (Some (c_brk h)) qs)"
      unfolding F vfoot_Some [OF l(2)] using fresh_None [OF h] by (intro same_outsideI) (auto simp: ps)
    ultimately show ?thesis by blast
  next
    case 3
    then show ?thesis using erase_middle_rep [OF h r 3] by auto
  qed
qed


lemma erase_string_errors:
  "n < 1 \<Longrightarrow> VECTOR_EraseString h n v i = Inr (h, v, -1)"
  "1 \<le> n \<Longrightarrow> i < 0 \<or> n \<le> i \<Longrightarrow> VECTOR_EraseString h n v i = Inr (h, v, -2)"
  by (auto simp: VECTOR_EraseString_def)

lemma ifoot_Some [simp]: "xs \<noteq> [] \<Longrightarrow> ifoot (Some a) xs = {a}"
  by (simp add: ifoot_def)

lemma ifoot_Nil [simp]: "ifoot v [] = {}"
  by (simp add: ifoot_def)

lemma push_int_ok:
  assumes h: "heap_ok h" and r: "irep h v xs"
  shows "\<exists>h' v'. VECTOR_PushBackInt h (int (length xs)) v x = Inr (h', v', 0) \<and> heap_ok h' \<and>
    irep h' v' (xs @ [x]) \<and> same_outside h (ifoot v xs) h' (ifoot v' (xs @ [x]))"
proof (cases "xs = []")
  case True
  let ?h = "h\<lparr>c_blk := (c_blk h)(c_brk h \<mapsto> BInts [Some x]), c_brk := Suc (c_brk h)\<rparr>"
  have "VECTOR_PushBackInt h (int (length xs)) v x = Inr (?h, Some (c_brk h), 0)"
    using True by (simp add: VECTOR_PushBackInt_def malloc_def)
  moreover have "heap_ok ?h" using h by (auto simp: heap_ok_def)
  moreover have "same_outside h (ifoot v xs) ?h (ifoot (Some (c_brk h)) (xs @ [x]))"
    using fresh_None [OF h] True by (intro same_outsideI) auto
  ultimately show ?thesis using True by (intro exI [of _ ?h] exI [of _ "Some (c_brk h)"]) (simp add: irep_def)
next
  case False
  then obtain a where a: "v = Some a" "c_blk h a = Some (BInts (map Some xs))" using r by (auto simp: irep_def)
  let ?b = "c_brk h"
  let ?h = "h\<lparr>c_blk := (c_blk h)(a := None, ?b \<mapsto> BInts (map Some (xs @ [x]))), c_brk := Suc ?b\<rparr>"
  have rs: "resize (Suc (length xs)) (map Some xs) = map Some xs @ [None]" using resize_Suc [of "map Some xs"] by simp
  have n: "nat (int (length xs) + 1) = Suc (length xs)" by simp
  have "VECTOR_PushBackInt h (int (length xs)) v x = Inr (?h, Some ?b, 0)"
    using False a by (simp add: VECTOR_PushBackInt_def realloc_ints_def malloc_def n rs list_update_append)
  moreover have "heap_ok ?h" using h by (auto simp: heap_ok_def)
  moreover have "same_outside h (ifoot v xs) ?h (ifoot (Some ?b) (xs @ [x]))"
    using fresh_None [OF h] a False by (intro same_outsideI) auto
  ultimately show ?thesis by (intro exI [of _ ?h] exI [of _ "Some ?b"]) (simp add: irep_def)
qed

lemma shift_ints:
  assumes "c_blk h a = Some (BInts xs)" "idx < length xs" "k \<le> length xs" "idx < k"
  shows "foldR (erase_int_step (int idx) (Some a)) h [Suc idx..<k] =
    Inr (h\<lparr>c_blk := (c_blk h)(a \<mapsto> BInts (shifted idx k xs))\<rparr>)"
  using assms(3,4)
proof (induction k)
  case 0
  then show ?case by simp
next
  case (Suc k)
  show ?case
  proof (cases "idx = k")
    case True
    then show ?thesis using assms(1) by (simp add: shifted_start fun_upd_idem)
  next
    case False
    with Suc.prems have k: "idx < k" "k < length xs" by auto
    then have "[Suc idx..<Suc k] = [Suc idx..<k] @ [k]" by simp
    moreover have "erase_int_step (int idx) (Some a) (h\<lparr>c_blk := (c_blk h)(a \<mapsto> BInts (shifted idx k xs))\<rparr>) k =
        Inr (h\<lparr>c_blk := (c_blk h)(a \<mapsto> BInts (shifted idx (Suc k) xs))\<rparr>)"
      using k shifted_step [of idx k xs] by (simp add: erase_int_step_def shifted_nth)
    moreover have "foldR (erase_int_step (int idx) (Some a)) h [Suc idx..<k] =
        Inr (h\<lparr>c_blk := (c_blk h)(a \<mapsto> BInts (shifted idx k xs))\<rparr>)"
      by (rule Suc.IH) (use k in auto)
    ultimately show ?thesis by (simp only: foldR_append foldR.simps bindR_Inr)
  qed
qed

lemma erase_int_ok:
  assumes h: "heap_ok h" and r: "irep h v xs" and idx: "idx < length xs"
  shows "\<exists>h' v'. VECTOR_EraseInt h (int (length xs)) v (int idx) = Inr (h', v', if length xs = 1 then 1 else 0) \<and>
    heap_ok h' \<and> irep h' v' (erase idx xs) \<and> same_outside h (ifoot v xs) h' (ifoot v' (erase idx xs))"
proof -
  obtain a where a: "v = Some a" "c_blk h a = Some (BInts (map Some xs))" using r idx by (auto simp: irep_def)
  let ?b = "c_brk h" and ?n = "length xs"
  let ?h1 = "h\<lparr>c_blk := (c_blk h)(a \<mapsto> BInts (shifted idx ?n (map Some xs)))\<rparr>"
  have "[0..<?n] = [0..<idx] @ [idx] @ [Suc idx..<?n]"
    using idx upt_add_eq_append [of 0 idx "?n - idx"] by (simp add: upt_conv_Cons)
  moreover have "foldR (erase_int_step (int idx) (Some a)) h [0..<idx] = Inr h"
    by (rule foldR_skip) (simp add: erase_int_step_def)
  moreover have "erase_int_step (int idx) (Some a) h idx = Inr h" by (simp add: erase_int_step_def)
  moreover have "foldR (erase_int_step (int idx) (Some a)) h [Suc idx..<?n] = Inr ?h1"
    by (rule shift_ints) (use a idx in auto)
  ultimately have f: "foldR (erase_int_step (int idx) (Some a)) h [0..<?n] = Inr ?h1"
    by (simp only: foldR_append foldR.simps bindR_Inr)
  have sh: "take (?n - 1) (shifted idx ?n (map Some xs)) = map Some (erase idx xs)"
    using shifted_erase [of idx "map Some xs"] idx by (simp add: erase_def take_map drop_map)
  have c: "(int ?n - 1 < 0) = False" "(int idx \<ge> int ?n \<or> int idx < 0) = False"
    "nat (int ?n) = ?n" "nat (int ?n - 1) = ?n - 1" "(int ?n - 1 = 0) = (?n = 1)" using idx by auto
  show ?thesis
  proof (cases "?n = 1")
    case True
    let ?h = "h\<lparr>c_blk := (c_blk h)(a := None)\<rparr>"
    have "VECTOR_EraseInt h (int ?n) v (int idx) = Inr (?h, v, if ?n = 1 then 1 else 0)"
      unfolding VECTOR_EraseInt_def a(1) c if_False f bindR_Inr using True by simp
    moreover have "heap_ok ?h" using h by (simp add: heap_ok_def)
    moreover have "erase idx xs = []" using True idx by (simp add: erase_def)
    moreover have "same_outside h {a} ?h {}" by (rule same_outsideI) auto
    ultimately show ?thesis using a(1) idx by (auto simp: irep_def ifoot_def)
  next
    case False
    let ?h = "h\<lparr>c_blk := (c_blk h)(a := None, ?b \<mapsto> BInts (map Some (erase idx xs))), c_brk := Suc ?b\<rparr>"
    have ne: "erase idx xs \<noteq> []" "xs \<noteq> []" using False idx by (auto simp: erase_def)
    have "realloc_ints ?h1 (Some a) (?n - 1) = Inr (?h, ?b)"
      using sh by (simp add: realloc_ints_def malloc_def resize_take)
    then have "VECTOR_EraseInt h (int ?n) v (int idx) = Inr (?h, Some ?b, if ?n = 1 then 1 else 0)"
      unfolding VECTOR_EraseInt_def a(1) c if_False f bindR_Inr using False by simp
    moreover have "heap_ok ?h" using h by (auto simp: heap_ok_def)
    moreover have "same_outside h {a} ?h {?b}"
      using fresh_None [OF h] by (intro same_outsideI) auto
    ultimately show ?thesis using a(1) ne by (intro exI [of _ ?h] exI [of _ "Some ?b"]) (simp add: irep_def)
  qed
qed

text \<open>What \<open>fill_lines\<close>, \<open>read_lines\<close> and \<open>free_lines\<close> need of a vector of strings.\<close>

locale string_vector =
  fixes push :: "cheap \<Rightarrow> int \<Rightarrow> nat option \<Rightarrow> string \<Rightarrow> (cheap \<times> nat option \<times> int) res"
  assumes push_ok: "heap_ok h \<Longrightarrow> vrep h v ps xs \<Longrightarrow>
    \<exists>h' v' p. push h (int (length xs)) v s = Inr (h', v', 0) \<and> heap_ok h' \<and>
      vrep h' v' (ps @ [p]) (xs @ [s]) \<and> same_outside h (vfoot v ps) h' (vfoot v' (ps @ [p]))"
begin

lemma fill_ok:
  assumes "heap_ok h" "vrep h v ps xs"
  shows "\<exists>h' v' ps'. fill_lines push (h, v, int (length xs)) ls = Inr (h', v', int (length (xs @ ls)), True) \<and>
    heap_ok h' \<and> vrep h' v' ps' (xs @ ls) \<and> same_outside h (vfoot v ps) h' (vfoot v' ps')"
  using assms
proof (induction ls arbitrary: h v ps xs)
  case Nil
  then show ?case by (auto simp: same_outside_def)
next
  case (Cons l ls)
  obtain h1 v1 p where 1: "push h (int (length xs)) v l = Inr (h1, v1, 0)" "heap_ok h1"
    "vrep h1 v1 (ps @ [p]) (xs @ [l])" "same_outside h (vfoot v ps) h1 (vfoot v1 (ps @ [p]))"
    using push_ok [OF Cons.prems] by blast
  obtain h2 v2 ps2 where 2: "fill_lines push (h1, v1, int (length (xs @ [l]))) ls = Inr (h2, v2, int (length ((xs @ [l]) @ ls)), True)"
    "heap_ok h2" "vrep h2 v2 ps2 ((xs @ [l]) @ ls)" "same_outside h1 (vfoot v1 (ps @ [p])) h2 (vfoot v2 ps2)"
    using Cons.IH [OF 1(2,3)] by blast
  have "fill_lines push (h, v, int (length xs)) (l # ls) = fill_lines push (h1, v1, int (length (xs @ [l]))) ls"
    using 1(1) by (simp add: add.commute)
  with 2 same_outside_trans [OF 1(4) 2(4)] show ?case by auto
qed

end

interpretation vector_string: string_vector VECTOR_PushBackString
  by unfold_locales (rule push_string_ok)

lemma read_lines_ok:
  assumes "vrep h v ps xs"
  shows "read_lines h v (int (length xs)) = Inr xs"
proof -
  have "foldR (\<lambda>out i. bindR (ptr_at h v i) (\<lambda>p. bindR (get_str h p) (\<lambda>s. Inr (out @ [s])))) [] [0..<k] = Inr (take k xs)"
    if "k \<le> length xs" for k
    using that
  proof (induction k)
    case (Suc k)
    then have "xs \<noteq> []" by auto
    then obtain a where "v = Some a" "c_blk h a = Some (BPtrs (map Some ps))" "length ps = length xs"
      "\<And>i. i < length xs \<Longrightarrow> c_blk h (ps ! i) = Some (BStr (xs ! i))"
      using vrep_parts [OF assms] by metis
    with Suc show ?case by (simp add: foldR_append take_Suc_conv_app_nth)
  qed simp
  from this [of "length xs"] show ?thesis by (simp add: read_lines_def)
qed

text \<open>Freeing the strings of an array that may have more entries.\<close>

lemma free_loop_gen:
  assumes "c_blk h a = Some (BPtrs (map Some ps @ r))" "a \<notin> set ps" "distinct ps" "k \<le> length ps"
    "\<And>i. i < length ps \<Longrightarrow> c_blk h (ps ! i) \<noteq> None"
  shows "foldR (\<lambda>h i. bindR (ptr_at h (Some a) i) (\<lambda>p. c_free h p)) h [0..<k] =
    Inr (h\<lparr>c_blk := c_blk h |` (- set (take k ps))\<rparr>)"
  using assms(4)
proof (induction k)
  case 0
  then show ?case by (simp add: restrict_map_def)
next
  case (Suc k)
  let ?h = "h\<lparr>c_blk := c_blk h |` (- set (take k ps))\<rparr>"
  have t: "take (Suc k) ps = take k ps @ [ps ! k]" using Suc.prems by (simp add: take_Suc_conv_app_nth)
  have "ps ! k \<notin> set (take k ps)"
    using assms(3) Suc.prems distinct_take [of ps "Suc k"] unfolding t by simp
  moreover have "a \<notin> set (take k ps)" using assms(2) by (auto dest: in_set_takeD)
  ultimately have "ptr_at ?h (Some a) k = Inr (Some (ps ! k))" "c_blk ?h (ps ! k) \<noteq> None"
    using assms(1) assms(5) [of k] Suc.prems by (simp_all add: restrict_map_def nth_append)
  then have "bindR (ptr_at ?h (Some a) k) (\<lambda>p. c_free ?h p) = Inr (?h\<lparr>c_blk := (c_blk ?h)(ps ! k := None)\<rparr>)"
    by (simp add: c_free_def)
  moreover have "(c_blk ?h)(ps ! k := None) = c_blk h |` (- set (take (Suc k) ps))"
    unfolding t by (auto simp: restrict_map_def fun_eq_iff)
  ultimately show ?case using Suc by (simp add: foldR_append)
qed

lemma free_loop_ok:
  assumes "c_blk h a = Some (BPtrs (map Some ps))" "a \<notin> set ps" "distinct ps" "k \<le> length ps"
    "\<And>i. i < length ps \<Longrightarrow> c_blk h (ps ! i) \<noteq> None"
  shows "foldR (\<lambda>h i. bindR (ptr_at h (Some a) i) (\<lambda>p. c_free h p)) h [0..<k] =
    Inr (h\<lparr>c_blk := c_blk h |` (- set (take k ps))\<rparr>)"
  using free_loop_gen [of h a ps "[]"] assms by simp

lemma free_lines_ok:
  assumes h: "heap_ok h" and r: "vrep h v ps xs" and ne: "xs \<noteq> []"
  shows "\<exists>h'. free_lines h v (int (length xs)) = Inr h' \<and> heap_ok h' \<and> same_outside h (vfoot v ps) h' {}"
proof -
  obtain a where a: "v = Some a" "a \<notin> set ps" "c_blk h a = Some (BPtrs (map Some ps))" "length ps = length xs" "distinct ps"
    "\<And>i. i < length xs \<Longrightarrow> c_blk h (ps ! i) = Some (BStr (xs ! i))" "ps \<noteq> []"
    using vrep_parts [OF r ne] by metis
  let ?h1 = "h\<lparr>c_blk := c_blk h |` (- set ps)\<rparr>"
  let ?h = "?h1\<lparr>c_blk := (c_blk ?h1)(a := None)\<rparr>"
  have "foldR (\<lambda>h i. bindR (ptr_at h (Some a) i) (\<lambda>p. c_free h p)) h [0..<length ps] = Inr ?h1"
    using free_loop_ok [OF a(3,2,5), of "length ps"] a by simp
  moreover have "c_free ?h1 (Some a) = Inr ?h" using a by (simp add: c_free_def restrict_map_def)
  ultimately have "free_lines h v (int (length xs)) = Inr ?h"
    unfolding free_lines_def a(1) nat_int a(4) [symmetric] by (simp only: bindR_Inr)
  moreover have "heap_ok ?h" using h by (auto simp: heap_ok_def restrict_map_def)
  moreover have "same_outside h (vfoot v ps) ?h {}"
    using a by (intro same_outsideI) (auto simp: vfoot_Some restrict_map_def)
  ultimately show ?thesis by blast
qed


lemma same_outside_empty: "same_outside h {} h' {} \<Longrightarrow> c_blk h' = c_blk h"
  by (simp add: same_outside_def restrict_map_def)

lemma print_reduced_ok:
  assumes h: "heap_ok h" and n: "21 \<le> length (strsep_all src)"
  shows "\<exists>h'. PrintReducedVectorString h src = Inr (Inr (h', [strsep_all src, erase 17 (strsep_all src),
      erase 19 (erase 17 (strsep_all src))])) \<and> c_blk h' = c_blk h"
proof -
  let ?L = "strsep_all src"
  have r0: "vrep h None [] []" by (simp add: vrep_def)
  obtain h1 v1 p1 where 1: "fill_lines VECTOR_PushBackString (h, None, 0) ?L = Inr (h1, v1, int (length ?L), True)"
    "heap_ok h1" "vrep h1 v1 p1 ?L" "same_outside h {} h1 (vfoot v1 p1)"
    using vector_string.fill_ok [OF h r0, of ?L] by auto
  obtain h2 v2 p2 where 2: "VECTOR_EraseString h1 (int (length ?L)) v1 17 = Inr (h2, v2, 0)" "heap_ok h2"
    "vrep h2 v2 p2 (erase 17 ?L)" "same_outside h1 (vfoot v1 p1) h2 (vfoot v2 p2)"
    using erase_string_ok [OF 1(2,3), of 17] n by auto
  have l2: "int (length ?L) - 1 = int (length (erase 17 ?L))" using n by (simp add: length_erase)
  have i19: "19 < length (erase 17 ?L)" using n by (simp add: length_erase)
  obtain h3 v3 p3 where 3: "VECTOR_EraseString h2 (int (length (erase 17 ?L))) v2 19 = Inr (h3, v3, 0)" "heap_ok h3"
    "vrep h3 v3 p3 (erase 19 (erase 17 ?L))" "same_outside h2 (vfoot v2 p2) h3 (vfoot v3 p3)"
    using erase_string_ok [OF 2(2,3) i19] i19 by auto
  have l3: "int (length ?L) - 2 = int (length (erase 19 (erase 17 ?L)))" using n by (simp add: length_erase)
  have ne: "erase 19 (erase 17 ?L) \<noteq> []" using l3 n by auto
  obtain h4 where 4: "free_lines h3 v3 (int (length (erase 19 (erase 17 ?L)))) = Inr h4" "same_outside h3 (vfoot v3 p3) h4 {}"
    using free_lines_ok [OF 3(2,3) ne] by blast
  have "same_outside h {} h4 {}"
    using 1(4) 2(4) 3(4) 4(2) by (blast intro: same_outside_trans)
  then have "c_blk h4 = c_blk h" by (rule same_outside_empty)
  moreover have "PrintReducedVectorString h src = Inr (Inr (h4, [?L, erase 17 ?L, erase 19 (erase 17 ?L)]))"
    unfolding PrintReducedVectorString_def 1(1) l2 l3
    by (simp add: read_lines_ok [OF 1(3)] 2(1) l2 l3 read_lines_ok [OF 2(3)] 3(1) read_lines_ok [OF 3(3)] 4(1))
  ultimately show ?thesis by blast
qed

lemma print_reduced_short:
  assumes h: "heap_ok h" and n: "length (strsep_all src) < 21"
  shows "PrintReducedVectorString h src = Inr (Inl (-2))"
proof -
  let ?L = "strsep_all src"
  have r0: "vrep h None [] []" by (simp add: vrep_def)
  obtain h1 v1 p1 where 1: "fill_lines VECTOR_PushBackString (h, None, 0) ?L = Inr (h1, v1, int (length ?L), True)"
    "heap_ok h1" "vrep h1 v1 p1 ?L"
    using vector_string.fill_ok [OF h r0, of ?L] by auto
  have pos: "0 < length ?L" by simp
  show ?thesis
  proof (cases "17 < length ?L")
    case False
    with 1 pos show ?thesis
      by (simp add: PrintReducedVectorString_def read_lines_ok [OF 1(3)] erase_string_errors(2) Suc_leI)
  next
    case True
    obtain h2 v2 p2 where 2: "VECTOR_EraseString h1 (int (length ?L)) v1 17 = Inr (h2, v2, 0)"
      "vrep h2 v2 p2 (erase 17 ?L)"
      using erase_string_ok [OF 1(2,3), of 17] True by auto
    have l2: "int (length ?L) - 1 = int (length (erase 17 ?L))" using True by (simp add: length_erase)
    have "VECTOR_EraseString h2 (int (length (erase 17 ?L))) v2 19 = Inr (h2, v2, -2)"
      by (rule erase_string_errors(2)) (use True n in \<open>auto simp: length_erase\<close>)
    with 1 2 l2 show ?thesis
      by (simp add: PrintReducedVectorString_def read_lines_ok [OF 1(3)] read_lines_ok [OF 2(2)])
  qed
qed

lemma copy_step_eval:
  assumes "c_blk h a = Some (BPtrs ps)" "k < length ps" "ps ! k = Some p" "c_blk h p = Some (BStr s)"
    "c_blk h w = Some (BPtrs ws)" "k < length ws" "w \<noteq> c_brk h" "p \<noteq> c_brk h" "p \<noteq> w"
  shows "copy_step (Some a) (Some w) h k =
    Inr (h\<lparr>c_blk := (c_blk h)(c_brk h \<mapsto> BStr s, w \<mapsto> BPtrs (ws[k := Some (c_brk h)]), p := None), c_brk := Suc (c_brk h)\<rparr>)"
  using assms by (simp add: copy_step_def malloc_def)

lemma copy_loop_ok:
  assumes h: "heap_ok h" and w: "c_blk h w = Some (BPtrs (replicate n None))" "length xs < n" "w \<noteq> a" "w \<notin> set ps"
    and a: "c_blk h a = Some (BPtrs (map Some ps))" "a \<notin> set ps" "distinct ps" "length ps = length xs"
    and st: "\<And>i. i < length xs \<Longrightarrow> c_blk h (ps ! i) = Some (BStr (xs ! i))" and "k \<le> length xs"
  shows "foldR (copy_step (Some a) (Some w)) h [0..<k] = Inr (copied h w n ps xs k)"
  using assms(11)
proof (induction k)
  case 0
  then show ?case using w by (auto simp: copied_def fun_eq_iff)
next
  case (Suc k)
  let ?b = "c_brk h" and ?h = "copied h w n ps xs k"
  let ?p = "ps ! k"
  have t: "take (Suc k) ps = take k ps @ [?p]" using Suc.prems a(4) by (simp add: take_Suc_conv_app_nth)
  have p: "?p \<in> set ps" "?p \<notin> set (take k ps)"
    using a(3,4) Suc.prems distinct_take [of ps "Suc k"] unfolding t by simp_all
  have less: "x < ?b" if "c_blk h x \<noteq> None" for x using h that by (simp add: heap_ok_def)
  have bnd: "a < ?b" "w < ?b" "?p < ?b" using less a(1) w(1) st [of k] Suc.prems by auto
  have nt: "a \<notin> set (take k ps)" "w \<notin> set (take k ps)" using a(2) w(4) by (auto dest: in_set_takeD)
  have notin: "?b + k \<notin> set (take k ps)"
  proof
    assume "?b + k \<in> set (take k ps)"
    then obtain i where "i < length ps" "ps ! i = ?b + k" by (metis in_set_takeD in_set_conv_nth)
    with less [of "ps ! i"] st [of i] a(4) show False by simp
  qed
  have ha: "c_blk ?h a = Some (BPtrs (map Some ps))" using nt w(3) bnd a(1) by (simp add: copied_def)
  have hp: "c_blk ?h ?p = Some (BStr (xs ! k))"
    using p bnd w(4) st [of k] Suc.prems by (auto simp: copied_def)
  have hw: "c_blk ?h w = Some (BPtrs (map Some [?b..<?b + k] @ replicate (n - k) None))" using nt by (simp add: copied_def)
  have ne: "?p \<noteq> a" "?p \<noteq> w" using p a(2) w(4) by auto
  have upd_arr: "(map Some [?b..<?b + k] @ replicate (n - k) None)[k := Some (?b + k)] =
      map Some [?b..<?b + Suc k] @ replicate (n - Suc k) None"
    using Suc.prems w(2) by (simp add: list_update_append Suc_diff_Suc [symmetric] del: replicate_Suc) (simp add: Suc_diff_le)
  have brk: "c_brk ?h = ?b + k" by (simp add: copied_def)
  have "copy_step (Some a) (Some w) ?h k =
      Inr (?h\<lparr>c_blk := (c_blk ?h)(c_brk ?h \<mapsto> BStr (xs ! k),
        w \<mapsto> BPtrs ((map Some [?b..<?b + k] @ replicate (n - k) None)[k := Some (c_brk ?h)]), ?p := None),
        c_brk := Suc (c_brk ?h)\<rparr>)"
    by (rule copy_step_eval [OF ha _ _ hp hw]) (use bnd ne Suc.prems a(4) w(2) in \<open>simp_all add: brk\<close>)
  also have "\<dots> = Inr (copied h w n ps xs (Suc k))"
  proof -
    have "(c_blk ?h)(?b + k \<mapsto> BStr (xs ! k), w \<mapsto> BPtrs (map Some [?b..<?b + Suc k] @ replicate (n - Suc k) None), ?p := None) =
        c_blk (copied h w n ps xs (Suc k))"
      using bnd ne nt p notin by (intro ext) (auto simp: copied_def t less_Suc_eq)
    then show ?thesis unfolding brk upd_arr by (simp add: copied_def)
  qed
  finally have "copy_step (Some a) (Some w) ?h k = Inr (copied h w n ps xs (Suc k))" .
  moreover have "foldR (copy_step (Some a) (Some w)) h [0..<k] = Inr ?h" using Suc by simp
  ultimately show ?case by (simp add: foldR_append)
qed


lemma rebuilt_ok:
  assumes h: "heap_ok h" and h': "c_blk h' = rebuilt h F sv w b xs" "b + length xs \<le> c_brk h'" "c_brk h \<le> b"
    and sv: "sv < c_brk h'" "w < b" "sv < b" "sv \<noteq> w" "c_brk h \<le> w" "c_brk h \<le> sv \<or> sv \<in> F" and xs: "xs \<noteq> []"
  shows "heap_ok h' \<and> svrep h' sv (Some w) [b..<b + length xs] xs \<and>
    same_outside h F h' (insert sv (vfoot (Some w) [b..<b + length xs]))"
proof (intro conjI)
  have ne: "[b..<b + length xs] \<noteq> []" using xs by simp
  have F': "insert sv (vfoot (Some w) [b..<b + length xs]) = insert sv (insert w {b..<b + length xs})"
    using vfoot_Some [OF ne] by simp
  show "heap_ok h'"
    using h h'(2,3) sv unfolding heap_ok_def h'(1) rebuilt_def by (auto split: if_splits simp: less_le_trans)
  show "svrep h' sv (Some w) [b..<b + length xs] xs"
    using sv xs unfolding svrep_def vrep_def h'(1) rebuilt_def by (auto simp: vfoot_Some)
  show "same_outside h F h' (insert sv (vfoot (Some w) [b..<b + length xs]))"
    unfolding F' using fresh_None [OF h] h'(3) sv
    by (intro same_outsideI) (auto simp: h'(1) rebuilt_def)
qed


text \<open>The part that the three push operations share: the new array is at \<open>w\<close>, the copies follow the last
  address given out; afterwards the old array and its strings are gone.\<close>

lemma copy_part:
  assumes h: "heap_ok h" and w: "c_blk h w = Some (BPtrs (replicate (Suc (length xs)) None))"
    and r: "vrep h v ps xs" and nw: "w \<notin> vfoot v ps" and b: "c_brk h = b"
  shows "foldR (copy_step v (Some w)) h [0..<length xs] = Inr (copied h w (Suc (length xs)) ps xs (length xs))"
    and "xs \<noteq> [] \<Longrightarrow> c_free (copied h w (Suc (length xs)) ps xs (length xs)) v =
      Inr (h\<lparr>c_blk := (\<lambda>x. if x \<in> vfoot v ps then None
        else if x = w then Some (BPtrs (map Some [b..<b + length xs] @ [None]))
        else if b \<le> x \<and> x < b + length xs then Some (BStr (xs ! (x - b))) else c_blk h x),
        c_brk := b + length xs\<rparr>)"
proof -
  show "foldR (copy_step v (Some w)) h [0..<length xs] = Inr (copied h w (Suc (length xs)) ps xs (length xs))"
  proof (cases "xs = []")
    case True
    then show ?thesis using w r by (auto simp: copied_def vrep_def fun_eq_iff)
  next
    case False
    then obtain a where a: "v = Some a" "a \<notin> set ps" "c_blk h a = Some (BPtrs (map Some ps))" "length ps = length xs" "distinct ps"
      "\<And>i. i < length xs \<Longrightarrow> c_blk h (ps ! i) = Some (BStr (xs ! i))" "ps \<noteq> []"
      using vrep_parts [OF r] by metis
    have "w \<noteq> a" "w \<notin> set ps" using nw a by (auto simp: vfoot_Some)
    then show ?thesis unfolding a(1) using copy_loop_ok [OF h w _ _ _ a(3,2,5,4,6), of "length xs"] by simp
  qed
  assume ne: "xs \<noteq> []"
  obtain a where a: "v = Some a" "a \<notin> set ps" "c_blk h a = Some (BPtrs (map Some ps))" "length ps = length xs" "ps \<noteq> []"
    using vrep_parts [OF r ne] by metis
  let ?h = "copied h w (Suc (length xs)) ps xs (length xs)"
  have wa: "w \<noteq> a" using nw a by (auto simp: vfoot_Some)
  have "a < c_brk h" using h a(3) by (simp add: heap_ok_def)
  then have "c_blk ?h a \<noteq> None" using wa a by (simp add: copied_def)
  then have f: "c_free ?h v = Inr (?h\<lparr>c_blk := (c_blk ?h)(a := None)\<rparr>)" by (simp add: c_free_def a(1))
  have "(c_blk ?h)(a := None) = (\<lambda>x. if x \<in> vfoot v ps then None
        else if x = w then Some (BPtrs (map Some [c_brk h..<c_brk h + length xs] @ [None]))
        else if c_brk h \<le> x \<and> x < c_brk h + length xs then Some (BStr (xs ! (x - c_brk h))) else c_blk h x)"
    using a by (intro ext) (simp add: vfoot_Some copied_def)
  then show "c_free ?h v = Inr (h\<lparr>c_blk := (\<lambda>x. if x \<in> vfoot v ps then None
        else if x = w then Some (BPtrs (map Some [b..<b + length xs] @ [None]))
        else if b \<le> x \<and> x < b + length xs then Some (BStr (xs ! (x - b))) else c_blk h x),
        c_brk := b + length xs\<rparr>)"
    unfolding f b by (simp add: copied_def b)
qed

lemma put_blk_live: "c_blk h a \<noteq> None \<Longrightarrow> put_blk h (Some a) b = Inr (h\<lparr>c_blk := (c_blk h)(a \<mapsto> b)\<rparr>)"
  by (auto simp: put_blk_def deref_def)

lemma fill_last: "(map Some [b..<b + n] @ [None])[n := Some (b + n)] = map Some [b..<b + Suc n]"
  by (simp add: list_update_append)

lemma set_ptr_fill:
  assumes "c_blk h w = Some (BPtrs (map Some [b..<b + n] @ [None]))"
  shows "set_ptr h (Some w) n (Some (b + n)) = Inr (h\<lparr>c_blk := (c_blk h)(w \<mapsto> BPtrs (map Some [b..<b + Suc n]))\<rparr>)"
  using set_ptr_Some [OF assms, of n "Some (b + n)"] unfolding fill_last by simp

lemma push_back_string_ok:
  assumes h: "heap_ok h" and r: "svrep h s v ps xs"
  shows "\<exists>h' s' v' ps'. PushBackString h (Some s) str = Inr (h', Some s') \<and> heap_ok h' \<and>
    svrep h' s' v' ps' (xs @ [str]) \<and> same_outside h (insert s (vfoot v ps)) h' (insert s' (vfoot v' ps'))"
proof -
  let ?b = "c_brk h" and ?n = "length xs"
  let ?w = "Suc ?b"
  let ?h2 = "h\<lparr>c_blk := (c_blk h)(?b \<mapsto> BVec 0 None, ?w \<mapsto> BPtrs (replicate (Suc ?n) None)), c_brk := Suc ?w\<rparr>"
  let ?h3 = "?h2\<lparr>c_blk := (\<lambda>x. if x \<in> vfoot v ps then None
        else if x = ?w then Some (BPtrs (map Some [Suc ?w..<Suc ?w + ?n] @ [None]))
        else if Suc ?w \<le> x \<and> x < Suc ?w + ?n then Some (BStr (xs ! (x - Suc ?w))) else c_blk ?h2 x),
        c_brk := Suc ?w + ?n\<rparr>"
  have sv: "c_blk h s = Some (BVec (int ?n) v)" "vrep h v ps xs" "s \<notin> vfoot v ps" using r by (simp_all add: svrep_def)
  have foot: "x < ?b" if "x \<in> vfoot v ps" for x using vrep_addr_less [OF h sv(2) that] .
  have sb: "s < ?b" using h sv(1) by (simp add: heap_ok_def)
  have h2: "heap_ok ?h2" using h by (auto simp: heap_ok_def)
  have r2: "vrep ?h2 v ps xs"
  proof (rule vrep_keep(1) [OF _ sv(2)])
    show "same_outside h {} ?h2 {?b, ?w}" by (rule same_outsideI) (use fresh_None [OF h] in auto)
  qed simp
  have nw: "?w \<notin> vfoot v ps" using foot [of ?w] by auto
  have b2: "c_blk ?h2 ?w = Some (BPtrs (replicate (Suc ?n) None))" by simp
  have brk: "c_brk ?h2 = Suc ?w" by simp
  note cp = copy_part [OF h2 b2 r2 nw brk]
  have free: "(if int ?n > 0 then c_free (copied ?h2 ?w (Suc ?n) ps xs ?n) v else Inr (copied ?h2 ?w (Suc ?n) ps xs ?n)) = Inr ?h3"
  proof (cases "xs = []")
    case True
    then have "ps = []" using sv(2) by (simp add: vrep_def)
    with True show ?thesis by (auto simp: copied_def fun_eq_iff)
  next
    case False
    then show ?thesis unfolding cp(2) [OF False] by simp
  qed
  let ?q = "Suc ?w + ?n" and ?h1 = "h\<lparr>c_blk := (c_blk h)(?b \<mapsto> BVec 0 None), c_brk := ?w\<rparr>"
  let ?h4 = "?h3\<lparr>c_blk := (c_blk ?h3)(s := None)\<rparr>"
  let ?h5 = "?h4\<lparr>c_blk := (c_blk ?h4)(?q \<mapsto> BStr str), c_brk := Suc ?q\<rparr>"
  let ?h6 = "?h5\<lparr>c_blk := (c_blk ?h5)(?w \<mapsto> BPtrs (map Some [Suc ?w..<Suc ?w + Suc ?n]))\<rparr>"
  let ?h' = "?h6\<lparr>c_blk := (c_blk ?h6)(?b \<mapsto> BVec (int ?n + 1) (Some ?w))\<rparr>"
  have m1: "malloc h (BVec 0 None) = (?h1, ?b)" by (simp add: malloc_def)
  have nn: "nat (int ?n + 1) = Suc ?n" by simp
  have m2: "malloc ?h1 (BPtrs (replicate (Suc ?n) None)) = (?h2, ?w)" by (simp add: malloc_def)
  have "c_blk ?h3 s \<noteq> None" using sv sb by auto
  then have f1: "c_free ?h3 (Some s) = Inr ?h4" by (simp add: c_free_def)
  have m3: "malloc ?h4 (BStr str) = (?h5, ?q)" by (simp add: malloc_def)
  have w5: "c_blk ?h5 ?w = Some (BPtrs (map Some [Suc ?w..<Suc ?w + ?n] @ [None]))" using sb nw by simp
  have s1: "set_ptr ?h5 (Some ?w) ?n (Some ?q) = Inr ?h6"
    by (rule set_ptr_fill [OF w5])
  have bf: "?b \<notin> vfoot v ps" using foot [of ?b] by auto
  have p1: "put_blk ?h6 (Some ?b) (BVec (int ?n + 1) (Some ?w)) = Inr ?h'"
    by (rule put_blk_live) (use sb bf in simp)
  have "PushBackString h (Some s) str = Inr (?h', Some ?b)"
    unfolding PushBackString_def
    by (simp only: get_vec_Some [OF sv(1)] bindR_Inr prod.case m1 nn m2 nat_int cp(1) free f1 m3 s1 p1)
  moreover have "c_blk ?h' = rebuilt h (insert s (vfoot v ps)) ?b ?w (Suc ?w) (xs @ [str])"
    using sb by (intro ext) (auto simp: rebuilt_def nth_append dest: foot)
  then have "heap_ok ?h' \<and> svrep ?h' ?b (Some ?w) [Suc ?w..<Suc ?w + length (xs @ [str])] (xs @ [str]) \<and>
    same_outside h (insert s (vfoot v ps)) ?h' (insert ?b (vfoot (Some ?w) [Suc ?w..<Suc ?w + length (xs @ [str])]))"
    by (intro rebuilt_ok [OF h]) auto
  ultimately show ?thesis by blast
qed


lemma push_back_string2_eq: "PushBackString2 = PushBackString"
  by (simp add: fun_eq_iff PushBackString2_def PushBackString_def)

lemma VS_append_ok:
  assumes h: "heap_ok h" and r: "svrep h s v ps xs" and ne: "xs \<noteq> []"
  shows "\<exists>h' v' ps'. VS_append h (Some s) str = Inr h' \<and> heap_ok h' \<and>
    svrep h' s v' ps' (xs @ [str]) \<and> same_outside h (insert s (vfoot v ps)) h' (insert s (vfoot v' ps'))"
proof -
  let ?w = "c_brk h" and ?n = "length xs"
  let ?h2 = "h\<lparr>c_blk := (c_blk h)(?w \<mapsto> BPtrs (replicate (Suc ?n) None)), c_brk := Suc ?w\<rparr>"
  let ?h3 = "?h2\<lparr>c_blk := (\<lambda>x. if x \<in> vfoot v ps then None
        else if x = ?w then Some (BPtrs (map Some [Suc ?w..<Suc ?w + ?n] @ [None]))
        else if Suc ?w \<le> x \<and> x < Suc ?w + ?n then Some (BStr (xs ! (x - Suc ?w))) else c_blk ?h2 x),
        c_brk := Suc ?w + ?n\<rparr>"
  let ?q = "Suc ?w + ?n"
  let ?h5 = "?h3\<lparr>c_blk := (c_blk ?h3)(?q \<mapsto> BStr str), c_brk := Suc ?q\<rparr>"
  let ?h6 = "?h5\<lparr>c_blk := (c_blk ?h5)(?w \<mapsto> BPtrs (map Some [Suc ?w..<Suc ?w + Suc ?n]))\<rparr>"
  let ?h' = "?h6\<lparr>c_blk := (c_blk ?h6)(s \<mapsto> BVec (int ?n + 1) (Some ?w))\<rparr>"
  have sv: "c_blk h s = Some (BVec (int ?n) v)" "vrep h v ps xs" "s \<notin> vfoot v ps" using r by (simp_all add: svrep_def)
  have foot: "x < ?w" if "x \<in> vfoot v ps" for x using vrep_addr_less [OF h sv(2) that] .
  have sb: "s < ?w" using h sv(1) by (simp add: heap_ok_def)
  have h2: "heap_ok ?h2" using h by (auto simp: heap_ok_def)
  have r2: "vrep ?h2 v ps xs"
  proof (rule vrep_keep(1) [OF _ sv(2)])
    show "same_outside h {} ?h2 {?w}" by (rule same_outsideI) (use fresh_None [OF h] in auto)
  qed simp
  have nw: "?w \<notin> vfoot v ps" using foot [of ?w] by auto
  have b2: "c_blk ?h2 ?w = Some (BPtrs (replicate (Suc ?n) None))" by simp
  have brk: "c_brk ?h2 = Suc ?w" by simp
  note cp = copy_part [OF h2 b2 r2 nw brk]
  have nn: "nat (int ?n + 1) = Suc ?n" by simp
  have m2: "malloc h (BPtrs (replicate (Suc ?n) None)) = (?h2, ?w)" by (simp add: malloc_def)
  have f3: "c_free (copied ?h2 ?w (Suc ?n) ps xs ?n) v = Inr ?h3" by (rule cp(2) [OF ne])
  have m3: "malloc ?h3 (BStr str) = (?h5, ?q)" by (simp add: malloc_def)
  have w5: "c_blk ?h5 ?w = Some (BPtrs (map Some [Suc ?w..<Suc ?w + ?n] @ [None]))" using sb nw by simp
  have s1: "set_ptr ?h5 (Some ?w) ?n (Some ?q) = Inr ?h6" by (rule set_ptr_fill [OF w5])
  have p1: "put_blk ?h6 (Some s) (BVec (int ?n + 1) (Some ?w)) = Inr ?h'"
    by (rule put_blk_live) (use sb sv in auto)
  have "VS_append h (Some s) str = Inr ?h'"
    unfolding VS_append_def
    by (simp only: get_vec_Some [OF sv(1)] bindR_Inr prod.case nn m2 nat_int cp(1) f3 m3 s1 p1)
  moreover have "c_blk ?h' = rebuilt h (insert s (vfoot v ps)) s ?w (Suc ?w) (xs @ [str])"
    using sb by (intro ext) (auto simp: rebuilt_def nth_append dest: foot)
  then have "heap_ok ?h' \<and> svrep ?h' s (Some ?w) [Suc ?w..<Suc ?w + length (xs @ [str])] (xs @ [str]) \<and>
    same_outside h (insert s (vfoot v ps)) ?h' (insert s (vfoot (Some ?w) [Suc ?w..<Suc ?w + length (xs @ [str])]))"
    by (intro rebuilt_ok [OF h]) (use sb in auto)
  ultimately show ?thesis by blast
qed

lemma VS_append_fresh: "VS_append (fst (VS_new h)) (Some (snd (VS_new h))) str = Inl Uninit"
  by (simp add: VS_append_def VS_new_def malloc_def c_free_def)

lemma VS_delete_leak:
  assumes h: "heap_ok h" and r: "svrep h s (Some a) ps xs" and ne: "xs \<noteq> []"
  shows "\<exists>h'. VS_delete h (Some s) = Inr h' \<and> same_outside h (insert s (vfoot (Some a) ps)) h' {a} \<and>
    c_blk h' a = Some (BPtrs (map Some ps))"
proof -
  have sv: "c_blk h s = Some (BVec (int (length xs)) (Some a))" "vrep h (Some a) ps xs" "s \<notin> vfoot (Some a) ps"
    using r by (simp_all add: svrep_def)
  have a: "a \<notin> set ps" "c_blk h a = Some (BPtrs (map Some ps))" "length ps = length xs" "distinct ps"
    "\<And>i. i < length xs \<Longrightarrow> c_blk h (ps ! i) = Some (BStr (xs ! i))" "ps \<noteq> []"
    using vrep_parts [OF sv(2) ne] by (metis option.inject)+
  let ?h1 = "h\<lparr>c_blk := c_blk h |` (- set ps)\<rparr>"
  let ?h = "?h1\<lparr>c_blk := (c_blk ?h1)(s := None)\<rparr>"
  have F: "vfoot (Some a) ps = insert a (set ps)" using a by (simp add: vfoot_Some)
  have "foldR (\<lambda>h i. bindR (ptr_at h (Some a) i) (\<lambda>p. c_free h p)) h [0..<length ps] = Inr ?h1"
    using free_loop_ok [OF a(2,1,4), of "length ps"] a by simp
  moreover have "c_free ?h1 (Some s) = Inr ?h" using sv F by (simp add: c_free_def restrict_map_def)
  ultimately have "VS_delete h (Some s) = Inr ?h"
    unfolding VS_delete_def get_vec_Some [OF sv(1)] by (simp only: bindR_Inr prod.case nat_int a(3) [symmetric])
  moreover have "c_blk ?h a = Some (BPtrs (map Some ps))" using a sv F by (simp add: restrict_map_def)
  moreover have "same_outside h (insert s (vfoot (Some a) ps)) ?h {a}"
    unfolding F by (intro same_outsideI) (auto simp: restrict_map_def)
  ultimately show ?thesis by blast
qed

lemma vrep_empty: "vrep h v [] []"
  by (simp add: vrep_def)

lemma empty_heap_ok: "heap_ok empty_heap"
  by (simp add: heap_ok_def empty_heap_def)

section \<open>Properties\<close>

text \<open>
  C37. A vector of strings behaves as a list: \<open>VECTOR_PushBackString\<close> appends, \<open>VECTOR_EraseString\<close> removes the
  element at an index and reports an empty vector (-1) and an index out of range (-2) without changing
  anything. No freed or uninitialised memory is used, no block is leaked, and the rest of the heap stays
  as it was.
\<close>

theorem vector_string_refines_list:
  assumes "heap_ok h" and "vrep h v ps xs"
  shows "(\<exists>h' v' p. VECTOR_PushBackString h (int (length xs)) v s = Inr (h', v', 0) \<and> heap_ok h' \<and>
      vrep h' v' (ps @ [p]) (xs @ [s]) \<and> same_outside h (vfoot v ps) h' (vfoot v' (ps @ [p]))) \<and>
    (idx < length xs \<longrightarrow> (\<exists>h' v' ps'. VECTOR_EraseString h (int (length xs)) v (int idx) =
        Inr (h', v', if length xs = 1 then 1 else 0) \<and> heap_ok h' \<and>
      vrep h' v' ps' (erase idx xs) \<and> same_outside h (vfoot v ps) h' (vfoot v' ps'))) \<and>
    (xs \<noteq> [] \<and> length xs \<le> idx \<longrightarrow> VECTOR_EraseString h (int (length xs)) v (int idx) = Inr (h, v, -2)) \<and>
    (xs = [] \<longrightarrow> VECTOR_EraseString h (int (length xs)) v (int idx) = Inr (h, v, -1))"
  using push_string_ok [OF assms, of s] erase_string_ok [OF assms, of idx]
    erase_string_errors(2) [of "int (length xs)" "int idx" h v] erase_string_errors(1) [of "int (length xs)" h v "int idx"]
  by (auto simp: Suc_le_eq)

theorem vector_string_witness:
  "\<exists>h1 v1 h2 v2. VECTOR_PushBackString empty_heap 0 None ''ab'' = Inr (h1, v1, 0) \<and>
     VECTOR_EraseString h1 1 v1 0 = Inr (h2, v2, 1) \<and> c_blk h2 = Map.empty"
proof -
  obtain h1 v1 p where 1: "VECTOR_PushBackString empty_heap 0 None ''ab'' = Inr (h1, v1, 0)" "heap_ok h1"
    "vrep h1 v1 [p] [''ab'']" "same_outside empty_heap {} h1 (vfoot v1 [p])"
    using vector_string_refines_list [OF empty_heap_ok vrep_empty, of None "''ab''" 0] by auto
  obtain h2 v2 ps where 2: "VECTOR_EraseString h1 1 v1 0 = Inr (h2, v2, 1)" "vrep h2 v2 ps []"
    "same_outside h1 (vfoot v1 [p]) h2 (vfoot v2 ps)"
    using vector_string_refines_list [OF 1(2,3), of "[]" 0] by (auto simp: erase_def)
  have "ps = []" using 2(2) by (simp add: vrep_def)
  then have "c_blk h2 = c_blk empty_heap"
    using same_outside_trans [OF 1(4) 2(3)] same_outside_empty [of empty_heap h2] by simp
  with 1 2 show ?thesis by (auto simp: empty_heap_def)
qed

text \<open>
  \<open>PrintReducedVectorString\<close> on a text of at least 21 lines prints its lines, the lines without line 17, and
  those without line 19 of the rest, and leaves the heap as it found it; on a shorter text it ends with
  exit status -2.
\<close>

lemma print_reduced_spec:
  assumes "heap_ok h"
  shows "(21 \<le> length (strsep_all src) \<longrightarrow> (\<exists>h'. PrintReducedVectorString h src =
      Inr (Inr (h', [strsep_all src, erase 17 (strsep_all src), erase 19 (erase 17 (strsep_all src))])) \<and>
      c_blk h' = c_blk h)) \<and>
    (length (strsep_all src) < 21 \<longrightarrow> PrintReducedVectorString h src = Inr (Inl (-2)))"
  using print_reduced_ok [OF assms] print_reduced_short [OF assms] by blast

theorem print_reduced_witness: "PrintReducedVectorString empty_heap ''abc'' = Inr (Inl (-2))"
proof -
  have "length (strsep_all ''abc'') < 21" by (simp add: nl_def)
  then show ?thesis using print_reduced_spec [OF empty_heap_ok] by blast
qed

text \<open>
  The copying variants append as well: \<open>PushBackString\<close> and \<open>PushBackString2\<close> agree on every vector, and
  \<open>VS_append\<close> works on a vector that is not empty; the old structure, array and strings are all freed.
\<close>

lemma push_back_copies:
  assumes "heap_ok h" and "svrep h s v ps xs"
  shows "(\<exists>h' s' v' ps'. PushBackString h (Some s) str = Inr (h', Some s') \<and>
      PushBackString2 h (Some s) str = Inr (h', Some s') \<and> heap_ok h' \<and> svrep h' s' v' ps' (xs @ [str]) \<and>
      same_outside h (insert s (vfoot v ps)) h' (insert s' (vfoot v' ps'))) \<and>
    (xs \<noteq> [] \<longrightarrow> (\<exists>h' v' ps'. VS_append h (Some s) str = Inr h' \<and> heap_ok h' \<and> svrep h' s v' ps' (xs @ [str]) \<and>
      same_outside h (insert s (vfoot v ps)) h' (insert s (vfoot v' ps'))))"
  unfolding push_back_string2_eq
  using push_back_string_ok [OF assms, of str] VS_append_ok [OF assms, of str] by blast

theorem push_back_witness:
  "\<exists>h1 s1 v1 h2. PushBackString (fst (VS_new empty_heap)) (Some (snd (VS_new empty_heap))) ''a'' = Inr (h1, Some s1) \<and>
     VS_append h1 (Some s1) ''b'' = Inr h2 \<and> (\<exists>v2 ps. svrep h2 s1 v2 ps [''a'', ''b''])"
proof -
  let ?h = "fst (VS_new empty_heap)" and ?s = "snd (VS_new empty_heap)"
  have h: "heap_ok ?h" "svrep ?h ?s None [] []"
    by (simp_all add: VS_new_def malloc_def empty_heap_def heap_ok_def svrep_def vrep_def)
  obtain h1 s1 v1 ps1 where 1: "PushBackString ?h (Some ?s) ''a'' = Inr (h1, Some s1)" "heap_ok h1" "svrep h1 s1 v1 ps1 [''a'']"
    using push_back_copies [OF h, of "''a''"] by auto
  from push_back_copies [OF 1(2,3), of "''b''"] obtain h2 v2 ps2 where
    "VS_append h1 (Some s1) ''b'' = Inr h2" "svrep h2 s1 v2 ps2 [''a'', ''b'']" by auto
  with 1 show ?thesis by blast
qed

text \<open>
  \<open>VS_append\<close> on the vector that \<open>VS_new\<close> returns frees the \<open>vector\<close> member, which was never initialised;
  and \<open>VS_delete\<close> leaks the array of pointers.
\<close>

lemma VS_faults:
  "VS_append (fst (VS_new h)) (Some (snd (VS_new h))) str = Inl Uninit \<and>
   (heap_ok h \<and> svrep h s (Some a) ps xs \<and> xs \<noteq> [] \<longrightarrow>
     (\<exists>h'. VS_delete h (Some s) = Inr h' \<and> same_outside h (insert s (vfoot (Some a) ps)) h' {a} \<and>
       c_blk h' a = Some (BPtrs (map Some ps))))"
  using VS_append_fresh VS_delete_leak by blast

theorem VS_faults_witness:
  "VS_append (fst (VS_new empty_heap)) (Some (snd (VS_new empty_heap))) ''a'' = Inl Uninit \<and>
   (\<exists>h'. VS_delete \<lparr>c_blk = [0 \<mapsto> BVec 1 (Some 1), 1 \<mapsto> BPtrs [Some 2], 2 \<mapsto> BStr ''x''], c_brk = 3\<rparr> (Some 0) = Inr h' \<and>
     c_blk h' 1 = Some (BPtrs [Some 2]))"
proof -
  let ?h = "\<lparr>c_blk = [0 \<mapsto> BVec 1 (Some 1), 1 \<mapsto> BPtrs [Some 2], 2 \<mapsto> BStr ''x''], c_brk = 3\<rparr>"
  have "heap_ok ?h" "svrep ?h 0 (Some 1) [2] [''x'']"
    by (auto simp: heap_ok_def svrep_def vrep_def vfoot_def split: if_splits)
  with VS_faults [of empty_heap "''a''"] VS_faults [of ?h "''a''" 0 1 "[2]" "[''x'']"] show ?thesis by auto
qed

end
