(* ===== verification/Grep.thy ===== *)
theory Grep
  imports Vector
begin

text \<open>
  The line search tool \<open>var-grep\<close>: reading standard input into an array of rows, searching the rows for
  a string, printing and cleaning up, over the C heap of \<open>CHeap\<close>. Standard input is the string of its
  bytes and a flag for a read error; allocation succeeds. The program's vector routines are its own
  copies of those of \<open>data-vector\<close>.
\<close>

section \<open>\<open>grep.h\<close>\<close>

definition MAX_STDINPUT_WIDTH :: nat where
  "MAX_STDINPUT_WIDTH = 1024 * 1024"

datatype BITGREP_FLAG = FIND | EARG

record BITGREP_TARGET =
  target_string :: "nat option"

record BITGREP_INPUT2D =
  row_count :: int
  buff_2d :: "nat option"

record BITGREP_FOUND =
  found_count :: int
  found_index :: "nat option"
  buff_found :: "nat option"

section \<open>The C library\<close>

text \<open>What \<open>fgets\<close> stores, and what it leaves in the stream, when it may store \<open>n\<close> characters. It returns null
  when it stores nothing. \<open>cstr\<close> is the C string in a buffer: the characters before the first null.\<close>

fun fgets_take :: "nat \<Rightarrow> string \<Rightarrow> string \<times> string" where
  "fgets_take 0 s = ([], s)"
| "fgets_take (Suc n) [] = ([], [])"
| "fgets_take (Suc n) (c # cs) = (if c = nl then ([c], cs) else (case fgets_take n cs of (a, b) \<Rightarrow> (c # a, b)))"

definition cstr :: "string \<Rightarrow> string" where
  "cstr s = takeWhile (\<lambda>c. c \<noteq> CHR 0x00) s"

section \<open>\<open>grep.c\<close>\<close>

definition BITGREP_FlagParser :: "cheap \<Rightarrow> BITGREP_TARGET \<Rightarrow> string list \<Rightarrow> cheap \<times> BITGREP_TARGET \<times> BITGREP_FLAG" where
  "BITGREP_FlagParser h bg_t argv =
     (if length argv \<noteq> 2 then (h, bg_t, EARG)
      else (case malloc h (BStr (argv ! 1)) of (h, p) \<Rightarrow> (h, bg_t\<lparr>target_string := Some p\<rparr>, FIND)))"

text \<open>The loop that collects the input: \<open>realloc\<close> to the size needed so far, then \<open>strcat\<close>, which must fit.\<close>

function read_stdin :: "nat \<Rightarrow> cheap \<Rightarrow> nat \<Rightarrow> nat \<Rightarrow> string \<Rightarrow> (cheap \<times> nat) res" where
  "read_stdin width h buff_input total_input_size stdin =
     (case fgets_take (width - 1) stdin of (get_buffer, rest) \<Rightarrow>
      if get_buffer = [] then Inr (h, buff_input)
      else bindR (get_str h (Some buff_input)) (\<lambda>s. bindR (c_free h (Some buff_input)) (\<lambda>h.
        case malloc h (BStr s) of (h, p) \<Rightarrow>
        if length (s @ cstr get_buffer) < total_input_size + length (cstr get_buffer)
        then bindR (put_blk h (Some p) (BStr (s @ cstr get_buffer))) (\<lambda>h.
          read_stdin width h p (total_input_size + length (cstr get_buffer)) rest)
        else Inl OutOfBounds)))"
  by pat_completeness auto
termination
proof (relation "measure (\<lambda>(_, _, _, _, s). length s)")
  have "fgets_take n s = (a, b) \<Longrightarrow> s = a @ b" for n s a b
    by (induction n s arbitrary: a b rule: fgets_take.induct) (auto split: if_splits prod.splits)
  note split = this
  show "((w, h', b', n', rest), w, h, b, n, stdin) \<in> measure (\<lambda>(_, _, _, _, s). length s)"
    if "(get_buffer, rest) = fgets_take (w - 1) stdin" "get_buffer \<noteq> []"
    for w h h' b b' n n' stdin get_buffer rest
    using split [OF that(1) [symmetric]] that(2) by simp
qed simp

definition BITGREP_PushBackString :: "cheap \<Rightarrow> int \<Rightarrow> nat option \<Rightarrow> string \<Rightarrow> (cheap \<times> nat option \<times> int) res" where
  "BITGREP_PushBackString h rowc vec new_el =
     bindR (if rowc = 0 then Inr (malloc h (BPtrs [None])) else realloc_ptrs h vec (nat (rowc + 1))) (\<lambda>(h, vec_tmp).
     case malloc h (BStr new_el) of (h, p) \<Rightarrow>
     bindR (set_ptr h (Some vec_tmp) (nat rowc) (Some p)) (\<lambda>h. Inr (h, Some vec_tmp, 0)))"

definition BITGREP_PushBackInt :: "cheap \<Rightarrow> int \<Rightarrow> nat option \<Rightarrow> int \<Rightarrow> (cheap \<times> nat option \<times> int) res" where
  "BITGREP_PushBackInt h cnt vec new_el =
     bindR (if cnt = 0 then Inr (malloc h (BInts [None])) else realloc_ints h vec (nat (cnt + 1))) (\<lambda>(h, vec_tmp).
     bindR (set_int h (Some vec_tmp) (nat cnt) (Some new_el)) (\<lambda>h. Inr (h, Some vec_tmp, 0)))"

text \<open>\<open>BITGREP_EraseString\<close> and \<open>BITGREP_EraseInt\<close>, which the program does not call.\<close>

definition BITGREP_EraseString :: "cheap \<Rightarrow> int \<Rightarrow> nat option \<Rightarrow> int \<Rightarrow> (cheap \<times> nat option \<times> int) res" where
  "BITGREP_EraseString h rowc vec index =
     (if rowc - 1 < 0 then Inr (h, vec, -1)
      else if index \<ge> rowc \<or> index < 0 then Inr (h, vec, -2)
      else bindR (foldR (\<lambda>h i.
          if int i < index then Inr h
          else if int i = index then bindR (ptr_at h vec i) (\<lambda>p. c_free h p)
          else if int i \<noteq> rowc - 1 then bindR (ptr_at h vec i) (\<lambda>p. set_ptr h vec (i - 1) p)
          else bindR (ptr_at h vec i) (\<lambda>p. bindR (get_str h p) (\<lambda>s.
            case malloc h (BStr s) of (h, new_last) \<Rightarrow>
            bindR (c_free h p) (\<lambda>h. set_ptr h vec (i - 1) (Some new_last))))) h [0..<nat rowc]) (\<lambda>h.
        if rowc - 1 = 0 then bindR (c_free h vec) (\<lambda>h. Inr (h, vec, 1))
        else bindR (realloc_ptrs h vec (nat (rowc - 1))) (\<lambda>(h, v). Inr (h, Some v, 0))))"

definition BITGREP_EraseInt :: "cheap \<Rightarrow> int \<Rightarrow> nat option \<Rightarrow> int \<Rightarrow> (cheap \<times> nat option \<times> int) res" where
  "BITGREP_EraseInt h cnt vec index =
     (if cnt - 1 < 0 then Inr (h, vec, -1)
      else if index \<ge> cnt \<or> index < 0 then Inr (h, vec, -2)
      else bindR (foldR (\<lambda>h i. if int i \<le> index then Inr h
          else bindR (int_at h vec i) (\<lambda>x. set_int h vec (i - 1) x)) h [0..<nat cnt]) (\<lambda>h.
        if cnt - 1 = 0 then bindR (c_free h vec) (\<lambda>h. Inr (h, vec, 1))
        else bindR (realloc_ints h vec (nat (cnt - 1))) (\<lambda>(h, v). Inr (h, Some v, 0))))"

text \<open>\<open>BITGREP_MapStdinTo2d\<close>. Splitting with \<open>strsep\<close> ends the buffer's string at its first newline and leaves
  \<open>buff_input\<close> null, so that the \<open>free\<close> that follows does nothing.\<close>

definition BITGREP_MapStdinTo2d ::
  "cheap \<Rightarrow> BITGREP_INPUT2D \<Rightarrow> string \<Rightarrow> bool \<Rightarrow> (cheap \<times> BITGREP_INPUT2D \<times> int) res"
where
  "BITGREP_MapStdinTo2d h bg_in2d stdin ferror =
     (case malloc h (BStr []) of (h, buff_input) \<Rightarrow>
      bindR (read_stdin MAX_STDINPUT_WIDTH h buff_input 1 stdin) (\<lambda>(h, buff_input).
      if ferror then bindR (c_free h (Some buff_input)) (\<lambda>h. Inr (h, bg_in2d, -2))
      else bindR (get_str h (Some buff_input)) (\<lambda>s.
        bindR (put_blk h (Some buff_input) (BStr (hd (strsep_all s)))) (\<lambda>h.
        bindR (fill_lines BITGREP_PushBackString (h, buff_2d bg_in2d, row_count bg_in2d) (strsep_all s)) (\<lambda>(h, v, n, ok).
        Inr (h, bg_in2d\<lparr>row_count := n, buff_2d := v\<rparr>, if ok then 0 else -3))))))"

text \<open>The loop over the rows; the third component is the status a failed push makes the function return.\<close>

definition search_row ::
  "string \<Rightarrow> BITGREP_INPUT2D \<Rightarrow> cheap \<times> BITGREP_FOUND \<times> int \<Rightarrow> nat \<Rightarrow> (cheap \<times> BITGREP_FOUND \<times> int) res"
where
  "search_row target bg_in2d s i = (case s of (h, f, ret) \<Rightarrow>
     if ret < 0 then Inr s
     else bindR (ptr_at h (buff_2d bg_in2d) i) (\<lambda>p. bindR (get_str h p) (\<lambda>row.
     case strstr row target of None \<Rightarrow> Inr (h, f, 0)
     | Some target_found \<Rightarrow>
       bindR (BITGREP_PushBackInt h (found_count f) (found_index f) (int i)) (\<lambda>(h, vi, status).
       if status < 0 then Inr (h, f\<lparr>found_index := vi\<rparr>, -1)
       else bindR (BITGREP_PushBackString h (found_count f) (buff_found f) target_found) (\<lambda>(h, vs, status).
         if status < 0 then Inr (h, f\<lparr>found_index := vi, buff_found := vs\<rparr>, -2)
         else Inr (h, f\<lparr>found_count := found_count f + 1, found_index := vi, buff_found := vs\<rparr>, 0))))))"

definition BITGREP_PopulateSearchResult ::
  "cheap \<Rightarrow> nat option \<Rightarrow> BITGREP_INPUT2D \<Rightarrow> BITGREP_FOUND \<Rightarrow> (cheap \<times> BITGREP_FOUND \<times> int) res"
where
  "BITGREP_PopulateSearchResult h target bg_in2d bg_found =
     bindR (get_str h target) (\<lambda>t. foldR (search_row t bg_in2d) (h, bg_found, 0) [0..<nat (row_count bg_in2d)])"

definition BITGREP_PrintFound :: "cheap \<Rightarrow> BITGREP_FOUND \<Rightarrow> (int option \<times> string) list res" where
  "BITGREP_PrintFound h f =
     foldR (\<lambda>out i. bindR (int_at h (found_index f) i) (\<lambda>n.
       bindR (ptr_at h (buff_found f) i) (\<lambda>p. bindR (get_str h p) (\<lambda>s. Inr (out @ [(n, s)]))))) [] [0..<nat (found_count f)]"

definition BITGREP_Clear :: "cheap \<Rightarrow> BITGREP_TARGET \<Rightarrow> BITGREP_INPUT2D \<Rightarrow> BITGREP_FOUND \<Rightarrow> cheap res" where
  "BITGREP_Clear h bg_t bg_in2d bg_found =
     bindR (c_free h (target_string bg_t)) (\<lambda>h.
     bindR (free_lines h (buff_2d bg_in2d) (row_count bg_in2d)) (\<lambda>h.
     bindR (foldR (\<lambda>h i. bindR (ptr_at h (buff_found bg_found) i) (\<lambda>p. c_free h p)) h [0..<nat (found_count bg_found)]) (\<lambda>h.
     bindR (c_free h (found_index bg_found)) (\<lambda>h. c_free h (buff_found bg_found)))))"

text \<open>\<open>main\<close>: the heap at exit, the exit status and the lines printed. The members that \<open>main\<close> does not set are
  indeterminate.\<close>

definition grep_main :: "cheap \<Rightarrow> string list \<Rightarrow> string \<Rightarrow> bool \<Rightarrow> (cheap \<times> int \<times> (int option \<times> string) list) res" where
  "grep_main h argv stdin ferror =
     (case BITGREP_FlagParser h \<lparr>target_string = None\<rparr> argv of
        (h, bg_t, EARG) \<Rightarrow> Inr (h, -1, [])
      | (h, bg_t, FIND) \<Rightarrow>
        bindR (BITGREP_MapStdinTo2d h \<lparr>row_count = 0, buff_2d = None\<rparr> stdin ferror) (\<lambda>(h, bg_in2d, status).
        if status < 0 then Inr (h, -2, [])
        else bindR (BITGREP_PopulateSearchResult h (target_string bg_t) bg_in2d
              \<lparr>found_count = 0, found_index = None, buff_found = None\<rparr>) (\<lambda>(h, bg_found, status).
          if status < 0 then Inr (h, -3, [])
          else bindR (BITGREP_PrintFound h bg_found) (\<lambda>out.
            bindR (BITGREP_Clear h bg_t bg_in2d bg_found) (\<lambda>h. Inr (h, 0, out))))))"

section \<open>What the program is to print\<close>

definition hits :: "string \<Rightarrow> string list \<Rightarrow> nat \<Rightarrow> (nat \<times> string) list" where
  "hits target rows k = concat (map (\<lambda>i. case strstr (rows ! i) target of None \<Rightarrow> [] | Some r \<Rightarrow> [(i, r)]) [0..<k])"

text \<open>The search result \<open>f\<close> in the heap \<open>h\<close> holds the hits \<open>S\<close>; the blocks of the two arrays are apart.\<close>

definition found_rep :: "cheap \<Rightarrow> BITGREP_FOUND \<Rightarrow> nat list \<Rightarrow> (nat \<times> string) list \<Rightarrow> bool" where
  "found_rep h f ps S \<longleftrightarrow> found_count f = int (length S) \<and> irep h (found_index f) (map (int \<circ> fst) S) \<and>
     vrep h (buff_found f) ps (map snd S) \<and> ifoot (found_index f) S \<inter> vfoot (buff_found f) ps = {}"

definition found_foot :: "BITGREP_FOUND \<Rightarrow> nat list \<Rightarrow> nat set" where
  "found_foot f ps = ifoot (found_index f) ps \<union> vfoot (buff_found f) ps"

section \<open>Lemmas\<close>

declare read_stdin.simps [simp del]

lemma fgets_take_append: "fgets_take n s = (a, b) \<Longrightarrow> s = a @ b"
  by (induction n s arbitrary: a b rule: fgets_take.induct) (auto split: if_splits prod.splits)

lemma fgets_take_Nil: "fgets_take (Suc n) s = ([], b) \<longleftrightarrow> s = [] \<and> b = []"
  by (cases s) (auto split: prod.splits)

lemma cstr_id: "CHR 0x00 \<notin> set s \<Longrightarrow> cstr s = s"
  unfolding cstr_def by (auto intro: takeWhile_eq_all_conv [THEN iffD2])

text \<open>The input loop leaves one block with the whole input in it.\<close>

lemma read_stdin_ok:
  assumes "heap_ok h" "c_blk h p = Some (BStr s)" "CHR 0x00 \<notin> set stdin" "2 \<le> w"
  shows "\<exists>h' p'. read_stdin w h p (Suc (length s)) stdin = Inr (h', p') \<and> heap_ok h' \<and>
    c_blk h' p' = Some (BStr (s @ stdin)) \<and> same_outside h {p} h' {p'}"
  using assms
proof (induction "length stdin" arbitrary: h p s stdin rule: less_induct)
  case less
  obtain n where w: "w - 1 = Suc n" using less.prems(4) by (cases "w - 1") auto
  obtain line rest where f: "fgets_take (w - 1) stdin = (line, rest)" by (cases "fgets_take (w - 1) stdin")
  note a = fgets_take_append [OF f]
  show ?case
  proof (cases "line = []")
    case True
    then have "stdin = []" using f fgets_take_Nil unfolding w by blast
    with f True less.prems show ?thesis
      by (auto simp: read_stdin.simps same_outside_def)
  next
    case False
    have c: "cstr line = line" using less.prems(3) a by (auto intro: cstr_id)
    let ?q = "c_brk h"
    let ?h = "h\<lparr>c_brk := Suc ?q, c_blk := (c_blk h)(p := None, ?q \<mapsto> BStr (s @ line))\<rparr>"
    have p: "p < ?q" using less.prems(1,2) by (auto simp: heap_ok_def)
    have step: "read_stdin w h p (Suc (length s)) stdin = read_stdin w ?h ?q (Suc (length (s @ line))) rest"
      using f False c less.prems(2) p
      by (simp add: read_stdin.simps [of w h p] get_str_def deref_def c_free_def malloc_def put_blk_def fun_upd_twist)
    have "heap_ok ?h" using less.prems(1) by (auto simp: heap_ok_def)
    moreover have "c_blk ?h ?q = Some (BStr (s @ line))" by simp
    moreover have "CHR 0x00 \<notin> set rest" using less.prems(3) a by auto
    ultimately obtain h' p' where 1: "read_stdin w ?h ?q (Suc (length (s @ line))) rest = Inr (h', p')" "heap_ok h'"
      "c_blk h' p' = Some (BStr ((s @ line) @ rest))" "same_outside ?h {?q} h' {p'}"
      using less.hyps [of rest ?h ?q "s @ line"] less.prems(4) False a by auto
    have "same_outside h {p} ?h {?q}"
      using fresh_None [OF less.prems(1)] by (intro same_outsideI) auto
    from same_outside_trans [OF this 1(4)] 1(2,3) show ?thesis
      unfolding step 1(1) using a by (intro exI [of _ h'] exI [of _ p']) simp
  qed
qed

lemma bitgrep_copies:
  "BITGREP_PushBackString = VECTOR_PushBackString" "BITGREP_PushBackInt = VECTOR_PushBackInt"
  "BITGREP_EraseString = VECTOR_EraseString" "BITGREP_EraseInt = VECTOR_EraseInt"
  by (intro ext, simp add: BITGREP_PushBackString_def VECTOR_PushBackString_def BITGREP_PushBackInt_def
      VECTOR_PushBackInt_def BITGREP_EraseString_def VECTOR_EraseString_def erase_string_step_def [abs_def]
      BITGREP_EraseInt_def VECTOR_EraseInt_def erase_int_step_def [abs_def])+

interpretation bitgrep_string: string_vector BITGREP_PushBackString
  unfolding bitgrep_copies by (rule vector_string.string_vector_axioms)

lemma map_stdin_ok:
  assumes h: "heap_ok h" and nz: "CHR 0x00 \<notin> set stdin"
  shows "\<exists>h' v ps b. BITGREP_MapStdinTo2d h \<lparr>row_count = 0, buff_2d = None\<rparr> stdin False =
      Inr (h', \<lparr>row_count = int (length (strsep_all stdin)), buff_2d = v\<rparr>, 0) \<and> heap_ok h' \<and>
    vrep h' v ps (strsep_all stdin) \<and> same_outside h {} h' (vfoot v ps \<union> {b}) \<and> b \<notin> vfoot v ps \<and>
    c_blk h' b = Some (BStr (hd (strsep_all stdin)))"
proof -
  let ?L = "strsep_all stdin"
  let ?h0 = "h\<lparr>c_blk := (c_blk h)(c_brk h \<mapsto> BStr []), c_brk := Suc (c_brk h)\<rparr>"
  have m: "malloc h (BStr []) = (?h0, c_brk h)" by (simp add: malloc_def)
  have h0: "heap_ok ?h0" using h by (auto simp: heap_ok_def)
  have s0: "same_outside h {} ?h0 {c_brk h}" using fresh_None [OF h] by (intro same_outsideI) auto
  have w: "2 \<le> MAX_STDINPUT_WIDTH" by (simp add: MAX_STDINPUT_WIDTH_def)
  have "c_blk ?h0 (c_brk h) = Some (BStr [])" by simp
  from read_stdin_ok [OF h0 this nz w] obtain h1 b where 1:
    "read_stdin MAX_STDINPUT_WIDTH ?h0 (c_brk h) 1 stdin = Inr (h1, b)" "heap_ok h1"
    "c_blk h1 b = Some (BStr stdin)" "same_outside ?h0 {c_brk h} h1 {b}"
    by auto
  let ?h2 = "h1\<lparr>c_blk := (c_blk h1)(b \<mapsto> BStr (hd ?L))\<rparr>"
  have p: "put_blk h1 (Some b) (BStr (hd ?L)) = Inr ?h2" using 1(3) by (intro put_blk_live) simp
  have h2: "heap_ok ?h2" using 1(2,3) by (auto simp: heap_ok_def)
  have s2: "same_outside h1 {b} ?h2 {b}" by (intro same_outsideI) auto
  have sb: "same_outside h {} ?h2 {b}"
    by (rule same_outside_trans [OF same_outside_trans [OF s0 1(4)] s2])
  obtain h3 v ps where 3: "fill_lines BITGREP_PushBackString (?h2, None, 0) ?L = Inr (h3, v, int (length ?L), True)"
    "heap_ok h3" "vrep h3 v ps ?L" "same_outside ?h2 {} h3 (vfoot v ps)"
    using bitgrep_string.fill_ok [OF h2 vrep_empty, of None ?L] by auto
  have f: "same_outside h {} h3 (vfoot v ps \<union> {b})"
    by (rule same_outside_trans [OF sb]) (use same_outside_frame [OF 3(4), of "{b}"] in \<open>simp only: Un_empty_left\<close>)
  have "b \<notin> vfoot v ps" "c_blk h3 b = Some (BStr (hd ?L))"
    by (rule same_outside_keep [OF 3(4)], simp, simp)+
  moreover have "BITGREP_MapStdinTo2d h \<lparr>row_count = 0, buff_2d = None\<rparr> stdin False =
      Inr (h3, \<lparr>row_count = int (length ?L), buff_2d = v\<rparr>, 0)"
  proof -
    have g: "get_str h1 (Some b) = Inr stdin" using 1(3) by (simp add: get_str_def deref_def)
    show ?thesis
      unfolding BITGREP_MapStdinTo2d_def m prod.case 1(1) bindR_Inr if_False g p BITGREP_INPUT2D.simps 3(1) by simp
  qed
  ultimately show ?thesis using 3(2,3) f by (intro exI conjI)
qed

lemma irep_keep:
  assumes "same_outside h F h' F'" "irep h v xs" "ifoot v xs \<inter> F = {}"
  shows "irep h' v xs" and "ifoot v xs \<inter> F' = {}"
proof -
  have "xs = [] \<or> (\<exists>a. v = Some a \<and> a \<notin> F \<and> c_blk h a = Some (BInts (map Some xs)))"
    using assms(2,3) by (auto simp: irep_def)
  then show "irep h' v xs" "ifoot v xs \<inter> F' = {}"
    using same_outside_keep [OF assms(1)] by (auto simp: irep_def ifoot_def split: if_splits)
qed

lemma ifoot_cong: "length xs = length ys \<Longrightarrow> ifoot v xs = ifoot v ys"
  by (auto simp: ifoot_def)

lemma found_rep_push:
  assumes h: "heap_ok h" and f: "found_rep h f ps S"
  shows "\<exists>h1 vi h2 vs p. BITGREP_PushBackInt h (found_count f) (found_index f) (int i) = Inr (h1, vi, 0) \<and>
    BITGREP_PushBackString h1 (found_count f) (buff_found f) r = Inr (h2, vs, 0) \<and> heap_ok h2 \<and>
    found_rep h2 (f\<lparr>found_count := found_count f + 1, found_index := vi, buff_found := vs\<rparr>) (ps @ [p]) (S @ [(i, r)]) \<and>
    same_outside h (found_foot f ps) h2
      (found_foot (f\<lparr>found_count := found_count f + 1, found_index := vi, buff_found := vs\<rparr>) (ps @ [p]))"
proof -
  let ?I = "map (int \<circ> fst) S" and ?W = "map snd S"
  have n: "found_count f = int (length ?I)" "found_count f = int (length ?W)"
    and ir: "irep h (found_index f) ?I" and vr: "vrep h (buff_found f) ps ?W"
    and d: "ifoot (found_index f) ?I \<inter> vfoot (buff_found f) ps = {}"
    using f by (auto simp: found_rep_def cong: ifoot_cong)
  have lp: "length ps = length S" using vr by (simp add: vrep_def)
  obtain h1 vi where 1: "BITGREP_PushBackInt h (found_count f) (found_index f) (int i) = Inr (h1, vi, 0)" "heap_ok h1"
    "irep h1 vi (?I @ [int i])" "same_outside h (ifoot (found_index f) ?I) h1 (ifoot vi (?I @ [int i]))"
    using push_int_ok [OF h ir, of "int i"] unfolding bitgrep_copies n(1) by blast
  have vr1: "vrep h1 (buff_found f) ps ?W" and d1: "vfoot (buff_found f) ps \<inter> ifoot vi (?I @ [int i]) = {}"
    using vrep_keep [OF 1(4) vr] d by (simp_all add: Int_commute)
  obtain h2 vs p where 2: "BITGREP_PushBackString h1 (found_count f) (buff_found f) r = Inr (h2, vs, 0)" "heap_ok h2"
    "vrep h2 vs (ps @ [p]) (?W @ [r])" "same_outside h1 (vfoot (buff_found f) ps) h2 (vfoot vs (ps @ [p]))"
    using push_string_ok [OF 1(2) vr1, of r] unfolding bitgrep_copies n(2) by blast
  have ir2: "irep h2 vi (?I @ [int i])" and d2: "ifoot vi (?I @ [int i]) \<inter> vfoot vs (ps @ [p]) = {}"
    using irep_keep [OF 2(4) 1(3)] d1 by (simp_all add: Int_commute)
  have c: "ifoot (found_index f) ps = ifoot (found_index f) ?I" "ifoot vi (ps @ [p]) = ifoot vi (?I @ [int i])"
    "ifoot vi (S @ [(i, r)]) = ifoot vi (?I @ [int i])"
    using lp by (auto intro!: ifoot_cong)
  have "same_outside h (found_foot f ps) h1 (ifoot vi (?I @ [int i]) \<union> vfoot (buff_found f) ps)"
    using same_outside_frame [OF 1(4)] by (simp add: found_foot_def c)
  moreover have "same_outside h1 (ifoot vi (?I @ [int i]) \<union> vfoot (buff_found f) ps) h2
      (found_foot (f\<lparr>found_count := found_count f + 1, found_index := vi, buff_found := vs\<rparr>) (ps @ [p]))"
    using same_outside_frame [OF 2(4), of "ifoot vi (?I @ [int i])"] by (simp add: found_foot_def c Un_commute)
  ultimately have so: "same_outside h (found_foot f ps) h2
      (found_foot (f\<lparr>found_count := found_count f + 1, found_index := vi, buff_found := vs\<rparr>) (ps @ [p]))"
    by (rule same_outside_trans)
  have fr: "found_rep h2 (f\<lparr>found_count := found_count f + 1, found_index := vi, buff_found := vs\<rparr>) (ps @ [p]) (S @ [(i, r)])"
    using ir2 2(3) d2 n(2) by (simp add: found_rep_def c)
  show ?thesis
    by (intro exI conjI) (rule 1(1), rule 2(1), rule 2(2), rule fr, rule so)
qed

lemma hits_Suc: "hits t rows (Suc k) = hits t rows k @ (case strstr (rows ! k) t of None \<Rightarrow> [] | Some r \<Rightarrow> [(k, r)])"
  by (simp add: hits_def)

lemma vrep_row:
  assumes "vrep h v ps xs" "i < length xs"
  shows "ptr_at h v i = Inr (Some (ps ! i))" "get_str h (Some (ps ! i)) = Inr (xs ! i)"
  using assms by (auto simp: vrep_def ptr_at_def get_ptrs_def get_str_def deref_def)

lemma search_loop_ok:
  assumes h: "heap_ok h" and r: "vrep h (buff_2d bg) rs rows" and k: "k \<le> length rows"
  shows "\<exists>h' f ps. foldR (search_row t bg) (h, \<lparr>found_count = 0, found_index = None, buff_found = None\<rparr>, 0) [0..<k] =
      Inr (h', f, 0) \<and> heap_ok h' \<and> found_rep h' f ps (hits t rows k) \<and> same_outside h {} h' (found_foot f ps)"
  using k
proof (induction k)
  case 0
  show ?case
    using h by (auto simp: hits_def found_rep_def found_foot_def irep_def vrep_def same_outside_def)
next
  case (Suc k)
  then obtain h1 f1 ps where 1: "foldR (search_row t bg) (h, \<lparr>found_count = 0, found_index = None, buff_found = None\<rparr>, 0) [0..<k] =
      Inr (h1, f1, 0)" "heap_ok h1" "found_rep h1 f1 ps (hits t rows k)" "same_outside h {} h1 (found_foot f1 ps)"
    by auto
  have r1: "vrep h1 (buff_2d bg) rs rows" using vrep_keep(1) [OF 1(4) r] by simp
  have kl: "k < length rows" using Suc.prems by simp
  note row = vrep_row [OF r1 kl]
  show ?case
  proof (cases "strstr (rows ! k) t")
    case None
    then have "search_row t bg (h1, f1, 0) k = Inr (h1, f1, 0)" using row by (simp add: search_row_def)
    with None 1 show ?thesis by (auto simp: foldR_append hits_Suc)
  next
    case (Some r)
    obtain h2 vi h3 vs p where 2:
      "BITGREP_PushBackInt h1 (found_count f1) (found_index f1) (int k) = Inr (h2, vi, 0)"
      "BITGREP_PushBackString h2 (found_count f1) (buff_found f1) r = Inr (h3, vs, 0)" "heap_ok h3"
      "found_rep h3 (f1\<lparr>found_count := found_count f1 + 1, found_index := vi, buff_found := vs\<rparr>) (ps @ [p]) (hits t rows k @ [(k, r)])"
      "same_outside h1 (found_foot f1 ps) h3
        (found_foot (f1\<lparr>found_count := found_count f1 + 1, found_index := vi, buff_found := vs\<rparr>) (ps @ [p]))"
      using found_rep_push [OF 1(2,3), of k r] by blast
    have "search_row t bg (h1, f1, 0) k =
        Inr (h3, f1\<lparr>found_count := found_count f1 + 1, found_index := vi, buff_found := vs\<rparr>, 0)"
      using 2(1,2) row Some by (simp add: search_row_def)
    with 1(1) have "foldR (search_row t bg) (h, \<lparr>found_count = 0, found_index = None, buff_found = None\<rparr>, 0) [0..<Suc k] =
        Inr (h3, f1\<lparr>found_count := found_count f1 + 1, found_index := vi, buff_found := vs\<rparr>, 0)"
      by (simp add: foldR_append)
    with 2(3,4) same_outside_trans [OF 1(4) 2(5)] Some show ?thesis
      unfolding hits_Suc by auto
  qed
qed

lemma print_found_ok:
  assumes "found_rep h f ps S"
  shows "BITGREP_PrintFound h f = Inr (map (\<lambda>(i, s). (Some (int i), s)) S)"
proof -
  have "foldR (\<lambda>out i. bindR (int_at h (found_index f) i) (\<lambda>n.
       bindR (ptr_at h (buff_found f) i) (\<lambda>p. bindR (get_str h p) (\<lambda>s. Inr (out @ [(n, s)]))))) [] [0..<k] =
    Inr (map (\<lambda>(i, s). (Some (int i), s)) (take k S))" if "k \<le> length S" for k
    using that
  proof (induction k)
    case (Suc k)
    then have k: "k < length S" by simp
    then obtain a where "found_index f = Some a" "c_blk h a = Some (BInts (map Some (map (int \<circ> fst) S)))"
      using assms by (auto simp: found_rep_def irep_def)
    then have "int_at h (found_index f) k = Inr (Some (int (fst (S ! k))))"
      using k by (simp add: int_at_def get_ints_def deref_def)
    moreover have "vrep h (buff_found f) ps (map snd S)" using assms by (simp add: found_rep_def)
    ultimately show ?case
      using Suc k vrep_row [of h "buff_found f" ps "map snd S" k]
      by (simp add: foldR_append take_Suc_conv_app_nth case_prod_beta)
  qed simp
  from this [of "length S"] show ?thesis using assms by (simp add: BITGREP_PrintFound_def found_rep_def)
qed

lemma found_free_ok:
  assumes f: "found_rep h f ps S" and ne: "S \<noteq> []"
  shows "\<exists>h'. bindR (foldR (\<lambda>h i. bindR (ptr_at h (buff_found f) i) (\<lambda>p. c_free h p)) h [0..<nat (found_count f)]) (\<lambda>h.
     bindR (c_free h (found_index f)) (\<lambda>h. c_free h (buff_found f))) = Inr h' \<and> same_outside h (found_foot f ps) h' {}"
proof -
  obtain a where a: "found_index f = Some a" "c_blk h a = Some (BInts (map Some (map (int \<circ> fst) S)))"
    using f ne by (auto simp: found_rep_def irep_def)
  have "vrep h (buff_found f) ps (map snd S)" "map snd S \<noteq> []" using f ne by (simp_all add: found_rep_def)
  then obtain b where b: "buff_found f = Some b" "b \<notin> set ps" "c_blk h b = Some (BPtrs (map Some ps))" "length ps = length S" "distinct ps"
    "\<And>i. i < length ps \<Longrightarrow> c_blk h (ps ! i) \<noteq> None" "ps \<noteq> []"
    by (elim vrep_parts) auto
  have d: "a \<noteq> b" "a \<notin> set ps"
    using f a b ne by (auto simp: found_rep_def vfoot_def)
  let ?h1 = "h\<lparr>c_blk := c_blk h |` (- set ps)\<rparr>"
  let ?h2 = "?h1\<lparr>c_blk := (c_blk ?h1)(a := None)\<rparr>"
  let ?h3 = "?h2\<lparr>c_blk := (c_blk ?h2)(b := None)\<rparr>"
  have "foldR (\<lambda>h i. bindR (ptr_at h (Some b) i) (\<lambda>p. c_free h p)) h [0..<length ps] = Inr ?h1"
    using free_loop_ok [OF b(3,2,5), of "length ps"] b(6) by simp
  moreover have "c_free ?h1 (Some a) = Inr ?h2" using a d by (simp add: c_free_def restrict_map_def)
  moreover have "c_free ?h2 (Some b) = Inr ?h3" using b d by (simp add: c_free_def restrict_map_def)
  moreover have "nat (found_count f) = length ps" using f b(4) by (simp add: found_rep_def)
  ultimately have "bindR (foldR (\<lambda>h i. bindR (ptr_at h (buff_found f) i) (\<lambda>p. c_free h p)) h [0..<nat (found_count f)]) (\<lambda>h.
     bindR (c_free h (found_index f)) (\<lambda>h. c_free h (buff_found f))) = Inr ?h3"
    unfolding a(1) b(1) by (simp only: bindR_Inr)
  moreover have "same_outside h (found_foot f ps) ?h3 {}"
    using a(1) b(1,7) by (intro same_outsideI) (auto simp: found_foot_def vfoot_Some restrict_map_def)
  ultimately show ?thesis by blast
qed

lemma found_rep_keep:
  assumes s: "same_outside h F h' F'" and f: "found_rep h f ps S" and d: "found_foot f ps \<inter> F = {}"
  shows "found_rep h' f ps S" and "found_foot f ps \<inter> F' = {}"
proof -
  have l: "length ps = length S" using f by (auto simp: found_rep_def vrep_def)
  have c: "ifoot (found_index f) ps = ifoot (found_index f) (map (int \<circ> fst) S)"
    using l by (intro ifoot_cong) simp
  show "found_rep h' f ps S" "found_foot f ps \<inter> F' = {}"
    using f d irep_keep [OF s, of "found_index f" "map (int \<circ> fst) S"] vrep_keep [OF s, of "buff_found f" ps "map snd S"]
    by (auto simp: found_rep_def found_foot_def c)
qed

lemma clear_ok:
  assumes h: "heap_ok h" and t: "target_string bg_t = Some t" "c_blk h t = Some (BStr s)"
    and r: "vrep h (buff_2d bg) rs rows" "rows \<noteq> []" "row_count bg = int (length rows)" "t \<notin> vfoot (buff_2d bg) rs"
    and f: "found_rep h f ps S" "S \<noteq> []" "t \<notin> found_foot f ps" "found_foot f ps \<inter> vfoot (buff_2d bg) rs = {}"
  shows "\<exists>h'. BITGREP_Clear h bg_t bg f = Inr h' \<and>
    same_outside h ({t} \<union> vfoot (buff_2d bg) rs \<union> found_foot f ps) h' {}"
proof -
  let ?h1 = "upd h t None" and ?V = "vfoot (buff_2d bg) rs" and ?W = "found_foot f ps"
  have 1: "c_free h (Some t) = Inr ?h1" using t by (simp add: c_free_def)
  have s1: "same_outside h {t} ?h1 {}" by (intro same_outsideI) auto
  have h1: "heap_ok ?h1" using h by (auto simp: heap_ok_def)
  have r1: "vrep ?h1 (buff_2d bg) rs rows" by (rule vrep_keep(1) [OF s1 r(1)]) (use r(4) in simp)
  have f1: "found_rep ?h1 f ps S" by (rule found_rep_keep(1) [OF s1 f(1)]) (use f(3) in simp)
  obtain h2 where 2: "free_lines ?h1 (buff_2d bg) (row_count bg) = Inr h2" "same_outside ?h1 ?V h2 {}"
    using free_lines_ok [OF h1 r1 r(2)] unfolding r(3) by blast
  have f2: "found_rep h2 f ps S" by (rule found_rep_keep(1) [OF 2(2) f1 f(4)])
  obtain h3 where 3: "bindR (foldR (\<lambda>h i. bindR (ptr_at h (buff_found f) i) (\<lambda>p. c_free h p)) h2 [0..<nat (found_count f)]) (\<lambda>h.
     bindR (c_free h (found_index f)) (\<lambda>h. c_free h (buff_found f))) = Inr h3" "same_outside h2 ?W h3 {}"
    using found_free_ok [OF f2 f(2)] by blast
  have "BITGREP_Clear h bg_t bg f = Inr h3"
    unfolding BITGREP_Clear_def t(1) 1 bindR_Inr 2(1) 3(1) ..
  moreover have "same_outside h ({t} \<union> ?V \<union> ?W) h3 {}"
  proof -
    have a: "same_outside h ({t} \<union> ?V \<union> ?W) ?h1 (?V \<union> ?W)"
      using same_outside_frame [OF s1, of "?V \<union> ?W"] by (simp only: Un_empty_left Un_assoc)
    have b: "same_outside ?h1 (?V \<union> ?W) h2 ?W"
      using same_outside_frame [OF 2(2), of ?W] by (simp only: Un_empty_left)
    show ?thesis by (rule same_outside_trans [OF same_outside_trans [OF a b] 3(2)])
  qed
  ultimately show ?thesis by blast
qed

lemma search_ok:
  assumes h: "heap_ok h" and t: "c_blk h a = Some (BStr t)" and r: "vrep h v rs rows"
  shows "\<exists>h' f ps. BITGREP_PopulateSearchResult h (Some a) \<lparr>row_count = int (length rows), buff_2d = v\<rparr>
        \<lparr>found_count = 0, found_index = None, buff_found = None\<rparr> = Inr (h', f, 0) \<and>
      found_rep h' f ps (hits t rows (length rows)) \<and> heap_ok h' \<and> same_outside h {} h' (found_foot f ps)"
proof -
  let ?bg = "\<lparr>row_count = int (length rows), buff_2d = v\<rparr>"
  have "vrep h (buff_2d ?bg) rs rows" using r by simp
  from search_loop_ok [OF h this order_refl, of t] show ?thesis
    using t by (auto simp: BITGREP_PopulateSearchResult_def get_str_def deref_def)
qed

lemma search_loop_none:
  assumes r: "vrep h (buff_2d bg) rs rows" and k: "k \<le> length rows" and n: "hits t rows k = []"
  shows "foldR (search_row t bg) (h, f, 0) [0..<k] = Inr (h, f, 0)"
  using k n
proof (induction k)
  case (Suc k)
  then have "strstr (rows ! k) t = None" "hits t rows k = []" "k < length rows"
    by (auto simp: hits_Suc split: option.splits)
  moreover from this have "search_row t bg (h, f, 0) k = Inr (h, f, 0)"
    using vrep_row [OF r, of k] by (simp add: search_row_def)
  ultimately show ?case using Suc by (simp add: foldR_append)
qed simp

text \<open>The program up to the search.\<close>

lemma grep_prepare:
  assumes h: "heap_ok h" and nz: "CHR 0x00 \<notin> set stdin"
  shows "\<exists>h1 a h2 v rs b. BITGREP_FlagParser h \<lparr>target_string = None\<rparr> [prog, t] = (h1, \<lparr>target_string = Some a\<rparr>, FIND) \<and>
    BITGREP_MapStdinTo2d h1 \<lparr>row_count = 0, buff_2d = None\<rparr> stdin False =
      Inr (h2, \<lparr>row_count = int (length (strsep_all stdin)), buff_2d = v\<rparr>, 0) \<and> heap_ok h2 \<and>
    vrep h2 v rs (strsep_all stdin) \<and> same_outside h {} h2 ({a} \<union> vfoot v rs \<union> {b}) \<and> b \<notin> vfoot v rs \<and>
    c_blk h2 b = Some (BStr (hd (strsep_all stdin))) \<and> c_blk h2 a = Some (BStr t) \<and> a \<notin> vfoot v rs \<and> a \<noteq> b"
proof -
  let ?h1 = "h\<lparr>c_blk := (c_blk h)(c_brk h \<mapsto> BStr t), c_brk := Suc (c_brk h)\<rparr>" and ?a = "c_brk h"
  have f: "BITGREP_FlagParser h \<lparr>target_string = None\<rparr> [prog, t] = (?h1, \<lparr>target_string = Some ?a\<rparr>, FIND)"
    by (simp add: BITGREP_FlagParser_def malloc_def)
  have h1: "heap_ok ?h1" using h by (auto simp: heap_ok_def)
  have s1: "same_outside h {} ?h1 {?a}" using fresh_None [OF h] by (intro same_outsideI) auto
  obtain h2 v rs b where 2: "BITGREP_MapStdinTo2d ?h1 \<lparr>row_count = 0, buff_2d = None\<rparr> stdin False =
      Inr (h2, \<lparr>row_count = int (length (strsep_all stdin)), buff_2d = v\<rparr>, 0)" "heap_ok h2"
    "vrep h2 v rs (strsep_all stdin)" "same_outside ?h1 {} h2 (vfoot v rs \<union> {b})" "b \<notin> vfoot v rs"
    "c_blk h2 b = Some (BStr (hd (strsep_all stdin)))"
    using map_stdin_ok [OF h1 nz] by blast
  have "c_blk ?h1 ?a = Some (BStr t)" by simp
  note k = same_outside_keep [OF 2(4) _ this, simplified]
  have "same_outside h {} h2 ({?a} \<union> vfoot v rs \<union> {b})"
    by (rule same_outside_trans [OF s1])
      (use same_outside_frame [OF 2(4), of "{?a}"] in \<open>simp only: Un_empty_left Un_commute Un_left_commute Un_assoc\<close>)
  with f 2 k show ?thesis
    by (intro exI [of _ ?h1] exI [of _ ?a] exI [of _ h2] exI [of _ v] exI [of _ rs] exI [of _ b] conjI) auto
qed

lemma map_stdin_error:
  assumes h: "heap_ok h" and nz: "CHR 0x00 \<notin> set stdin"
  shows "\<exists>h'. BITGREP_MapStdinTo2d h bg stdin True = Inr (h', bg, -2)"
proof -
  let ?h0 = "h\<lparr>c_blk := (c_blk h)(c_brk h \<mapsto> BStr []), c_brk := Suc (c_brk h)\<rparr>"
  have h0: "heap_ok ?h0" "c_blk ?h0 (c_brk h) = Some (BStr [])" using h by (auto simp: heap_ok_def)
  have w: "2 \<le> MAX_STDINPUT_WIDTH" by (simp add: MAX_STDINPUT_WIDTH_def)
  from read_stdin_ok [OF h0 nz w] obtain h1 b where 1:
    "read_stdin MAX_STDINPUT_WIDTH ?h0 (c_brk h) 1 stdin = Inr (h1, b)" "c_blk h1 b = Some (BStr stdin)"
    by auto
  have "BITGREP_MapStdinTo2d h bg stdin True = Inr (upd h1 b None, bg, -2)"
    unfolding BITGREP_MapStdinTo2d_def malloc_def prod.case 1(1) bindR_Inr using 1(2) by (simp add: c_free_def)
  then show ?thesis ..
qed

lemma grep_no_match:
  assumes h: "heap_ok h" and nz: "CHR 0x00 \<notin> set stdin" and S: "hits t (strsep_all stdin) (length (strsep_all stdin)) = []"
  shows "grep_main h [prog, t] stdin False = Inl Uninit"
proof -
  let ?L = "strsep_all stdin" and ?f = "\<lparr>found_count = 0, found_index = None, buff_found = None\<rparr>"
  obtain h1 a h2 v rs where 1: "BITGREP_FlagParser h \<lparr>target_string = None\<rparr> [prog, t] = (h1, \<lparr>target_string = Some a\<rparr>, FIND)"
    "BITGREP_MapStdinTo2d h1 \<lparr>row_count = 0, buff_2d = None\<rparr> stdin False = Inr (h2, \<lparr>row_count = int (length ?L), buff_2d = v\<rparr>, 0)"
    "heap_ok h2" "vrep h2 v rs ?L" "c_blk h2 a = Some (BStr t)" "a \<notin> vfoot v rs"
    using grep_prepare [OF h nz, of prog t] by blast
  let ?bg = "\<lparr>row_count = int (length ?L), buff_2d = v\<rparr>" and ?h3 = "upd h2 a None"
  have 3: "BITGREP_PopulateSearchResult h2 (Some a) ?bg ?f = Inr (h2, ?f, 0)"
    using search_loop_none [of h2 ?bg rs ?L "length ?L" t ?f] 1(4,5) S
    by (simp add: BITGREP_PopulateSearchResult_def get_str_def deref_def)
  have s: "same_outside h2 {a} ?h3 {}" by (intro same_outsideI) auto
  have h3: "heap_ok ?h3" using 1(3) by (auto simp: heap_ok_def)
  have r3: "vrep ?h3 v rs ?L" by (rule vrep_keep(1) [OF s 1(4)]) (use 1(6) in simp)
  obtain h4 where 4: "free_lines ?h3 v (int (length ?L)) = Inr h4"
    using free_lines_ok [OF h3 r3] by auto
  have f: "c_free h2 (Some a) = Inr ?h3" using 1(5) by (simp add: c_free_def)
  have "BITGREP_Clear h2 \<lparr>target_string = Some a\<rparr> ?bg ?f = Inl Uninit"
    unfolding BITGREP_Clear_def BITGREP_TARGET.simps BITGREP_INPUT2D.simps f bindR_Inr 4 by (simp add: c_free_def)
  then show ?thesis
    unfolding grep_main_def 1(1) by (simp add: 1(2) 3 BITGREP_PrintFound_def)
qed

section \<open>Properties\<close>



text \<open>
  When no row matches, the program frees the index array and the result array that it never set. A wrong number of
  arguments ends it with -1 before it allocates anything, and a read error with -2.
\<close>

lemma grep_errors:
  assumes h: "heap_ok h" and nz: "CHR 0x00 \<notin> set stdin"
  shows "(hits t (strsep_all stdin) (length (strsep_all stdin)) = [] \<longrightarrow> grep_main h [prog, t] stdin False = Inl Uninit) \<and>
    (length argv \<noteq> 2 \<longrightarrow> grep_main h argv stdin e = Inr (h, -1, [])) \<and>
    (\<exists>h'. grep_main h [prog, t] stdin True = Inr (h', -2, []))"
  using grep_no_match [OF h nz, of t prog]
proof (intro conjI impI)
  let ?h1 = "h\<lparr>c_blk := (c_blk h)(c_brk h \<mapsto> BStr t), c_brk := Suc (c_brk h)\<rparr>"
  have f: "BITGREP_FlagParser h \<lparr>target_string = None\<rparr> [prog, t] = (?h1, \<lparr>target_string = Some (c_brk h)\<rparr>, FIND)"
    by (simp add: BITGREP_FlagParser_def malloc_def)
  have h1: "heap_ok ?h1" using h by (auto simp: heap_ok_def)
  from map_stdin_error [OF h1 nz, of "\<lparr>row_count = 0, buff_2d = None\<rparr>"] show "\<exists>h'. grep_main h [prog, t] stdin True = Inr (h', -2, [])"
    unfolding grep_main_def f by auto
qed (simp_all add: grep_main_def BITGREP_FlagParser_def)

theorem grep_errors_witness: "grep_main empty_heap [''grep'', ''x''] ''abc'' False = Inl Uninit"
proof -
  have S: "strsep_all ''abc'' = [''abc'']" "hits ''x'' [''abc''] 1 = []" by code_simp+
  then show ?thesis
    using grep_errors [OF empty_heap_ok, of "''abc''" "''x''" "''grep''" "[]" False] by auto
qed

end
