(* ===== verification/CString.thy ===== *)
theory CString
  imports CHeap
begin

text \<open>
  The C library's string functions on a buffer that may lack a terminating null. The buffer is the list of
  its bytes from the pointer on; reading past its end is a fault. \<open>split_on\<close> is what the functions compute
  on a proper string.
\<close>

section \<open>Functions\<close>

definition nul :: char where
  "nul = CHR 0x00"

text \<open>\<open>strsep\<close>: the token and the rest, null when the string has ended.\<close>

fun strsep1 :: "char \<Rightarrow> string \<Rightarrow> (string \<times> string option) res" where
  "strsep1 d [] = Inl OutOfBounds"
| "strsep1 d (c # cs) = (if c = nul then Inr ([], None) else if c = d then Inr ([], Some cs)
     else bindR (strsep1 d cs) (\<lambda>(t, r). Inr (c # t, r)))"

text \<open>\<open>strtok\<close>: skip delimiters, then the token, and where the next call starts.\<close>

fun skip_delim :: "char \<Rightarrow> string \<Rightarrow> string res" where
  "skip_delim d [] = Inl OutOfBounds"
| "skip_delim d (c # cs) = (if c = d then skip_delim d cs else Inr (c # cs))"

fun token :: "char \<Rightarrow> string \<Rightarrow> (string \<times> string) res" where
  "token d [] = Inl OutOfBounds"
| "token d (c # cs) = (if c = nul then Inr ([], c # cs) else if c = d then Inr ([], cs)
     else bindR (token d cs) (\<lambda>(t, r). Inr (c # t, r)))"

definition strtok1 :: "char \<Rightarrow> string \<Rightarrow> (string \<times> string) option res" where
  "strtok1 d s = bindR (skip_delim d s) (\<lambda>s. if hd s = nul then Inr None else bindR (token d s) (\<lambda>tr. Inr (Some tr)))"

text \<open>\<open>strchr\<close> for a character that is not the null: the rest of the string from its first occurrence on.\<close>

fun strchr :: "char \<Rightarrow> string \<Rightarrow> string option res" where
  "strchr d [] = Inl OutOfBounds"
| "strchr d (c # cs) = (if c = d then Inr (Some (c # cs)) else if c = nul then Inr None else strchr d cs)"

text \<open>The C string that starts a buffer.\<close>

definition c_string :: "string \<Rightarrow> string res" where
  "c_string s = (if nul \<in> set s then Inr (takeWhile (\<lambda>c. c \<noteq> nul) s) else Inl OutOfBounds)"

text \<open>The fields of a string between delimiters.\<close>

fun split_on :: "char \<Rightarrow> string \<Rightarrow> string list" where
  "split_on d [] = [[]]"
| "split_on d (c # cs) = (if c = d then [] # split_on d cs else (c # hd (split_on d cs)) # tl (split_on d cs))"

text \<open>The fields that are not empty.\<close>

definition tokens :: "char \<Rightarrow> string \<Rightarrow> string list" where
  "tokens d s = filter (\<lambda>t. t \<noteq> []) (split_on d s)"

section \<open>Lemmas\<close>

lemma strsep1_shorter: "strsep1 d b = Inr (t, Some r) \<Longrightarrow> length r < length b"
  by (induction d b arbitrary: t r rule: strsep1.induct) (fastforce split: if_splits simp: bindR_eq_Inr)+

lemma skip_delim_Inr: "skip_delim d s = Inr r \<Longrightarrow> length r \<le> length s \<and> r \<noteq> [] \<and> hd r \<noteq> d"
  by (induction d s arbitrary: r rule: skip_delim.induct) (fastforce split: if_splits)+

lemma token_shorter: "token d b = Inr (t, r) \<Longrightarrow> length r \<le> length b \<and> (hd b \<noteq> nul \<longrightarrow> length r < length b)"
  by (induction d b arbitrary: t r rule: token.induct) (fastforce split: if_splits simp: bindR_eq_Inr)+

lemma strtok1_shorter: "strtok1 d s = Inr (Some (t, r)) \<Longrightarrow> length r < length s"
  by (auto simp: strtok1_def bindR_eq_Inr split: if_splits dest!: skip_delim_Inr token_shorter)

lemma strchr_shorter: "strchr d s = Inr (Some r) \<Longrightarrow> length (tl r) < length s"
proof -
  have "strchr d s = Inr (Some r) \<Longrightarrow> length r \<le> length s \<and> r \<noteq> []"
    by (induction d s arbitrary: r rule: strchr.induct) (fastforce split: if_splits)+
  then show "strchr d s = Inr (Some r) \<Longrightarrow> length (tl r) < length s" by (cases r) auto
qed

lemma split_on_ne [simp]: "split_on d s \<noteq> []"
  by (induction s) auto

lemma split_on_nl: "split_on nl s = strsep_all s"
  by (induction s rule: strsep_all.induct) (auto split: list.splits)

lemma split_on_nodelim: "d \<notin> set t \<Longrightarrow> split_on d t = [t]"
  by (induction t) auto

lemma split_on_app: "d \<notin> set t \<Longrightarrow> split_on d (t @ d # s) = t # split_on d s"
  by (induction t) auto

lemma length_split_on: "length (split_on d s) = Suc (count_list s d)"
  by (induction s) auto

text \<open>On a proper string \<open>s\<close>, followed by a null.\<close>

lemma strsep1_proper:
  assumes "nul \<notin> set s" "d \<noteq> nul"
  shows "strsep1 d (s @ nul # z) =
    (if d \<in> set s then Inr (hd (split_on d s), Some (tl (dropWhile (\<lambda>c. c \<noteq> d) s) @ nul # z)) else Inr (s, None))"
  using assms by (induction s) auto

lemma strsep1_over:
  "nul \<notin> set s \<Longrightarrow> strsep1 d s =
    (if d \<in> set s then Inr (hd (split_on d s), Some (tl (dropWhile (\<lambda>c. c \<noteq> d) s))) else Inl OutOfBounds)"
  by (induction s) auto

lemma skip_delim_over:
  "skip_delim d s = (if dropWhile (\<lambda>c. c = d) s = [] then Inl OutOfBounds else Inr (dropWhile (\<lambda>c. c = d) s))"
  by (induction s) auto

lemma token_over:
  "nul \<notin> set s \<Longrightarrow> token d s =
    (if d \<in> set s then Inr (hd (split_on d s), tl (dropWhile (\<lambda>c. c \<noteq> d) s)) else Inl OutOfBounds)"
  by (induction s) auto

lemma skip_delim_proper:
  "nul \<notin> set s \<Longrightarrow> d \<noteq> nul \<Longrightarrow> skip_delim d (s @ nul # z) = Inr (dropWhile (\<lambda>c. c = d) s @ nul # z)"
  by (induction s) auto

lemma token_proper:
  assumes "nul \<notin> set s" "d \<noteq> nul"
  shows "token d (s @ nul # z) = Inr (hd (split_on d s), tl (dropWhile (\<lambda>c. c \<noteq> d) s) @ nul # z)"
  using assms by (induction s) auto

lemma strchr_proper:
  "nul \<notin> set s \<Longrightarrow> d \<noteq> nul \<Longrightarrow> strchr d (s @ nul # z) =
    Inr (if d \<in> set s then Some (dropWhile (\<lambda>c. c \<noteq> d) s @ nul # z) else None)"
  by (induction s) auto

lemma split_on_rest: "d \<in> set s \<Longrightarrow> split_on d (tl (dropWhile (\<lambda>c. c \<noteq> d) s)) = tl (split_on d s)"
  by (induction s) auto

lemma set_dropWhile: "x \<in> set (dropWhile P s) \<Longrightarrow> x \<in> set s"
  by (induction s) (auto split: if_splits)

lemma set_rest: "x \<in> set (tl (dropWhile P s)) \<Longrightarrow> x \<in> set s"
  by (cases "dropWhile P s") (auto intro: set_dropWhile [of _ P])

lemma strtok1_proper:
  assumes "nul \<notin> set s" "d \<noteq> nul"
  shows "strtok1 d (s @ nul # z) = (let r = dropWhile (\<lambda>c. c = d) s in
    Inr (if r = [] then None else Some (hd (split_on d r), tl (dropWhile (\<lambda>c. c \<noteq> d) r) @ nul # z)))"
proof -
  have r: "nul \<notin> set (dropWhile (\<lambda>c. c = d) s)" using assms set_dropWhile by fast
  then have "dropWhile (\<lambda>c. c = d) s \<noteq> [] \<Longrightarrow> hd (dropWhile (\<lambda>c. c = d) s) \<noteq> nul" by (metis hd_in_set)
  with r assms show ?thesis
    by (cases "dropWhile (\<lambda>c. c = d) s = []") (simp_all add: strtok1_def skip_delim_proper token_proper Let_def del: dropWhile_eq_Nil_conv)
qed

lemma tokens_Nil [simp]: "tokens d [] = []"
  by (simp add: tokens_def)

lemma tokens_skip: "tokens d (dropWhile (\<lambda>c. c = d) s) = tokens d s"
  by (induction s) (auto simp: tokens_def)

lemma tokens_step:
  "tokens d s = (let r = dropWhile (\<lambda>c. c = d) s in
     if r = [] then [] else hd (split_on d r) # tokens d (tl (dropWhile (\<lambda>c. c \<noteq> d) r)))"
proof -
  define r where "r = dropWhile (\<lambda>c. c = d) s"
  have "tokens d r = hd (split_on d r) # tokens d (tl (dropWhile (\<lambda>c. c \<noteq> d) r))" if "r \<noteq> []"
  proof -
    have "hd r \<noteq> d" using that unfolding r_def by (rule hd_dropWhile)
    with that obtain c cs where c: "r = c # cs" "c \<noteq> d" by (cases r) auto
    have "tokens d (tl (dropWhile (\<lambda>c. c \<noteq> d) r)) = filter (\<lambda>t. t \<noteq> []) (tl (split_on d r))"
    proof (cases "d \<in> set r")
      case True
      then show ?thesis by (simp add: tokens_def split_on_rest)
    next
      case False
      then have "dropWhile (\<lambda>c. c \<noteq> d) r = []" by auto
      with False show ?thesis by (simp add: split_on_nodelim del: dropWhile_eq_Nil_conv)
    qed
    with c show ?thesis by (simp add: tokens_def)
  qed
  then show ?thesis
    using tokens_skip [of d s] by (cases "r = []") (simp_all add: r_def [symmetric] Let_def)
qed

lemma rest_shorter: "s \<noteq> [] \<Longrightarrow> length (tl (dropWhile P (dropWhile Q s))) < length s"
proof -
  assume "s \<noteq> []"
  moreover have "length (dropWhile P (dropWhile Q s)) \<le> length s"
    using length_dropWhile_le le_trans by blast
  ultimately show ?thesis using length_tl [of "dropWhile P (dropWhile Q s)"] by (cases s) simp_all
qed

lemma length_tokens_nl: "length (tokens d (s @ [d])) \<le> Suc (count_list s d)"
proof -
  have "split_on d (s @ [d]) = split_on d s @ [[]]" by (induction s) auto
  then have "length (tokens d (s @ [d])) \<le> length (split_on d s)" by (simp add: tokens_def)
  then show ?thesis by (simp add: length_split_on)
qed

lemma tokens_app_delim: "tokens d (s @ [d]) = tokens d s"
proof -
  have "split_on d (s @ [d]) = split_on d s @ [[]]" by (induction s) auto
  then show ?thesis by (simp add: tokens_def)
qed

lemma rest_shorter1: "x \<in> set s \<Longrightarrow> length (tl (dropWhile P s)) < length s"
  using rest_shorter [of s P "\<lambda>_. False"] by (cases s) auto

end
