(* ===== verification/TextTools.thy ===== *)
theory TextTools
  imports Vector CString
begin

text \<open>
  The text tools \<open>var-wc\<close>, \<open>var-cat\<close> and \<open>data-stream\<close>. They read a file into a buffer and hand the
  buffer to the C library's string functions, which look for a terminating null: the buffer is the list of its
  bytes, and a function that runs past its end is a fault. The file system is a record of the results of the
  calls.
\<close>

section \<open>Files\<close>

text \<open>A file: whether the calls on it succeed, and what \<open>fread\<close> delivers.\<close>

record cfile =
  f_open :: bool
  f_seek_end :: bool
  f_tell :: bool
  f_seek_set :: bool
  f_err :: bool
  f_data :: string

section \<open>\<open>var-wc\<close>\<close>

record WC_SUMMARY =
  byte_count :: u64
  line_count :: u64
  word_count :: u64

text \<open>The status, the buffer and its length; \<open>None\<close> is indeterminate.\<close>

definition WC_get_buff_from_file_path :: "cfile \<Rightarrow> int \<times> string option \<times> nat" where
  "WC_get_buff_from_file_path f =
     (if \<not> f_open f then (-1, None, 0)
      else if f_seek_end f then
        if \<not> f_tell f then (-2, None, 0)
        else if \<not> f_seek_set f then (-3, None, 0)
        else if f_err f then (-4, Some (f_data f), 0)
        else (sint (word_of_nat (length (f_data f)) :: 32 word), Some (f_data f), length (f_data f))
      else (0, None, 0))"

text \<open>The loop of \<open>WC_count_line_from_buff\<close>.\<close>

function sep_count :: "u64 \<Rightarrow> string option \<Rightarrow> u64 res" where
  "sep_count new_lines target_buff = (case target_buff of None \<Rightarrow> Inr new_lines
     | Some b \<Rightarrow> bindR (strsep1 nl b) (\<lambda>(septr, rest). sep_count (new_lines + 1) rest))"
  by pat_completeness auto
termination
  by (relation "measure (\<lambda>(_, p). case p of None \<Rightarrow> 0 | Some b \<Rightarrow> Suc (length b))")
    (auto split: option.splits dest: strsep1_shorter)

text \<open>The buffer indeterminate is only read when its length is not zero.\<close>

definition WC_count_line_from_buff :: "nat \<Rightarrow> string option \<Rightarrow> u64 res" where
  "WC_count_line_from_buff byte_len buff =
     (case buff of None \<Rightarrow> if byte_len = 0 then sep_count 0 (Some []) else Inl Uninit
      | Some b \<Rightarrow> sep_count 0 (Some (take byte_len b)))"

function tok_count :: "char \<Rightarrow> u64 \<Rightarrow> string \<Rightarrow> u64 res" where
  "tok_count d words s = bindR (strtok1 d s) (\<lambda>t. case t of None \<Rightarrow> Inr words | Some (tok, rest) \<Rightarrow> tok_count d (words + 1) rest)"
  by pat_completeness auto
termination
  by (relation "measure (\<lambda>(_, _, s). length s)") (auto dest: strtok1_shorter)

definition WC_count_word_from_buff :: "nat \<Rightarrow> string option \<Rightarrow> u64 res" where
  "WC_count_word_from_buff byte_len buff =
     (case buff of None \<Rightarrow> if byte_len = 0 then tok_count CHR '' '' 0 [] else Inl Uninit
      | Some b \<Rightarrow> tok_count CHR '' '' 0 (take byte_len b))"

text \<open>\<open>WC_default_summary\<close>: the summary that is printed, if one is.\<close>

definition WC_default_summary :: "cfile \<Rightarrow> WC_SUMMARY option res" where
  "WC_default_summary f = (case WC_get_buff_from_file_path f of (status, buff, byte_len) \<Rightarrow>
     if status < 0 then Inr None
     else bindR (WC_count_line_from_buff byte_len buff) (\<lambda>lc.
       bindR (WC_count_word_from_buff byte_len buff) (\<lambda>wc.
       bindR (case buff of None \<Rightarrow> Inl Uninit | Some _ \<Rightarrow> Inr ()) (\<lambda>_.
       Inr (Some \<lparr>byte_count = word_of_nat byte_len, line_count = lc, word_count = wc\<rparr>)))))"

definition wc_main :: "string list \<Rightarrow> cfile \<Rightarrow> (int \<times> WC_SUMMARY option) res" where
  "wc_main argv f = (if length argv \<noteq> 2 then Inr (-1, None)
     else bindR (WC_default_summary f) (\<lambda>s. Inr (0, s)))"

section \<open>\<open>var-cat\<close>\<close>

datatype BITCAT_FLAG = EARG | GETFP

record BITCAT_TARGET =
  file_path :: "string option"

definition BITCAT_FlagParser :: "BITCAT_TARGET \<Rightarrow> string list \<Rightarrow> BITCAT_TARGET \<times> BITCAT_FLAG" where
  "BITCAT_FlagParser bc_t argv =
     (if length argv \<noteq> 2 then (bc_t, EARG) else (bc_t\<lparr>file_path := Some (argv ! 1)\<rparr>, GETFP))"

definition BITCAT_GetFileIntoBuffer :: "cfile \<Rightarrow> int \<times> string option" where
  "BITCAT_GetFileIntoBuffer f =
     (if \<not> f_open f then (-1, None)
      else if f_seek_end f then
        if \<not> f_tell f then (-2, None)
        else if \<not> f_seek_set f then (-3, None)
        else if f_err f then (-4, Some (f_data f))
        else (sint (word_of_nat (length (f_data f)) :: 32 word), Some (f_data f))
      else (0, None))"

definition BITCAT_PrintBuffer :: "string option \<Rightarrow> string res" where
  "BITCAT_PrintBuffer buff = (case buff of None \<Rightarrow> Inl Uninit | Some b \<Rightarrow> c_string b)"

definition cat_main :: "string list \<Rightarrow> (string \<Rightarrow> cfile) \<Rightarrow> (int \<times> string) res" where
  "cat_main argv fs = (case BITCAT_FlagParser \<lparr>file_path = None\<rparr> argv of
       (bc_t, EARG) \<Rightarrow> Inr (-1, [])
     | (bc_t, GETFP) \<Rightarrow> (case BITCAT_GetFileIntoBuffer (fs (the (file_path bc_t))) of (status, buff) \<Rightarrow>
         if status < 0 then Inr (status, []) else bindR (BITCAT_PrintBuffer buff) (\<lambda>out. Inr (0, out))))"

section \<open>\<open>data-stream\<close>\<close>

definition MAX_STREAM_LEN :: nat where
  "MAX_STREAM_LEN = 1024 * 1024"

definition MAX_ROW_NUM :: nat where
  "MAX_ROW_NUM = 128"

text \<open>The loop that counts the newlines.\<close>

function row_num :: "nat \<Rightarrow> string \<Rightarrow> nat res" where
  "row_num n s_tmp = bindR (strchr nl s_tmp) (\<lambda>p. case p of None \<Rightarrow> Inr n | Some r \<Rightarrow> row_num (Suc n) (tl r))"
  by pat_completeness auto
termination
  by (relation "measure (\<lambda>(_, s). length s)") (auto dest: strchr_shorter)

text \<open>The loop that copies every token into a fresh block and stores its address in the next entry.\<close>

definition store_line :: "nat \<Rightarrow> cheap \<Rightarrow> nat \<Rightarrow> string \<Rightarrow> cheap res" where
  "store_line td_buff h row ptk = (case malloc h (BStr ptk) of (h, p) \<Rightarrow> set_ptr h (Some td_buff) row (Some p))"

function store_tokens :: "nat \<Rightarrow> cheap \<Rightarrow> nat \<Rightarrow> string \<Rightarrow> (cheap \<times> nat) res" where
  "store_tokens td_buff h row s = bindR (strtok1 nl s) (\<lambda>t. case t of None \<Rightarrow> Inr (h, row)
     | Some (ptk, rest) \<Rightarrow> bindR (store_line td_buff h row ptk) (\<lambda>h. store_tokens td_buff h (Suc row) rest))"
  by pat_completeness auto
termination
  by (relation "measure (\<lambda>(_, _, _, s). length s)") (auto dest: strtok1_shorter)

text \<open>\<open>Print2dBufferFromStream\<close> of \<open>interface.c\<close>: the lines it prints.\<close>

definition Print2dBufferFromStream :: "cheap \<Rightarrow> string \<Rightarrow> (cheap \<times> string list) res" where
  "Print2dBufferFromStream h source =
     bindR (row_num 0 source) (\<lambda>n.
     case malloc h (BPtrs (replicate n None)) of (h, td_buff) \<Rightarrow>
     bindR (store_tokens td_buff h 0 source) (\<lambda>(h, row).
     bindR (read_lines h (Some td_buff) (int row)) (\<lambda>out.
     bindR (free_lines h (Some td_buff) (int row)) (\<lambda>h. Inr (h, out)))))"

text \<open>\<open>StreamTo2dInterface\<close>: the buffer is an array of \<open>MAX_STREAM_LEN\<close> null bytes; the first component of the result
  is false when the function exits the program.\<close>

definition StreamTo2dInterface :: "cheap \<Rightarrow> cfile \<Rightarrow> (bool \<times> cheap \<times> string list) res" where
  "StreamTo2dInterface h f =
     (let zero = replicate MAX_STREAM_LEN nul in
      if f_open f \<and> f_seek_end f \<and> (\<not> f_tell f \<or> \<not> f_seek_set f) then Inr (False, h, [])
      else bindR (if f_open f \<and> f_seek_end f then
            if MAX_STREAM_LEN < length (f_data f) then Inl OutOfBounds
            else let source = f_data f @ drop (length (f_data f)) zero; n = length (f_data f) in
              if f_err f then Inr source
              else bindR (arr_set source n nl) (\<lambda>source. arr_set source (n + 1) nul)
          else Inr zero) (\<lambda>source.
        bindR (Print2dBufferFromStream h source) (\<lambda>(h, out). Inr (True, h, out))))"

text \<open>\<open>c_stream.c\<close>: copies of an array of lines, and the driver that uses a local array of \<open>MAX_ROW_NUM\<close> entries. The
  local array is a block of its own here, released at the end of the function.\<close>

definition copy_line :: "nat option \<Rightarrow> nat \<Rightarrow> cheap \<Rightarrow> nat \<Rightarrow> cheap res" where
  "copy_line source dest h i = bindR (ptr_at h source i) (\<lambda>p. bindR (get_str h p) (\<lambda>s. store_line dest h i s))"

definition Copy2dBufferFromBuffer :: "cheap \<Rightarrow> int \<Rightarrow> nat option \<Rightarrow> (cheap \<times> nat) res" where
  "Copy2dBufferFromBuffer h rowc source =
     (case malloc h (BPtrs (replicate (nat rowc) None)) of (h, dest) \<Rightarrow>
      bindR (foldR (copy_line source dest) h [0..<nat rowc]) (\<lambda>h. Inr (h, dest)))"

definition Copy2dBufferFromBuffer2 :: "cheap \<Rightarrow> int \<Rightarrow> nat option \<Rightarrow> nat option \<Rightarrow> (cheap \<times> nat option) res" where
  "Copy2dBufferFromBuffer2 h rowc dest source =
     (case malloc h (BPtrs (replicate (nat rowc) None)) of (h, dest_tmp) \<Rightarrow>
      bindR (foldR (copy_line source dest_tmp) h [0..<nat rowc]) (\<lambda>h. Inr (h, Some dest_tmp)))"

definition Print2dBufferFromBuffer :: "cheap \<Rightarrow> string \<Rightarrow> (cheap \<times> nat \<times> string list \<times> string list) res" where
  "Print2dBufferFromBuffer h source =
     bindR (row_num 0 source) (\<lambda>n.
     case malloc h (BPtrs (replicate MAX_ROW_NUM None)) of (h, td_buff) \<Rightarrow>
     bindR (store_tokens td_buff h 0 source) (\<lambda>(h, row).
     bindR (Copy2dBufferFromBuffer h (int row) (Some td_buff)) (\<lambda>(h, dd_buff).
     bindR (read_lines h (Some dd_buff) (int row)) (\<lambda>out1.
     bindR (free_lines h (Some dd_buff) (int row)) (\<lambda>h.
     bindR (Copy2dBufferFromBuffer2 h (int row) (Some dd_buff) (Some td_buff)) (\<lambda>(h, dd_buff).
     bindR (read_lines h dd_buff (int row)) (\<lambda>out2.
     bindR (foldR (\<lambda>h i. bindR (ptr_at h dd_buff i) (\<lambda>p. bindR (c_free h p) (\<lambda>h.
        bindR (ptr_at h (Some td_buff) i) (\<lambda>q. c_free h q)))) h [0..<row]) (\<lambda>h.
     bindR (c_free h dd_buff) (\<lambda>h.
     bindR (c_free h (Some td_buff)) (\<lambda>h. Inr (h, n, out1, out2)))))))))))"

section \<open>Arrays that fill up\<close>

text \<open>The array of \<open>n\<close> entries at \<open>a\<close> holds the strings \<open>xs\<close>, at the addresses \<open>ps\<close>, in its first entries.\<close>

definition prep :: "cheap \<Rightarrow> nat \<Rightarrow> nat \<Rightarrow> nat list \<Rightarrow> string list \<Rightarrow> bool" where
  "prep h n a ps xs \<longleftrightarrow> length ps = length xs \<and> length xs \<le> n \<and> distinct ps \<and> a \<notin> set ps \<and>
     c_blk h a = Some (BPtrs (map Some ps @ replicate (n - length ps) None)) \<and>
     (\<forall>i<length xs. c_blk h (ps ! i) = Some (BStr (xs ! i)))"

definition readable :: "cfile \<Rightarrow> bool" where
  "readable f \<longleftrightarrow> f_open f \<and> f_seek_end f \<and> f_tell f \<and> f_seek_set f \<and> \<not> f_err f"

section \<open>Lemmas on \<open>var-wc\<close> and \<open>var-cat\<close>\<close>

declare sep_count.simps [simp del] tok_count.simps [simp del] row_num.simps [simp del] store_tokens.simps [simp del]

lemma nl_nul [simp]: "nl \<noteq> nul" "nul \<noteq> nl"
  by (simp_all add: nl_def nul_def)

lemma sep_count_proper:
  "nul \<notin> set s \<Longrightarrow> sep_count n (Some (s @ nul # z)) = Inr (n + word_of_nat (length (split_on nl s)))"
proof (induction "length s" arbitrary: n s rule: less_induct)
  case less
  show ?case
  proof (cases "nl \<in> set s")
    case True
    let ?r = "tl (dropWhile (\<lambda>c. c \<noteq> nl) s)"
    have "length ?r < length s" using rest_shorter1 [OF True] .
    moreover have "nul \<notin> set ?r" using less.prems set_rest by fast
    moreover obtain t ts where sp: "split_on nl s = t # ts" by (cases "split_on nl s") auto
    ultimately have "sep_count (n + 1) (Some (?r @ nul # z)) = Inr (n + 1 + word_of_nat (length ts))"
      using less.hyps [of ?r] split_on_rest [OF True] by simp
    with sp show ?thesis
      using less.prems True by (simp add: sep_count.simps [of n] strsep1_proper)
  next
    case False
    with less.prems show ?thesis
      by (simp add: sep_count.simps strsep1_proper split_on_nodelim)
  qed
qed

lemma sep_count_over: "nul \<notin> set s \<Longrightarrow> sep_count n (Some s) = Inl OutOfBounds"
proof (induction "length s" arbitrary: n s rule: less_induct)
  case less
  show ?case
  proof (cases "nl \<in> set s")
    case True
    let ?r = "tl (dropWhile (\<lambda>c. c \<noteq> nl) s)"
    have "length ?r < length s" using rest_shorter1 [OF True] .
    moreover have "nul \<notin> set ?r" using less.prems set_rest by fast
    ultimately show ?thesis
      using less True by (simp add: sep_count.simps [of n] strsep1_over)
  qed (use less.prems in \<open>simp add: sep_count.simps strsep1_over\<close>)
qed

lemma tok_count_proper:
  "nul \<notin> set s \<Longrightarrow> d \<noteq> nul \<Longrightarrow> tok_count d n (s @ nul # z) = Inr (n + word_of_nat (length (tokens d s)))"
proof (induction "length s" arbitrary: n s rule: less_induct)
  case less
  define r where "r = dropWhile (\<lambda>c. c = d) s"
  show ?case
  proof (cases "r = []")
    case True
    with less.prems show ?thesis
      by (simp add: tok_count.simps strtok1_proper tokens_step [of d s] r_def [symmetric] Let_def)
  next
    case False
    let ?t = "tl (dropWhile (\<lambda>c. c \<noteq> d) r)"
    have ne: "s \<noteq> []" using False by (auto simp: r_def)
    have "nul \<notin> set ?t" using less.prems(1) set_rest set_dropWhile unfolding r_def by fast
    then have "tok_count d (n + 1) (?t @ nul # z) = Inr (n + 1 + word_of_nat (length (tokens d ?t)))"
      using less.hyps [of ?t] rest_shorter [OF ne] less.prems(2) unfolding r_def by blast
    with False less.prems show ?thesis
      by (simp add: tok_count.simps [of d n] strtok1_proper tokens_step [of d s] r_def [symmetric] Let_def)
  qed
qed

lemma strtok1_over:
  assumes "nul \<notin> set s"
  shows "strtok1 d s = (let r = dropWhile (\<lambda>c. c = d) s in
    if d \<in> set r then Inr (Some (hd (split_on d r), tl (dropWhile (\<lambda>c. c \<noteq> d) r))) else Inl OutOfBounds)"
proof -
  have r: "nul \<notin> set (dropWhile (\<lambda>c. c = d) s)" using assms set_dropWhile by fast
  then have "dropWhile (\<lambda>c. c = d) s \<noteq> [] \<Longrightarrow> hd (dropWhile (\<lambda>c. c = d) s) \<noteq> nul" by (metis hd_in_set)
  with r show ?thesis
    by (cases "dropWhile (\<lambda>c. c = d) s = []") (simp_all add: strtok1_def skip_delim_over token_over Let_def del: dropWhile_eq_Nil_conv)
qed

lemma tok_count_over: "nul \<notin> set s \<Longrightarrow> tok_count d n s = Inl OutOfBounds"
proof (induction "length s" arbitrary: n s rule: less_induct)
  case less
  define r where "r = dropWhile (\<lambda>c. c = d) s"
  show ?case
  proof (cases "d \<in> set r")
    case True
    let ?t = "tl (dropWhile (\<lambda>c. c \<noteq> d) r)"
    have ne: "s \<noteq> []" using True by (auto simp: r_def)
    have "nul \<notin> set ?t" using less.prems(1) set_rest set_dropWhile unfolding r_def by fast
    then have "tok_count d (n + 1) ?t = Inl OutOfBounds"
      using less.hyps [of ?t] rest_shorter [OF ne] unfolding r_def by blast
    with True less.prems show ?thesis
      by (simp add: tok_count.simps [of d n] strtok1_over r_def [symmetric] Let_def)
  qed (use less.prems in \<open>simp add: tok_count.simps strtok1_over r_def [symmetric]\<close>)
qed

section \<open>Lemmas on \<open>data-stream\<close>\<close>

lemma count_rest: "d \<in> set s \<Longrightarrow> count_list s d = Suc (count_list (tl (dropWhile (\<lambda>c. c \<noteq> d) s)) d)"
  by (induction s) auto

lemma row_num_proper: "nul \<notin> set s \<Longrightarrow> row_num n (s @ nul # z) = Inr (n + count_list s nl)"
proof (induction "length s" arbitrary: n s rule: less_induct)
  case less
  show ?case
  proof (cases "nl \<in> set s")
    case True
    let ?d = "dropWhile (\<lambda>c. c \<noteq> nl) s"
    have "length (tl ?d) < length s" using rest_shorter1 [OF True] .
    moreover have "nul \<notin> set (tl ?d)" using less.prems set_rest by fast
    ultimately have "row_num (Suc n) (tl ?d @ nul # z) = Inr (Suc n + count_list (tl ?d) nl)"
      by (rule less.hyps [OF _ _])
    moreover have "count_list s nl = Suc (count_list (tl ?d) nl)" by (rule count_rest [OF True])
    moreover have "?d \<noteq> []" using True by auto
    moreover have "row_num n (s @ nul # z) = row_num (Suc n) (tl (?d @ nul # z))"
      using less.prems True by (simp add: row_num.simps [of n] strchr_proper)
    ultimately show ?thesis by (simp only: tl_append2) simp
  next
    case False
    with less.prems show ?thesis by (simp add: row_num.simps [of n] strchr_proper count_notin)
  qed
qed

lemma prep_addr_less: "heap_ok h \<Longrightarrow> prep h n a ps xs \<Longrightarrow> p \<in> insert a (set ps) \<Longrightarrow> p < c_brk h"
  by (auto simp: prep_def heap_ok_def in_set_conv_nth)

lemma store_line_ok:
  assumes h: "heap_ok h" and r: "prep h n a ps xs" and l: "length xs < n"
  shows "\<exists>h' p. store_line a h (length xs) s = Inr h' \<and> heap_ok h' \<and> prep h' n a (ps @ [p]) (xs @ [s]) \<and>
    same_outside h (insert a (set ps)) h' (insert a (set (ps @ [p])))"
proof -
  let ?p = "c_brk h"
  have lp: "length ps = length xs" using r by (simp add: prep_def)
  then obtain m where m: "n = Suc (length ps + m)" using l less_iff_Suc_add by auto
  let ?r = "map Some (ps @ [?p]) @ replicate m None"
  let ?h = "h\<lparr>c_brk := Suc ?p, c_blk := (c_blk h)(?p \<mapsto> BStr s, a \<mapsto> BPtrs ?r)\<rparr>"
  have a: "a \<notin> set ps" "a < ?p" "c_blk h a = Some (BPtrs (map Some ps @ None # replicate m None))"
    using r m prep_addr_less [OF h r] by (auto simp: prep_def)
  have fresh: "?p \<notin> set ps" "a \<noteq> ?p" using prep_addr_less [OF h r] by fastforce+
  have u: "(map Some ps @ None # replicate m None)[length xs := Some ?p] = ?r"
    unfolding lp [symmetric] by (simp add: list_update_append)
  have "store_line a h (length xs) s = Inr ?h"
    using a(3) u lp fresh(2) by (simp add: store_line_def malloc_def set_ptr_def get_ptrs_def deref_def put_blk_def)
  moreover have "heap_ok ?h" using h a(2) by (auto simp: heap_ok_def)
  moreover have "prep ?h n a (ps @ [?p]) (xs @ [s])"
    unfolding prep_def
  proof (intro conjI allI impI)
    fix i assume i: "i < length (xs @ [s])"
    show "c_blk ?h ((ps @ [?p]) ! i) = Some (BStr ((xs @ [s]) ! i))"
    proof (cases "i < length xs")
      case True
      then have "ps ! i \<in> set ps" using lp by simp
      then have "ps ! i \<noteq> ?p" "ps ! i \<noteq> a" using fresh a by metis+
      with True r lp show ?thesis by (simp add: nth_append prep_def)
    next
      case False
      then have "i = length ps" "i = length xs" using i lp by auto
      with fresh show ?thesis by (auto simp: nth_append)
    qed
  qed (use r a fresh l m lp in \<open>simp_all add: prep_def\<close>)
  moreover have "same_outside h (insert a (set ps)) ?h (insert a (set (ps @ [?p])))"
    using fresh_None [OF h, of ?p] by (intro same_outsideI) auto
  ultimately show ?thesis by blast
qed

lemma store_line_full:
  "prep h n a ps xs \<Longrightarrow> heap_ok h \<Longrightarrow> length xs = n \<Longrightarrow> store_line a h (length xs) s = Inl OutOfBounds"
  by (auto simp: prep_def heap_ok_def store_line_def malloc_def set_ptr_def get_ptrs_def deref_def)

lemma prep_new:
  assumes h: "heap_ok h"
  shows "\<exists>h'. malloc h (BPtrs (replicate n None)) = (h', c_brk h) \<and> heap_ok h' \<and> prep h' n (c_brk h) [] [] \<and>
    same_outside h {} h' (insert (c_brk h) (set []))"
proof -
  let ?h = "h\<lparr>c_blk := (c_blk h)(c_brk h \<mapsto> BPtrs (replicate n None)), c_brk := Suc (c_brk h)\<rparr>"
  have "heap_ok ?h" using h by (auto simp: heap_ok_def)
  moreover have "same_outside h {} ?h (insert (c_brk h) (set []))"
    using fresh_None [OF h] by (intro same_outsideI) auto
  moreover have "prep ?h n (c_brk h) [] []" by (simp add: prep_def)
  ultimately show ?thesis by (intro exI [of _ ?h]) (simp add: malloc_def)
qed

lemma store_tokens_ok:
  assumes "nul \<notin> set s" "heap_ok h" "prep h n a ps xs" "length xs + length (tokens nl s) \<le> n"
  shows "\<exists>h' ps'. store_tokens a h (length xs) (s @ nul # z) = Inr (h', length (xs @ tokens nl s)) \<and> heap_ok h' \<and>
    prep h' n a ps' (xs @ tokens nl s) \<and> same_outside h (insert a (set ps)) h' (insert a (set ps'))"
  using assms
proof (induction "length s" arbitrary: s h ps xs rule: less_induct)
  case less
  define r where "r = dropWhile (\<lambda>c. c = nl) s"
  note e = strtok1_proper [OF less.prems(1), of nl z, folded r_def, unfolded Let_def, simplified]
  note t = tokens_step [of nl s, folded r_def, unfolded Let_def]
  show ?case
  proof (cases "r = []")
    case True
    with less.prems e t show ?thesis
      by (auto simp: store_tokens.simps [of a h "length xs"] same_outside_def)
  next
    case False
    let ?l = "hd (split_on nl r)" and ?t = "tl (dropWhile (\<lambda>c. c \<noteq> nl) r)"
    have tk: "tokens nl s = ?l # tokens nl ?t" using t False by simp
    have "length xs < n" using less.prems(4) tk by simp
    then obtain h1 p where 1: "store_line a h (length xs) ?l = Inr h1" "heap_ok h1" "prep h1 n a (ps @ [p]) (xs @ [?l])"
      "same_outside h (insert a (set ps)) h1 (insert a (set (ps @ [p])))"
      using store_line_ok [OF less.prems(2,3)] by blast
    have "s \<noteq> []" using False by (auto simp: r_def)
    then have sh: "length ?t < length s" unfolding r_def by (rule rest_shorter)
    have nt: "nul \<notin> set ?t" using less.prems(1) set_rest set_dropWhile unfolding r_def by fast
    have "length (xs @ [?l]) + length (tokens nl ?t) \<le> n" using less.prems(4) tk by simp
    from less.hyps [OF sh nt 1(2,3) this] obtain h2 ps2 where 2:
      "store_tokens a h1 (length (xs @ [?l])) (?t @ nul # z) = Inr (h2, length ((xs @ [?l]) @ tokens nl ?t))" "heap_ok h2"
      "prep h2 n a ps2 ((xs @ [?l]) @ tokens nl ?t)" "same_outside h1 (insert a (set (ps @ [p]))) h2 (insert a (set ps2))"
      by blast
    have "store_tokens a h (length xs) (s @ nul # z) = store_tokens a h1 (length (xs @ [?l])) (?t @ nul # z)"
      using e False 1(1) by (simp add: store_tokens.simps [of a h "length xs"])
    with 2(1-3) same_outside_trans [OF 1(4) 2(4)] tk show ?thesis by auto
  qed
qed

lemma store_tokens_over:
  assumes "nul \<notin> set s" "heap_ok h" "prep h n a ps xs" "n < length xs + length (tokens nl s)"
  shows "store_tokens a h (length xs) (s @ nul # z) = Inl OutOfBounds"
  using assms
proof (induction "length s" arbitrary: s h ps xs rule: less_induct)
  case less
  define r where "r = dropWhile (\<lambda>c. c = nl) s"
  note e = strtok1_proper [OF less.prems(1), of nl z, folded r_def, unfolded Let_def, simplified]
  note t = tokens_step [of nl s, folded r_def, unfolded Let_def]
  have ln: "length xs \<le> n" using less.prems(3) by (simp add: prep_def)
  have False: "r \<noteq> []" using less.prems(4) t ln by auto
  let ?l = "hd (split_on nl r)" and ?t = "tl (dropWhile (\<lambda>c. c \<noteq> nl) r)"
  have tk: "tokens nl s = ?l # tokens nl ?t" using t False by simp
  show ?case
  proof (cases "length xs = n")
    case True
    with e False store_line_full [OF less.prems(3,2)] show ?thesis
      by (simp add: store_tokens.simps [of a h n])
  next
    case neq: False
    then have "length xs < n" using ln by simp
    then obtain h1 p where 1: "store_line a h (length xs) ?l = Inr h1" "heap_ok h1" "prep h1 n a (ps @ [p]) (xs @ [?l])"
      using store_line_ok [OF less.prems(2,3)] by blast
    have "s \<noteq> []" using False by (auto simp: r_def)
    then have sh: "length ?t < length s" unfolding r_def by (rule rest_shorter)
    have nt: "nul \<notin> set ?t" using less.prems(1) set_rest set_dropWhile unfolding r_def by fast
    have "n < length (xs @ [?l]) + length (tokens nl ?t)" using less.prems(4) tk by simp
    from less.hyps [OF sh nt 1(2,3) this]
    show ?thesis using e False 1(1) by (simp add: store_tokens.simps [of a h "length xs"])
  qed
qed

lemma prep_row:
  assumes "prep h n a ps xs" "i < length xs"
  shows "ptr_at h (Some a) i = Inr (Some (ps ! i))" "get_str h (Some (ps ! i)) = Inr (xs ! i)"
  using assms by (auto simp: prep_def ptr_at_def get_ptrs_def get_str_def deref_def nth_append)

lemma prep_read:
  assumes "prep h n a ps xs"
  shows "read_lines h (Some a) (int (length xs)) = Inr xs"
proof -
  have "foldR (\<lambda>out i. bindR (ptr_at h (Some a) i) (\<lambda>p. bindR (get_str h p) (\<lambda>s. Inr (out @ [s])))) [] [0..<k] = Inr (take k xs)"
    if "k \<le> length xs" for k
    using that by (induction k) (simp_all add: foldR_append prep_row [OF assms] take_Suc_conv_app_nth)
  from this [of "length xs"] show ?thesis by (simp add: read_lines_def)
qed

lemma prep_free:
  assumes h: "heap_ok h" and r: "prep h n a ps xs"
  shows "\<exists>h'. free_lines h (Some a) (int (length xs)) = Inr h' \<and> heap_ok h' \<and> same_outside h (insert a (set ps)) h' {}"
proof -
  have a: "a \<notin> set ps" "length ps = length xs" "c_blk h a = Some (BPtrs (map Some ps @ replicate (n - length ps) None))"
    "distinct ps" "\<And>i. i < length ps \<Longrightarrow> c_blk h (ps ! i) \<noteq> None"
    using r by (auto simp: prep_def)
  let ?h1 = "h\<lparr>c_blk := c_blk h |` (- set ps)\<rparr>"
  let ?h = "?h1\<lparr>c_blk := (c_blk ?h1)(a := None)\<rparr>"
  have "foldR (\<lambda>h i. bindR (ptr_at h (Some a) i) (\<lambda>p. c_free h p)) h [0..<length ps] = Inr ?h1"
    using free_loop_gen [OF a(3,1,4), of "length ps"] a(5) by simp
  moreover have "c_free ?h1 (Some a) = Inr ?h" using a by (simp add: c_free_def restrict_map_def)
  ultimately have "free_lines h (Some a) (int (length xs)) = Inr ?h"
    unfolding free_lines_def nat_int a(2) [symmetric] by (simp only: bindR_Inr)
  moreover have "heap_ok ?h" using h by (auto simp: heap_ok_def restrict_map_def)
  moreover have "same_outside h (insert a (set ps)) ?h {}"
    using a by (intro same_outsideI) (auto simp: restrict_map_def)
  ultimately show ?thesis by blast
qed

lemma print_stream_ok:
  assumes h: "heap_ok h" and s: "nul \<notin> set s" and n: "length (tokens nl s) \<le> count_list s nl"
  shows "\<exists>h'. Print2dBufferFromStream h (s @ nul # z) = Inr (h', tokens nl s) \<and> c_blk h' = c_blk h"
proof -
  let ?n = "count_list s nl" and ?a = "c_brk h"
  obtain h1 where 1: "malloc h (BPtrs (replicate ?n None)) = (h1, ?a)" "heap_ok h1" "prep h1 ?n ?a [] []"
    "same_outside h {} h1 (insert ?a (set []))"
    using prep_new [OF h] by blast
  obtain h2 ps where 2: "store_tokens ?a h1 0 (s @ nul # z) = Inr (h2, length (tokens nl s))" "heap_ok h2"
    "prep h2 ?n ?a ps (tokens nl s)" "same_outside h1 (insert ?a (set [])) h2 (insert ?a (set ps))"
    using store_tokens_ok [OF s 1(2,3), of z] n by auto
  obtain h3 where 3: "free_lines h2 (Some ?a) (int (length (tokens nl s))) = Inr h3"
    "same_outside h2 (insert ?a (set ps)) h3 {}"
    using prep_free [OF 2(2,3)] by blast
  have "Print2dBufferFromStream h (s @ nul # z) = Inr (h3, tokens nl s)"
    by (simp add: Print2dBufferFromStream_def row_num_proper [OF s] 1(1) 2(1) prep_read [OF 2(3)] 3(1))
  moreover have "same_outside h {} h3 {}"
    by (rule same_outside_trans [OF same_outside_trans [OF 1(4) 2(4)] 3(2)])
  ultimately show ?thesis using same_outside_empty by blast
qed

lemma prep_keep:
  assumes s: "same_outside h F h' F'" and r: "prep h n a ps xs" and d: "insert a (set ps) \<inter> F = {}"
  shows "prep h' n a ps xs" and "insert a (set ps) \<inter> F' = {}"
proof -
  have "c_blk h q \<noteq> None" if "q \<in> insert a (set ps)" for q
    using that r by (auto simp: prep_def in_set_conv_nth)
  then have k: "q \<notin> F' \<and> c_blk h' q = c_blk h q" if "q \<in> insert a (set ps)" for q
    using that same_outside_keep [OF s] d by (metis disjoint_iff option.exhaust)
  then show "insert a (set ps) \<inter> F' = {}" by blast
  show "prep h' n a ps xs" using r k by (simp add: prep_def)
qed

lemma copy_loop_prep:
  assumes h: "heap_ok h" and r: "prep h n a ps xs" and d: "prep h (length xs) b [] []" "b \<notin> insert a (set ps)" and k: "k \<le> length xs"
  shows "\<exists>h' ds. foldR (copy_line (Some a) b) h [0..<k] = Inr h' \<and> heap_ok h' \<and> prep h' (length xs) b ds (take k xs) \<and>
    same_outside h {b} h' (insert b (set ds))"
  using k
proof (induction k)
  case 0
  with h d(1) show ?case by (auto simp: same_outside_def intro!: exI [of _ "[]"])
next
  case (Suc k)
  then obtain h1 ds where 1: "foldR (copy_line (Some a) b) h [0..<k] = Inr h1" "heap_ok h1"
    "prep h1 (length xs) b ds (take k xs)" "same_outside h {b} h1 (insert b (set ds))"
    by auto
  have r1: "prep h1 n a ps xs" using prep_keep(1) [OF 1(4) r] d(2) by auto
  have kl: "k < length xs" "length (take k xs) = k" using Suc.prems by auto
  obtain h2 p where 2: "store_line b h1 k (xs ! k) = Inr h2" "heap_ok h2" "prep h2 (length xs) b (ds @ [p]) (take k xs @ [xs ! k])"
    "same_outside h1 (insert b (set ds)) h2 (insert b (set (ds @ [p])))"
    using store_line_ok [OF 1(2,3), of "xs ! k"] kl by auto
  have "copy_line (Some a) b h1 k = Inr h2"
    using prep_row [OF r1 kl(1)] 2(1) by (simp add: copy_line_def)
  with 1(1) have "foldR (copy_line (Some a) b) h [0..<Suc k] = Inr h2" by (simp add: foldR_append)
  with 2(2,3) same_outside_trans [OF 1(4) 2(4)] kl show ?case by (auto simp: take_Suc_conv_app_nth)
qed

lemma copy2d_ok:
  assumes h: "heap_ok h" and r: "prep h n a ps xs"
  shows "\<exists>h' b ds. Copy2dBufferFromBuffer h (int (length xs)) (Some a) = Inr (h', b) \<and> heap_ok h' \<and>
    prep h' (length xs) b ds xs \<and> same_outside h {} h' (insert b (set ds))"
proof -
  let ?b = "c_brk h"
  obtain h1 where 1: "malloc h (BPtrs (replicate (length xs) None)) = (h1, ?b)" "heap_ok h1" "prep h1 (length xs) ?b [] []"
    "same_outside h {} h1 (insert ?b (set []))"
    using prep_new [OF h] by blast
  have r1: "prep h1 n a ps xs" "?b \<notin> insert a (set ps)" using prep_keep [OF 1(4) r] by auto
  obtain h2 ds where 2: "foldR (copy_line (Some a) ?b) h1 [0..<length xs] = Inr h2" "heap_ok h2" "prep h2 (length xs) ?b ds xs"
    "same_outside h1 {?b} h2 (insert ?b (set ds))"
    using copy_loop_prep [OF 1(2) r1(1) 1(3) r1(2) order_refl] by auto
  have "Copy2dBufferFromBuffer h (int (length xs)) (Some a) = Inr (h2, ?b)"
    by (simp add: Copy2dBufferFromBuffer_def 1(1) 2(1))
  moreover have "same_outside h {} h2 (insert ?b (set ds))"
    by (rule same_outside_trans [OF _ 2(4)]) (use 1(4) in simp)
  ultimately show ?thesis using 2 by blast
qed

lemma copy2d_second:
  "Copy2dBufferFromBuffer2 h rowc dest source = bindR (Copy2dBufferFromBuffer h rowc source) (\<lambda>(h, d). Inr (h, Some d))"
  by (simp add: Copy2dBufferFromBuffer2_def Copy2dBufferFromBuffer_def bindR_assoc split: prod.splits)

text \<open>The loop that frees two arrays of strings at once.\<close>

lemma free_both:
  assumes d: "prep h m b ds xs" and t: "prep h n a ts xs" and dj: "insert b (set ds) \<inter> insert a (set ts) = {}" and k: "k \<le> length xs"
  shows "foldR (\<lambda>h i. bindR (ptr_at h (Some b) i) (\<lambda>p. bindR (c_free h p) (\<lambda>h.
      bindR (ptr_at h (Some a) i) (\<lambda>q. c_free h q)))) h [0..<k] = Inr (h\<lparr>c_blk := c_blk h |` (- (set (take k ds) \<union> set (take k ts)))\<rparr>)"
  using k
proof (induction k)
  case 0
  then show ?case by (simp add: restrict_map_def)
next
  case (Suc k)
  let ?A = "set (take k ds) \<union> set (take k ts)"
  let ?h = "h\<lparr>c_blk := c_blk h |` (- ?A)\<rparr>"
  let ?h1 = "?h\<lparr>c_blk := (c_blk ?h)(ds ! k := None)\<rparr>"
  have l: "length ds = length xs" "length ts = length xs" "k < length xs" "distinct ds" "distinct ts"
    using d t Suc.prems by (auto simp: prep_def)
  have tk: "take (Suc k) ds = take k ds @ [ds ! k]" "take (Suc k) ts = take k ts @ [ts ! k]"
    using l by (simp_all add: take_Suc_conv_app_nth)
  have m: "ds ! k \<in> set ds" "ts ! k \<in> set ts" using l by simp_all
  have nk: "ds ! k \<notin> set (take k ds)" "ts ! k \<notin> set (take k ts)"
    using l distinct_take [of ds "Suc k"] distinct_take [of ts "Suc k"] unfolding tk by simp_all
  have na: "b \<notin> set ds" "a \<notin> set ts" using d t by (simp_all add: prep_def)
  have dj': "\<And>x. x \<in> set ds \<Longrightarrow> x \<notin> set ts" "b \<notin> set ts" "a \<notin> set ds" using dj by auto
  have n: "ds ! k \<notin> ?A" "ts ! k \<notin> ?A" "b \<notin> ?A" "a \<notin> ?A" "a \<noteq> ds ! k" "ds ! k \<noteq> ts ! k"
    using m nk na dj' by (auto dest: in_set_takeD)
  have c: "c_blk h b = Some (BPtrs (map Some ds @ replicate (m - length ds) None))"
    "c_blk h a = Some (BPtrs (map Some ts @ replicate (n - length ts) None))"
    "c_blk h (ds ! k) = Some (BStr (xs ! k))" "c_blk h (ts ! k) = Some (BStr (xs ! k))"
    using d t l by (simp_all add: prep_def)
  have 1: "ptr_at ?h (Some b) k = Inr (Some (ds ! k))"
    using c(1) n(3) l by (simp add: ptr_at_def get_ptrs_def deref_def restrict_map_def nth_append)
  have 2: "c_free ?h (Some (ds ! k)) = Inr ?h1"
    using c(3) n(1) by (simp add: c_free_def restrict_map_def)
  have 3: "ptr_at ?h1 (Some a) k = Inr (Some (ts ! k))"
    using c(2) n(4,5) l by (simp add: ptr_at_def get_ptrs_def deref_def restrict_map_def nth_append)
  have 4: "c_free ?h1 (Some (ts ! k)) = Inr (?h1\<lparr>c_blk := (c_blk ?h1)(ts ! k := None)\<rparr>)"
    using c(4) n(2,6) by (simp add: c_free_def restrict_map_def)
  have "(c_blk ?h1)(ts ! k := None) = c_blk h |` (- (set (take (Suc k) ds) \<union> set (take (Suc k) ts)))"
    unfolding tk by (intro ext) (simp add: restrict_map_def)
  then have 5: "?h1\<lparr>c_blk := (c_blk ?h1)(ts ! k := None)\<rparr> = h\<lparr>c_blk := c_blk h |` (- (set (take (Suc k) ds) \<union> set (take (Suc k) ts)))\<rparr>"
    by simp
  have "k \<le> length xs" using Suc.prems by simp
  note IH = Suc.IH [OF this]
  have u: "[0..<Suc k] = [0..<k] @ [k]" by simp
  show ?case
    unfolding u foldR_append IH bindR_Inr foldR.simps 1 2 3 4 5 ..
qed

lemma free_both_ok:
  assumes h: "heap_ok h" and d: "prep h m b ds xs" and t: "prep h n a ts xs" and dj: "insert b (set ds) \<inter> insert a (set ts) = {}"
  shows "\<exists>h'. bindR (foldR (\<lambda>h i. bindR (ptr_at h (Some b) i) (\<lambda>p. bindR (c_free h p) (\<lambda>h.
        bindR (ptr_at h (Some a) i) (\<lambda>q. c_free h q)))) h [0..<length xs]) (\<lambda>h.
      bindR (c_free h (Some b)) (\<lambda>h. c_free h (Some a))) = Inr h' \<and>
    same_outside h (insert b (set ds) \<union> insert a (set ts)) h' {}"
proof -
  let ?h1 = "h\<lparr>c_blk := c_blk h |` (- (set ds \<union> set ts))\<rparr>"
  let ?h2 = "?h1\<lparr>c_blk := (c_blk ?h1)(b := None)\<rparr>"
  let ?h3 = "?h2\<lparr>c_blk := (c_blk ?h2)(a := None)\<rparr>"
  have ab: "a \<noteq> b" "a \<notin> set ds" "a \<notin> set ts" "b \<notin> set ds" "b \<notin> set ts" "length ds = length xs" "length ts = length xs"
    "c_blk h a \<noteq> None" "c_blk h b \<noteq> None"
    using d t dj by (auto simp: prep_def)
  have 1: "foldR (\<lambda>h i. bindR (ptr_at h (Some b) i) (\<lambda>p. bindR (c_free h p) (\<lambda>h.
        bindR (ptr_at h (Some a) i) (\<lambda>q. c_free h q)))) h [0..<length xs] = Inr ?h1"
    using free_both [OF d t dj order_refl] ab(6,7) by simp
  have 2: "c_free ?h1 (Some b) = Inr ?h2" using ab by (simp add: c_free_def restrict_map_def)
  have 3: "c_free ?h2 (Some a) = Inr ?h3" using ab by (simp add: c_free_def restrict_map_def)
  have "same_outside h (insert b (set ds) \<union> insert a (set ts)) ?h3 {}"
    by (intro same_outsideI) (auto simp: restrict_map_def)
  then show ?thesis unfolding 1 2 3 bindR_Inr by blast
qed

lemma print_buffer_ok:
  assumes h: "heap_ok h" and s: "nul \<notin> set s" and n: "length (tokens nl s) \<le> MAX_ROW_NUM"
  shows "\<exists>h'. Print2dBufferFromBuffer h (s @ nul # z) = Inr (h', count_list s nl, tokens nl s, tokens nl s) \<and> c_blk h' = c_blk h"
proof -
  let ?a = "c_brk h" and ?T = "tokens nl s"
  obtain h1 where 1: "malloc h (BPtrs (replicate MAX_ROW_NUM None)) = (h1, ?a)" "heap_ok h1" "prep h1 MAX_ROW_NUM ?a [] []"
    "same_outside h {} h1 (insert ?a (set []))"
    using prep_new [OF h] by blast
  obtain h2 ts where 2: "store_tokens ?a h1 0 (s @ nul # z) = Inr (h2, length ?T)" "heap_ok h2"
    "prep h2 MAX_ROW_NUM ?a ts ?T" "same_outside h1 (insert ?a (set [])) h2 (insert ?a (set ts))"
    using store_tokens_ok [OF s 1(2,3), of z] n by auto
  obtain h3 b ds where 3: "Copy2dBufferFromBuffer h2 (int (length ?T)) (Some ?a) = Inr (h3, b)" "heap_ok h3"
    "prep h3 (length ?T) b ds ?T" "same_outside h2 {} h3 (insert b (set ds))"
    using copy2d_ok [OF 2(2,3)] by blast
  obtain h4 where 4: "free_lines h3 (Some b) (int (length ?T)) = Inr h4" "heap_ok h4" "same_outside h3 (insert b (set ds)) h4 {}"
    using prep_free [OF 3(2,3)] by blast
  have s24: "same_outside h2 {} h4 {}" by (rule same_outside_trans [OF 3(4) 4(3)])
  have t4: "prep h4 MAX_ROW_NUM ?a ts ?T" using prep_keep(1) [OF s24 2(3)] by simp
  obtain h5 c es where 5: "Copy2dBufferFromBuffer h4 (int (length ?T)) (Some ?a) = Inr (h5, c)" "heap_ok h5"
    "prep h5 (length ?T) c es ?T" "same_outside h4 {} h5 (insert c (set es))"
    using copy2d_ok [OF 4(2) t4] by blast
  have t5: "prep h5 MAX_ROW_NUM ?a ts ?T" and dj: "insert ?a (set ts) \<inter> insert c (set es) = {}"
    using prep_keep [OF 5(4) t4] by simp_all
  have dj': "insert c (set es) \<inter> insert ?a (set ts) = {}" using dj by blast
  obtain h6 where 6: "bindR (foldR (\<lambda>h i. bindR (ptr_at h (Some c) i) (\<lambda>p. bindR (c_free h p) (\<lambda>h.
        bindR (ptr_at h (Some ?a) i) (\<lambda>q. c_free h q)))) h5 [0..<length ?T]) (\<lambda>h.
      bindR (c_free h (Some c)) (\<lambda>h. c_free h (Some ?a))) = Inr h6"
    "same_outside h5 (insert c (set es) \<union> insert ?a (set ts)) h6 {}"
    using free_both_ok [OF 5(2,3) t5 dj'] by blast
  have e: "Print2dBufferFromBuffer h (s @ nul # z) = bindR (bindR (foldR (\<lambda>h i. bindR (ptr_at h (Some c) i) (\<lambda>p. bindR (c_free h p) (\<lambda>h.
        bindR (ptr_at h (Some ?a) i) (\<lambda>q. c_free h q)))) h5 [0..<length ?T]) (\<lambda>h.
      bindR (c_free h (Some c)) (\<lambda>h. c_free h (Some ?a)))) (\<lambda>h. Inr (h, count_list s nl, ?T, ?T))"
    by (simp add: Print2dBufferFromBuffer_def row_num_proper [OF s] 1(1) 2(1) 3(1) prep_read [OF 3(3)] 4(1) copy2d_second 5(1)
        prep_read [OF 5(3)] bindR_assoc)
  have "same_outside h2 (insert ?a (set ts)) h5 (insert c (set es) \<union> insert ?a (set ts))"
    using same_outside_frame [OF same_outside_trans [OF s24 5(4)], of "insert ?a (set ts)"] by (simp only: Un_empty_left)
  then have "same_outside h {} h6 {}"
    by (rule same_outside_trans [OF same_outside_trans [OF 1(4) 2(4)] same_outside_trans [OF _ 6(2)]])
  then have "c_blk h6 = c_blk h" by (rule same_outside_empty)
  then show ?thesis unfolding e 6(1) bindR_Inr by blast
qed

lemma print_buffer_over:
  assumes h: "heap_ok h" and s: "nul \<notin> set s" and n: "MAX_ROW_NUM < length (tokens nl s)"
  shows "Print2dBufferFromBuffer h (s @ nul # z) = Inl OutOfBounds"
proof -
  let ?a = "c_brk h"
  obtain h1 where 1: "malloc h (BPtrs (replicate MAX_ROW_NUM None)) = (h1, ?a)" "heap_ok h1" "prep h1 MAX_ROW_NUM ?a [] []"
    using prep_new [OF h] by blast
  have "store_tokens ?a h1 0 (s @ nul # z) = Inl OutOfBounds"
    using store_tokens_over [OF s 1(2,3), of z] n by simp
  then show ?thesis by (simp add: Print2dBufferFromBuffer_def row_num_proper [OF s] 1(1))
qed

lemma int_length_small: "n < 2 ^ 31 \<Longrightarrow> \<not> sint (word_of_nat n :: 32 word) < 0"
  by (simp add: sint_uint unsigned_of_nat signed_take_bit_int_eq_self take_bit_nat_eq_self)

section \<open>Properties\<close>

text \<open>
  The buffers of \<open>wc\<close> and \<open>cat\<close> are as long as the file and get no terminating null, so that on every file
  without a null byte both programs read past the end of the buffer. On a file with one, \<open>wc\<close> counts the lines
  and the words separated by blanks before the first, and \<open>cat\<close> prints that part.
\<close>

lemma wc_cat_overread:
  assumes f: "readable f" and n: "length (f_data f) < 2 ^ 31"
  shows "(nul \<notin> set (f_data f) \<longrightarrow>
      wc_main [prog, path] f = Inl OutOfBounds \<and> cat_main [prog, path] (\<lambda>_. f) = Inl OutOfBounds) \<and>
    (f_data f = s @ nul # z \<and> nul \<notin> set s \<longrightarrow>
      wc_main [prog, path] f = Inr (0, Some \<lparr>byte_count = word_of_nat (length (f_data f)),
        line_count = word_of_nat (Suc (count_list s nl)), word_count = word_of_nat (length (tokens CHR '' '' s))\<rparr>) \<and>
      cat_main [prog, path] (\<lambda>_. f) = Inr (0, s))"
proof -
  have sp: "CHR '' '' \<noteq> nul" by (simp add: nul_def)
  have w: "WC_get_buff_from_file_path f = (sint (word_of_nat (length (f_data f)) :: 32 word), Some (f_data f), length (f_data f))"
    "BITCAT_GetFileIntoBuffer f = (sint (word_of_nat (length (f_data f)) :: 32 word), Some (f_data f))"
    using f by (simp_all add: readable_def WC_get_buff_from_file_path_def BITCAT_GetFileIntoBuffer_def)
  note i = int_length_small [OF n]
  have c: "cat_main [prog, path] (\<lambda>_. f) = bindR (c_string (f_data f)) (\<lambda>out. Inr (0, out))"
    using i by (simp add: cat_main_def BITCAT_FlagParser_def w BITCAT_PrintBuffer_def)
  have m: "wc_main [prog, path] f = bindR (sep_count 0 (Some (f_data f))) (\<lambda>lc. bindR (tok_count CHR '' '' 0 (f_data f))
     (\<lambda>wc. Inr (0, Some \<lparr>byte_count = word_of_nat (length (f_data f)), line_count = lc, word_count = wc\<rparr>)))"
    using i by (simp add: wc_main_def WC_default_summary_def w WC_count_line_from_buff_def WC_count_word_from_buff_def bindR_assoc)
  have s: "takeWhile (\<lambda>c. c \<noteq> nul) (s @ nul # z) = s" if "nul \<notin> set s"
    using that by (induction s) auto
  show ?thesis
    unfolding c m using sp s
    by (auto simp: sep_count_over sep_count_proper tok_count_proper c_string_def length_split_on)
qed

theorem wc_cat_witness:
  "wc_main [''wc'', ''f''] \<lparr>f_open = True, f_seek_end = True, f_tell = True, f_seek_set = True, f_err = False, f_data = ''a b''\<rparr> =
     Inl OutOfBounds"
  using wc_cat_overread [of "\<lparr>f_open = True, f_seek_end = True, f_tell = True, f_seek_set = True, f_err = False, f_data = ''a b''\<rparr>"
      "''wc''" "''f''"]
  by (simp add: readable_def nul_def)

text \<open>
  C39. \<open>StreamTo2dInterface\<close> prints the lines of the file that are not empty and frees everything, as long as the
  file leaves two bytes of its buffer of 1 MiB; a longer file overflows the buffer.
\<close>

theorem stream_lines:
  assumes h: "heap_ok h" and f: "readable f" and s: "nul \<notin> set (f_data f)"
  shows "(length (f_data f) + 2 \<le> MAX_STREAM_LEN \<longrightarrow>
      (\<exists>h'. StreamTo2dInterface h f = Inr (True, h', tokens nl (f_data f)) \<and> c_blk h' = c_blk h)) \<and>
    (MAX_STREAM_LEN < length (f_data f) + 2 \<longrightarrow> StreamTo2dInterface h f = Inl OutOfBounds)"
proof (intro conjI impI)
  let ?n = "length (f_data f)"
  assume l: "?n + 2 \<le> MAX_STREAM_LEN"
  then obtain k where k: "MAX_STREAM_LEN = ?n + Suc (Suc k)" by (metis add_2_eq_Suc' add_Suc_right le_iff_add add_Suc)
  have src: "(f_data f @ replicate (Suc (Suc k)) nul)[?n := nl, ?n + 1 := nul] = (f_data f @ [nl]) @ nul # replicate k nul"
    by (simp add: list_update_append)
  have ns: "nul \<notin> set (f_data f @ [nl])" using s by simp
  have "length (tokens nl (f_data f @ [nl])) \<le> count_list (f_data f @ [nl]) nl"
    using length_tokens_nl [of nl "f_data f"] by simp
  from print_stream_ok [OF h ns this, of "replicate k nul"] obtain h' where
    "Print2dBufferFromStream h ((f_data f @ [nl]) @ nul # replicate k nul) = Inr (h', tokens nl (f_data f))" "c_blk h' = c_blk h"
    unfolding tokens_app_delim by blast
  note pr = this
  have z: "f_data f @ drop ?n (replicate MAX_STREAM_LEN nul) = f_data f @ replicate (Suc (Suc k)) nul"
    unfolding k drop_replicate by (simp del: replicate_Suc)
  have "StreamTo2dInterface h f = bindR (Print2dBufferFromStream h ((f_data f @ [nl]) @ nul # replicate k nul))
      (\<lambda>(h, out). Inr (True, h, out))"
    using f l unfolding src [symmetric] StreamTo2dInterface_def Let_def z
    by (simp add: readable_def k del: replicate_Suc)
  with pr show "\<exists>h'. StreamTo2dInterface h f = Inr (True, h', tokens nl (f_data f)) \<and> c_blk h' = c_blk h" by simp
next
  assume "MAX_STREAM_LEN < length (f_data f) + 2"
  then show "StreamTo2dInterface h f = Inl OutOfBounds"
    using f by (cases "length (f_data f) = MAX_STREAM_LEN")
      (auto simp: StreamTo2dInterface_def readable_def Let_def arr_set_def)
qed

theorem stream_lines_witness:
  "\<exists>h'. StreamTo2dInterface empty_heap
     \<lparr>f_open = True, f_seek_end = True, f_tell = True, f_seek_set = True, f_err = False, f_data = ''ab''\<rparr> = Inr (True, h', [''ab''])"
proof -
  have t: "tokens nl ''ab'' = [''ab'']" by code_simp
  show ?thesis
    using stream_lines [OF empty_heap_ok, of "\<lparr>f_open = True, f_seek_end = True, f_tell = True, f_seek_set = True, f_err = False, f_data = ''ab''\<rparr>"]
    by (auto simp: readable_def nul_def MAX_STREAM_LEN_def t)
qed

text \<open>
  \<open>Print2dBufferFromBuffer\<close> prints both copies of the lines, which are equal to the originals, and frees everything;
  its array has room for 128 lines and is overrun by a text that has more.
\<close>

lemma buffer_rows:
  assumes "heap_ok h" and "nul \<notin> set s"
  shows "(length (tokens nl s) \<le> MAX_ROW_NUM \<longrightarrow>
      (\<exists>h'. Print2dBufferFromBuffer h (s @ nul # z) = Inr (h', count_list s nl, tokens nl s, tokens nl s) \<and> c_blk h' = c_blk h)) \<and>
    (MAX_ROW_NUM < length (tokens nl s) \<longrightarrow> Print2dBufferFromBuffer h (s @ nul # z) = Inl OutOfBounds)"
  using print_buffer_ok [OF assms] print_buffer_over [OF assms] by blast

theorem buffer_rows_witness:
  "\<exists>h'. Print2dBufferFromBuffer empty_heap (''ab'' @ [nul]) = Inr (h', 0, [''ab''], [''ab''])"
proof -
  have "tokens nl ''ab'' = [''ab'']" by code_simp
  with buffer_rows [OF empty_heap_ok, of "''ab''" "[]"] show ?thesis
    by (auto simp: nul_def nl_def MAX_ROW_NUM_def)
qed

end
