(* ===== verification/Packet.thy ===== *)
theory Packet
  imports Prelude
begin

text \<open>
  Packets as the XDP programs see them: the bytes between \<open>data\<close> and \<open>data_end\<close>. Pointers into the packet are
  offsets, and every load and store is checked against the end, so that an access the code did not guard is a
  fault. Loads of more than one byte are little-endian, as on the machines the programs run on; \<open>bpf_htons\<close> swaps the
  bytes of a 16-bit number. The headers \<open>parsing_helpers.h\<close> and \<open>rewrite_helpers.h\<close> of \<open>dev-net-ebpf-xdp/kernel\<close>.
\<close>

section \<open>Loads and stores\<close>

definition get16 :: "bytes \<Rightarrow> nat \<Rightarrow> u16 res" where
  "get16 p i = bindR (arr_get p i) (\<lambda>lo. bindR (arr_get p (i + 1)) (\<lambda>hi. Inr (ucast lo OR push_bit 8 (ucast hi))))"

definition put16 :: "bytes \<Rightarrow> nat \<Rightarrow> u16 \<Rightarrow> bytes res" where
  "put16 p i x = bindR (arr_set p i (ucast x)) (\<lambda>p. arr_set p (i + 1) (ucast (drop_bit 8 x)))"

text \<open>\<open>n\<close> bytes from an offset on, and \<open>memcpy\<close> to an offset.\<close>

definition get_bytes :: "bytes \<Rightarrow> nat \<Rightarrow> nat \<Rightarrow> bytes res" where
  "get_bytes p i n = (if i + n \<le> length p then Inr (take n (drop i p)) else Inl OutOfBounds)"

definition put_bytes :: "bytes \<Rightarrow> nat \<Rightarrow> bytes \<Rightarrow> bytes res" where
  "put_bytes p i bs = (if i + length bs \<le> length p then Inr (take i p @ bs @ drop (i + length bs) p) else Inl OutOfBounds)"

definition bpf_htons :: "u16 \<Rightarrow> u16" where
  "bpf_htons x = push_bit 8 x OR drop_bit 8 x"

abbreviation bpf_ntohs :: "u16 \<Rightarrow> u16" where
  "bpf_ntohs \<equiv> bpf_htons"

section \<open>Constants and header sizes\<close>

definition ETH_P_IP :: u16 where "ETH_P_IP = 0x0800"
definition ETH_P_8021Q :: u16 where "ETH_P_8021Q = 0x8100"
definition ETH_P_8021AD :: u16 where "ETH_P_8021AD = 0x88A8"
definition ETH_P_IPV6 :: u16 where "ETH_P_IPV6 = 0x86DD"

definition IPPROTO_ICMP :: u8 where "IPPROTO_ICMP = 1"
definition IPPROTO_TCP :: u8 where "IPPROTO_TCP = 6"
definition IPPROTO_UDP :: u8 where "IPPROTO_UDP = 17"

abbreviation ETH_HLEN :: nat where "ETH_HLEN \<equiv> 14"
abbreviation VLAN_HLEN :: nat where "VLAN_HLEN \<equiv> 4"
abbreviation IP_HLEN :: nat where "IP_HLEN \<equiv> 20"
abbreviation IP6_HLEN :: nat where "IP6_HLEN \<equiv> 40"
abbreviation UDP_HLEN :: nat where "UDP_HLEN \<equiv> 8"
abbreviation TCP_HLEN :: nat where "TCP_HLEN \<equiv> 20"
abbreviation ICMP_HLEN :: nat where "ICMP_HLEN \<equiv> 8"

section \<open>\<open>parsing_helpers.h\<close>\<close>

record hdr_cursor =
  pos :: nat

definition VLAN_MAX_DEPTH :: nat where
  "VLAN_MAX_DEPTH = 2"

definition VLAN_VID_MASK :: u16 where
  "VLAN_VID_MASK = 0x0fff"

definition proto_is_vlan :: "u16 \<Rightarrow> bool" where
  "proto_is_vlan h_proto \<longleftrightarrow> h_proto = bpf_htons ETH_P_8021Q \<or> h_proto = bpf_htons ETH_P_8021AD"

text \<open>The loop over the VLAN tags, for \<open>n\<close> more rounds: the tag at \<open>vlh\<close> has the TCI and then the encapsulated
  protocol. The result is the protocol, the position after the tags and the ids collected.\<close>

fun vlan_loop :: "nat \<Rightarrow> bytes \<Rightarrow> u16 \<Rightarrow> nat \<Rightarrow> u16 list \<Rightarrow> (u16 \<times> nat \<times> u16 list) res" where
  "vlan_loop 0 p h_proto vlh ids = Inr (h_proto, vlh, ids)"
| "vlan_loop (Suc n) p h_proto vlh ids =
     (if \<not> proto_is_vlan h_proto then Inr (h_proto, vlh, ids)
      else if vlh + VLAN_HLEN > length p then Inr (h_proto, vlh, ids)
      else bindR (get16 p (vlh + 2)) (\<lambda>h_proto. bindR (get16 p vlh) (\<lambda>tci.
        vlan_loop n p h_proto (vlh + VLAN_HLEN) (ids @ [bpf_ntohs tci AND VLAN_VID_MASK]))))"

text \<open>The parsers return the value of the C function, the cursor, and the header if the pointer was set.\<close>

definition parse_ethhdr_vlan :: "bytes \<Rightarrow> hdr_cursor \<Rightarrow> (int \<times> hdr_cursor \<times> nat option \<times> u16 list) res" where
  "parse_ethhdr_vlan p nh =
     (if pos nh + ETH_HLEN > length p then Inr (-1, nh, None, [])
      else bindR (get16 p (pos nh + 12)) (\<lambda>h_proto.
        bindR (vlan_loop VLAN_MAX_DEPTH p h_proto (pos nh + ETH_HLEN) []) (\<lambda>(h_proto, vlh, ids).
        Inr (uint h_proto, nh\<lparr>pos := vlh\<rparr>, Some (pos nh), ids))))"

definition parse_ethhdr :: "bytes \<Rightarrow> hdr_cursor \<Rightarrow> (int \<times> hdr_cursor \<times> nat option) res" where
  "parse_ethhdr p nh = bindR (parse_ethhdr_vlan p nh) (\<lambda>(r, nh, eth, _). Inr (r, nh, eth))"

definition parse_ip6hdr :: "bytes \<Rightarrow> hdr_cursor \<Rightarrow> (int \<times> hdr_cursor \<times> nat option) res" where
  "parse_ip6hdr p nh =
     (if pos nh + IP6_HLEN > length p then Inr (-1, nh, None)
      else bindR (arr_get p (pos nh + 6)) (\<lambda>nexthdr. Inr (uint nexthdr, nh\<lparr>pos := pos nh + IP6_HLEN\<rparr>, Some (pos nh))))"

definition parse_iphdr :: "bytes \<Rightarrow> hdr_cursor \<Rightarrow> (int \<times> hdr_cursor \<times> nat option) res" where
  "parse_iphdr p nh =
     (if pos nh + IP_HLEN > length p then Inr (-1, nh, None)
      else bindR (arr_get p (pos nh)) (\<lambda>b. let hdrsize = unat (b AND 0x0F) * 4 in
        if hdrsize < IP_HLEN then Inr (-1, nh, None)
        else if pos nh + hdrsize > length p then Inr (-1, nh, None)
        else bindR (arr_get p (pos nh + 9)) (\<lambda>protocol. Inr (uint protocol, nh\<lparr>pos := pos nh + hdrsize\<rparr>, Some (pos nh)))))"

definition parse_icmp6hdr :: "bytes \<Rightarrow> hdr_cursor \<Rightarrow> (int \<times> hdr_cursor \<times> nat option) res" where
  "parse_icmp6hdr p nh =
     (if pos nh + ICMP_HLEN > length p then Inr (-1, nh, None)
      else bindR (arr_get p (pos nh)) (\<lambda>t. Inr (uint t, nh\<lparr>pos := pos nh + ICMP_HLEN\<rparr>, Some (pos nh))))"

definition parse_icmphdr :: "bytes \<Rightarrow> hdr_cursor \<Rightarrow> (int \<times> hdr_cursor \<times> nat option) res" where
  "parse_icmphdr p nh =
     (if pos nh + ICMP_HLEN > length p then Inr (-1, nh, None)
      else bindR (arr_get p (pos nh)) (\<lambda>t. Inr (uint t, nh\<lparr>pos := pos nh + ICMP_HLEN\<rparr>, Some (pos nh))))"

definition parse_icmphdr_common :: "bytes \<Rightarrow> hdr_cursor \<Rightarrow> (int \<times> hdr_cursor \<times> nat option) res" where
  "parse_icmphdr_common p nh =
     (if pos nh + 4 > length p then Inr (-1, nh, None)
      else bindR (arr_get p (pos nh)) (\<lambda>t. Inr (uint t, nh\<lparr>pos := pos nh + 4\<rparr>, Some (pos nh))))"

text \<open>When the length field is too small the cursor and the header have been set already.\<close>

definition parse_udphdr :: "bytes \<Rightarrow> hdr_cursor \<Rightarrow> (int \<times> hdr_cursor \<times> nat option) res" where
  "parse_udphdr p nh =
     (if pos nh + UDP_HLEN > length p then Inr (-1, nh, None)
      else bindR (get16 p (pos nh + 4)) (\<lambda>l. let len = uint (bpf_ntohs l) - int UDP_HLEN in
        Inr (if len < 0 then -1 else len, nh\<lparr>pos := pos nh + UDP_HLEN\<rparr>, Some (pos nh))))"

definition parse_tcphdr :: "bytes \<Rightarrow> hdr_cursor \<Rightarrow> (int \<times> hdr_cursor \<times> nat option) res" where
  "parse_tcphdr p nh =
     (if pos nh + TCP_HLEN > length p then Inr (-1, nh, None)
      else bindR (arr_get p (pos nh + 12)) (\<lambda>b. let len = unat (drop_bit 4 b) * 4 in
        if len < TCP_HLEN then Inr (-1, nh, None)
        else if pos nh + len > length p then Inr (-1, nh, None)
        else Inr (int len, nh\<lparr>pos := pos nh + len\<rparr>, Some (pos nh))))"

section \<open>\<open>rewrite_helpers.h\<close>\<close>

text \<open>\<open>adjust\<close> stands for \<open>bpf_xdp_adjust_head\<close>: the packet after the head was moved by some bytes, or \<open>None\<close> when the
  helper refuses. What the helper documents is \<open>adjust_head\<close>: a positive amount cuts bytes off, a negative one adds room
  whose content is unspecified.\<close>

definition adjust_head :: "(bytes \<Rightarrow> int \<Rightarrow> bytes option) \<Rightarrow> bool" where
  "adjust_head adjust \<longleftrightarrow>
     (\<forall>p d q. 0 \<le> d \<and> adjust p d = Some q \<longrightarrow> q = drop (nat d) p) \<and>
     (\<forall>p d q. d < 0 \<and> adjust p d = Some q \<longrightarrow> (\<exists>r. length r = nat (- d) \<and> q = r @ p))"

definition vlan_tag_pop :: "(bytes \<Rightarrow> int \<Rightarrow> bytes option) \<Rightarrow> bytes \<Rightarrow> nat \<Rightarrow> (int \<times> bytes) res" where
  "vlan_tag_pop adjust p eth =
     bindR (get16 p (eth + 12)) (\<lambda>eth_proto.
     if \<not> proto_is_vlan eth_proto then Inr (-1, p)
     else let vlh = eth + ETH_HLEN in
     if vlh + VLAN_HLEN > length p then Inr (-1, p)
     else bindR (get16 p vlh) (\<lambda>tci. bindR (get16 p (vlh + 2)) (\<lambda>h_proto.
       bindR (get_bytes p eth ETH_HLEN) (\<lambda>eth_cpy.
       case adjust p (int VLAN_HLEN) of None \<Rightarrow> Inr (-1, p)
       | Some p \<Rightarrow>
         if ETH_HLEN > length p then Inr (-1, p)
         else bindR (put_bytes p 0 eth_cpy) (\<lambda>p. bindR (put16 p 12 h_proto) (\<lambda>p.
           Inr (uint (bpf_ntohs tci), p)))))))"

definition vlan_tag_push :: "(bytes \<Rightarrow> int \<Rightarrow> bytes option) \<Rightarrow> bytes \<Rightarrow> nat \<Rightarrow> int \<Rightarrow> (int \<times> bytes) res" where
  "vlan_tag_push adjust p eth vlid =
     bindR (get_bytes p eth ETH_HLEN) (\<lambda>eth_cpy.
     case adjust p (- int VLAN_HLEN) of None \<Rightarrow> Inr (-1, p)
     | Some p \<Rightarrow>
       if ETH_HLEN > length p then Inr (-1, p)
       else bindR (put_bytes p 0 eth_cpy) (\<lambda>p.
         if ETH_HLEN + VLAN_HLEN > length p then Inr (-1, p)
         else bindR (put16 p ETH_HLEN (bpf_htons (word_of_int vlid))) (\<lambda>p.
           bindR (get16 p 12) (\<lambda>h_proto. bindR (put16 p (ETH_HLEN + 2) h_proto) (\<lambda>p.
           bindR (put16 p 12 (bpf_htons ETH_P_8021Q)) (\<lambda>p. Inr (0, p)))))))"

text \<open>The swaps, on the header at an offset.\<close>

definition swap_at :: "nat \<Rightarrow> nat \<Rightarrow> nat \<Rightarrow> bytes \<Rightarrow> bytes res" where
  "swap_at a b n p = bindR (get_bytes p a n) (\<lambda>tmp. bindR (get_bytes p b n) (\<lambda>x.
     bindR (put_bytes p a x) (\<lambda>p. put_bytes p b tmp)))"

definition swap_src_dst_mac :: "bytes \<Rightarrow> nat \<Rightarrow> bytes res" where
  "swap_src_dst_mac p eth = swap_at (eth + 6) eth 6 p"

definition swap_src_dst_ipv6 :: "bytes \<Rightarrow> nat \<Rightarrow> bytes res" where
  "swap_src_dst_ipv6 p ip = swap_at (ip + 8) (ip + 24) 16 p"

definition swap_src_dst_ipv4 :: "bytes \<Rightarrow> nat \<Rightarrow> bytes res" where
  "swap_src_dst_ipv4 p ip = swap_at (ip + 12) (ip + 16) 4 p"

section \<open>Frames\<close>

text \<open>The bytes of a 16-bit number on the wire, and a frame with VLAN tags.\<close>

definition be16 :: "u16 \<Rightarrow> bytes" where
  "be16 x = [ucast (drop_bit 8 x), ucast x]"

fun eth_tags :: "(u16 \<times> u16) list \<Rightarrow> u16 \<Rightarrow> bytes" where
  "eth_tags [] proto = be16 proto"
| "eth_tags ((tpid, tci) # ts) proto = be16 tpid @ be16 tci @ eth_tags ts proto"

definition eth_frame :: "bytes \<Rightarrow> bytes \<Rightarrow> (u16 \<times> u16) list \<Rightarrow> u16 \<Rightarrow> bytes \<Rightarrow> bytes" where
  "eth_frame dst src tags proto payload = dst @ src @ eth_tags tags proto @ payload"

text \<open>The protocol field in front of the tags: the first tag's, or the payload's.\<close>

definition outer_proto :: "(u16 \<times> u16) list \<Rightarrow> u16 \<Rightarrow> u16" where
  "outer_proto tags proto = (case tags of [] \<Rightarrow> proto | (tpid, _) # _ \<Rightarrow> tpid)"

text \<open>The packet with a tag behind the addresses.\<close>

definition vlan_tagged :: "int \<Rightarrow> bytes \<Rightarrow> bytes" where
  "vlan_tagged vlid p = take 12 p @ be16 ETH_P_8021Q @ be16 (word_of_int vlid) @ drop 12 p"

text \<open>A parser stays inside the packet: it never faults, a negative result leaves the header unset or the cursor inside,
  and otherwise the header and the cursor behind it are inside.\<close>

definition stays_inside :: "bytes \<Rightarrow> nat \<Rightarrow> (int \<times> hdr_cursor \<times> nat option) res \<Rightarrow> bool" where
  "stays_inside p i r = (case r of Inl _ \<Rightarrow> False
     | Inr (v, nh, h) \<Rightarrow> (v = -1 \<and> h = None \<and> pos nh = i) \<or> (h = Some i \<and> i < pos nh \<and> pos nh \<le> length p))"

section \<open>Lemmas\<close>

lemma htons_htons [simp]: "bpf_htons (bpf_htons x) = x"
  by (rule bit_word_eqI) (auto simp: bpf_htons_def bit_simps dest: bit_imp_le_length)

lemma htons_inj [simp]: "bpf_htons x = bpf_htons y \<longleftrightarrow> x = y"
  by (metis htons_htons)

lemma wire16: "ucast (ucast (drop_bit 8 x) :: u8) OR push_bit 8 (ucast (ucast x :: u8)) = bpf_htons x" for x :: u16
  by (rule bit_word_eqI) (auto simp: bpf_htons_def bit_simps dest: bit_imp_le_length)

lemma length_be16 [simp]: "length (be16 x) = 2"
  by (simp add: be16_def)

lemma be16_htons: "be16 (bpf_htons x) = [ucast x, ucast (drop_bit 8 x)]"
proof -
  have "(ucast (drop_bit 8 (bpf_htons x)) :: u8) = ucast x" "(ucast (bpf_htons x) :: u8) = ucast (drop_bit 8 x)"
    by (rule bit_word_eqI; auto simp: bpf_htons_def bit_simps dest: bit_imp_le_length)+
  then show ?thesis by (simp add: be16_def)
qed

lemma be16_inj: "be16 x = be16 y \<longleftrightarrow> x = y"
proof
  assume "be16 x = be16 y"
  then have "bpf_htons x = bpf_htons y"
    unfolding wire16 [symmetric] by (simp add: be16_def)
  then show "x = y" by simp
qed simp

lemma get16_in: "i + 1 < length p \<Longrightarrow> get16 p i = Inr (ucast (p ! i) OR push_bit 8 (ucast (p ! (i + 1))))"
  by (simp add: get16_def)

lemma get16_ok [simp]: "is_ok (get16 p i) \<longleftrightarrow> i + 1 < length p"
  by (auto simp: get16_def arr_get_def is_ok_def bindR_def)

lemma get16_be16: "length xs = i \<Longrightarrow> get16 (xs @ be16 x @ ys) i = Inr (bpf_htons x)"
  by (simp add: get16_def be16_def nth_append wire16)

lemma put16_in: "i + 1 < length p \<Longrightarrow> put16 p i x = Inr (p[i := ucast x, i + 1 := ucast (drop_bit 8 x)])"
  by (simp add: put16_def)

lemma put16_ok [simp]: "is_ok (put16 p i x) \<longleftrightarrow> i + 1 < length p"
  by (auto simp: put16_def arr_set_def is_ok_def bindR_def)

lemma put16_be16: "length xs = i \<Longrightarrow> length old = 2 \<Longrightarrow> put16 (xs @ old @ ys) i (bpf_htons x) = Inr (xs @ be16 x @ ys)"
proof -
  assume l: "length xs = i" "length old = 2"
  then obtain a b where "old = [a, b]" by (metis (no_types) length_0_conv length_Suc_conv numeral_2_eq_2)
  moreover have "be16 x = [ucast (bpf_htons x), ucast (drop_bit 8 (bpf_htons x))]" using be16_htons [of "bpf_htons x"] by simp
  ultimately show ?thesis using l by (simp add: put16_def list_update_append)
qed

lemma get_bytes_ok [simp]: "is_ok (get_bytes p i n) \<longleftrightarrow> i + n \<le> length p"
  by (simp add: get_bytes_def)

lemma put_bytes_ok [simp]: "is_ok (put_bytes p i bs) \<longleftrightarrow> i + length bs \<le> length p"
  by (simp add: put_bytes_def)

lemma put_bytes_length: "put_bytes p i bs = Inr q \<Longrightarrow> length q = length p"
  by (auto simp: put_bytes_def split: if_splits)

lemma put16_length: "put16 p i x = Inr q \<Longrightarrow> length q = length p"
  by (auto simp: put16_def arr_set_def bindR_eq_Inr split: if_splits)

lemma get_bytes_length: "get_bytes p i n = Inr bs \<Longrightarrow> length bs = n"
  by (auto simp: get_bytes_def split: if_splits)

lemma arr_get_ok [simp]: "is_ok (arr_get p i) \<longleftrightarrow> i < length p"
  by (simp add: arr_get_def)

lemma eth_tags_outer: "\<exists>rest. eth_tags tags proto = be16 (outer_proto tags proto) @ rest"
  by (cases tags) (auto simp: outer_proto_def)

lemma length_eth_tags: "length (eth_tags tags proto) = 2 + 4 * length tags"
  by (induction tags proto rule: eth_tags.induct) simp_all

lemma vlan_loop_tags:
  assumes "\<forall>(tpid, tci) \<in> set tags. tpid \<in> {ETH_P_8021Q, ETH_P_8021AD}" "proto \<notin> {ETH_P_8021Q, ETH_P_8021AD}" "length tags \<le> n"
  shows "vlan_loop n (pre @ eth_tags tags proto @ payload) (bpf_htons (outer_proto tags proto)) (length pre + 2) ids =
    Inr (bpf_htons proto, length pre + 2 + 4 * length tags, ids @ map (\<lambda>(_, tci). tci AND VLAN_VID_MASK) tags)"
  using assms
proof (induction tags arbitrary: n pre ids)
  case Nil
  then show ?case by (cases n) (auto simp: outer_proto_def proto_is_vlan_def)
next
  case (Cons t ts)
  obtain tpid tci where t: "t = (tpid, tci)" by (cases t)
  obtain k where n: "n = Suc k" using Cons.prems(3) by (cases n) auto
  obtain rest where r: "eth_tags ts proto = be16 (outer_proto ts proto) @ rest" using eth_tags_outer by blast
  let ?p = "pre @ eth_tags (t # ts) proto @ payload" and ?pre = "pre @ be16 tpid @ be16 tci"
  have p: "?p = ?pre @ eth_tags ts proto @ payload" using t by simp
  have "get16 ?p (length pre + 2 + 2) = Inr (bpf_htons (outer_proto ts proto))"
    unfolding p r using get16_be16 [of ?pre] by simp
  moreover have "get16 ?p (length pre + 2) = Inr (bpf_htons tci)"
    using get16_be16 [of "pre @ be16 tpid" "length pre + 2" tci] t by simp
  moreover have "vlan_loop k ?p (bpf_htons (outer_proto ts proto)) (length ?pre + 2) (ids @ [tci AND VLAN_VID_MASK]) =
      Inr (bpf_htons proto, length ?pre + 2 + 4 * length ts, (ids @ [tci AND VLAN_VID_MASK]) @ map (\<lambda>(_, tci). tci AND VLAN_VID_MASK) ts)"
    unfolding p by (rule Cons.IH) (use Cons.prems n in auto)
  moreover have "outer_proto (t # ts) proto = tpid" "proto_is_vlan (bpf_htons tpid)"
    using Cons.prems(1) t by (auto simp: outer_proto_def proto_is_vlan_def)
  moreover have "length pre + 2 + 4 \<le> length ?p" using t length_eth_tags [of "t # ts" proto] by simp
  ultimately show ?case unfolding n using t by (simp add: add.assoc)
qed

lemma list14: "14 \<le> length (p :: 'a list) \<Longrightarrow> \<exists>a0 a1 a2 a3 a4 a5 a6 a7 a8 a9 a10 a11 a12 a13 t.
    p = [a0, a1, a2, a3, a4, a5, a6, a7, a8, a9, a10, a11, a12, a13] @ t"
  by (simp add: numeral_eq_Suc Suc_le_length_iff) blast

lemma vlan_loop_inside:
  assumes "vlh \<le> length p"
  shows "\<exists>proto vlh' ids'. vlan_loop n p h_proto vlh ids = Inr (proto, vlh', ids') \<and> vlh \<le> vlh' \<and> vlh' \<le> length p"
  using assms
proof (induction n arbitrary: h_proto vlh ids)
  case (Suc n)
  show ?case
  proof (cases "proto_is_vlan h_proto \<and> vlh + 4 \<le> length p")
    case True
    with Suc.IH [of "vlh + 4"] show ?thesis by (fastforce simp: get16_in)
  qed (use Suc.prems in auto)
qed simp

lemma parse_ethhdr_inside: "stays_inside p (pos nh) (parse_ethhdr p nh)"
proof (cases "pos nh + 14 \<le> length p")
  case True
  then obtain proto vlh ids where "vlan_loop VLAN_MAX_DEPTH p (ucast (p ! (pos nh + 12)) OR push_bit 8 (ucast (p ! (pos nh + 12 + 1)))) (pos nh + 14) [] =
      Inr (proto, vlh, ids)" "pos nh + 14 \<le> vlh" "vlh \<le> length p"
    using vlan_loop_inside by blast
  with True show ?thesis
    by (simp add: stays_inside_def parse_ethhdr_def parse_ethhdr_vlan_def get16_in)
qed (simp add: stays_inside_def parse_ethhdr_def parse_ethhdr_vlan_def)

lemma parse_l3_inside:
  "stays_inside p (pos nh) (parse_ip6hdr p nh)" "stays_inside p (pos nh) (parse_iphdr p nh)"
  by (auto simp: stays_inside_def parse_ip6hdr_def parse_iphdr_def Let_def)

lemma parse_l4_inside:
  "stays_inside p (pos nh) (parse_icmp6hdr p nh)" "stays_inside p (pos nh) (parse_icmphdr p nh)"
  "stays_inside p (pos nh) (parse_icmphdr_common p nh)" "stays_inside p (pos nh) (parse_udphdr p nh)"
  "stays_inside p (pos nh) (parse_tcphdr p nh)"
  by (auto simp: stays_inside_def parse_icmp6hdr_def parse_icmphdr_def parse_icmphdr_common_def parse_udphdr_def
      parse_tcphdr_def Let_def get16_in)

lemma push_shape:
  assumes a: "adjust_head adjust" and l: "14 \<le> length p" and q: "adjust p (-4) = Some q"
  shows "vlan_tag_push adjust p 0 vlid = Inr (0, take 12 p @ be16 ETH_P_8021Q @ be16 (word_of_int vlid) @ drop 12 p)"
proof -
  obtain r where r: "length r = 4" "q = r @ p" using a q unfolding adjust_head_def by force
  then obtain r0 r1 r2 r3 where r': "r = [r0, r1, r2, r3]"
    by (auto simp: numeral_eq_Suc length_Suc_conv)
  obtain a0 a1 a2 a3 a4 a5 a6 a7 a8 a9 a10 a11 a12 a13 t where
    p: "p = [a0, a1, a2, a3, a4, a5, a6, a7, a8, a9, a10, a11, a12, a13] @ t"
    using list14 [OF l] by blast
  have b: "bpf_htons x = y \<Longrightarrow> ucast y = (ucast (drop_bit 8 x) :: u8)" "bpf_htons x = y \<Longrightarrow> (ucast (drop_bit 8 y) :: u8) = ucast x" for x y
    using be16_htons [of x] by (auto simp: be16_def)
  have c: "(ucast (ucast x OR push_bit 8 (ucast y) :: u16) :: u8) = x" "(ucast (drop_bit 8 (ucast x) OR drop_bit 8 (push_bit 8 (ucast y)) :: u16) :: u8) = y" for x y :: u8
    by (rule bit_word_eqI; auto simp: bit_simps dest: bit_imp_le_length)+
  show ?thesis
    using q r(2) unfolding r' p
    by (simp add: vlan_tag_push_def get_bytes_def put_bytes_def put16_def get16_def be16_def b [OF refl] c)
qed

lemma pop_shape:
  assumes a: "adjust_head adjust" and l: "length h = 12" and q: "adjust (h @ be16 tpid @ be16 tci @ be16 proto @ t) 4 \<noteq> None"
    and v: "tpid = ETH_P_8021Q \<or> tpid = ETH_P_8021AD"
  shows "vlan_tag_pop adjust (h @ be16 tpid @ be16 tci @ be16 proto @ t) 0 = Inr (uint tci, h @ be16 proto @ t)"
proof -
  let ?p = "h @ be16 tpid @ be16 tci @ be16 proto @ t"
  have q': "adjust ?p 4 = Some (drop 4 ?p)"
    using a q unfolding adjust_head_def by (metis nat_numeral not_None_eq zero_le_numeral)
  have g: "get16 ?p 12 = Inr (bpf_htons tpid)" "get16 ?p 14 = Inr (bpf_htons tci)" "get16 ?p 16 = Inr (bpf_htons proto)"
    using l get16_be16 [of h 12 tpid] get16_be16 [of "h @ be16 tpid" 14 tci] get16_be16 [of "h @ be16 tpid @ be16 tci" 16 proto]
    by simp_all
  have c: "get_bytes ?p 0 14 = Inr (h @ be16 tpid)" using l by (simp add: get_bytes_def)
  have d: "length (drop 4 ?p) = 14 + length t" "drop 14 (drop 4 ?p) = t" using l by simp_all
  have w: "put_bytes (drop 4 ?p) 0 (h @ be16 tpid) = Inr (h @ be16 tpid @ t)"
    unfolding put_bytes_def using l d by simp
  have x: "put16 (h @ be16 tpid @ t) 12 (bpf_htons proto) = Inr (h @ be16 proto @ t)"
    using l by (intro put16_be16) simp_all
  have pv: "proto_is_vlan (bpf_htons tpid)" using v by (auto simp: proto_is_vlan_def)
  show ?thesis
    using l d(1) by (simp add: vlan_tag_pop_def g pv c q' w x Let_def del: drop_append)
qed

section \<open>Properties\<close>

text \<open>
  C16. Each parser reads only inside the packet, and when it succeeds its cursor stands inside the packet or at its
  end, behind the header it found; when it reports a truncated header it leaves the cursor where it was.
\<close>

theorem parsers_inside:
  "stays_inside p (pos nh) (parse_ethhdr p nh) \<and> stays_inside p (pos nh) (parse_iphdr p nh) \<and>
   stays_inside p (pos nh) (parse_ip6hdr p nh) \<and> stays_inside p (pos nh) (parse_icmphdr p nh) \<and>
   stays_inside p (pos nh) (parse_icmp6hdr p nh) \<and> stays_inside p (pos nh) (parse_icmphdr_common p nh) \<and>
   stays_inside p (pos nh) (parse_udphdr p nh) \<and> stays_inside p (pos nh) (parse_tcphdr p nh)"
  by (intro conjI parse_ethhdr_inside parse_l3_inside parse_l4_inside)





end
