(* ===== verification/Xdp.thy ===== *)
theory Xdp
  imports Packet
begin

text \<open>
  The XDP programs of \<open>dev-net-ebpf-xdp/kernel\<close>: functions from a packet to an action and the packet as the
  program leaves it. The kernel's helpers are arguments: \<open>fib\<close> is \<open>bpf_fib_lookup\<close>, \<open>redirect\<close> is \<open>bpf_redirect\<close> and
  \<open>redirect_map\<close> is \<open>bpf_redirect_map\<close> on the program's map with \<open>XDP_PASS\<close> as the fallback. The only fact used of them is that
  the MAC addresses a lookup fills in have six bytes.
\<close>

section \<open>Actions and helpers\<close>

datatype xdp_action = XDP_ABORTED | XDP_DROP | XDP_PASS | XDP_TX | XDP_REDIRECT

record xdp_md =
  pkt :: bytes
  ingress_ifindex :: u32
  rx_queue_index :: u32

record bpf_fib_lookup =
  family :: u8
  ipv4_src :: bytes
  ipv4_dst :: bytes
  fib_ifindex :: u32
  smac :: bytes
  dmac :: bytes

definition fib_macs :: "(bpf_fib_lookup \<Rightarrow> int \<times> bpf_fib_lookup) \<Rightarrow> bool" where
  "fib_macs fib \<longleftrightarrow> (\<forall>x rc y. fib x = (rc, y) \<longrightarrow> length (smac y) = 6 \<and> length (dmac y) = 6)"

definition BPF_FIB_LKUP_RET_SUCCESS :: int where "BPF_FIB_LKUP_RET_SUCCESS = 0"
definition BPF_FIB_LKUP_RET_NO_NEIGH :: int where "BPF_FIB_LKUP_RET_NO_NEIGH = 7"

text \<open>The lookup with the two addresses, and what the programs do with its result: an action, or the parameters.\<close>

definition route :: "(bpf_fib_lookup \<Rightarrow> int \<times> bpf_fib_lookup) \<Rightarrow> bytes \<Rightarrow> bytes \<Rightarrow> u32 \<Rightarrow> xdp_action + bpf_fib_lookup" where
  "route fib src dst ifindex =
     (case fib \<lparr>family = 2, ipv4_src = src, ipv4_dst = dst, fib_ifindex = ifindex, smac = replicate 6 0, dmac = replicate 6 0\<rparr> of
       (rc, fib_params) \<Rightarrow>
         if rc \<noteq> BPF_FIB_LKUP_RET_SUCCESS \<and> rc \<noteq> BPF_FIB_LKUP_RET_NO_NEIGH then Inl XDP_DROP
         else if rc = BPF_FIB_LKUP_RET_NO_NEIGH then Inl XDP_PASS
         else Inr fib_params)"

definition set_macs :: "bytes \<Rightarrow> bpf_fib_lookup \<Rightarrow> bytes res" where
  "set_macs p fib_params = bindR (put_bytes p 0 (dmac fib_params)) (\<lambda>p. put_bytes p 6 (smac fib_params))"

section \<open>\<open>_xsk_def_xdp_prog.c\<close> and \<open>xdp_redirect_xsk.c\<close>\<close>

definition xsk_def_prog ::
  "int \<Rightarrow> (bpf_fib_lookup \<Rightarrow> int \<times> bpf_fib_lookup) \<Rightarrow> (u32 \<Rightarrow> xdp_action) \<Rightarrow> xdp_md \<Rightarrow> (xdp_action \<times> bytes) res"
where
  "xsk_def_prog refcnt fib redirect_map ctx =
     (let p = pkt ctx in
      if refcnt = 0 then Inr (XDP_PASS, p)
      else if ETH_HLEN > length p then Inr (XDP_PASS, p)
      else bindR (get16 p 12) (\<lambda>h_proto.
        if bpf_htons h_proto \<noteq> 0x0800 then Inr (XDP_PASS, p)
        else if ETH_HLEN + IP_HLEN > length p then Inr (XDP_PASS, p)
        else bindR (get_bytes p (ETH_HLEN + 12) 4) (\<lambda>saddr. bindR (get_bytes p (ETH_HLEN + 16) 4) (\<lambda>daddr.
          case route fib saddr daddr (ingress_ifindex ctx) of Inl a \<Rightarrow> Inr (a, p)
          | Inr fib_params \<Rightarrow> bindR (set_macs p fib_params) (\<lambda>p. Inr (redirect_map (rx_queue_index ctx), p))))))"

text \<open>The branches of \<open>xdp_def_prog\<close> for the three protocols.\<close>

definition xsk_icmp ::
  "(bpf_fib_lookup \<Rightarrow> int \<times> bpf_fib_lookup) \<Rightarrow> (u32 \<Rightarrow> xdp_action) \<Rightarrow> xdp_md \<Rightarrow> (xdp_action \<times> bytes) res"
where
  "xsk_icmp fib redirect_map ctx = (let p = pkt ctx in
     bindR (get_bytes p (ETH_HLEN + 12) 4) (\<lambda>saddr. bindR (get_bytes p (ETH_HLEN + 16) 4) (\<lambda>daddr.
     case route fib saddr daddr (ingress_ifindex ctx) of Inl a \<Rightarrow> Inr (a, p)
     | Inr fib_params \<Rightarrow> bindR (set_macs p fib_params) (\<lambda>p. Inr (redirect_map (rx_queue_index ctx), p)))))"

definition xsk_tcp ::
  "(bpf_fib_lookup \<Rightarrow> int \<times> bpf_fib_lookup) \<Rightarrow> (u32 \<Rightarrow> xdp_action) \<Rightarrow> xdp_md \<Rightarrow> (xdp_action \<times> bytes) res"
where
  "xsk_tcp fib redirect_map ctx = (let p = pkt ctx in
     bindR (get_bytes p (ETH_HLEN + 12) 4) (\<lambda>saddr. bindR (get_bytes p (ETH_HLEN + 16) 4) (\<lambda>daddr.
     case route fib saddr daddr (ingress_ifindex ctx) of Inl a \<Rightarrow> Inr (a, p)
     | Inr fib_params \<Rightarrow> bindR (set_macs p fib_params) (\<lambda>p. Inr (redirect_map (rx_queue_index ctx), p)))))"

definition xsk_udp ::
  "(bpf_fib_lookup \<Rightarrow> int \<times> bpf_fib_lookup) \<Rightarrow> (u32 \<Rightarrow> xdp_action) \<Rightarrow> xdp_md \<Rightarrow> (xdp_action \<times> bytes) res"
where
  "xsk_udp fib redirect_map ctx = (let p = pkt ctx in
     bindR (get_bytes p (ETH_HLEN + 12) 4) (\<lambda>saddr. bindR (get_bytes p (ETH_HLEN + 16) 4) (\<lambda>daddr.
     case route fib saddr daddr (ingress_ifindex ctx) of Inl a \<Rightarrow> Inr (a, p)
     | Inr fib_params \<Rightarrow> bindR (set_macs p fib_params) (\<lambda>p. Inr (redirect_map (rx_queue_index ctx), p)))))"

definition xdp_def_prog ::
  "int \<Rightarrow> (bpf_fib_lookup \<Rightarrow> int \<times> bpf_fib_lookup) \<Rightarrow> (u32 \<Rightarrow> xdp_action) \<Rightarrow> xdp_md \<Rightarrow> (xdp_action \<times> bytes) res"
where
  "xdp_def_prog refcnt fib redirect_map ctx =
     (let p = pkt ctx; index = rx_queue_index ctx in
      if refcnt = 0 then Inr (XDP_PASS, p)
      else if ETH_HLEN > length p then Inr (XDP_PASS, p)
      else bindR (get16 p 12) (\<lambda>h_proto.
        if bpf_htons h_proto \<noteq> ETH_P_IP then Inr (XDP_PASS, p)
        else if ETH_HLEN + IP_HLEN > length p then Inr (XDP_PASS, p)
        else bindR (arr_get p (ETH_HLEN + 9)) (\<lambda>protocol.
          if protocol = IPPROTO_ICMP then xsk_icmp fib redirect_map ctx
          else if protocol = IPPROTO_TCP then xsk_tcp fib redirect_map ctx
          else if protocol = IPPROTO_UDP then xsk_udp fib redirect_map ctx
          else Inr (redirect_map index, p))))"

section \<open>\<open>xdp_redirect_dev.c\<close>\<close>

text \<open>An ICMP packet is sent back: the lookup swaps the addresses, and so does the packet.\<close>

definition sock2_icmp ::
  "(bpf_fib_lookup \<Rightarrow> int \<times> bpf_fib_lookup) \<Rightarrow> (u32 \<Rightarrow> xdp_action) \<Rightarrow> xdp_md \<Rightarrow> (xdp_action \<times> bytes) res"
where
  "sock2_icmp fib redirect ctx = (let p = pkt ctx in
     bindR (get_bytes p (ETH_HLEN + 16) 4) (\<lambda>daddr. bindR (get_bytes p (ETH_HLEN + 12) 4) (\<lambda>saddr.
     case route fib daddr saddr (ingress_ifindex ctx) of Inl a \<Rightarrow> Inr (a, p)
     | Inr fib_params \<Rightarrow>
       bindR (put_bytes p (ETH_HLEN + 16) saddr) (\<lambda>p. bindR (put_bytes p (ETH_HLEN + 12) daddr) (\<lambda>p.
       bindR (set_macs p fib_params) (\<lambda>p. Inr (redirect (fib_ifindex fib_params), p)))))))"

definition sock2_tcp ::
  "(bpf_fib_lookup \<Rightarrow> int \<times> bpf_fib_lookup) \<Rightarrow> (u32 \<Rightarrow> xdp_action) \<Rightarrow> xdp_md \<Rightarrow> (xdp_action \<times> bytes) res"
where
  "sock2_tcp fib redirect ctx = (let p = pkt ctx in
     if ETH_HLEN + IP_HLEN + TCP_HLEN > length p then Inr (XDP_PASS, p)
     else bindR (get_bytes p (ETH_HLEN + 12) 4) (\<lambda>saddr. bindR (get_bytes p (ETH_HLEN + 16) 4) (\<lambda>daddr.
       case route fib saddr daddr (ingress_ifindex ctx) of Inl a \<Rightarrow> Inr (a, p)
       | Inr fib_params \<Rightarrow> bindR (set_macs p fib_params) (\<lambda>p. Inr (redirect (fib_ifindex fib_params), p)))))"

definition sock2_udp ::
  "(bpf_fib_lookup \<Rightarrow> int \<times> bpf_fib_lookup) \<Rightarrow> (u32 \<Rightarrow> xdp_action) \<Rightarrow> xdp_md \<Rightarrow> (xdp_action \<times> bytes) res"
where
  "sock2_udp fib redirect ctx = (let p = pkt ctx in
     if ETH_HLEN + IP_HLEN + UDP_HLEN > length p then Inr (XDP_PASS, p)
     else bindR (get_bytes p (ETH_HLEN + 12) 4) (\<lambda>saddr. bindR (get_bytes p (ETH_HLEN + 16) 4) (\<lambda>daddr.
       case route fib saddr daddr (ingress_ifindex ctx) of Inl a \<Rightarrow> Inr (a, p)
       | Inr fib_params \<Rightarrow> bindR (set_macs p fib_params) (\<lambda>p. Inr (redirect (fib_ifindex fib_params), p)))))"

definition xdp_sock2_prog ::
  "(bpf_fib_lookup \<Rightarrow> int \<times> bpf_fib_lookup) \<Rightarrow> (u32 \<Rightarrow> xdp_action) \<Rightarrow> xdp_md \<Rightarrow> (xdp_action \<times> bytes) res"
where
  "xdp_sock2_prog fib redirect ctx =
     (let p = pkt ctx in
      if ETH_HLEN > length p then Inr (XDP_PASS, p)
      else bindR (get16 p 12) (\<lambda>h_proto.
        if h_proto \<noteq> 0x08 then Inr (XDP_PASS, p)
        else if ETH_HLEN + IP_HLEN > length p then Inr (XDP_PASS, p)
        else bindR (arr_get p (ETH_HLEN + 9)) (\<lambda>protocol.
          if protocol = IPPROTO_ICMP then sock2_icmp fib redirect ctx
          else if protocol = IPPROTO_TCP then sock2_tcp fib redirect ctx
          else if protocol = IPPROTO_UDP then sock2_udp fib redirect ctx
          else Inr (XDP_PASS, p))))"

section \<open>\<open>xdp_packet_block.c\<close>, \<open>xdp_map_allow.c\<close> and \<open>xdp_pass.c\<close>\<close>

text \<open>\<open>check += bpf_htons(1); if (!check) check += bpf_htons(1)\<close>, on the field as it is loaded.\<close>

definition bump_check :: "u16 \<Rightarrow> u16" where
  "bump_check check = (let c = check + bpf_htons 1 in if c = 0 then c + bpf_htons 1 else c)"

text \<open>The counter of the map \<open>rxcnt\<close>, if its slot can be looked up, is the last component.\<close>

definition xdp_block_port_func :: "xdp_md \<Rightarrow> u64 option \<Rightarrow> (xdp_action \<times> bytes \<times> u64 option) res" where
  "xdp_block_port_func ctx rxcnt =
     (let p = pkt ctx in
      bindR (parse_ethhdr p \<lparr>pos = 0\<rparr>) (\<lambda>(eth_type, nh, _).
      if eth_type < 0 then Inr (XDP_ABORTED, p, rxcnt)
      else if eth_type \<noteq> uint (bpf_htons ETH_P_IP) \<and> eth_type \<noteq> uint (bpf_htons ETH_P_IPV6) then Inr (XDP_PASS, p, rxcnt)
      else bindR (if eth_type = uint (bpf_htons ETH_P_IP) then parse_iphdr p nh else parse_ip6hdr p nh) (\<lambda>(ip_type, nh, _).
        if ip_type = uint IPPROTO_UDP then
          bindR (parse_udphdr p nh) (\<lambda>(len, nh, udphdr).
          if len < 0 then Inr (XDP_ABORTED, p, rxcnt)
          else let h = the udphdr in
            bindR (get16 p (h + 2)) (\<lambda>dest. bindR (put16 p (h + 2) (bpf_htons (bpf_ntohs dest - 1))) (\<lambda>p.
            bindR (get16 p (h + 6)) (\<lambda>check. bindR (put16 p (h + 6) (bump_check check)) (\<lambda>p.
            Inr (XDP_PASS, p, rxcnt))))))
        else if ip_type = uint IPPROTO_TCP then
          bindR (parse_tcphdr p nh) (\<lambda>(len, nh, tcphdr).
          if len < 0 then Inr (XDP_ABORTED, p, rxcnt)
          else let h = the tcphdr in
            bindR (get16 p (h + 2)) (\<lambda>dest. bindR (put16 p (h + 2) (bpf_ntohs dest)) (\<lambda>p.
            bindR (get16 p (h + 16)) (\<lambda>check. bindR (put16 p (h + 16) (bump_check check)) (\<lambda>p.
            bindR (get16 p (h + 2)) (\<lambda>dest.
            if dest = 9999 then Inr (XDP_DROP, p, map_option (\<lambda>v. v + 1) rxcnt)
            else bindR (put16 p (h + 2) (bpf_htons dest)) (\<lambda>p. Inr (XDP_PASS, p, rxcnt))))))))
        else Inr (XDP_PASS, p, rxcnt))))"

text \<open>The longest-prefix map \<open>allowed_addr\<close> is looked up with the key of prefix length 32 and address 0.\<close>

definition allowed_addr_prog :: "(u32 \<times> u32 \<Rightarrow> u32 option) \<Rightarrow> xdp_md \<Rightarrow> xdp_action res" where
  "allowed_addr_prog allowed_addr ctx =
     (let p = pkt ctx in
      if ETH_HLEN > length p then Inr XDP_DROP
      else bindR (get16 p 12) (\<lambda>h_proto.
        if bpf_htons h_proto \<noteq> ETH_P_IP then Inr XDP_PASS
        else if ETH_HLEN + IP_HLEN > length p then Inr XDP_DROP
        else (case allowed_addr (32, 0) of None \<Rightarrow> Inr XDP_DROP
          | Some v \<Rightarrow> let allow_port = (ucast v :: u16) in
            if allow_port = 0 then Inr XDP_DROP
            else bindR (arr_get p (ETH_HLEN + 9)) (\<lambda>protocol.
              if protocol = IPPROTO_UDP then
                if ETH_HLEN + IP_HLEN + UDP_HLEN > length p then Inr XDP_DROP
                else bindR (get16 p (ETH_HLEN + IP_HLEN + 2)) (\<lambda>dest.
                  if bpf_ntohs dest = allow_port then Inr XDP_PASS else Inr XDP_DROP)
              else Inr XDP_DROP))))"

definition xdp_pass_prog :: "xdp_md \<Rightarrow> xdp_action" where
  "xdp_pass_prog ctx = XDP_PASS"

section \<open>Headers on the wire\<close>

text \<open>An IPv4 header of any length, a TCP header and a UDP header in front of their payload, and the checksum field as
  the block program changes it, all in network byte order.\<close>

definition ip_header :: "bytes \<Rightarrow> u8 \<Rightarrow> bool" where
  "ip_header ip proto \<longleftrightarrow> IP_HLEN \<le> length ip \<and> length ip = 4 * unat (ip ! 0 AND 0x0F) \<and> ip ! 9 = proto"

definition tcp_segment :: "u16 \<Rightarrow> u16 \<Rightarrow> bytes \<Rightarrow> u16 \<Rightarrow> bytes \<Rightarrow> bytes" where
  "tcp_segment sport dport mid check r = be16 sport @ be16 dport @ mid @ be16 check @ r"

definition tcp_sized :: "bytes \<Rightarrow> bytes \<Rightarrow> bool" where
  "tcp_sized mid r \<longleftrightarrow> length mid = 12 \<and> 5 \<le> unat (drop_bit 4 (mid ! 8)) \<and> 4 * unat (drop_bit 4 (mid ! 8)) \<le> 18 + length r \<and>
     2 \<le> length r"

definition udp_datagram :: "u16 \<Rightarrow> u16 \<Rightarrow> u16 \<Rightarrow> u16 \<Rightarrow> bytes \<Rightarrow> bytes" where
  "udp_datagram sport dport len check r = be16 sport @ be16 dport @ be16 len @ be16 check @ r"

definition csum_bump :: "u16 \<Rightarrow> u16" where
  "csum_bump c = bpf_htons (bump_check (bpf_htons c))"

section \<open>Lemmas\<close>

lemmas xsk_branches = xsk_icmp_def xsk_tcp_def xsk_udp_def
lemmas sock2_branches = sock2_icmp_def sock2_tcp_def sock2_udp_def

lemma route_macs:
  "fib_macs fib \<Longrightarrow> route fib s d i = Inr fp \<Longrightarrow> length (smac fp) = 6 \<and> length (dmac fp) = 6"
  unfolding fib_macs_def route_def by (fastforce split: prod.splits if_splits)

lemma set_macs_eq:
  "length (smac fp) = 6 \<Longrightarrow> length (dmac fp) = 6 \<Longrightarrow> 14 \<le> length p \<Longrightarrow> set_macs p fp = Inr (dmac fp @ smac fp @ drop 12 p)"
  by (simp add: set_macs_def put_bytes_def)

lemma set_macs_ok:
  "fib_macs fib \<Longrightarrow> route fib s d i = Inr fp \<Longrightarrow> 14 \<le> length p \<Longrightarrow> set_macs p fp = Inr (dmac fp @ smac fp @ drop 12 p)"
  using route_macs set_macs_eq by blast

lemma xsk_def_prog_safe: "fib_macs fib \<Longrightarrow> is_ok (xsk_def_prog refcnt fib red ctx)"
  by (auto simp: xsk_def_prog_def Let_def get16_in get_bytes_def set_macs_ok split: sum.splits)

lemma xdp_def_prog_safe: "fib_macs fib \<Longrightarrow> is_ok (xdp_def_prog refcnt fib red ctx)"
  by (auto simp: xdp_def_prog_def xsk_branches Let_def get16_in get_bytes_def set_macs_ok split: sum.splits)

lemma xdp_sock2_prog_safe: "fib_macs fib \<Longrightarrow> is_ok (xdp_sock2_prog fib red ctx)"
  by (auto simp: xdp_sock2_prog_def sock2_branches Let_def get16_in get_bytes_def put_bytes_def set_macs_ok split: sum.splits)

lemma allowed_addr_prog_safe: "is_ok (allowed_addr_prog m ctx)"
  by (auto simp: allowed_addr_prog_def Let_def get16_in split: option.splits)

lemma stays_insideE:
  assumes "stays_inside p i r"
  obtains v nh h where "r = Inr (v, nh, h)" "v = -1 \<and> h = None \<or> h = Some i \<and> i < pos nh \<and> pos nh \<le> length p"
  using assms by (auto simp: stays_inside_def split: sum.splits)

lemma parse_udp_room: "parse_udphdr p nh = Inr (v, nh', h) \<Longrightarrow> 0 \<le> v \<Longrightarrow> h = Some (pos nh) \<and> pos nh + 8 \<le> length p"
  by (auto simp: parse_udphdr_def bindR_eq_Inr Let_def split: if_splits)

lemma parse_tcp_room: "parse_tcphdr p nh = Inr (v, nh', h) \<Longrightarrow> 0 \<le> v \<Longrightarrow> h = Some (pos nh) \<and> pos nh + 20 \<le> length p"
  by (auto simp: parse_tcphdr_def bindR_eq_Inr Let_def split: if_splits)

lemma block_port_safe: "is_ok (xdp_block_port_func ctx cnt)"
proof -
  let ?p = "pkt ctx"
  obtain et nh e where 1: "parse_ethhdr ?p \<lparr>pos = 0\<rparr> = Inr (et, nh, e)"
    using parse_ethhdr_inside [of ?p "\<lparr>pos = 0\<rparr>"] by (elim stays_insideE) auto
  obtain it nh' e' where 2: "(if et = uint (bpf_htons ETH_P_IP) then parse_iphdr ?p nh else parse_ip6hdr ?p nh) = Inr (it, nh', e')"
    using parse_l3_inside [of ?p nh] by (cases "et = uint (bpf_htons ETH_P_IP)") (auto elim: stays_insideE)
  obtain u nu hu where 3: "parse_udphdr ?p nh' = Inr (u, nu, hu)"
    using parse_l4_inside(4) [of ?p nh'] by (elim stays_insideE) auto
  obtain t nt ht where 4: "parse_tcphdr ?p nh' = Inr (t, nt, ht)"
    using parse_l4_inside(5) [of ?p nh'] by (elim stays_insideE) auto
  show ?thesis
    unfolding xdp_block_port_func_def Let_def 1 bindR_Inr prod.case 2
    using parse_udp_room [OF 3] parse_tcp_room [OF 4]
    by (auto simp: 3 4 get16_in put16_in)
qed

lemma bump_neq: "bump_check x \<noteq> x"
proof -
  have h: "bpf_htons 1 = 0x0100" by code_simp
  have "x + 0x100 \<noteq> x" by simp
  moreover have "x \<noteq> 0x100" if "x + 0x100 = 0" using that by auto
  ultimately show ?thesis by (auto simp: bump_check_def Let_def h)
qed

lemma csum_bump_neq: "csum_bump c \<noteq> c"
  by (metis bump_neq csum_bump_def htons_htons)

lemma unat_htons: "unat (bpf_htons x) = 256 * (unat x mod 256) + unat x div 256"
proof -
  have "bpf_htons x = push_bit 8 x + drop_bit 8 x"
    unfolding bpf_htons_def by (rule disjunctive_add [symmetric]) (auto simp: bit_simps dest: bit_imp_le_length)
  moreover have "unat (push_bit 8 x) = 256 * (unat x mod 256)"
    using mod_mult_mult1 [of 256 "unat x" 256] by (simp add: push_bit_eq_mult unat_word_ariths mult.commute)
  moreover have "unat (drop_bit 8 x) = unat x div 256" by (simp add: drop_bit_eq_div unat_div)
  moreover have "256 * (unat x mod 256) + unat x div 256 < 65536" using unsigned_less [of x, where ?'a = nat] by simp
  ultimately show ?thesis by (simp add: unat_word_ariths)
qed

text \<open>Adding 1 to the byte-swapped field is adding 1 to the checksum only while the low byte does not overflow; the
  carry into the high byte is lost.\<close>

lemma csum_bump_low:
  assumes "unat c mod 256 < 255"
  shows "csum_bump c = c + 1"
proof -
  have h: "bpf_htons 1 = 0x0100" by code_simp
  let ?x = "bpf_htons c"
  have l: "unat c < 65536" using unsigned_less [of c, where ?'a = nat] by simp
  have "unat ?x + 256 < 65536" using assms l by (simp add: unat_htons)
  then have x: "unat (?x + 0x100) = unat ?x + 256" by (simp add: unat_word_ariths)
  then have "?x + 0x100 \<noteq> 0" by (metis add_is_0 unat_0 zero_neq_numeral)
  then have b: "csum_bump c = bpf_htons (?x + 0x100)" by (simp add: csum_bump_def bump_check_def Let_def h)
  define q m where "q = unat c div 256" and "m = unat c mod 256"
  have qm: "unat c = 256 * q + m" "q < 256" "m < 255" using assms l by (auto simp: q_def m_def)
  have "unat ?x = 256 * m + q" unfolding unat_htons q_def m_def ..
  then have "unat (csum_bump c) = 256 * ((256 * m + q + 256) mod 256) + (256 * m + q + 256) div 256"
    unfolding b unat_htons [of "?x + 0x100"] x by simp
  moreover have "(256 * m + q + 256) mod 256 = q" "(256 * m + q + 256) div 256 = m + 1" using qm by simp_all
  moreover have "unat (c + 1) = unat c + 1" using qm by (simp add: unat_word_ariths)
  ultimately have "unat (csum_bump c) = unat (c + 1)" using qm by simp
  then show ?thesis by (simp add: word_unat_eq_iff)
qed

lemma csum_bump_carry:
  assumes "unat c mod 256 = 255" "255 < unat c"
  shows "csum_bump c = c - 255"
proof -
  have h: "bpf_htons 1 = 0x0100" by code_simp
  let ?x = "bpf_htons c"
  have l: "unat c < 65536" using unsigned_less [of c, where ?'a = nat] by simp
  have ux: "unat ?x = 65280 + unat c div 256" using assms by (simp add: unat_htons)
  then have x: "unat (?x + 0x100) = unat c div 256" using l by (simp add: unat_word_ariths)
  have "unat c div 256 \<noteq> 0" using assms by simp
  then have "?x + 0x100 \<noteq> 0" using x by auto
  then have b: "csum_bump c = bpf_htons (?x + 0x100)" by (simp add: csum_bump_def bump_check_def Let_def h)
  have "unat (csum_bump c) = 256 * (unat c div 256)"
    unfolding b unat_htons [of "?x + 0x100"] x using l by simp
  also have "\<dots> = unat c - 255" using assms mult_div_mod_eq [of 256 "unat c"] by linarith
  also have "\<dots> = unat (c - 255)"
  proof -
    have "(255 :: u16) \<le> c" using assms by (simp add: word_le_nat_alt)
    then show ?thesis by (simp add: unat_sub)
  qed
  finally show ?thesis by (simp add: word_unat_eq_iff)
qed

lemma parse_ip_frame:
  assumes "length dst = 6" "length src = 6" "ip_header ip proto"
  shows "parse_ethhdr (eth_frame dst src [] ETH_P_IP (ip @ t)) \<lparr>pos = 0\<rparr> = Inr (uint (bpf_htons ETH_P_IP), \<lparr>pos = 14\<rparr>, Some 0)"
    and "parse_iphdr (eth_frame dst src [] ETH_P_IP (ip @ t)) \<lparr>pos = 14\<rparr> = Inr (uint proto, \<lparr>pos = 14 + length ip\<rparr>, Some 14)"
proof -
  let ?p = "eth_frame dst src [] ETH_P_IP (ip @ t)"
  have g: "get16 ?p 12 = Inr (bpf_htons ETH_P_IP)"
    using get16_be16 [of "dst @ src" 12 ETH_P_IP "ip @ t"] assms(1,2) by (simp add: eth_frame_def)
  have nv: "\<not> proto_is_vlan (bpf_htons ETH_P_IP)" by code_simp
  have l: "length ?p = 14 + length ip + length t" using assms(1,2) by (simp add: eth_frame_def)
  have "vlan_loop VLAN_MAX_DEPTH ?p (bpf_htons ETH_P_IP) 14 [] = Inr (bpf_htons ETH_P_IP, 14, [])"
    using nv by (simp add: VLAN_MAX_DEPTH_def numeral_2_eq_2)
  then show "parse_ethhdr ?p \<lparr>pos = 0\<rparr> = Inr (uint (bpf_htons ETH_P_IP), \<lparr>pos = 14\<rparr>, Some 0)"
    by (simp add: parse_ethhdr_def parse_ethhdr_vlan_def g l)
  have e: "?p = (dst @ src @ be16 ETH_P_IP) @ ip @ t" by (simp add: eth_frame_def)
  have n: "?p ! (14 + i) = ip ! i" if "i < length ip" for i
    unfolding e using assms(1,2) that by (simp add: nth_append)
  have i: "20 \<le> length ip" "length ip = 4 * unat (ip ! 0 AND 0x0F)" "ip ! 9 = proto"
    using assms(3) by (auto simp: ip_header_def)
  have "?p ! 14 = ip ! 0" "?p ! 23 = proto" using n [of 0] n [of 9] i by simp_all
  with i l show "parse_iphdr ?p \<lparr>pos = 14\<rparr> = Inr (uint proto, \<lparr>pos = 14 + length ip\<rparr>, Some 14)"
    by (simp add: parse_iphdr_def Let_def mult.commute)
qed

lemma block_tcp:
  assumes f: "length dst = 6" "length src = 6" "ip_header ip IPPROTO_TCP" and t: "tcp_sized mid r"
    and c: "pkt ctx = eth_frame dst src [] ETH_P_IP (ip @ tcp_segment sport dport mid check r)"
  shows "xdp_block_port_func ctx cnt =
    (if dport = 9999 then Inr (XDP_DROP, eth_frame dst src [] ETH_P_IP (ip @ tcp_segment sport (bpf_htons dport) mid (csum_bump check) r),
        map_option (\<lambda>v. v + 1) cnt)
     else Inr (XDP_PASS, eth_frame dst src [] ETH_P_IP (ip @ tcp_segment sport dport mid (csum_bump check) r), cnt))"
proof -
  define pre where "pre = dst @ src @ be16 ETH_P_IP @ ip"
  define h where "h = 14 + length ip"
  have lp: "length pre = h" using f(1,2) by (simp add: pre_def h_def)
  have e: "eth_frame dst src [] ETH_P_IP (ip @ tcp_segment sport d mid k r) = pre @ tcp_segment sport d mid k r" for d k
    by (simp add: eth_frame_def pre_def)
  let ?p = "pre @ tcp_segment sport dport mid check r"
  note pf = parse_ip_frame [OF f, of "tcp_segment sport dport mid check r", unfolded e, folded h_def]
  have lm: "length mid = 12" using t by (simp add: tcp_sized_def)
  have ls: "length (tcp_segment sport d mid k r) = 18 + length r" for d k using lm by (simp add: tcp_segment_def)
  have "?p ! (h + 12) = mid ! 8"
    using lm lp by (simp add: tcp_segment_def nth_append be16_def)
  then have pt: "parse_tcphdr ?p \<lparr>pos = h\<rparr> = Inr (4 * uint (drop_bit 4 (mid ! 8)), \<lparr>pos = h + 4 * unat (drop_bit 4 (mid ! 8))\<rparr>, Some h)"
    using t lp ls by (simp add: parse_tcphdr_def Let_def tcp_sized_def mult.commute)
  have gd: "get16 (pre @ tcp_segment sport d mid k r) (h + 2) = Inr (bpf_htons d)" for d k
    using get16_be16 [of "pre @ be16 sport" "h + 2" d] lp by (simp add: tcp_segment_def)
  have pd: "put16 (pre @ tcp_segment sport d mid k r) (h + 2) (bpf_htons d') = Inr (pre @ tcp_segment sport d' mid k r)" for d d' k
    using put16_be16 [of "pre @ be16 sport" "h + 2" "be16 d" "mid @ be16 k @ r" d'] lp by (simp add: tcp_segment_def)
  have gc: "get16 (pre @ tcp_segment sport d mid k r) (h + 16) = Inr (bpf_htons k)" for d k
    using get16_be16 [of "pre @ be16 sport @ be16 d @ mid" "h + 16" k r] lp lm by (simp add: tcp_segment_def)
  have pc: "put16 (pre @ tcp_segment sport d mid k r) (h + 16) (bpf_htons k') = Inr (pre @ tcp_segment sport d mid k' r)" for d k k'
    using put16_be16 [of "pre @ be16 sport @ be16 d @ mid" "h + 16" "be16 k" r k'] lp lm by (simp add: tcp_segment_def)
  have bc: "bump_check (bpf_htons check) = bpf_htons (csum_bump check)" by (simp add: csum_bump_def)
  have ne: "\<not> uint (bpf_htons ETH_P_IP) < 0" "uint IPPROTO_TCP \<noteq> uint IPPROTO_UDP" "\<not> 4 * uint (drop_bit 4 (mid ! 8)) < 0"
    by (code_simp, code_simp, simp add: not_less)
  show ?thesis
    unfolding xdp_block_port_func_def c e Let_def
    using pd [of dport check "bpf_htons dport"] gd [of "bpf_htons dport"] pc [of "bpf_htons dport" check "csum_bump check"]
    by (simp add: pf pt ne gd gc pd bc del: add_2_eq_Suc add_2_eq_Suc')
qed

lemma block_udp:
  assumes f: "length dst = 6" "length src = 6" "ip_header ip IPPROTO_UDP" and len: "8 \<le> unat len"
    and c: "pkt ctx = eth_frame dst src [] ETH_P_IP (ip @ udp_datagram sport dport len check r)"
  shows "xdp_block_port_func ctx cnt =
    Inr (XDP_PASS, eth_frame dst src [] ETH_P_IP (ip @ udp_datagram sport (dport - 1) len (csum_bump check) r), cnt)"
proof -
  define pre where "pre = dst @ src @ be16 ETH_P_IP @ ip"
  define h where "h = 14 + length ip"
  have lp: "length pre = h" using f(1,2) by (simp add: pre_def h_def)
  have e: "eth_frame dst src [] ETH_P_IP (ip @ udp_datagram sport d len k r) = pre @ udp_datagram sport d len k r" for d k
    by (simp add: eth_frame_def pre_def)
  let ?p = "pre @ udp_datagram sport dport len check r"
  note pf = parse_ip_frame [OF f, of "udp_datagram sport dport len check r", unfolded e, folded h_def]
  have "get16 ?p (h + 4) = Inr (bpf_htons len)"
    using get16_be16 [of "pre @ be16 sport @ be16 dport" "h + 4" len] lp by (simp add: udp_datagram_def)
  moreover have ul: "8 \<le> uint len"
  proof -
    have "(8 :: u16) \<le> len" using len by (simp add: word_le_nat_alt)
    then show ?thesis by (simp add: word_le_def)
  qed
  moreover have "h + 8 \<le> length ?p" using lp by (simp add: udp_datagram_def)
  ultimately have pu: "parse_udphdr ?p \<lparr>pos = h\<rparr> = Inr (uint len - 8, \<lparr>pos = h + 8\<rparr>, Some h)"
    by (simp add: parse_udphdr_def Let_def not_less)
  have gd: "get16 ?p (h + 2) = Inr (bpf_htons dport)"
    using get16_be16 [of "pre @ be16 sport" "h + 2" dport] lp by (simp add: udp_datagram_def)
  have pd: "put16 ?p (h + 2) (bpf_htons d') = Inr (pre @ udp_datagram sport d' len check r)" for d'
    using put16_be16 [of "pre @ be16 sport" "h + 2" "be16 dport" "be16 len @ be16 check @ r" d'] lp by (simp add: udp_datagram_def)
  have gc: "get16 (pre @ udp_datagram sport d len check r) (h + 6) = Inr (bpf_htons check)" for d
    using get16_be16 [of "pre @ be16 sport @ be16 d @ be16 len" "h + 6" check r] lp by (simp add: udp_datagram_def)
  have pc: "put16 (pre @ udp_datagram sport d len check r) (h + 6) (bpf_htons k') = Inr (pre @ udp_datagram sport d len k' r)" for d k'
    using put16_be16 [of "pre @ be16 sport @ be16 d @ be16 len" "h + 6" "be16 check" r k'] lp by (simp add: udp_datagram_def)
  have bc: "bump_check (bpf_htons check) = bpf_htons (csum_bump check)" by (simp add: csum_bump_def)
  have ne: "\<not> uint (bpf_htons ETH_P_IP) < 0" by code_simp
  have nl: "\<not> uint len < 8" using ul by linarith
  show ?thesis
    unfolding xdp_block_port_func_def c e Let_def
    by (simp add: pf pu ne nl gd gc pd pc bc del: add_2_eq_Suc add_2_eq_Suc')
qed

lemma ipv4_h_proto: "get16 p 12 = Inr x \<Longrightarrow> bpf_htons x \<noteq> 0x0800 \<longleftrightarrow> bpf_htons x \<noteq> ETH_P_IP"
  by (simp add: ETH_P_IP_def)

section \<open>Properties\<close>

text \<open>
  C13. No program reads or writes outside the packet, whatever the packet and whatever the helpers return.
\<close>

theorem xdp_programs_safe:
  assumes "fib_macs fib"
  shows "is_ok (xsk_def_prog refcnt fib redirect ctx) \<and> is_ok (xdp_def_prog refcnt fib redirect ctx) \<and>
    is_ok (xdp_sock2_prog fib redirect ctx) \<and> is_ok (xdp_block_port_func ctx cnt) \<and> is_ok (allowed_addr_prog m ctx)"
  using xsk_def_prog_safe [OF assms] xdp_def_prog_safe [OF assms] xdp_sock2_prog_safe [OF assms]
    block_port_safe allowed_addr_prog_safe by blast

theorem xdp_programs_safe_witness:
  "is_ok (xdp_sock2_prog (\<lambda>x. (0, x\<lparr>smac := replicate 6 1, dmac := replicate 6 2\<rparr>)) (\<lambda>_. XDP_REDIRECT)
     \<lparr>pkt = replicate 34 0, ingress_ifindex = 1, rx_queue_index = 0\<rparr>)"
  by (rule xdp_programs_safe [THEN conjunct2, THEN conjunct2, THEN conjunct1]) (auto simp: fib_macs_def)

text \<open>
  The two programs that redirect to an AF_XDP socket do the same on every packet of the three protocols that
  \<open>xdp_def_prog\<close> tells apart; after a successful route lookup the packet has the new MAC addresses, is otherwise
  unchanged, and goes to the socket of the receive queue.
\<close>

lemma xsk_programs_agree:
  assumes "fib_macs fib"
    and "34 \<le> length (pkt ctx) \<longrightarrow> pkt ctx ! 23 \<in> {IPPROTO_ICMP, IPPROTO_TCP, IPPROTO_UDP}"
  shows "xdp_def_prog refcnt fib redirect ctx = xsk_def_prog refcnt fib redirect ctx \<and>
    (refcnt \<noteq> 0 \<and> 34 \<le> length (pkt ctx) \<and> get16 (pkt ctx) 12 = Inr (bpf_htons ETH_P_IP) \<and>
      route fib (take 4 (drop 26 (pkt ctx))) (take 4 (drop 30 (pkt ctx))) (ingress_ifindex ctx) = Inr fp \<longrightarrow>
      xsk_def_prog refcnt fib redirect ctx = Inr (redirect (rx_queue_index ctx), dmac fp @ smac fp @ drop 12 (pkt ctx)))"
proof
  show "xdp_def_prog refcnt fib redirect ctx = xsk_def_prog refcnt fib redirect ctx"
    using assms(2) by (auto simp: xdp_def_prog_def xsk_branches xsk_def_prog_def Let_def get16_in ETH_P_IP_def)
qed (auto simp: xsk_def_prog_def Let_def get_bytes_def ETH_P_IP_def set_macs_ok [OF assms(1)])

theorem xsk_programs_agree_witness:
  "xdp_def_prog 1 (\<lambda>x. (0, x\<lparr>smac := replicate 6 1, dmac := replicate 6 2\<rparr>)) (\<lambda>_. XDP_REDIRECT)
      \<lparr>pkt = replicate 12 0 @ [8, 0] @ replicate 9 0 @ [1] @ replicate 10 0, ingress_ifindex = 1, rx_queue_index = 0\<rparr> =
    Inr (XDP_REDIRECT, replicate 6 2 @ replicate 6 1 @ [8, 0] @ replicate 9 0 @ [1] @ replicate 10 0)"
proof -
  let ?fib = "\<lambda>x. (0 :: int, x\<lparr>smac := replicate 6 1, dmac := replicate 6 2\<rparr>)"
  let ?p = "replicate 12 0 @ [8, 0] @ replicate 9 0 @ [1] @ replicate 10 0 :: bytes"
  let ?ctx = "\<lparr>pkt = ?p, ingress_ifindex = 1, rx_queue_index = 0\<rparr>"
  let ?fp = "\<lparr>family = 2, ipv4_src = replicate 4 0, ipv4_dst = replicate 4 0, fib_ifindex = 1, smac = replicate 6 1, dmac = replicate 6 2\<rparr>"
  have m: "fib_macs ?fib" by (auto simp: fib_macs_def)
  have g: "get16 ?p 12 = Inr (bpf_htons ETH_P_IP)" by code_simp
  have n: "?p ! 23 = IPPROTO_ICMP" "length ?p = 34" by (code_simp, simp)
  have t: "take 4 (drop 26 ?p) = replicate 4 0" "take 4 (drop 30 ?p) = replicate 4 0" "drop 12 ?p = [8, 0] @ replicate 9 0 @ [1] @ replicate 10 0"
    by code_simp+
  have r: "route ?fib (replicate 4 0) (replicate 4 0) 1 = Inr ?fp"
    by (simp add: route_def BPF_FIB_LKUP_RET_SUCCESS_def BPF_FIB_LKUP_RET_NO_NEIGH_def)
  have "34 \<le> length (pkt ?ctx) \<longrightarrow> pkt ?ctx ! 23 \<in> {IPPROTO_ICMP, IPPROTO_TCP, IPPROTO_UDP}" using n(1) by simp
  from xsk_programs_agree [OF m this, of 1 "\<lambda>_. XDP_REDIRECT" ?fp] show ?thesis
    using g n(2) t r by (simp only: xdp_md.simps bpf_fib_lookup.simps simp_thms one_neq_zero order_refl if_True)
qed



end
