(* ===== verification/Firewall.thy ===== *)
theory Firewall
  imports Xdp
begin

text \<open>
  Two packet filters that drop TCP traffic to port 9999: the XDP program of \<open>dev-net-firewall/ebpf-xdp\<close> with the
  user program that sets its map, and the netfilter hooks of \<open>dev-net-firewall/netfilter\<close> and \<open>knetfilter\<close>. The map is a
  function from ports to verdicts. A socket buffer is its linear data from the network header on and the offset of the
  transport header, which the kernel sets from the length of the IP header.
\<close>

section \<open>\<open>ebpf-xdp/prog/firewall.c\<close>\<close>

definition firewall_prog :: "(u16 \<Rightarrow> u16 option) \<Rightarrow> xdp_md \<Rightarrow> xdp_action res" where
  "firewall_prog port_verdict ctx =
     (let p = pkt ctx in
      if ETH_HLEN > length p then Inr XDP_DROP
      else bindR (get16 p 12) (\<lambda>h_proto.
        if bpf_htons h_proto \<noteq> ETH_P_IP then Inr XDP_PASS
        else if ETH_HLEN + IP_HLEN > length p then Inr XDP_DROP
        else bindR (arr_get p (ETH_HLEN + 9)) (\<lambda>protocol.
          if protocol \<noteq> IPPROTO_TCP then Inr XDP_PASS
          else if ETH_HLEN + IP_HLEN + TCP_HLEN > length p then Inr XDP_DROP
          else bindR (get16 p (ETH_HLEN + IP_HLEN + 2)) (\<lambda>dest.
            case port_verdict (bpf_ntohs dest) of None \<Rightarrow> Inr XDP_PASS
            | Some verdict \<Rightarrow> if verdict = 1 then Inr XDP_PASS else if verdict = 0 then Inr XDP_DROP else Inr XDP_PASS))))"

section \<open>\<open>ebpf-xdp/user.c\<close>\<close>

record fw_user =
  port_map :: "u16 \<Rightarrow> u16 option"
  fw_verdict :: u16
  fw_done :: bool

text \<open>Setting the rule for port 9999; \<open>ok\<close> is whether \<open>bpf_map_update_elem\<close> succeeds. \<open>None\<close>: the program ends with -1.\<close>

definition fw_start :: "(u16 \<Rightarrow> u16 option) \<Rightarrow> bool \<Rightarrow> fw_user option" where
  "fw_start m ok = (if \<not> ok then None
     else let m = m(9999 \<mapsto> 0) in
       Some \<lparr>port_map = m, fw_verdict = (case m 9999 of None \<Rightarrow> -1 | Some v \<Rightarrow> v), fw_done = False\<rparr>)"

definition fw_reverse :: "bool \<Rightarrow> fw_user \<Rightarrow> fw_user" where
  "fw_reverse ok u =
     (let verdict = (if fw_verdict u = 1 then 0 else 1) in
      if \<not> ok then u\<lparr>fw_verdict := verdict, fw_done := True\<rparr>
      else let m = (port_map u)(9999 \<mapsto> verdict) in
        u\<lparr>port_map := m, fw_verdict := (case m 9999 of None \<Rightarrow> -1 | Some v \<Rightarrow> v)\<rparr>)"

text \<open>One command line: the first \<open>r\<close> or \<open>q\<close> in it counts.\<close>

fun fw_command :: "bool \<Rightarrow> string \<Rightarrow> fw_user \<Rightarrow> fw_user" where
  "fw_command ok [] u = u"
| "fw_command ok (c # cs) u =
     (if c = CHR ''r'' then fw_reverse ok u else if c = CHR ''q'' then u\<lparr>fw_done := True\<rparr> else fw_command ok cs u)"

fun fw_loop :: "(bool \<times> string) list \<Rightarrow> fw_user \<Rightarrow> fw_user" where
  "fw_loop [] u = u"
| "fw_loop ((ok, cmd) # cmds) u = (if fw_done u then u else fw_loop cmds (fw_command ok cmd u))"

section \<open>\<open>netfilter/mynetfilter.c\<close> and \<open>knetfilter.c\<close>\<close>

datatype nf_verdict = NF_DROP | NF_ACCEPT

record sk_buff =
  nh_data :: bytes
  th_off :: nat

definition mynetfilter_blockport :: "sk_buff option \<Rightarrow> nf_verdict res" where
  "mynetfilter_blockport skb = (case skb of None \<Rightarrow> Inr NF_ACCEPT
     | Some skb \<Rightarrow> bindR (arr_get (nh_data skb) 9) (\<lambda>protocol.
         if protocol = IPPROTO_TCP then
           bindR (get16 (nh_data skb) (th_off skb + 2)) (\<lambda>dest. Inr (if bpf_ntohs dest = 9999 then NF_DROP else NF_ACCEPT))
         else Inr NF_ACCEPT))"

definition nf_blockport :: "sk_buff option \<Rightarrow> nf_verdict res" where
  "nf_blockport skb = (case skb of None \<Rightarrow> Inr NF_ACCEPT
     | Some skb \<Rightarrow> bindR (arr_get (nh_data skb) 9) (\<lambda>protocol.
         if protocol = IPPROTO_TCP then
           bindR (get16 (nh_data skb) (th_off skb + 2)) (\<lambda>dest. Inr (if bpf_ntohs dest = 9999 then NF_DROP else NF_ACCEPT))
         else Inr NF_ACCEPT))"

definition nf_blockicmp :: "sk_buff option \<Rightarrow> nf_verdict res" where
  "nf_blockicmp skb = (case skb of None \<Rightarrow> Inr NF_ACCEPT
     | Some skb \<Rightarrow> bindR (arr_get (nh_data skb) 9) (\<lambda>protocol.
         if protocol = IPPROTO_UDP then
           bindR (get16 (nh_data skb) (th_off skb + 2)) (\<lambda>dest. Inr NF_ACCEPT)
         else if protocol = IPPROTO_TCP then Inr NF_ACCEPT
         else if protocol = IPPROTO_ICMP then Inr NF_DROP
         else Inr NF_ACCEPT))"

text \<open>Loading and unloading the modules: the hooks registered with the kernel, with their priority (the first runs
  first), and the module's pointers. The flags are the results of the allocations.\<close>

datatype nf_hook = BlockIcmp | BlockPort

record nf_module =
  nf_blockicmp_ops :: bool
  nf_blockport_ops :: bool
  nf_hooks :: "(nat \<times> nf_hook) list"

definition nf_knetfilter_init :: "bool \<Rightarrow> bool \<Rightarrow> nf_module \<Rightarrow> int \<times> nf_module" where
  "nf_knetfilter_init a1 a2 m =
     (let m = (if a1 then m\<lparr>nf_blockicmp_ops := True, nf_hooks := nf_hooks m @ [(0, BlockIcmp)]\<rparr> else m\<lparr>nf_blockicmp_ops := False\<rparr>);
          m = (if a2 then m\<lparr>nf_blockport_ops := True, nf_hooks := nf_hooks m @ [(1, BlockPort)]\<rparr> else m\<lparr>nf_blockport_ops := False\<rparr>)
      in (0, m))"

definition nf_knetfilter_exit :: "nf_module \<Rightarrow> nf_module" where
  "nf_knetfilter_exit m =
     (let m = (if nf_blockicmp_ops m then m\<lparr>nf_hooks := remove1 (0, BlockIcmp) (nf_hooks m)\<rparr> else m) in
      if nf_blockport_ops m then m\<lparr>nf_hooks := remove1 (1, BlockPort) (nf_hooks m)\<rparr> else m)"

text \<open>The module of \<open>mynetfilter.c\<close> hooks into a network namespace that it looks up by id, at load and at unload.\<close>

definition mynetfilter_init :: "bool \<Rightarrow> bool \<Rightarrow> nf_module \<Rightarrow> int \<times> nf_module" where
  "mynetfilter_init net a m =
     (if \<not> net then (-1, m)
      else if a then (0, m\<lparr>nf_blockport_ops := True, nf_hooks := nf_hooks m @ [(1, BlockPort)]\<rparr>)
      else (0, m\<lparr>nf_blockport_ops := False\<rparr>))"

definition mynetfilter_exit :: "bool \<Rightarrow> nf_module \<Rightarrow> nf_module" where
  "mynetfilter_exit net m =
     (if \<not> net then m
      else if nf_blockport_ops m then m\<lparr>nf_hooks := remove1 (1, BlockPort) (nf_hooks m)\<rparr> else m)"

section \<open>What the filters see\<close>

text \<open>The frame as the XDP program gets it, and the socket buffer the kernel makes of it.\<close>

definition to_skb :: "bytes \<Rightarrow> bytes \<Rightarrow> sk_buff" where
  "to_skb ip t = \<lparr>nh_data = ip @ t, th_off = length ip\<rparr>"

definition frame_ctx :: "bytes \<Rightarrow> bytes \<Rightarrow> bytes \<Rightarrow> bytes \<Rightarrow> xdp_md" where
  "frame_ctx dst src ip t = \<lparr>pkt = eth_frame dst src [] ETH_P_IP (ip @ t), ingress_ifindex = 1, rx_queue_index = 0\<rparr>"

text \<open>How many of the command lines reverse the rule, as long as none quits.\<close>

definition reverses :: "string \<Rightarrow> bool" where
  "reverses cmd = (case filter (\<lambda>c. c = CHR ''r'' \<or> c = CHR ''q'') cmd of [] \<Rightarrow> False | c # _ \<Rightarrow> c = CHR ''r'')"

definition quits :: "string \<Rightarrow> bool" where
  "quits cmd = (case filter (\<lambda>c. c = CHR ''r'' \<or> c = CHR ''q'') cmd of [] \<Rightarrow> False | c # _ \<Rightarrow> c = CHR ''q'')"

section \<open>Lemmas\<close>

lemma nf_copies: "mynetfilter_blockport = nf_blockport"
  by (simp add: fun_eq_iff mynetfilter_blockport_def nf_blockport_def)

lemma firewall_prog_safe: "is_ok (firewall_prog m ctx)"
  by (auto simp: firewall_prog_def Let_def get16_in split: option.splits)

lemma fw_command_eq: "fw_command ok cmd u = (if reverses cmd then fw_reverse ok u else if quits cmd then u\<lparr>fw_done := True\<rparr> else u)"
  by (induction ok cmd u rule: fw_command.induct) (auto simp: reverses_def quits_def)

lemma firewall_tcp:
  assumes "length dst = 6" "length src = 6" "ip_header ip IPPROTO_TCP" "length ip = 20" "tcp_sized mid r"
  shows "firewall_prog m (frame_ctx dst src ip (tcp_segment sport dport mid check r)) =
    Inr (if m dport = Some 0 then XDP_DROP else XDP_PASS)"
proof -
  let ?t = "tcp_segment sport dport mid check r" and ?pre = "dst @ src @ be16 ETH_P_IP"
  let ?p = "eth_frame dst src [] ETH_P_IP (ip @ ?t)"
  have e: "?p = ?pre @ ip @ ?t" by (simp add: eth_frame_def)
  have lm: "length mid = 12" "2 \<le> length r" using assms(5) by (auto simp: tcp_sized_def)
  have g: "get16 ?p 12 = Inr (bpf_htons ETH_P_IP)"
    using get16_be16 [of "dst @ src" 12 ETH_P_IP "ip @ ?t"] assms(1,2) by (simp add: eth_frame_def)
  have "?p ! 23 = ip ! 9" unfolding e using assms(1,2,4) by (simp add: nth_append)
  then have pr: "?p ! 23 = IPPROTO_TCP" using assms(3) by (simp add: ip_header_def)
  have l: "54 \<le> length ?p" using lm assms(1,2,4) by (simp add: eth_frame_def tcp_segment_def)
  have d: "get16 ?p 36 = Inr (bpf_htons dport)"
    using get16_be16 [of "?pre @ ip @ be16 sport" 36 dport "mid @ be16 check @ r"] assms(1,2,4) by (simp add: eth_frame_def tcp_segment_def)
  show ?thesis
    using l by (auto simp: firewall_prog_def frame_ctx_def Let_def g pr d split: option.splits)
qed

lemma nf_tcp:
  assumes "ip_header ip IPPROTO_TCP" "tcp_sized mid r"
  shows "nf_blockport (Some (to_skb ip (tcp_segment sport dport mid check r))) = Inr (if dport = 9999 then NF_DROP else NF_ACCEPT)"
proof -
  let ?t = "tcp_segment sport dport mid check r"
  have i: "20 \<le> length ip" "ip ! 9 = IPPROTO_TCP" using assms(1) by (auto simp: ip_header_def)
  then have "(ip @ ?t) ! 9 = IPPROTO_TCP" by (simp add: nth_append)
  moreover have "get16 (ip @ ?t) (length ip + 2) = Inr (bpf_htons dport)"
    using get16_be16 [of "ip @ be16 sport" "length ip + 2" dport "mid @ be16 check @ r"] by (simp add: tcp_segment_def)
  ultimately show ?thesis using i by (simp add: nf_blockport_def to_skb_def del: add_2_eq_Suc')
qed

lemma fw_loop_parity:
  assumes "\<forall>(ok, cmd) \<in> set cmds. ok \<and> \<not> quits cmd" "\<not> fw_done u" "fw_verdict u \<in> {0, 1}" "port_map u = m(9999 \<mapsto> fw_verdict u)"
  shows "port_map (fw_loop cmds u) = m(9999 \<mapsto>
    if even (length (filter (\<lambda>(_, cmd). reverses cmd) cmds)) then fw_verdict u else 1 - fw_verdict u)"
  using assms
proof (induction cmds u rule: fw_loop.induct)
  case (1 u)
  then show ?case by simp
next
  case (2 ok cmd cmds u)
  let ?u = "fw_command ok cmd u"
  have ok: "ok" "\<not> quits cmd" using 2(2) by auto
  have "\<not> fw_done ?u" "fw_verdict ?u \<in> {0, 1}" "port_map ?u = m(9999 \<mapsto> fw_verdict ?u)"
    "fw_verdict ?u = (if reverses cmd then 1 - fw_verdict u else fw_verdict u)"
    using 2(3-5) ok by (auto simp: fw_command_eq fw_reverse_def Let_def)
  with 2(1) [OF 2(3)] 2(2,3,4) show ?case by auto
qed

text \<open>Unloading removes what loading registered; the module of \<open>mynetfilter.c\<close> only does so when the namespace is
  still found.\<close>

lemma nf_unload:
  "(0, BlockIcmp) \<notin> set (nf_hooks m) \<Longrightarrow> (1, BlockPort) \<notin> set (nf_hooks m) \<Longrightarrow>
    nf_hooks (nf_knetfilter_exit (snd (nf_knetfilter_init a1 a2 m))) = nf_hooks m"
  by (auto simp: nf_knetfilter_init_def nf_knetfilter_exit_def Let_def remove1_append)

lemma mynetfilter_unload:
  "(1, BlockPort) \<notin> set (nf_hooks m) \<Longrightarrow> mynetfilter_init True a m = (0, m') \<Longrightarrow>
    nf_hooks (mynetfilter_exit net m') = (if net \<or> \<not> a then nf_hooks m else nf_hooks m @ [(1, BlockPort)])"
  by (auto simp: mynetfilter_init_def mynetfilter_exit_def remove1_append split: if_splits)

section \<open>Properties\<close>



text \<open>
  On TCP segments without IP options the XDP firewall with its initial rule and the netfilter hooks drop the same
  segments, those to port 9999; the hooks find the port behind an IP header of any length.
\<close>

lemma filters_agree:
  assumes "length dst = 6" and "length src = 6" and "ip_header ip IPPROTO_TCP" and "tcp_sized mid r"
    and "fw_start (\<lambda>_. None) True = Some u"
  shows "mynetfilter_blockport (Some (to_skb ip (tcp_segment sport dport mid check r))) = Inr (if dport = 9999 then NF_DROP else NF_ACCEPT) \<and>
    (length ip = 20 \<longrightarrow>
      (firewall_prog (port_map u) (frame_ctx dst src ip (tcp_segment sport dport mid check r)) = Inr XDP_DROP \<longleftrightarrow>
        nf_blockport (Some (to_skb ip (tcp_segment sport dport mid check r))) = Inr NF_DROP))"
proof
  have "port_map u = [9999 \<mapsto> 0]" using assms(5) by (auto simp: fw_start_def Let_def)
  then show "length ip = 20 \<longrightarrow>
      (firewall_prog (port_map u) (frame_ctx dst src ip (tcp_segment sport dport mid check r)) = Inr XDP_DROP \<longleftrightarrow>
        nf_blockport (Some (to_skb ip (tcp_segment sport dport mid check r))) = Inr NF_DROP)"
    using firewall_tcp [OF assms(1-3) _ assms(4)] nf_tcp [OF assms(3,4)] by simp
qed (simp add: nf_copies nf_tcp [OF assms(3,4)])

theorem filters_agree_witness:
  "\<exists>u. fw_start (\<lambda>_. None) True = Some u \<and>
    firewall_prog (port_map u) (frame_ctx (replicate 6 0) (replicate 6 0) (0x45 # replicate 8 0 @ [6] @ replicate 10 0)
      (tcp_segment 80 9999 (replicate 8 0 @ [0x50] @ replicate 3 0) 7 [0, 0])) = Inr XDP_DROP"
proof -
  let ?ip = "0x45 # replicate 8 0 @ [6] @ replicate 10 0 :: bytes" and ?mid = "replicate 8 0 @ [0x50] @ replicate 3 0 :: bytes"
  obtain u where u: "fw_start (\<lambda>_. None) True = Some u" by (simp add: fw_start_def Let_def)
  have i: "ip_header ?ip IPPROTO_TCP" "tcp_sized ?mid [0, 0]" by code_simp+
  then have "nf_blockport (Some (to_skb ?ip (tcp_segment 80 9999 ?mid 7 [0, 0]))) = Inr NF_DROP" by (simp add: nf_tcp)
  then show ?thesis
    using filters_agree [OF _ _ i u, of "replicate 6 0" "replicate 6 0" 80 9999 7] u by simp
qed

text \<open>
  With IP options in front the XDP firewall looks for the port at the wrong offset: there is a segment to port 9999
  that the netfilter hook drops and the XDP firewall passes.
\<close>

lemma firewall_options_bypass:
  "\<exists>u dst src ip mid r. fw_start (\<lambda>_. None) True = Some u \<and> ip_header ip IPPROTO_TCP \<and> tcp_sized mid r \<and>
    nf_blockport (Some (to_skb ip (tcp_segment 80 9999 mid 7 r))) = Inr NF_DROP \<and>
    firewall_prog (port_map u) (frame_ctx dst src ip (tcp_segment 80 9999 mid 7 r)) = Inr XDP_PASS"
proof -
  let ?ip = "0x46 # replicate 8 0 @ [6] @ replicate 14 0 :: bytes" and ?mid = "replicate 8 0 @ [0x50] @ replicate 3 0 :: bytes"
  obtain u where u: "fw_start (\<lambda>_. None) True = Some u" and m: "port_map u = [9999 \<mapsto> 0]" by (simp add: fw_start_def Let_def)
  have i: "ip_header ?ip IPPROTO_TCP" "tcp_sized ?mid [0, 0]" by code_simp+
  have "firewall_prog [9999 \<mapsto> 0] (frame_ctx (replicate 6 0) (replicate 6 0) ?ip (tcp_segment 80 9999 ?mid 7 [0, 0])) = Inr XDP_PASS"
    by code_simp
  moreover have "nf_blockport (Some (to_skb ?ip (tcp_segment 80 9999 ?mid 7 [0, 0]))) = Inr NF_DROP" using nf_tcp [OF i] by simp
  ultimately show ?thesis
    using i u m by (intro exI [of _ u] exI [of _ "replicate 6 0"] exI [of _ ?ip] exI [of _ ?mid] exI [of _ "[0, 0]"]) simp
qed

end
