(* ===== verification/Deth.thy ===== *)
theory Deth
  imports Packet
begin

text \<open>
  The pair of virtual Ethernet devices of \<open>kdev-net-eth\<close>. What one device transmits goes to the receive queue of
  the other in a packet of the sender's pool, and back to the pool when the receiver has polled it. The linked lists
  of packets are lists of packet numbers, the packets themselves are in a store. The spin lock is a flag: taking it
  while it is held is a deadlock. The kernel's side is explicit: whether the transmit queue is stopped, whether polling
  is scheduled, which socket buffers were freed and which frames were handed up.
\<close>

section \<open>\<open>deth.h\<close>\<close>

definition ETH_ZLEN :: nat where "ETH_ZLEN = 60"
definition ETH_DATA_LEN :: nat where "ETH_DATA_LEN = 1500"

definition DETH_RX_INTR :: u32 where "DETH_RX_INTR = 0x0001"
definition DETH_TX_INTR :: u32 where "DETH_TX_INTR = 0x0002"

record deth_packet =
  pk_dev :: nat
  datalen :: nat
  pk_data :: bytes

record deth_priv =
  tx_packets :: u64
  tx_bytes :: u64
  rx_packets :: u64
  rx_bytes :: u64
  rx_dropped :: u64
  tx_errors :: u64
  status :: u32
  ppool :: "nat list"
  rx_queue :: "nat list"
  rx_int_enabled :: bool
  tx_packetlen :: nat
  skb :: "nat option"
  locked :: bool
  stopped :: bool
  scheduled :: bool

text \<open>The module: its two devices, the packets allocated, the socket buffers freed, and per device the frames received,
  the address and whether polling is enabled. \<open>tx_packetdata\<close> is left out: it is written and never read.\<close>

record deth =
  privs :: "nat \<Rightarrow> deth_priv"
  packets :: "nat \<Rightarrow> deth_packet option"
  next_pkt :: nat
  freed :: "nat list"
  received :: "nat \<Rightarrow> bytes list"
  dev_addr :: "nat \<Rightarrow> string"
  napi_on :: "nat \<Rightarrow> bool"

definition on_priv :: "nat \<Rightarrow> (deth_priv \<Rightarrow> deth_priv) \<Rightarrow> deth \<Rightarrow> deth" where
  "on_priv d f s = s\<lparr>privs := (privs s)(d := f (privs s d))\<rparr>"

definition spin_lock :: "nat \<Rightarrow> deth \<Rightarrow> deth res" where
  "spin_lock d s = (if locked (privs s d) then Inl DeadLock else Inr (on_priv d (locked_update (\<lambda>_. True)) s))"

definition spin_unlock :: "nat \<Rightarrow> deth \<Rightarrow> deth" where
  "spin_unlock d s = on_priv d (locked_update (\<lambda>_. False)) s"

definition netif_stop_queue :: "nat \<Rightarrow> deth \<Rightarrow> deth" where
  "netif_stop_queue d s = on_priv d (stopped_update (\<lambda>_. True)) s"

definition netif_wake_queue :: "nat \<Rightarrow> deth \<Rightarrow> deth" where
  "netif_wake_queue d s = on_priv d (stopped_update (\<lambda>_. False)) s"

text \<open>Following a pointer to a packet.\<close>

definition get_pkt :: "deth \<Rightarrow> nat \<Rightarrow> deth_packet res" where
  "get_pkt s i = (case packets s i of None \<Rightarrow> Inl UseAfterFree | Some p \<Rightarrow> Inr p)"

section \<open>The packet pool\<close>

text \<open>\<open>alloc\<close> is the number of allocations that succeed.\<close>

fun deth_setup_pool_loop :: "nat \<Rightarrow> nat \<Rightarrow> nat \<Rightarrow> deth \<Rightarrow> deth" where
  "deth_setup_pool_loop 0 alloc d s = s"
| "deth_setup_pool_loop (Suc n) 0 d s = s"
| "deth_setup_pool_loop (Suc n) (Suc alloc) d s =
     deth_setup_pool_loop n alloc d
       (on_priv d (ppool_update (\<lambda>ps. next_pkt s # ps))
         (s\<lparr>packets := (packets s)(next_pkt s \<mapsto> \<lparr>pk_dev = d, datalen = 0, pk_data = replicate ETH_DATA_LEN 0\<rparr>),
            next_pkt := Suc (next_pkt s)\<rparr>))"

definition deth_setup_pool :: "nat \<Rightarrow> nat \<Rightarrow> nat \<Rightarrow> deth \<Rightarrow> deth" where
  "deth_setup_pool pool_size alloc d s = deth_setup_pool_loop pool_size alloc d (on_priv d (ppool_update (\<lambda>_. [])) s)"

fun free_packets :: "nat list \<Rightarrow> deth \<Rightarrow> deth res" where
  "free_packets [] s = Inr s"
| "free_packets (i # is) s = (if packets s i = None then Inl BadFree else free_packets is (s\<lparr>packets := (packets s)(i := None)\<rparr>))"

definition deth_teardown_pool :: "nat \<Rightarrow> deth \<Rightarrow> deth res" where
  "deth_teardown_pool d s = bindR (free_packets (ppool (privs s d)) s) (\<lambda>s. Inr (on_priv d (ppool_update (\<lambda>_. [])) s))"

text \<open>When the pool is empty the function returns without releasing the lock.\<close>

definition deth_tx_reserve_buffer :: "nat \<Rightarrow> deth \<Rightarrow> (nat option \<times> deth) res" where
  "deth_tx_reserve_buffer d s =
     bindR (spin_lock d s) (\<lambda>s.
     case ppool (privs s d) of [] \<Rightarrow> Inr (None, s)
     | pkt # rest \<Rightarrow>
       let s = on_priv d (ppool_update (\<lambda>_. rest)) s;
           s = (if rest = [] then netif_stop_queue d s else s)
       in Inr (Some pkt, spin_unlock d s))"

definition deth_tx_release_buffer :: "nat \<Rightarrow> deth \<Rightarrow> deth res" where
  "deth_tx_release_buffer pkt s =
     bindR (get_pkt s pkt) (\<lambda>p. let d = pk_dev p in
     bindR (spin_lock d s) (\<lambda>s.
     let old = ppool (privs s d); s = spin_unlock d (on_priv d (ppool_update (\<lambda>ps. pkt # ps)) s)
     in Inr (if stopped (privs s d) \<and> old = [] then netif_wake_queue d s else s)))"

definition deth_rx_prod_buf :: "nat \<Rightarrow> nat \<Rightarrow> deth \<Rightarrow> deth res" where
  "deth_rx_prod_buf d pkt s =
     bindR (spin_lock d s) (\<lambda>s. Inr (spin_unlock d (on_priv d (rx_queue_update (\<lambda>q. pkt # q)) s)))"

definition deth_rx_cons_buf :: "nat \<Rightarrow> deth \<Rightarrow> (nat option \<times> deth) res" where
  "deth_rx_cons_buf d s =
     bindR (spin_lock d s) (\<lambda>s.
     case rx_queue (privs s d) of [] \<Rightarrow> Inr (None, spin_unlock d s)
     | pkt # rest \<Rightarrow> Inr (Some pkt, spin_unlock d (on_priv d (rx_queue_update (\<lambda>_. rest)) s)))"

definition deth_rx_ints :: "nat \<Rightarrow> bool \<Rightarrow> deth \<Rightarrow> deth" where
  "deth_rx_ints d enable s = on_priv d (rx_int_enabled_update (\<lambda>_. enable)) s"

section \<open>Interrupt and poll\<close>

definition deth_napi_interrupt :: "nat \<Rightarrow> deth \<Rightarrow> deth res" where
  "deth_napi_interrupt d s =
     bindR (spin_lock d s) (\<lambda>s.
     let statusword = status (privs s d);
         s = on_priv d (status_update (\<lambda>_. 0)) s;
         s = (if statusword AND DETH_RX_INTR \<noteq> 0 then on_priv d (scheduled_update (\<lambda>_. True)) s else s);
         s = (if statusword AND DETH_TX_INTR \<noteq> 0 then
                let s = on_priv d (\<lambda>p. p\<lparr>tx_packets := tx_packets p + 1, tx_bytes := tx_bytes p + word_of_nat (tx_packetlen p)\<rparr>) s
                in (case skb (privs s d) of None \<Rightarrow> s
                    | Some b \<Rightarrow> on_priv d (skb_update (\<lambda>_. None)) (s\<lparr>freed := freed s @ [b]\<rparr>))
              else s)
     in Inr (spin_unlock d s))"

text \<open>The loop of \<open>deth_poll\<close>; \<open>left\<close> is the budget that remains, \<open>alloc n\<close> whether the socket buffer for the
  \<open>n\<close>th packet can be allocated.\<close>

fun deth_poll_loop :: "(nat \<Rightarrow> bool) \<Rightarrow> nat \<Rightarrow> nat \<Rightarrow> nat \<Rightarrow> deth \<Rightarrow> (nat \<times> deth) res" where
  "deth_poll_loop alloc 0 npackets d s = Inr (npackets, s)"
| "deth_poll_loop alloc (Suc left) npackets d s =
     (if rx_queue (privs s d) = [] then Inr (npackets, s)
      else bindR (deth_rx_cons_buf d s) (\<lambda>(pkt, s). bindR (get_pkt s (the pkt)) (\<lambda>p.
        if \<not> alloc npackets then
          bindR (deth_tx_release_buffer (the pkt) (on_priv d (\<lambda>r. r\<lparr>rx_dropped := rx_dropped r + 1\<rparr>) s)) (\<lambda>s.
          deth_poll_loop alloc left (Suc npackets) d s)
        else if datalen p > length (pk_data p) then Inl OutOfBounds
        else let s = s\<lparr>received := (received s)(d := received s d @ [take (datalen p) (pk_data p)])\<rparr>;
                 s = on_priv d (\<lambda>r. r\<lparr>rx_packets := rx_packets r + 1, rx_bytes := rx_bytes r + word_of_nat (datalen p)\<rparr>) s
          in bindR (deth_tx_release_buffer (the pkt) s) (\<lambda>s. deth_poll_loop alloc left (Suc npackets) d s))))"

definition deth_poll :: "(nat \<Rightarrow> bool) \<Rightarrow> nat \<Rightarrow> nat \<Rightarrow> deth \<Rightarrow> (nat \<times> deth) res" where
  "deth_poll alloc d budget s =
     bindR (deth_poll_loop alloc budget 0 d s) (\<lambda>(npackets, s).
     if npackets < budget then
       bindR (spin_lock d s) (\<lambda>s. Inr (npackets, spin_unlock d (on_priv d (scheduled_update (\<lambda>_. False)) s)))
     else Inr (npackets, s))"

section \<open>Transmission\<close>

definition other :: "nat \<Rightarrow> nat" where
  "other d = (if d = 0 then 1 else 0)"

text \<open>\<open>memcpy\<close> into the packet's array of \<open>ETH_DATA_LEN\<close> bytes must fit.\<close>

definition deth_hw_tx :: "nat \<Rightarrow> bytes \<Rightarrow> nat \<Rightarrow> deth \<Rightarrow> deth res" where
  "deth_hw_tx lockup buf d s =
     (let len = length buf in
      if len < 14 + 20 then Inr s
      else bindR (arr_get buf (14 + 9)) (\<lambda>protocol.
        bindR (if protocol = IPPROTO_UDP \<or> protocol = IPPROTO_TCP then bindR (get16 buf 34) (\<lambda>_. bindR (get16 buf 36) (\<lambda>_. Inr ())) else Inr ()) (\<lambda>_.
        let dest = other d in
        bindR (deth_tx_reserve_buffer d s) (\<lambda>(tx_buffer, s).
        case tx_buffer of None \<Rightarrow> Inr s
        | Some pkt \<Rightarrow>
          bindR (get_pkt s pkt) (\<lambda>p.
          if len > length (pk_data p) then Inl OutOfBounds
          else let s = s\<lparr>packets := (packets s)(pkt \<mapsto> p\<lparr>datalen := len, pk_data := buf @ drop len (pk_data p)\<rparr>)\<rparr> in
            bindR (deth_rx_prod_buf dest pkt s) (\<lambda>s.
            bindR (if rx_int_enabled (privs s dest)
                   then deth_napi_interrupt dest (on_priv dest (status_update (\<lambda>x. x OR DETH_RX_INTR)) s) else Inr s) (\<lambda>s.
            let s = on_priv d (\<lambda>r. r\<lparr>tx_packetlen := len, status := status r OR DETH_TX_INTR\<rparr>) s in
            if lockup \<noteq> 0 \<and> unat (tx_packets (privs s d) + 1) mod lockup = 0 then Inr (netif_stop_queue d s)
            else deth_napi_interrupt d s)))))))"

definition deth_xmit :: "nat \<Rightarrow> nat \<Rightarrow> bytes \<Rightarrow> nat \<Rightarrow> deth \<Rightarrow> deth res" where
  "deth_xmit lockup b frame d s =
     (let buf = (if length frame < ETH_ZLEN then frame @ replicate (ETH_ZLEN - length frame) 0 else frame) in
      deth_hw_tx lockup buf d (on_priv d (skb_update (\<lambda>_. Some b)) s))"

section \<open>Opening, stopping, timeout, loading\<close>

definition deth_open :: "nat \<Rightarrow> deth \<Rightarrow> int \<times> deth" where
  "deth_open d s = (0, netif_wake_queue d
     (s\<lparr>dev_addr := (dev_addr s)(d := if d = 1 then ''DETH01'' else ''DETH00''), napi_on := (napi_on s)(d := True)\<rparr>))"

definition deth_stop :: "nat \<Rightarrow> deth \<Rightarrow> int \<times> deth" where
  "deth_stop d s = (0, (netif_stop_queue d s)\<lparr>napi_on := (napi_on s)(d := False)\<rparr>)"

definition deth_tx_timeout :: "nat \<Rightarrow> nat \<Rightarrow> nat \<Rightarrow> deth \<Rightarrow> deth res" where
  "deth_tx_timeout pool_size alloc d s =
     bindR (deth_napi_interrupt d (on_priv d (status_update (\<lambda>x. x OR DETH_TX_INTR)) s)) (\<lambda>s.
     bindR (spin_lock d (on_priv d (\<lambda>r. r\<lparr>tx_errors := tx_errors r + 1\<rparr>) s)) (\<lambda>s.
     bindR (deth_teardown_pool d s) (\<lambda>s.
     Inr (netif_wake_queue d (spin_unlock d (deth_setup_pool pool_size alloc d s))))))"

definition zero_priv :: deth_priv where
  "zero_priv = \<lparr>tx_packets = 0, tx_bytes = 0, rx_packets = 0, rx_bytes = 0, rx_dropped = 0, tx_errors = 0, status = 0,
     ppool = [], rx_queue = [], rx_int_enabled = False, tx_packetlen = 0, skb = None, locked = False, stopped = False,
     scheduled = False\<rparr>"

definition deth_setup :: "nat \<Rightarrow> nat \<Rightarrow> nat \<Rightarrow> deth \<Rightarrow> deth" where
  "deth_setup pool_size alloc d s = deth_setup_pool pool_size alloc d (deth_rx_ints d True (on_priv d (\<lambda>_. zero_priv) s))"

definition no_deth :: deth where
  "no_deth = \<lparr>privs = (\<lambda>_. zero_priv), packets = Map.empty, next_pkt = 0, freed = [], received = (\<lambda>_. []),
     dev_addr = (\<lambda>_. []), napi_on = (\<lambda>_. False)\<rparr>"

text \<open>Loading: \<open>a0\<close> and \<open>a1\<close> are whether the devices can be allocated, \<open>r0\<close> and \<open>r1\<close> the results of registering
  them. The result has the devices that are still allocated when the function returns.\<close>

definition deth_init_module :: "nat \<Rightarrow> bool \<Rightarrow> bool \<Rightarrow> int \<Rightarrow> int \<Rightarrow> int \<times> nat list \<times> deth" where
  "deth_init_module pool_size a0 a1 r0 r1 =
     (if \<not> a0 then (-12, [], no_deth)
      else let s = deth_setup pool_size pool_size 0 no_deth in
      if \<not> a1 then (-12, [0], s)
      else let s = deth_setup pool_size pool_size 1 s in
      if r0 < 0 then (r0, [1], s)
      else if r1 < 0 then (r1, [], s)
      else (0, [0, 1], s))"

definition deth_cleanup_module :: "deth \<Rightarrow> deth res" where
  "deth_cleanup_module s = bindR (deth_teardown_pool 0 s) (\<lambda>s. deth_teardown_pool 1 s)"

section \<open>Running the devices\<close>

text \<open>The packets of device \<open>d\<close>: in its pool or waiting at the other device.\<close>

definition own :: "deth \<Rightarrow> nat \<Rightarrow> nat list" where
  "own s d = ppool (privs s d) @ rx_queue (privs s (other d))"

definition deth_inv :: "nat \<Rightarrow> deth \<Rightarrow> bool" where
  "deth_inv n s \<longleftrightarrow> (\<forall>d<2. \<not> locked (privs s d) \<and> rx_int_enabled (privs s d) \<and> length (own s d) = n \<and> distinct (own s d) \<and>
     (ppool (privs s d) = [] \<longrightarrow> stopped (privs s d)) \<and>
     (\<forall>i \<in> set (own s d). \<exists>k. packets s i = Some k \<and> pk_dev k = d \<and> length (pk_data k) = ETH_DATA_LEN \<and> datalen k \<le> ETH_DATA_LEN))"

text \<open>The kernel transmits only while the queue is not stopped, and polls at any time.\<close>

inductive deth_step :: "deth \<Rightarrow> deth \<Rightarrow> bool" where
  step_xmit: "d < 2 \<Longrightarrow> \<not> stopped (privs s d) \<Longrightarrow> length frame \<le> ETH_DATA_LEN \<Longrightarrow> deth_xmit 0 b frame d s = Inr s' \<Longrightarrow> deth_step s s'"
| step_poll: "d < 2 \<Longrightarrow> deth_poll alloc d budget s = Inr (k, s') \<Longrightarrow> deth_step s s'"
| step_stop: "d < 2 \<Longrightarrow> deth_step s (snd (deth_stop d s))"
| step_open: "d < 2 \<Longrightarrow> ppool (privs s d) \<noteq> [] \<Longrightarrow> deth_step s (snd (deth_open d s))"

definition padded :: "bytes \<Rightarrow> bytes" where
  "padded frame = frame @ replicate (ETH_ZLEN - length frame) 0"

text \<open>Everything the invariant speaks about is the same.\<close>

definition same_lists :: "deth \<Rightarrow> deth \<Rightarrow> bool" where
  "same_lists s s' \<longleftrightarrow> (\<forall>d. ppool (privs s' d) = ppool (privs s d) \<and> rx_queue (privs s' d) = rx_queue (privs s d) \<and>
     rx_int_enabled (privs s' d) = rx_int_enabled (privs s d) \<and> locked (privs s' d) = locked (privs s d) \<and>
     stopped (privs s' d) = stopped (privs s d)) \<and> packets s' = packets s \<and> received s' = received s"

text \<open>The state in which packet \<open>p\<close> has moved from the pool of \<open>d\<close> to the receive queue of the other device.\<close>

definition moved :: "nat \<Rightarrow> nat \<Rightarrow> deth_packet \<Rightarrow> deth \<Rightarrow> deth \<Rightarrow> bool" where
  "moved d p k s s' \<longleftrightarrow>
     (\<forall>e. ppool (privs s' e) = (if e = d then tl (ppool (privs s e)) else ppool (privs s e)) \<and>
        rx_queue (privs s' e) = (if e = other d then p # rx_queue (privs s e) else rx_queue (privs s e)) \<and>
        stopped (privs s' e) = (if e = d then stopped (privs s e) \<or> tl (ppool (privs s e)) = [] else stopped (privs s e)) \<and>
        locked (privs s' e) = locked (privs s e) \<and> rx_int_enabled (privs s' e) = rx_int_enabled (privs s e)) \<and>
     packets s' = (packets s)(p \<mapsto> k) \<and> received s' = received s"

text \<open>The state in which packet \<open>p\<close> has gone from the receive queue of \<open>d\<close> back to the pool of the other device.\<close>

definition returned :: "nat \<Rightarrow> nat \<Rightarrow> deth \<Rightarrow> deth \<Rightarrow> bool" where
  "returned d p s s' \<longleftrightarrow>
     (\<forall>e. ppool (privs s' e) = (if e = other d then p # ppool (privs s e) else ppool (privs s e)) \<and>
        rx_queue (privs s' e) = (if e = d then tl (rx_queue (privs s e)) else rx_queue (privs s e)) \<and>
        stopped (privs s' e) = (if e = other d then stopped (privs s e) \<and> ppool (privs s e) \<noteq> [] else stopped (privs s e)) \<and>
        locked (privs s' e) = locked (privs s e) \<and> rx_int_enabled (privs s' e) = rx_int_enabled (privs s e)) \<and>
     packets s' = packets s"

text \<open>The frame in a packet.\<close>

definition content :: "deth \<Rightarrow> nat \<Rightarrow> bytes" where
  "content s i = (case packets s i of None \<Rightarrow> [] | Some k \<Rightarrow> take (datalen k) (pk_data k))"

section \<open>Lemmas\<close>

lemma on_priv_simps [simp]:
  "privs (on_priv d f s) e = (if e = d then f (privs s e) else privs s e)" "packets (on_priv d f s) = packets s"
  "next_pkt (on_priv d f s) = next_pkt s" "freed (on_priv d f s) = freed s" "received (on_priv d f s) = received s"
  by (simp_all add: on_priv_def)

lemma unlock_simps [simp]:
  "privs (spin_unlock d s) e = (if e = d then (privs s e)\<lparr>locked := False\<rparr> else privs s e)" "packets (spin_unlock d s) = packets s"
  "received (spin_unlock d s) = received s"
  by (simp_all add: spin_unlock_def)

lemma lock_free: "\<not> locked (privs s d) \<Longrightarrow> spin_lock d s = Inr (on_priv d (locked_update (\<lambda>_. True)) s)"
  by (simp add: spin_lock_def)

lemma other_simps [simp]: "d < 2 \<Longrightarrow> other (other d) = d" "other d \<noteq> d" "other d < 2" "d \<noteq> other d"
  by (auto simp: other_def)

lemma same_lists_refl: "same_lists s s"
  by (simp add: same_lists_def)

lemma same_lists_trans: "same_lists s t \<Longrightarrow> same_lists t u \<Longrightarrow> same_lists s u"
  by (simp add: same_lists_def)

lemma inv_same: "same_lists s s' \<Longrightarrow> deth_inv n s \<Longrightarrow> deth_inv n s'"
  by (simp add: same_lists_def deth_inv_def own_def)

lemma inv_D:
  assumes "deth_inv n s" "d < 2"
  shows "\<not> locked (privs s d)" "rx_int_enabled (privs s d)" "length (own s d) = n" "distinct (own s d)"
    "ppool (privs s d) = [] \<Longrightarrow> stopped (privs s d)"
    "i \<in> set (own s d) \<Longrightarrow> \<exists>k. packets s i = Some k \<and> pk_dev k = d \<and> length (pk_data k) = ETH_DATA_LEN \<and> datalen k \<le> ETH_DATA_LEN"
  using assms by (simp_all add: deth_inv_def)

lemma interrupt_frame:
  assumes "\<not> locked (privs s d)"
  obtains s' where "deth_napi_interrupt d s = Inr s'" "same_lists s s'"
proof -
  have "\<exists>s'. deth_napi_interrupt d s = Inr s' \<and> same_lists s s'"
    using assms by (auto simp: deth_napi_interrupt_def lock_free Let_def same_lists_def split: option.splits)
  then show thesis using that by blast
qed

lemma padded_length: "ETH_ZLEN \<le> length (padded frame)" "length frame \<le> ETH_DATA_LEN \<Longrightarrow> length (padded frame) \<le> ETH_DATA_LEN"
  by (auto simp: padded_def ETH_ZLEN_def ETH_DATA_LEN_def)

lemma reserve_ok:
  assumes "\<not> locked (privs s d)" "ppool (privs s d) = p # rest"
  shows "deth_tx_reserve_buffer d s = Inr (Some p, spin_unlock d (on_priv d (\<lambda>r. r\<lparr>ppool := rest, locked := True, stopped := stopped r \<or> rest = []\<rparr>) s))"
  using assms by (auto simp: deth_tx_reserve_buffer_def lock_free Let_def netif_stop_queue_def on_priv_def spin_unlock_def)

lemma hw_tx_ok:
  assumes l: "\<And>e. e < 2 \<Longrightarrow> \<not> locked (privs s e)" "\<And>e. e < 2 \<Longrightarrow> rx_int_enabled (privs s e)" and d: "d < 2"
    and p: "ppool (privs s d) = p # rest" and k: "packets s p = Some k" "length (pk_data k) = ETH_DATA_LEN"
    and b: "ETH_ZLEN \<le> length buf" "length buf \<le> ETH_DATA_LEN"
  shows "\<exists>s'. deth_hw_tx 0 buf d s = Inr s' \<and> moved d p (k\<lparr>datalen := length buf, pk_data := buf @ drop (length buf) (pk_data k)\<rparr>) s s'"
proof -
  let ?k = "k\<lparr>datalen := length buf, pk_data := buf @ drop (length buf) (pk_data k)\<rparr>" and ?o = "other d"
  define s1 where "s1 = spin_unlock d (on_priv d (\<lambda>r. r\<lparr>ppool := rest, locked := True, stopped := stopped r \<or> rest = []\<rparr>) s)"
  have r: "deth_tx_reserve_buffer d s = Inr (Some p, s1)" unfolding s1_def by (rule reserve_ok [OF l(1) [OF d] p])
  define s2 where "s2 = s1\<lparr>packets := (packets s1)(p \<mapsto> ?k)\<rparr>"
  define s3 where "s3 = spin_unlock ?o (on_priv ?o (rx_queue_update (\<lambda>q. p # q)) (on_priv ?o (locked_update (\<lambda>_. True)) s2))"
  have lo: "\<not> locked (privs s ?o)" "rx_int_enabled (privs s ?o)" using l by simp_all
  have pr: "deth_rx_prod_buf ?o p s2 = Inr s3"
    using lo by (simp add: deth_rx_prod_buf_def lock_free s3_def s2_def s1_def)
  have e3: "rx_int_enabled (privs s3 ?o)" using lo by (simp add: s3_def s2_def s1_def)
  let ?s4 = "on_priv ?o (status_update (\<lambda>x. x OR DETH_RX_INTR)) s3"
  have "\<not> locked (privs ?s4 ?o)" by (simp add: s3_def)
  then obtain s5 where 5: "deth_napi_interrupt ?o ?s4 = Inr s5" "same_lists ?s4 s5" by (rule interrupt_frame)
  let ?s6 = "on_priv d (\<lambda>r. r\<lparr>tx_packetlen := length buf, status := status r OR DETH_TX_INTR\<rparr>) s5"
  have "\<not> locked (privs ?s6 d)"
    using 5(2) l(1) [OF d] by (simp add: same_lists_def s3_def s2_def s1_def)
  then obtain s7 where 7: "deth_napi_interrupt d ?s6 = Inr s7" "same_lists ?s6 s7" by (rule interrupt_frame)
  have g: "get_pkt s1 p = Inr k" using k by (simp add: get_pkt_def s1_def)
  have z: "60 \<le> length buf" using b(1) by (simp add: ETH_ZLEN_def)
  then have gp: "get16 buf 34 = Inr (ucast (buf ! 34) OR push_bit 8 (ucast (buf ! 35)))" "get16 buf 36 = Inr (ucast (buf ! 36) OR push_bit 8 (ucast (buf ! 37)))"
    by (simp_all add: get16_in)
  have "deth_hw_tx 0 buf d s = Inr s7"
    using z b(2) k(2) by (simp add: deth_hw_tx_def Let_def r g gp s2_def [symmetric] pr e3 5(1) 7(1))
  moreover have "same_lists s3 s5"
    using 5(2) by (simp add: same_lists_def)
  then have "same_lists s3 s7"
    using 7(2) by (simp add: same_lists_def)
  then have "moved d p ?k s s7"
    using p l d lo by (auto simp: same_lists_def moved_def s3_def s2_def s1_def)
  ultimately show ?thesis by blast
qed

lemma xmit_ok:
  assumes i: "deth_inv n s" and d: "d < 2" "\<not> stopped (privs s d)" and f: "length frame \<le> ETH_DATA_LEN"
  shows "\<exists>p k s'. deth_xmit 0 b frame d s = Inr s' \<and> ppool (privs s d) = p # tl (ppool (privs s d)) \<and>
    take (datalen k) (pk_data k) = padded frame \<and> datalen k = length (padded frame) \<and> length (pk_data k) = ETH_DATA_LEN \<and> pk_dev k = d \<and>
    moved d p k s s'"
proof -
  let ?s = "on_priv d (skb_update (\<lambda>_. Some b)) s" and ?f = "padded frame"
  have I: "\<not> locked (privs s e)" "rx_int_enabled (privs s e)" if "e < 2" for e using i that by (auto simp: deth_inv_def)
  have "ppool (privs s d) \<noteq> []" using i d by (auto simp: deth_inv_def)
  then obtain p rest where p: "ppool (privs s d) = p # rest" by (cases "ppool (privs s d)") auto
  then have "p \<in> set (own s d)" by (simp add: own_def)
  then obtain k where k: "packets s p = Some k" "pk_dev k = d" "length (pk_data k) = ETH_DATA_LEN"
    using inv_D(6) [OF i d(1)] by blast
  let ?k = "k\<lparr>datalen := length ?f, pk_data := ?f @ drop (length ?f) (pk_data k)\<rparr>"
  have "\<exists>s'. deth_hw_tx 0 ?f d ?s = Inr s' \<and> moved d p ?k ?s s'"
    by (rule hw_tx_ok) (use I p k d(1) padded_length f in auto)
  then obtain s' where s': "deth_hw_tx 0 ?f d ?s = Inr s'" "moved d p ?k ?s s'" by blast
  have "deth_xmit 0 b frame d s = Inr s'"
    using s'(1) by (auto simp: deth_xmit_def padded_def Let_def)
  moreover have "moved d p ?k s s'" using s'(2) by (auto simp: moved_def)
  moreover have "length (pk_data ?k) = ETH_DATA_LEN" using k(3) padded_length(2) [OF f] by simp
  ultimately show ?thesis using p k(2) by (intro exI [of _ p] exI [of _ ?k] exI [of _ s']) simp
qed

lemma moved_inv:
  assumes i: "deth_inv n s" and m: "moved d p k s s'" and d: "d < 2" and p: "ppool (privs s d) = p # rest"
    and k: "pk_dev k = d" "length (pk_data k) = ETH_DATA_LEN" "datalen k \<le> ETH_DATA_LEN"
  shows "deth_inv n s'"
proof -
  let ?o = "other d"
  have od: "own s d = p # rest @ rx_queue (privs s ?o)" "own s' d = rest @ p # rx_queue (privs s ?o)" "own s' ?o = own s ?o"
    using m p d by (simp_all add: own_def moved_def)
  have np: "p \<notin> set (own s ?o)"
  proof
    assume "p \<in> set (own s ?o)"
    then have "\<exists>j. packets s p = Some j \<and> pk_dev j = ?o" using inv_D(6) [OF i, of ?o] by auto
    moreover have "\<exists>j. packets s p = Some j \<and> pk_dev j = d" using inv_D(6) [OF i d, of p] od(1) by auto
    ultimately show False by auto
  qed
  show ?thesis
    unfolding deth_inv_def
  proof (intro allI impI)
    fix e :: nat assume e: "e < 2"
    then consider "e = d" | "e = ?o" using d by (auto simp: other_def less_2_cases_iff)
    then show "\<not> locked (privs s' e) \<and> rx_int_enabled (privs s' e) \<and> length (own s' e) = n \<and> distinct (own s' e) \<and>
     (ppool (privs s' e) = [] \<longrightarrow> stopped (privs s' e)) \<and>
     (\<forall>i \<in> set (own s' e). \<exists>k. packets s' i = Some k \<and> pk_dev k = e \<and> length (pk_data k) = ETH_DATA_LEN \<and> datalen k \<le> ETH_DATA_LEN)"
    proof cases
      case 1
      with inv_D [OF i e] od m p k show ?thesis by (auto simp: moved_def)
    next
      case 2
      with inv_D [OF i e] od m np show ?thesis by (auto simp: moved_def)
    qed
  qed
qed

lemma returned_inv:
  assumes i: "deth_inv n s" and m: "returned d p s s'" and d: "d < 2" and q: "rx_queue (privs s d) = p # rest"
  shows "deth_inv n s'"
proof -
  let ?o = "other d"
  have o: "own s ?o = ppool (privs s ?o) @ p # rest" "own s' ?o = p # ppool (privs s ?o) @ rest" "own s' d = own s d"
    using m q d by (simp_all add: own_def returned_def)
  show ?thesis
    unfolding deth_inv_def
  proof (intro allI impI)
    fix e :: nat assume e: "e < 2"
    then consider "e = d" | "e = ?o" using d by (auto simp: other_def less_2_cases_iff)
    then show "\<not> locked (privs s' e) \<and> rx_int_enabled (privs s' e) \<and> length (own s' e) = n \<and> distinct (own s' e) \<and>
     (ppool (privs s' e) = [] \<longrightarrow> stopped (privs s' e)) \<and>
     (\<forall>i \<in> set (own s' e). \<exists>k. packets s' i = Some k \<and> pk_dev k = e \<and> length (pk_data k) = ETH_DATA_LEN \<and> datalen k \<le> ETH_DATA_LEN)"
      using inv_D [OF i e] o m by cases (auto simp: returned_def)
  qed
qed

lemma release_ok:
  assumes "\<not> locked (privs s (pk_dev k))" "packets s p = Some k"
  shows "deth_tx_release_buffer p s = Inr (spin_unlock (pk_dev k) (on_priv (pk_dev k) (\<lambda>r. r\<lparr>ppool := p # ppool r, locked := True,
    stopped := stopped r \<and> ppool r \<noteq> []\<rparr>) s))"
  using assms by (cases "privs s (pk_dev k)") (auto simp: deth_tx_release_buffer_def get_pkt_def lock_free Let_def netif_wake_queue_def on_priv_def spin_unlock_def)

lemma poll_step:
  assumes i: "deth_inv n s" and d: "d < 2" and q: "rx_queue (privs s d) = p # rest"
  shows "\<exists>s'. deth_poll_loop alloc (Suc left) m d s = deth_poll_loop alloc left (Suc m) d s' \<and> returned d p s s' \<and>
    received s' = (if alloc m then (received s)(d := received s d @ [content s p]) else received s)"
proof -
  let ?o = "other d"
  have "p \<in> set (own s ?o)" using q d by (simp add: own_def)
  then obtain k where k: "packets s p = Some k" "pk_dev k = ?o" "length (pk_data k) = ETH_DATA_LEN" "datalen k \<le> ETH_DATA_LEN"
    using inv_D(6) [OF i, of ?o] by auto
  have l: "\<not> locked (privs s d)" "\<not> locked (privs s ?o)" using inv_D(1) [OF i] d by simp_all
  define s1 where "s1 = spin_unlock d (on_priv d (rx_queue_update (\<lambda>_. rest)) (on_priv d (locked_update (\<lambda>_. True)) s))"
  have c: "deth_rx_cons_buf d s = Inr (Some p, s1)"
    using l(1) q by (simp add: deth_rx_cons_buf_def lock_free s1_def)
  have g: "get_pkt s1 p = Inr k" using k by (simp add: get_pkt_def s1_def)
  define s2 where "s2 = (if alloc m then on_priv d (\<lambda>r. r\<lparr>rx_packets := rx_packets r + 1, rx_bytes := rx_bytes r + word_of_nat (datalen k)\<rparr>)
       (s1\<lparr>received := (received s1)(d := received s1 d @ [take (datalen k) (pk_data k)])\<rparr>)
     else on_priv d (\<lambda>r. r\<lparr>rx_dropped := rx_dropped r + 1\<rparr>) s1)"
  have l2: "\<not> locked (privs s2 (pk_dev k))" "packets s2 p = Some k" using l(2) k(1,2) by (simp_all add: s2_def s1_def)
  note rel = release_ok [OF l2]
  let ?s3 = "spin_unlock (pk_dev k) (on_priv (pk_dev k) (\<lambda>r. r\<lparr>ppool := p # ppool r, locked := True, stopped := stopped r \<and> ppool r \<noteq> []\<rparr>) s2)"
  have "deth_poll_loop alloc (Suc left) m d s = deth_poll_loop alloc left (Suc m) d ?s3"
  proof (cases "alloc m")
    case True
    then show ?thesis using rel q k by (simp add: c g s2_def Let_def)
  next
    case False
    then show ?thesis using rel q k by (simp add: c g s2_def)
  qed
  moreover have "returned d p s ?s3" using l k q by (auto simp: returned_def s2_def s1_def)
  moreover have "received ?s3 = (if alloc m then (received s)(d := received s d @ [content s p]) else received s)"
    using k(1) by (simp add: s2_def s1_def content_def)
  ultimately show ?thesis by blast
qed

lemma poll_loop_ok:
  assumes "deth_inv n s" and "d < 2"
  shows "\<exists>s'. deth_poll_loop alloc left m d s = Inr (m + min left (length (rx_queue (privs s d))), s') \<and> deth_inv n s' \<and>
    packets s' = packets s \<and> (\<forall>e. rx_queue (privs s' e) = (if e = d then drop left (rx_queue (privs s e)) else rx_queue (privs s e))) \<and>
    ((\<forall>i. alloc i) \<longrightarrow> received s' = (received s)(d := received s d @ map (content s) (take left (rx_queue (privs s d)))))"
  using assms
proof (induction left arbitrary: m s)
  case 0
  then show ?case by simp
next
  case (Suc left)
  show ?case
  proof (cases "rx_queue (privs s d)")
    case Nil
    with Suc.prems show ?thesis by auto
  next
    case (Cons p rest)
    obtain s1 where 1: "deth_poll_loop alloc (Suc left) m d s = deth_poll_loop alloc left (Suc m) d s1" "returned d p s s1"
      "received s1 = (if alloc m then (received s)(d := received s d @ [content s p]) else received s)"
      using poll_step [OF Suc.prems Cons] by blast
    have i1: "deth_inv n s1" by (rule returned_inv [OF Suc.prems(1) 1(2) Suc.prems(2) Cons])
    have q1: "rx_queue (privs s1 e) = (if e = d then rest else rx_queue (privs s e))" "packets s1 = packets s" for e
      using 1(2) Cons by (auto simp: returned_def)
    have c1: "content s1 = content s" using q1(2) by (simp add: content_def fun_eq_iff)
    have r1: "rx_queue (privs s1 d) = rest" using q1(1) by simp
    obtain s2 where 2: "deth_poll_loop alloc left (Suc m) d s1 = Inr (Suc m + min left (length rest), s2)" "deth_inv n s2"
      "packets s2 = packets s1" "\<forall>e. rx_queue (privs s2 e) = (if e = d then drop left (rx_queue (privs s1 e)) else rx_queue (privs s1 e))"
      "(\<forall>i. alloc i) \<longrightarrow> received s2 = (received s1)(d := received s1 d @ map (content s1) (take left rest))"
      using Suc.IH [OF i1 Suc.prems(2), of "Suc m"] unfolding r1 by blast
    have "\<forall>e. rx_queue (privs s2 e) = (if e = d then drop (Suc left) (rx_queue (privs s e)) else rx_queue (privs s e))"
      using 2(4) q1(1) Cons by simp
    moreover have "received s2 = (received s)(d := received s d @ map (content s) (take (Suc left) (rx_queue (privs s d))))" if "\<forall>i. alloc i"
      using 2(5) that 1(3) c1 Cons by (simp add: fun_eq_iff)
    ultimately show ?thesis
      using 1(1) 2(1-3) q1(2) Cons by (intro exI [of _ s2]) simp
  qed
qed

lemma poll_ok:
  assumes i: "deth_inv n s" and d: "d < 2"
  shows "\<exists>s'. deth_poll alloc d budget s = Inr (min budget (length (rx_queue (privs s d))), s') \<and> deth_inv n s' \<and>
    ((\<forall>i. alloc i) \<longrightarrow> received s' = (received s)(d := received s d @ map (content s) (take budget (rx_queue (privs s d)))))"
proof -
  obtain s1 where 1: "deth_poll_loop alloc budget 0 d s = Inr (min budget (length (rx_queue (privs s d))), s1)" "deth_inv n s1"
    "(\<forall>i. alloc i) \<longrightarrow> received s1 = (received s)(d := received s d @ map (content s) (take budget (rx_queue (privs s d))))"
    using poll_loop_ok [OF i d, of alloc budget 0] by auto
  let ?s2 = "spin_unlock d (on_priv d (scheduled_update (\<lambda>_. False)) (on_priv d (locked_update (\<lambda>_. True)) s1))"
  have l: "\<not> locked (privs s1 d)" using inv_D(1) [OF 1(2) d] .
  then have "same_lists s1 ?s2" by (simp add: same_lists_def)
  then have "deth_inv n ?s2" using inv_same 1(2) by blast
  with 1 l show ?thesis by (auto simp: deth_poll_def lock_free)
qed

lemma setup_loop:
  "privs (deth_setup_pool_loop n n d s) = (privs s)(d := (privs s d)\<lparr>ppool := rev [next_pkt s..<next_pkt s + n] @ ppool (privs s d)\<rparr>) \<and>
   next_pkt (deth_setup_pool_loop n n d s) = next_pkt s + n \<and>
   packets (deth_setup_pool_loop n n d s) i = (if next_pkt s \<le> i \<and> i < next_pkt s + n
     then Some \<lparr>pk_dev = d, datalen = 0, pk_data = replicate ETH_DATA_LEN 0\<rparr> else packets s i)"
proof (induction n arbitrary: s)
  case (Suc n)
  have "rev [next_pkt s..<next_pkt s + Suc n] = rev [Suc (next_pkt s)..<Suc (next_pkt s) + n] @ [next_pkt s]"
    by (simp add: upt_conv_Cons del: upt_Suc)
  with Suc show ?case by (auto simp: on_priv_def)
qed auto

lemma init_inv: "0 < n \<Longrightarrow> deth_inv n (snd (snd (deth_init_module n True True 0 0)))"
proof -
  assume n: "0 < n"
  let ?s0 = "deth_setup n n 0 no_deth" and ?s1 = "deth_setup n n 1 (deth_setup n n 0 no_deth)"
  let ?z = "zero_priv\<lparr>rx_int_enabled := True\<rparr>"
  define a where "a = on_priv 0 (ppool_update (\<lambda>_. [])) (deth_rx_ints 0 True (on_priv 0 (\<lambda>_. zero_priv) no_deth))"
  have a: "next_pkt a = 0" "privs a 0 = ?z" "packets a = Map.empty"
    by (simp_all add: a_def deth_rx_ints_def no_deth_def zero_priv_def)
  have e0: "?s0 = deth_setup_pool_loop n n 0 a" by (simp add: a_def deth_setup_def deth_setup_pool_def)
  note L0 = setup_loop [of n 0 a, folded e0, unfolded a]
  have p0: "privs ?s0 0 = ?z\<lparr>ppool := rev [0..<n]\<rparr>" "next_pkt ?s0 = n"
    "packets ?s0 i = (if i < n then Some \<lparr>pk_dev = 0, datalen = 0, pk_data = replicate ETH_DATA_LEN 0\<rparr> else None)" for i
    using L0 [of i] a(2) by (simp_all add: zero_priv_def)
  define b where "b = on_priv 1 (ppool_update (\<lambda>_. [])) (deth_rx_ints 1 True (on_priv 1 (\<lambda>_. zero_priv) ?s0))"
  have b: "next_pkt b = n" "privs b 1 = ?z" "privs b 0 = privs ?s0 0" "packets b = packets ?s0"
    using p0(2) by (simp_all add: b_def deth_rx_ints_def zero_priv_def)
  have e1: "?s1 = deth_setup_pool_loop n n 1 b" by (simp add: b_def deth_setup_def deth_setup_pool_def)
  note L1 = setup_loop [of n 1 b, folded e1, unfolded b]
  have p1: "privs ?s1 1 = ?z\<lparr>ppool := rev [n..<n + n]\<rparr>" "privs ?s1 0 = ?z\<lparr>ppool := rev [0..<n]\<rparr>"
    using L1 b(2,3) p0(1) by (simp_all add: zero_priv_def)
  have q1: "packets ?s1 i = (if i < n then Some \<lparr>pk_dev = 0, datalen = 0, pk_data = replicate ETH_DATA_LEN 0\<rparr>
      else if i < n + n then Some \<lparr>pk_dev = 1, datalen = 0, pk_data = replicate ETH_DATA_LEN 0\<rparr> else None)" for i
    using L1 [of i] p0(3) [of i] by simp
  have "deth_inv n ?s1"
    unfolding deth_inv_def own_def
  proof (intro allI impI)
    fix d :: nat assume "d < 2"
    then consider "d = 0" | "d = 1" by (auto simp: less_2_cases_iff)
    then show "\<not> locked (privs ?s1 d) \<and> rx_int_enabled (privs ?s1 d) \<and>
      length (ppool (privs ?s1 d) @ rx_queue (privs ?s1 (other d))) = n \<and> distinct (ppool (privs ?s1 d) @ rx_queue (privs ?s1 (other d))) \<and>
      (ppool (privs ?s1 d) = [] \<longrightarrow> stopped (privs ?s1 d)) \<and>
      (\<forall>i \<in> set (ppool (privs ?s1 d) @ rx_queue (privs ?s1 (other d))).
        \<exists>k. packets ?s1 i = Some k \<and> pk_dev k = d \<and> length (pk_data k) = ETH_DATA_LEN \<and> datalen k \<le> ETH_DATA_LEN)"
      using n by cases (auto simp: p1 q1 other_def zero_priv_def simp del: One_nat_def)
  qed
  then show ?thesis by (simp add: deth_init_module_def Let_def)
qed

lemma step_inv: "deth_step s s' \<Longrightarrow> deth_inv n s \<Longrightarrow> deth_inv n s'"
proof (induction rule: deth_step.induct)
  case (step_xmit d s frame b s')
  then obtain p k s'' where "deth_xmit 0 b frame d s = Inr s''" "ppool (privs s d) = p # tl (ppool (privs s d))"
    "datalen k = length (padded frame)" "length (pk_data k) = ETH_DATA_LEN" "pk_dev k = d" "moved d p k s s''"
    using xmit_ok by metis
  with step_xmit moved_inv padded_length(2) show ?case by (metis sum.inject(2))
next
  case (step_poll d alloc budget s k s')
  then show ?case using poll_ok [of n s d alloc budget] by auto
next
  case (step_stop d s)
  have "own (snd (deth_stop d s)) = own s" by (auto simp: own_def deth_stop_def netif_stop_queue_def)
  with step_stop show ?case by (auto simp: deth_stop_def netif_stop_queue_def deth_inv_def)
next
  case (step_open d s)
  have "own (snd (deth_open d s)) = own s" by (auto simp: own_def deth_open_def netif_wake_queue_def)
  with step_open show ?case by (auto simp: deth_open_def netif_wake_queue_def deth_inv_def)
qed

lemma reach_inv: "deth_step\<^sup>*\<^sup>* s s' \<Longrightarrow> deth_inv n s \<Longrightarrow> deth_inv n s'"
  by (induction rule: rtranclp_induct) (auto intro: step_inv)

lemma content_moved:
  assumes "moved d p k s s'" "i \<noteq> p"
  shows "content s' i = content s i"
  using assms by (simp add: moved_def content_def)

lemma reserve_empty:
  assumes "\<not> locked (privs s d)" "ppool (privs s d) = []"
  shows "deth_tx_reserve_buffer d s = Inr (None, on_priv d (locked_update (\<lambda>_. True)) s)"
  using assms by (simp add: deth_tx_reserve_buffer_def lock_free)

lemma xmit_padded: "deth_xmit 0 b frame d s = deth_hw_tx 0 (padded frame) d (on_priv d (skb_update (\<lambda>_. Some b)) s)"
  by (simp add: deth_xmit_def padded_def)

text \<open>A padded frame is long enough for the header reads: what is left is to reserve a packet.\<close>

lemma hw_tx_reserve:
  assumes b: "ETH_ZLEN \<le> length buf"
  shows "deth_tx_reserve_buffer d s = Inl x \<Longrightarrow> deth_hw_tx 0 buf d s = Inl x"
    and "deth_tx_reserve_buffer d s = Inr (None, s') \<Longrightarrow> deth_hw_tx 0 buf d s = Inr s'"
    and "deth_tx_reserve_buffer d s = Inr (Some p, s') \<Longrightarrow> get_pkt s' p = Inr k \<Longrightarrow> length (pk_data k) < length buf \<Longrightarrow>
      deth_hw_tx 0 buf d s = Inl OutOfBounds"
  using b by (simp_all add: deth_hw_tx_def Let_def get16_in ETH_ZLEN_def)

text \<open>Transmitting a frame, and polling it at the other device.\<close>

lemma xmit_polled:
  assumes i: "deth_inv n s" and d: "d < 2" "\<not> stopped (privs s d)" and f: "length frame \<le> ETH_DATA_LEN" and b: "0 < budget"
  shows "\<exists>s1 s2. deth_xmit 0 b frame d s = Inr s1 \<and>
    deth_poll (\<lambda>_. True) (other d) budget s1 = Inr (min budget (Suc (length (rx_queue (privs s (other d))))), s2) \<and>
    received s2 = (received s)(other d := received s (other d) @
      padded frame # map (content s) (take (budget - 1) (rx_queue (privs s (other d)))))"
proof -
  obtain p k s1 where 1: "deth_xmit 0 b frame d s = Inr s1" "ppool (privs s d) = p # tl (ppool (privs s d))"
    "take (datalen k) (pk_data k) = padded frame" "datalen k = length (padded frame)" "length (pk_data k) = ETH_DATA_LEN"
    "pk_dev k = d" and m: "moved d p k s s1"
    using xmit_ok [OF i d f, of b] by blast
  have "p \<in> set (ppool (privs s d))" using 1(2) by (metis list.set_intros(1))
  then have np: "p \<notin> set (rx_queue (privs s (other d)))" using inv_D(4) [OF i d(1)] by (auto simp: own_def)
  have o: "other d < 2" by (simp add: other_def)
  have i1: "deth_inv n s1" using step_inv [OF step_xmit [OF d f 1(1)] i] .
  have q: "rx_queue (privs s1 (other d)) = p # rx_queue (privs s (other d))" "received s1 = received s" "content s1 p = padded frame"
    using m 1(3) by (auto simp: moved_def content_def)
  have c: "map (content s1) (take m (rx_queue (privs s (other d)))) = map (content s) (take m (rx_queue (privs s (other d))))" for m
    using content_moved [OF m] np by (intro map_cong refl) (metis in_set_takeD)
  show ?thesis using poll_ok [OF i1 o, of "\<lambda>_. True" budget] 1(1) q c b by (cases budget) auto
qed

section \<open>Properties\<close>



text \<open>
  C12. A frame that is transmitted, padded with zeros to the minimum length, is what the other device hands up first
  when it polls next. Frames that were waiting come after it, newest first, as far as the budget goes: the receive
  queue is a stack.
\<close>

theorem deth_delivers:
  assumes i: "deth_inv n s" and d: "d < 2" "\<not> stopped (privs s d)" and f: "length frame \<le> ETH_DATA_LEN" and b: "0 < budget"
  shows "\<exists>s1 s2. deth_xmit 0 b frame d s = Inr s1 \<and>
    deth_poll (\<lambda>_. True) (other d) budget s1 = Inr (min budget (Suc (length (rx_queue (privs s (other d))))), s2) \<and>
    received s2 = (received s)(other d := received s (other d) @
      padded frame # map (content s) (take (budget - 1) (rx_queue (privs s (other d)))))"
  using xmit_polled [OF assms] .

theorem deth_delivers_witness:
  "\<exists>s1 s2. deth_xmit 0 7 [1, 2] 0 (snd (snd (deth_init_module 2 True True 0 0))) = Inr s1 \<and>
    deth_poll (\<lambda>_. True) 1 4 s1 = Inr (1, s2) \<and> received s2 1 = [padded [1, 2]]"
proof -
  let ?s = "snd (snd (deth_init_module 2 True True 0 0))"
  have "deth_inv 2 ?s" by (rule init_inv) simp
  moreover have "\<not> stopped (privs ?s 0)" "rx_queue (privs ?s (other 0)) = []" "received ?s 1 = []" "other 0 = 1" by code_simp+
  ultimately show ?thesis using deth_delivers [of 2 ?s 0 "[1, 2]" 4 7] by (force simp: ETH_DATA_LEN_def)
qed

text \<open>
  Opening a device whose pool is empty starts its queue. The next transmission then returns with the lock still held
  and nothing sent; after that transmitting, the interrupt and giving back any packet of the device deadlock. And a
  frame of more than \<open>ETH_DATA_LEN\<close> bytes is copied past the end of the packet.
\<close>

lemma deth_faults:
  assumes i: "deth_inv n s" and d: "d < 2"
  shows "(ppool (privs s d) = [] \<longrightarrow> (\<exists>s'. deth_xmit 0 b frame d (snd (deth_open d s)) = Inr s' \<and> received s' = received s \<and>
      deth_xmit 0 b' frame' d s' = Inl DeadLock \<and> deth_napi_interrupt d s' = Inl DeadLock \<and>
      (\<forall>p \<in> set (rx_queue (privs s (other d))). deth_tx_release_buffer p s' = Inl DeadLock))) \<and>
    (\<not> stopped (privs s d) \<and> ETH_DATA_LEN < length frame \<longrightarrow> deth_xmit 0 b frame d s = Inl OutOfBounds)"
proof (intro conjI impI)
  let ?s = "on_priv d (skb_update (\<lambda>_. Some b)) (snd (deth_open d s))"
  let ?t = "on_priv d (locked_update (\<lambda>_. True)) ?s"
  assume e: "ppool (privs s d) = []"
  have p: "privs ?s d = (privs s d)\<lparr>stopped := False, skb := Some b\<rparr>" "packets ?s = packets s" "received ?s = received s"
    by (simp_all add: deth_open_def netif_wake_queue_def)
  have "deth_tx_reserve_buffer d ?s = Inr (None, ?t)" by (rule reserve_empty) (simp_all only: p, simp_all add: inv_D(1) [OF i d] e)
  then have 1: "deth_xmit 0 b frame d (snd (deth_open d s)) = Inr ?t"
    using hw_tx_reserve [OF padded_length(1)] by (simp add: xmit_padded)
  have 2: "deth_xmit 0 b' frame' d ?t = Inl DeadLock"
    using hw_tx_reserve [OF padded_length(1)] by (simp add: xmit_padded deth_tx_reserve_buffer_def spin_lock_def)
  have 3: "deth_tx_release_buffer q ?t = Inl DeadLock" if "q \<in> set (rx_queue (privs s (other d)))" for q
  proof -
    have "q \<in> set (own s d)" using that by (simp add: own_def)
    then obtain k where "packets s q = Some k" "pk_dev k = d" using inv_D(6) [OF i d] by blast
    then show ?thesis using p(2) by (simp add: deth_tx_release_buffer_def get_pkt_def spin_lock_def)
  qed
  show "\<exists>s'. deth_xmit 0 b frame d (snd (deth_open d s)) = Inr s' \<and> received s' = received s \<and>
      deth_xmit 0 b' frame' d s' = Inl DeadLock \<and> deth_napi_interrupt d s' = Inl DeadLock \<and>
      (\<forall>p \<in> set (rx_queue (privs s (other d))). deth_tx_release_buffer p s' = Inl DeadLock)"
    using 1 2 3 p(3) by (intro exI [of _ ?t]) (simp add: deth_napi_interrupt_def spin_lock_def)
next
  assume a: "\<not> stopped (privs s d) \<and> ETH_DATA_LEN < length frame"
  let ?s = "on_priv d (skb_update (\<lambda>_. Some b)) s"
  obtain p rest where p: "ppool (privs s d) = p # rest" using inv_D(5) [OF i d] a by (cases "ppool (privs s d)") auto
  then have "p \<in> set (own s d)" by (simp add: own_def)
  then obtain k where k: "packets s p = Some k" "length (pk_data k) = ETH_DATA_LEN" using inv_D(6) [OF i d] by blast
  have "deth_tx_reserve_buffer d ?s = Inr (Some p, spin_unlock d (on_priv d (\<lambda>r. r\<lparr>ppool := rest, locked := True, stopped := stopped r \<or> rest = []\<rparr>) ?s))"
    by (rule reserve_ok) (simp_all add: p inv_D(1) [OF i d])
  then show "deth_xmit 0 b frame d s = Inl OutOfBounds"
    using hw_tx_reserve(3) [OF padded_length(1) [of frame], of d ?s p] a k by (simp add: xmit_padded padded_def get_pkt_def)
qed

theorem deth_faults_witness:
  "\<exists>s s'. deth_xmit 0 7 [1, 2] 0 (snd (snd (deth_init_module 1 True True 0 0))) = Inr s \<and>
    deth_xmit 0 8 [3] 0 (snd (deth_open 0 s)) = Inr s' \<and> deth_xmit 0 9 [4] 0 s' = Inl DeadLock"
proof -
  let ?s = "snd (snd (deth_init_module 1 True True 0 0))"
  have i: "deth_inv 1 ?s" by (rule init_inv) simp
  have q: "\<not> stopped (privs ?s 0)" "ppool (privs ?s 0) = [0]" by code_simp+
  obtain p k s where 1: "deth_xmit 0 7 [1, 2] 0 ?s = Inr s" and m: "moved 0 p k ?s s"
    using xmit_ok [OF i _ q(1), of "[1, 2]" 7] by (auto simp: ETH_DATA_LEN_def)
  have "deth_inv 1 s" using step_inv [OF step_xmit [OF _ q(1) _ 1] i] by (simp add: ETH_DATA_LEN_def)
  moreover have "ppool (privs s 0) = []" using m q(2) by (simp add: moved_def)
  ultimately show ?thesis using 1 deth_faults [of 1 s 0 8 "[3]" 9 "[4]"] by auto
qed

end
