(* ===== verification/Bpool.thy ===== *)
theory Bpool
  imports Prelude
begin

text \<open>
  The buffer pool and the buffer caches of \<open>dev-net-ebpf-xdp/xsk/af_rxtx.c\<close>. The pool hands out packet buffers in
  slabs of \<open>n_buffers_per_slab\<close> buffers; a cache has one slab it takes buffers from and one it gives buffers back to, and
  trades empty slabs for full ones with the pool. A pointer to a slab is the number of the slab, \<open>slab_mem\<close> has the
  contents of the slabs, and an access outside a slab is a fault. The functions hold the mutex of the pool whenever
  they touch it, so that each is one step.
\<close>

section \<open>\<open>af-rxtx-core.h\<close>\<close>

record bpool_params =
  p_n_buffers :: u32
  p_buffer_size :: u32
  p_n_users_max :: u32
  p_n_buffers_per_slab :: u32

record bpool =
  bp_params :: bpool_params
  slabs :: "nat list"
  slabs_reserved :: "nat list"
  slab_mem :: "nat \<Rightarrow> u64 list"
  n_slabs_available :: nat
  n_slabs_reserved_available :: nat
  map_size :: nat
  umem_size :: u32

record bcache =
  slab_cons :: nat
  slab_prod :: nat
  n_buffers_cons :: nat
  n_buffers_prod :: nat

section \<open>The pool\<close>

text \<open>What \<open>bpool_init\<close> acquires, and which of the calls it makes succeed.\<close>

datatype resource = RMem | RLock | RMap | RUmem

record init_env =
  rlimit_ok :: bool
  calloc_ok :: bool
  lock_ok :: bool
  mmap_ok :: bool
  umem_ok :: bool

definition release :: "resource list \<Rightarrow> resource list \<Rightarrow> resource list" where
  "release rs held = filter (\<lambda>r. r \<notin> set rs) held"

text \<open>The slabs are numbered: first those of \<open>buffers\<close>, then those of \<open>buffers_reserved\<close>. The memory comes from
  \<open>calloc\<close>. The size of the memory that is mapped is a 64-bit product, that of the UMEM a 32-bit product.\<close>

definition bpool_init :: "init_env \<Rightarrow> bpool_params \<Rightarrow> (resource list \<times> bpool option) res" where
  "bpool_init env params =
     (let per = p_n_buffers_per_slab params in
      if \<not> rlimit_ok env then Inr ([], None)
      else if per = 0 then Inl DivByZero
      else
        let n_slabs = unat ((p_n_buffers params + per - 1) div per);
            n_slabs_reserved = unat (p_n_users_max params * 2);
            n_buffers = n_slabs * unat per
        in if \<not> calloc_ok env then Inr ([], None)
        else
          let held = [RMem];
              bp = \<lparr>bp_params = params\<lparr>p_n_buffers := word_of_nat n_buffers\<rparr>,
                slabs = [0..<n_slabs],
                slabs_reserved = [n_slabs..<n_slabs + n_slabs_reserved],
                slab_mem = (\<lambda>s. if s < n_slabs then map (\<lambda>j. word_of_nat (s * unat per + j) * ucast (p_buffer_size params)) [0..<unat per]
                                else replicate (unat per) 0),
                n_slabs_available = n_slabs,
                n_slabs_reserved_available = n_slabs_reserved,
                map_size = n_buffers * unat (p_buffer_size params),
                umem_size = word_of_nat n_buffers * p_buffer_size params\<rparr>
          in if \<not> lock_ok env then Inr (release [RMem] held, None)
          else let held = RLock # held in
          if \<not> mmap_ok env then Inr (release [RLock, RMem] held, None)
          else let held = RMap # held in
          if \<not> umem_ok env then Inr (release [RMap, RLock, RMem] held, None)
          else Inr (RUmem # held, Some bp))"

definition bpool_free :: "bpool option \<Rightarrow> resource list \<Rightarrow> resource list" where
  "bpool_free bp held = (case bp of None \<Rightarrow> held | Some _ \<Rightarrow> release [RUmem, RMap, RLock, RMem] held)"

section \<open>The caches\<close>

definition bcache_slab_size :: "bpool \<Rightarrow> nat" where
  "bcache_slab_size bp = unat (p_n_buffers_per_slab (bp_params bp))"

text \<open>Subtraction of 64-bit numbers.\<close>

definition sub64 :: "nat \<Rightarrow> nat \<Rightarrow> nat" where
  "sub64 n k = (if k \<le> n then n - k else 2 ^ 64 + n - k)"

definition bcache_init :: "bool \<Rightarrow> bpool \<Rightarrow> (bcache option \<times> bpool) res" where
  "bcache_init calloc bp =
     (if \<not> calloc then Inr (None, bp)
      else let n = n_slabs_reserved_available bp in
      if n = 0 then Inr (None, bp)
      else bindR (arr_get (slabs_reserved bp) (sub64 n 1)) (\<lambda>cons.
           bindR (arr_get (slabs_reserved bp) (sub64 n 2)) (\<lambda>prod.
           Inr (Some \<lparr>slab_cons = cons, slab_prod = prod, n_buffers_cons = 0, n_buffers_prod = 0\<rparr>,
                bp\<lparr>n_slabs_reserved_available := sub64 n 2\<rparr>))))"

definition bcache_free :: "bcache option \<Rightarrow> bpool \<Rightarrow> bpool res" where
  "bcache_free bc bp =
     (case bc of None \<Rightarrow> Inr bp
      | Some c \<Rightarrow> let n = n_slabs_reserved_available bp in
          bindR (arr_set (slabs_reserved bp) n (slab_prod c)) (\<lambda>r.
          bindR (arr_set r (n + 1) (slab_cons c)) (\<lambda>r.
          Inr (bp\<lparr>slabs_reserved := r, n_slabs_reserved_available := n + 2\<rparr>))))"

definition bcache_cons_check :: "bcache \<Rightarrow> nat \<Rightarrow> bpool \<Rightarrow> (nat \<times> bcache \<times> bpool) res" where
  "bcache_cons_check bc n_buffers bp =
     (if n_buffers_cons bc \<noteq> 0 then Inr (if n_buffers_cons bc < n_buffers then n_buffers_cons bc else n_buffers, bc, bp)
      else if n_slabs_available bp = 0 then Inr (0, bc, bp)
      else let n = n_slabs_available bp - 1 in
        bindR (arr_get (slabs bp) n) (\<lambda>slab_full.
        bindR (arr_set (slabs bp) n (slab_cons bc)) (\<lambda>sl.
        Inr (n_buffers, bc\<lparr>slab_cons := slab_full, n_buffers_cons := bcache_slab_size bp\<rparr>,
             bp\<lparr>slabs := sl, n_slabs_available := n\<rparr>))))"

definition bcache_cons :: "bcache \<Rightarrow> bpool \<Rightarrow> (u64 \<times> bcache) res" where
  "bcache_cons bc bp =
     (let n = sub64 (n_buffers_cons bc) 1 in
      bindR (arr_get (slab_mem bp (slab_cons bc)) n) (\<lambda>buffer. Inr (buffer, bc\<lparr>n_buffers_cons := n\<rparr>)))"

definition bcache_prod :: "u64 \<Rightarrow> bcache \<Rightarrow> bpool \<Rightarrow> (bcache \<times> bpool) res" where
  "bcache_prod buffer bc bp =
     (let n = n_buffers_prod bc in
      if n < bcache_slab_size bp then
        bindR (arr_set (slab_mem bp (slab_prod bc)) n buffer) (\<lambda>s.
        Inr (bc\<lparr>n_buffers_prod := n + 1\<rparr>, bp\<lparr>slab_mem := (slab_mem bp)(slab_prod bc := s)\<rparr>))
      else let a = n_slabs_available bp in
        bindR (arr_get (slabs bp) a) (\<lambda>slab_empty.
        bindR (arr_set (slabs bp) a (slab_prod bc)) (\<lambda>sl.
        bindR (arr_set (slab_mem bp slab_empty) 0 buffer) (\<lambda>s.
        Inr (bc\<lparr>slab_prod := slab_empty, n_buffers_prod := 1\<rparr>,
             bp\<lparr>slabs := sl, slab_mem := (slab_mem bp)(slab_empty := s), n_slabs_available := a + 1\<rparr>)))))"

section \<open>Specification\<close>

text \<open>The buffers in the pool and in a cache: of the slabs of the pool the first \<open>n_slabs_available\<close> are full, the
  others empty.\<close>

definition pool_bufs :: "bpool \<Rightarrow> u64 list" where
  "pool_bufs bp = concat (map (slab_mem bp) (take (n_slabs_available bp) (slabs bp)))"

definition cache_bufs :: "bpool \<Rightarrow> bcache \<Rightarrow> u64 list" where
  "cache_bufs bp c = take (n_buffers_cons c) (slab_mem bp (slab_cons c)) @ take (n_buffers_prod c) (slab_mem bp (slab_prod c))"

definition bufs :: "bpool \<Rightarrow> bcache list \<Rightarrow> u64 multiset" where
  "bufs bp cs = mset (pool_bufs bp) + mset (concat (map (cache_bufs bp) cs))"

definition all_slabs :: "bpool \<Rightarrow> bcache list \<Rightarrow> nat list" where
  "all_slabs bp cs = slabs bp @ take (n_slabs_reserved_available bp) (slabs_reserved bp) @ map slab_cons cs @ map slab_prod cs"

text \<open>Every slab is in one place and has room for \<open>per\<close> buffers, and the counters are in range.\<close>

definition pool_wf :: "nat \<Rightarrow> bpool \<Rightarrow> bcache list \<Rightarrow> bool" where
  "pool_wf per bp cs \<longleftrightarrow> 0 < per \<and> bcache_slab_size bp = per \<and> distinct (all_slabs bp cs) \<and>
     (\<forall>i \<in> set (all_slabs bp cs). length (slab_mem bp i) = per) \<and> n_slabs_available bp \<le> length (slabs bp) \<and>
     n_slabs_reserved_available bp \<le> length (slabs_reserved bp) \<and> even (n_slabs_reserved_available bp) \<and>
     length (slabs_reserved bp) = n_slabs_reserved_available bp + 2 * length cs \<and>
     (\<forall>c \<in> set cs. n_buffers_cons c \<le> per \<and> n_buffers_prod c \<le> per)"

definition all_ok :: init_env where
  "all_ok = \<lparr>rlimit_ok = True, calloc_ok = True, lock_ok = True, mmap_ok = True, umem_ok = True\<rparr>"

text \<open>All the buffers of a pool: their offsets in the memory area.\<close>

definition the_bufs :: "bpool_params \<Rightarrow> nat \<Rightarrow> u64 list" where
  "the_bufs params n = map (\<lambda>i. word_of_nat i * ucast (p_buffer_size params)) [0..<n]"

section \<open>Lemmas\<close>

lemma cache_bufs_slabs [simp]:
  "cache_bufs (bp\<lparr>slabs := x, n_slabs_available := y\<rparr>) = cache_bufs bp" "cache_bufs (bp\<lparr>n_slabs_reserved_available := y\<rparr>) = cache_bufs bp"
  by (auto simp: cache_bufs_def)

lemma size_bufs: "size (bufs bp cs) = length (pool_bufs bp) + (\<Sum>c\<leftarrow>cs. length (cache_bufs bp c))"
  by (simp add: bufs_def length_concat comp_def)

lemma pool_size:
  assumes "pool_wf per bp cs"
  shows "length (pool_bufs bp) = n_slabs_available bp * per"
proof -
  have "\<forall>i \<in> set (take (n_slabs_available bp) (slabs bp)). length (slab_mem bp i) = per"
    using assms by (auto simp: pool_wf_def all_slabs_def dest: in_set_takeD)
  then have "map (length \<circ> slab_mem bp) (take (n_slabs_available bp) (slabs bp)) = replicate (n_slabs_available bp) per"
    using assms by (intro replicate_eqI) (auto simp: pool_wf_def)
  then show ?thesis by (simp add: pool_bufs_def length_concat sum_list_replicate)
qed

lemma cons_check_ok:
  assumes w: "pool_wf per bp (as @ c # bs)" and n: "n \<le> per"
  shows "\<exists>k c' bp'. bcache_cons_check c n bp = Inr (k, c', bp') \<and> pool_wf per bp' (as @ c' # bs) \<and>
    bufs bp' (as @ c' # bs) = bufs bp (as @ c # bs) \<and> k \<le> n_buffers_cons c' \<and> k \<le> n \<and>
    length (slabs bp') = length (slabs bp) \<and> n_slabs_reserved_available bp' = n_slabs_reserved_available bp \<and>
    (n_buffers_cons c = 0 \<and> 0 < n_slabs_available bp \<longrightarrow> k = n \<and> n_slabs_available bp' = n_slabs_available bp - 1)"
proof -
  let ?a = "n_slabs_available bp"
  consider "n_buffers_cons c \<noteq> 0" | "n_buffers_cons c = 0" "?a = 0" | "n_buffers_cons c = 0" "?a \<noteq> 0" by blast
  then show ?thesis
  proof cases
    case 1
    then show ?thesis using w by (intro exI [of _ "min (n_buffers_cons c) n"] exI [of _ c] exI [of _ bp]) (auto simp: bcache_cons_check_def)
  next
    case 2
    then show ?thesis using w by (intro exI [of _ 0] exI [of _ c] exI [of _ bp]) (auto simp: bcache_cons_check_def)
  next
    case 3
    let ?f = "slabs bp ! (?a - 1)"
    let ?bp = "bp\<lparr>slabs := (slabs bp)[?a - 1 := slab_cons c], n_slabs_available := ?a - 1\<rparr>"
    let ?c = "c\<lparr>slab_cons := ?f, n_buffers_cons := per\<rparr>"
    have a: "?a - 1 < length (slabs bp)" using 3 w by (auto simp: pool_wf_def)
    have r: "bcache_cons_check c n bp = Inr (n, ?c, ?bp)"
      using 3 a w by (simp add: bcache_cons_check_def Let_def pool_wf_def)
    have p: "mset (all_slabs ?bp (as @ ?c # bs)) = mset (all_slabs bp (as @ c # bs))"
      using a by (simp add: all_slabs_def mset_update)
    have t: "take ?a (slabs bp) = take (?a - 1) (slabs bp) @ [?f]"
      using 3 a take_Suc_conv_app_nth [of "?a - 1" "slabs bp"] by simp
    have l: "length (slab_mem bp ?f) = per" using w a by (auto simp: pool_wf_def all_slabs_def)
    have "pool_wf per ?bp (as @ ?c # bs)"
      using w p a mset_eq_imp_distinct_iff [OF p] mset_eq_setD [OF p] by (auto simp: pool_wf_def bcache_slab_size_def)
    moreover have "bufs ?bp (as @ ?c # bs) = bufs bp (as @ c # bs)"
      using 3 t l by (simp add: bufs_def pool_bufs_def cache_bufs_def)
    ultimately show ?thesis using r n by (intro exI [of _ n] exI [of _ ?c] exI [of _ ?bp]) auto
  qed
qed

lemma cons_ok:
  assumes w: "pool_wf per bp (as @ c # bs)" and n: "0 < n_buffers_cons c"
  shows "\<exists>b c'. bcache_cons c bp = Inr (b, c') \<and> pool_wf per bp (as @ c' # bs) \<and>
    add_mset b (bufs bp (as @ c' # bs)) = bufs bp (as @ c # bs) \<and> n_buffers_cons c' = n_buffers_cons c - 1"
proof -
  let ?n = "n_buffers_cons c - 1" and ?s = "slab_mem bp (slab_cons c)"
  let ?c = "c\<lparr>n_buffers_cons := ?n\<rparr>"
  have l: "?n < length ?s" using w n by (auto simp: pool_wf_def all_slabs_def)
  have r: "bcache_cons c bp = Inr (?s ! ?n, ?c)" using n l by (simp add: bcache_cons_def sub64_def Let_def)
  have "take (n_buffers_cons c) ?s = take ?n ?s @ [?s ! ?n]" using n l take_Suc_conv_app_nth [of ?n ?s] by simp
  then have "add_mset (?s ! ?n) (bufs bp (as @ ?c # bs)) = bufs bp (as @ c # bs)"
    by (simp add: bufs_def cache_bufs_def)
  moreover have "pool_wf per bp (as @ ?c # bs)" using w by (auto simp: pool_wf_def all_slabs_def)
  ultimately show ?thesis using r by (intro exI [of _ "?s ! ?n"] exI [of _ ?c]) simp
qed

text \<open>Writing to a slab changes only the buffers of its owner.\<close>

lemma mem_other:
  assumes "s \<notin> set (take (n_slabs_available bp) (slabs bp))"
  shows "concat (map ((slab_mem bp)(s := x)) (take (n_slabs_available bp) (slabs bp))) = pool_bufs bp"
  using assms by (auto simp: pool_bufs_def intro!: arg_cong [where f = concat])

lemma caches_other:
  assumes "\<And>c. c \<in> set cs \<Longrightarrow> slab_cons c \<noteq> s \<and> slab_prod c \<noteq> s"
  shows "map (cache_bufs (bp\<lparr>slabs := y, slab_mem := (slab_mem bp)(s := x), n_slabs_available := z\<rparr>)) cs = map (cache_bufs bp) cs"
    "map (cache_bufs (bp\<lparr>slab_mem := (slab_mem bp)(s := x)\<rparr>)) cs = map (cache_bufs bp) cs"
  using assms by (auto simp: cache_bufs_def)

lemma nth_notin_take: "distinct xs \<Longrightarrow> i < length xs \<Longrightarrow> xs ! i \<notin> set (take i xs)"
  using id_take_nth_drop [of i xs] distinct_append [of "take i xs" "xs ! i # drop (Suc i) xs"] by auto

lemma slab_D:
  assumes "pool_wf per bp (as @ c # bs)"
  shows "0 < per" "bcache_slab_size bp = per" "n_slabs_available bp \<le> length (slabs bp)" "n_buffers_prod c \<le> per" "n_buffers_cons c \<le> per"
    "length (slab_mem bp (slab_prod c)) = per" "length (slab_mem bp (slab_cons c)) = per"
    "i \<in> set (slabs bp) \<Longrightarrow> length (slab_mem bp i) = per"
  using assms by (auto simp: pool_wf_def all_slabs_def)

lemma slab_distinct:
  assumes "pool_wf per bp (as @ c # bs)"
  shows "slab_prod c \<notin> set (slabs bp)" "slab_cons c \<notin> set (slabs bp)" "slab_cons c \<noteq> slab_prod c" "distinct (slabs bp)"
    "e \<in> set as \<or> e \<in> set bs \<Longrightarrow> slab_cons e \<noteq> slab_prod c \<and> slab_prod e \<noteq> slab_prod c \<and> slab_cons e \<notin> set (slabs bp) \<and> slab_prod e \<notin> set (slabs bp)"
proof -
  let ?C = "map slab_cons (as @ c # bs)" and ?P = "map slab_prod (as @ c # bs)"
  have "distinct (all_slabs bp (as @ c # bs))" using assms by (simp add: pool_wf_def)
  then have d: "distinct (slabs bp)" "set (slabs bp) \<inter> (set ?C \<union> set ?P) = {}" "distinct ?P" "set ?C \<inter> set ?P = {}"
    by (simp_all only: all_slabs_def distinct_append set_append) blast+
  have o: "x \<notin> set (slabs bp)" if "x \<in> set ?C \<union> set ?P" for x using d(2) that by blast
  have m: "f e \<in> set (map f (as @ c # bs))" if "e = c \<or> e \<in> set as \<or> e \<in> set bs" for e and f :: "bcache \<Rightarrow> nat"
    using that by (elim disjE) simp_all
  show "slab_prod c \<notin> set (slabs bp)" "slab_cons c \<notin> set (slabs bp)" "distinct (slabs bp)"
    using o [of "slab_prod c"] o [of "slab_cons c"] m [of c] d(1) by simp_all
  show "slab_cons c \<noteq> slab_prod c" using d(4) m [of c slab_cons] m [of c slab_prod] by (metis disjoint_iff)
  assume e: "e \<in> set as \<or> e \<in> set bs"
  have "slab_prod c \<notin> slab_prod ` (set as \<union> set bs)" using d(3) by auto
  then have "slab_prod e \<noteq> slab_prod c" using e by (metis UnI1 UnI2 image_eqI)
  moreover have "slab_cons e \<noteq> slab_prod c" using d(4) m [of e slab_cons] m [of c slab_prod] e by (metis disjoint_iff)
  moreover have "slab_cons e \<notin> set (slabs bp)" "slab_prod e \<notin> set (slabs bp)" using e m [of e] o by blast+
  ultimately show "slab_cons e \<noteq> slab_prod c \<and> slab_prod e \<noteq> slab_prod c \<and> slab_cons e \<notin> set (slabs bp) \<and> slab_prod e \<notin> set (slabs bp)"
    by blast
qed

lemma prod_room:
  assumes w: "pool_wf per bp (as @ c # bs)" and n: "n_buffers_prod c < per"
  shows "\<exists>c' bp'. bcache_prod b c bp = Inr (c', bp') \<and> pool_wf per bp' (as @ c' # bs) \<and>
    bufs bp' (as @ c' # bs) = add_mset b (bufs bp (as @ c # bs)) \<and> length (slabs bp') = length (slabs bp)"
proof -
  let ?p = "slab_prod c" and ?n = "n_buffers_prod c"
  define s where "s = (slab_mem bp ?p)[?n := b]"
  define c' where "c' = c\<lparr>n_buffers_prod := ?n + 1\<rparr>"
  define bp' where "bp' = bp\<lparr>slab_mem := (slab_mem bp)(?p := s)\<rparr>"
  note D = slab_D [OF w] and d = slab_distinct [OF w]
  have r: "bcache_prod b c bp = Inr (c', bp')" using n D(2,6) by (simp add: bcache_prod_def Let_def c'_def bp'_def s_def)
  have al: "all_slabs bp' (as @ c' # bs) = all_slabs bp (as @ c # bs)" by (simp add: all_slabs_def bp'_def c'_def)
  have "length (slab_mem bp' i) = length (slab_mem bp i)" for i by (simp add: bp'_def s_def)
  then have wf: "pool_wf per bp' (as @ c' # bs)"
    using w n unfolding pool_wf_def al by (auto simp: bp'_def c'_def bcache_slab_size_def)
  have "?p \<notin> set (take (n_slabs_available bp) (slabs bp))" using d(1) by (auto dest: in_set_takeD)
  then have 1: "pool_bufs bp' = pool_bufs bp" using mem_other [of ?p bp s] by (simp add: pool_bufs_def bp'_def)
  have 2: "map (cache_bufs bp') as = map (cache_bufs bp) as" "map (cache_bufs bp') bs = map (cache_bufs bp) bs"
    unfolding bp'_def by (rule caches_other(2), use d(5) in blast)+
  have "take (?n + 1) s = take ?n (slab_mem bp ?p) @ [b]" using n D(6) by (simp add: s_def take_Suc_conv_app_nth)
  then have 3: "cache_bufs bp' c' = cache_bufs bp c @ [b]" using d(3) by (simp add: cache_bufs_def bp'_def c'_def)
  have "bufs bp' (as @ c' # bs) = add_mset b (bufs bp (as @ c # bs))" by (simp add: bufs_def 1 2 3)
  then show ?thesis using r wf by (intro exI [of _ c'] exI [of _ bp']) (simp add: bp'_def)
qed

text \<open>When the slab is full there is an empty one in the pool, since not all buffers can be in full slabs of the pool.\<close>

lemma prod_trade:
  assumes w: "pool_wf per bp (as @ c # bs)" and room: "size (bufs bp (as @ c # bs)) < length (slabs bp) * per"
    and n: "\<not> n_buffers_prod c < per"
  shows "\<exists>c' bp'. bcache_prod b c bp = Inr (c', bp') \<and> pool_wf per bp' (as @ c' # bs) \<and>
    bufs bp' (as @ c' # bs) = add_mset b (bufs bp (as @ c # bs)) \<and> length (slabs bp') = length (slabs bp)"
proof -
  let ?a = "n_slabs_available bp"
  let ?e = "slabs bp ! ?a"
  define s where "s = (slab_mem bp ?e)[0 := b]"
  define c' where "c' = c\<lparr>slab_prod := ?e, n_buffers_prod := 1\<rparr>"
  define bp' where "bp' = bp\<lparr>slabs := (slabs bp)[?a := slab_prod c], slab_mem := (slab_mem bp)(?e := s), n_slabs_available := ?a + 1\<rparr>"
  note D = slab_D [OF w] and d = slab_distinct [OF w]
  have full: "n_buffers_prod c = per" using n D(4) by simp
  then have "?a * per + per \<le> size (bufs bp (as @ c # bs))"
    using D(6) pool_size [OF w] by (simp add: size_bufs cache_bufs_def)
  with room have "Suc ?a * per < length (slabs bp) * per" by simp
  then have a: "?a < length (slabs bp)" by (simp only: mult_less_cancel2) simp
  then have e: "?e \<in> set (slabs bp)" by simp
  then have l: "length (slab_mem bp ?e) = per" by (rule D(8))
  have r: "bcache_prod b c bp = Inr (c', bp')" using n a l D(1,2) by (simp add: bcache_prod_def Let_def c'_def bp'_def s_def)
  have p: "mset (all_slabs bp' (as @ c' # bs)) = mset (all_slabs bp (as @ c # bs))"
    using a by (simp add: all_slabs_def mset_update bp'_def c'_def)
  have "length (slab_mem bp' i) = length (slab_mem bp i)" for i by (simp add: bp'_def s_def)
  then have wf: "pool_wf per bp' (as @ c' # bs)"
    using w a D(1) unfolding pool_wf_def mset_eq_imp_distinct_iff [OF p] mset_eq_setD [OF p] by (auto simp: bp'_def c'_def bcache_slab_size_def)
  have o: "?e \<notin> set (take ?a (slabs bp))" using nth_notin_take d(4) a by blast
  have ne: "slab_prod c \<noteq> ?e" "slab_cons c \<noteq> ?e" using d(1,2) e by metis+
  have "take (?a + 1) ((slabs bp)[?a := slab_prod c]) = take ?a (slabs bp) @ [slab_prod c]"
    using a by (simp add: take_Suc_conv_app_nth)
  then have 1: "pool_bufs bp' = pool_bufs bp @ slab_mem bp (slab_prod c)"
    using mem_other [OF o, of s] ne by (simp add: pool_bufs_def bp'_def)
  have 2: "map (cache_bufs bp') as = map (cache_bufs bp) as" "map (cache_bufs bp') bs = map (cache_bufs bp) bs"
    unfolding bp'_def by (rule caches_other(1), use d(5) e in metis)+
  have "take 1 s = [b]" using l D(1) by (cases "slab_mem bp ?e") (auto simp: s_def)
  then have 3: "cache_bufs bp' c' = take (n_buffers_cons c) (slab_mem bp (slab_cons c)) @ [b]"
    using ne by (simp add: cache_bufs_def bp'_def c'_def)
  have "cache_bufs bp c = take (n_buffers_cons c) (slab_mem bp (slab_cons c)) @ slab_mem bp (slab_prod c)"
    using full D(6) by (simp add: cache_bufs_def)
  then have "bufs bp' (as @ c' # bs) = add_mset b (bufs bp (as @ c # bs))" by (simp add: bufs_def 1 2 3)
  then show ?thesis using r wf by (intro exI [of _ c'] exI [of _ bp']) (simp add: bp'_def)
qed

lemma prod_ok:
  assumes w: "pool_wf per bp (as @ c # bs)" and room: "size (bufs bp (as @ c # bs)) < length (slabs bp) * per"
  shows "\<exists>c' bp'. bcache_prod b c bp = Inr (c', bp') \<and> pool_wf per bp' (as @ c' # bs) \<and>
    bufs bp' (as @ c' # bs) = add_mset b (bufs bp (as @ c # bs)) \<and> length (slabs bp') = length (slabs bp)"
  using prod_room [OF w] prod_trade [OF w room] by blast

text \<open>The same for the cache at an index.\<close>

lemma split_at: "i < length cs \<Longrightarrow> \<exists>as bs. cs = as @ cs ! i # bs \<and> (\<forall>c. cs[i := c] = as @ c # bs)"
  using id_take_nth_drop [of i cs] upd_conv_take_nth_drop [of i cs] by blast

lemma cons_check_at:
  assumes "pool_wf per bp cs" "i < length cs" "n \<le> per"
  shows "\<exists>k c' bp'. bcache_cons_check (cs ! i) n bp = Inr (k, c', bp') \<and> pool_wf per bp' (cs[i := c']) \<and>
    bufs bp' (cs[i := c']) = bufs bp cs \<and> k \<le> n_buffers_cons c' \<and> k \<le> n \<and>
    length (slabs bp') = length (slabs bp) \<and> n_slabs_reserved_available bp' = n_slabs_reserved_available bp \<and>
    (n_buffers_cons (cs ! i) = 0 \<and> 0 < n_slabs_available bp \<longrightarrow> k = n \<and> n_slabs_available bp' = n_slabs_available bp - 1)"
proof -
  obtain as bs where "cs = as @ cs ! i # bs" "\<And>c. cs[i := c] = as @ c # bs" using split_at assms(2) by blast
  then show ?thesis using cons_check_ok [of per bp as "cs ! i" bs n] assms by metis
qed

lemma cons_at:
  assumes "pool_wf per bp cs" "i < length cs" "0 < n_buffers_cons (cs ! i)"
  shows "\<exists>b c'. bcache_cons (cs ! i) bp = Inr (b, c') \<and> pool_wf per bp (cs[i := c']) \<and>
    add_mset b (bufs bp (cs[i := c'])) = bufs bp cs \<and> n_buffers_cons c' = n_buffers_cons (cs ! i) - 1"
proof -
  obtain as bs where "cs = as @ cs ! i # bs" "\<And>c. cs[i := c] = as @ c # bs" using split_at assms(2) by blast
  then show ?thesis using cons_ok [of per bp as "cs ! i" bs] assms by metis
qed

lemma prod_at:
  assumes "pool_wf per bp cs" "i < length cs" "size (bufs bp cs) < length (slabs bp) * per"
  shows "\<exists>c' bp'. bcache_prod b (cs ! i) bp = Inr (c', bp') \<and> pool_wf per bp' (cs[i := c']) \<and>
    bufs bp' (cs[i := c']) = add_mset b (bufs bp cs) \<and> length (slabs bp') = length (slabs bp)"
proof -
  obtain as bs where "cs = as @ cs ! i # bs" "\<And>c. cs[i := c] = as @ c # bs" using split_at assms(2) by blast
  then show ?thesis using prod_ok [of per bp as "cs ! i" bs b] assms by metis
qed

text \<open>A new cache takes two of the reserved slabs and is empty.\<close>

lemma bcache_init_ok:
  assumes w: "pool_wf per bp cs" and n: "0 < n_slabs_reserved_available bp"
  shows "\<exists>c bp'. bcache_init True bp = Inr (Some c, bp') \<and> pool_wf per bp' (cs @ [c]) \<and> bufs bp' (cs @ [c]) = bufs bp cs \<and>
    n_buffers_cons c = 0 \<and> slabs bp' = slabs bp \<and> n_slabs_available bp' = n_slabs_available bp \<and>
    n_slabs_reserved_available bp' = n_slabs_reserved_available bp - 2"
proof -
  let ?r = "slabs_reserved bp"
  obtain m where m: "n_slabs_reserved_available bp = Suc (Suc m)"
    using w n by (metis pool_wf_def even_Suc gr0_implies_Suc not0_implies_Suc odd_one One_nat_def)
  define c where "c = \<lparr>slab_cons = ?r ! Suc m, slab_prod = ?r ! m, n_buffers_cons = 0, n_buffers_prod = 0\<rparr>"
  define bp' where "bp' = bp\<lparr>n_slabs_reserved_available := m\<rparr>"
  have l: "Suc m < length ?r" using w m by (simp add: pool_wf_def)
  then have "bcache_init True bp = Inr (Some c, bp')" by (simp add: bcache_init_def m sub64_def c_def bp'_def)
  moreover have p: "mset (all_slabs bp' (cs @ [c])) = mset (all_slabs bp cs)"
    using l by (simp add: all_slabs_def bp'_def c_def m take_Suc_conv_app_nth)
  have "pool_wf per bp' (cs @ [c])"
    using w m unfolding pool_wf_def mset_eq_imp_distinct_iff [OF p] mset_eq_setD [OF p]
    by (simp add: bp'_def c_def bcache_slab_size_def)
  moreover have "bufs bp' (cs @ [c]) = bufs bp cs" by (simp add: bufs_def pool_bufs_def cache_bufs_def bp'_def c_def)
  ultimately show ?thesis by (intro exI [of _ c] exI [of _ bp']) (simp add: bp'_def c_def m)
qed

lemma slabs_concat: "concat (map (\<lambda>s. map (\<lambda>j. f (s * per + j)) [0..<per]) [0..<n]) = map f [0..<n * per]"
proof (induction n)
  case (Suc n)
  have "map (\<lambda>j. f (n * per + j)) [0..<per] = map f [n * per..<n * per + per]"
    by (intro nth_equalityI) simp_all
  moreover have "[0..<n * per + per] = [0..<n * per] @ [n * per..<n * per + per]" using upt_add_eq_append [of 0 "n * per" per] by simp
  ultimately show ?case using Suc by (simp add: add.commute)
qed simp

lemma bpool_init_ok:
  assumes per: "0 < unat (p_n_buffers_per_slab params)" and n: "n = (unat (p_n_buffers params) + unat (p_n_buffers_per_slab params) - 1) div unat (p_n_buffers_per_slab params)"
    and ov: "unat (p_n_buffers params) + unat (p_n_buffers_per_slab params) \<le> 2 ^ 32" and u: "unat (p_n_users_max params) < 2 ^ 31"
  shows "\<exists>bp. bpool_init all_ok params = Inr ([RUmem, RMap, RLock, RMem], Some bp) \<and> pool_wf (unat (p_n_buffers_per_slab params)) bp [] \<and>
    bufs bp [] = mset (the_bufs params (n * unat (p_n_buffers_per_slab params))) \<and> length (slabs bp) = n \<and> n_slabs_available bp = n \<and>
    n_slabs_reserved_available bp = 2 * unat (p_n_users_max params)"
proof -
  let ?per = "unat (p_n_buffers_per_slab params)" and ?w = "p_n_buffers params + p_n_buffers_per_slab params - 1"
  have "unat (p_n_buffers_per_slab params - 1) = ?per - 1"
    using per by (subst unat_sub) (auto simp: word_le_nat_alt)
  then have w: "unat ?w = unat (p_n_buffers params) + ?per - 1"
    using per ov by (simp add: unat_word_ariths(1) flip: add_diff_eq)
  then have ns: "unat (?w div p_n_buffers_per_slab params) = n" by (simp add: unat_div n)
  have nr: "unat (p_n_users_max params * 2) = 2 * unat (p_n_users_max params)" using u by (simp add: unat_word_ariths)
  have p0: "p_n_buffers_per_slab params \<noteq> 0" using per by auto
  define bp where "bp = \<lparr>bp_params = params\<lparr>p_n_buffers := word_of_nat (n * ?per)\<rparr>, slabs = [0..<n], slabs_reserved = [n..<n + 2 * unat (p_n_users_max params)],
     slab_mem = (\<lambda>s. if s < n then map (\<lambda>j. word_of_nat (s * ?per + j) * ucast (p_buffer_size params)) [0..<?per] else replicate ?per 0),
     n_slabs_available = n, n_slabs_reserved_available = 2 * unat (p_n_users_max params), map_size = n * ?per * unat (p_buffer_size params),
     umem_size = word_of_nat (n * ?per) * p_buffer_size params\<rparr>"
  have "bpool_init all_ok params = Inr ([RUmem, RMap, RLock, RMem], Some bp)"
    using p0 by (simp add: bpool_init_def Let_def all_ok_def ns nr bp_def)
  moreover have "pool_wf ?per bp []" using per by (auto simp: pool_wf_def bp_def all_slabs_def bcache_slab_size_def)
  moreover have m: "map (slab_mem bp) [0..<n] = map (\<lambda>s. map (\<lambda>j. word_of_nat (s * ?per + j) * ucast (p_buffer_size params)) [0..<?per]) [0..<n]"
    by (simp add: bp_def)
  have t: "take (n_slabs_available bp) (slabs bp) = [0..<n]" by (simp add: bp_def)
  have "pool_bufs bp = the_bufs params (n * ?per)"
    unfolding pool_bufs_def the_bufs_def t m by (rule slabs_concat)
  then have "bufs bp [] = mset (the_bufs params (n * ?per))" by (simp add: bufs_def)
  ultimately show ?thesis by (intro exI [of _ bp]) (simp add: bp_def)
qed

end
