(* ===== verification/Checksum.thy ===== *)
theory Checksum
  imports Packet
begin

text \<open>
  The checksum functions of \<open>dev-net-ebpf-xdp/xsk/af_rxtx.c\<close> and \<open>handle_packet\<close>, which recomputes the TCP or UDP
  checksum of a packet that is forwarded. The memory a function reads is the bytes from the packet to the end of the
  buffer area; the loads are checked against that end only, since the code does not look at the packet length.
\<close>

section \<open>The three checksum functions\<close>

text \<open>Loops over the 16-bit words from offset \<open>off\<close> with \<open>len\<close> bytes left; the result has the offset and the number of
  bytes that remain. The sum of \<open>ip_csum\<close> is a C \<open>int\<close>.\<close>

definition add_int :: "int \<Rightarrow> int \<Rightarrow> int res" where
  "add_int a b = (if a + b < 2 ^ 31 then Inr (a + b) else Inl Overflow)"

fun ip_csum_loop :: "bytes \<Rightarrow> nat \<Rightarrow> nat \<Rightarrow> int \<Rightarrow> (nat \<times> nat \<times> int) res" where
  "ip_csum_loop p off (Suc (Suc nleft)) acc =
     bindR (get16 p off) (\<lambda>w. bindR (add_int acc (uint w)) (\<lambda>acc. ip_csum_loop p (off + 2) nleft acc))"
| "ip_csum_loop p off nleft acc = Inr (off, nleft, acc)"

definition ip_csum :: "bytes \<Rightarrow> nat \<Rightarrow> nat \<Rightarrow> u16 res" where
  "ip_csum p addr len =
     bindR (ip_csum_loop p addr len 0) (\<lambda>(w, nleft, acc).
     bindR (if nleft = 1 then bindR (arr_get p w) (\<lambda>b. add_int acc (uint b)) else Inr acc) (\<lambda>acc.
     let acc = acc div 65536 + acc mod 65536;
         acc = acc + acc div 65536
     in Inr (NOT (word_of_int acc))))"

fun udp_csum_loop :: "bytes \<Rightarrow> nat \<Rightarrow> nat \<Rightarrow> u32 \<Rightarrow> (nat \<times> nat \<times> u32) res" where
  "udp_csum_loop p buf (Suc (Suc len)) acc =
     bindR (get16 p buf) (\<lambda>w.
     let acc = acc + ucast w;
         acc = (if acc AND 0x80000000 \<noteq> 0 then (acc AND 0xFFFF) + drop_bit 16 acc else acc)
     in udp_csum_loop p (buf + 2) len acc)"
| "udp_csum_loop p buf len acc = Inr (buf, len, acc)"

function add_carries :: "u32 \<Rightarrow> u32" where
  "add_carries acc = (if drop_bit 16 acc \<noteq> 0 then add_carries ((acc AND 0xFFFF) + drop_bit 16 acc) else acc)"
  by pat_completeness auto
termination
proof (relation "measure unat")
  fix acc :: u32
  assume a: "drop_bit 16 acc \<noteq> 0"
  from a have "0 < unat acc div 65536" by (metis unat_drop16 unat_eq_zero gr0I)
  moreover have "unat acc = 65536 * (unat acc div 65536) + unat acc mod 65536" by simp
  moreover have "unat ((acc AND 0xFFFF) + drop_bit 16 acc) \<le> unat acc mod 65536 + unat acc div 65536"
    by (simp add: unat_word_ariths unat_mask16 unat_drop16)
  ultimately have "unat ((acc AND 0xFFFF) + drop_bit 16 acc) < unat acc" by linarith
  then show "((acc AND 0xFFFF) + drop_bit 16 acc, acc) \<in> measure unat" by simp
qed simp

declare add_carries.simps [simp del]

definition udp_checksum :: "bytes \<Rightarrow> nat \<Rightarrow> nat \<Rightarrow> u32 \<Rightarrow> u32 \<Rightarrow> u16 res" where
  "udp_checksum p p_udp_header len src_addr dest_addr =
     bindR (udp_csum_loop p p_udp_header len 0) (\<lambda>(buf, left, acc).
     bindR (if left = 1 then bindR (arr_get p buf) (\<lambda>b. Inr (acc + ucast b)) else Inr acc) (\<lambda>acc.
     let acc = acc + (src_addr AND 0xFFFF) + drop_bit 16 src_addr + (dest_addr AND 0xFFFF) + drop_bit 16 dest_addr;
         acc = acc + ucast (bpf_htons (ucast IPPROTO_UDP)) + ucast (bpf_htons (word_of_nat len))
     in Inr (NOT (ucast (add_carries acc)))))"

fun tcp_csum_loop :: "bytes \<Rightarrow> nat \<Rightarrow> nat \<Rightarrow> u32 \<Rightarrow> (nat \<times> nat \<times> u32) res" where
  "tcp_csum_loop p buf (Suc (Suc len)) acc =
     bindR (get16 p buf) (\<lambda>w. tcp_csum_loop p (buf + 2) len (acc + ucast w))"
| "tcp_csum_loop p buf len acc = Inr (buf, len, acc)"

text \<open>The last byte of an odd length is read as a 16-bit word and masked.\<close>

definition tcp_checksum :: "bytes \<Rightarrow> nat \<Rightarrow> nat \<Rightarrow> u32 \<Rightarrow> u32 \<Rightarrow> u16 res" where
  "tcp_checksum p p_tcp_header len src_addr dest_addr =
     (let acc = (drop_bit 16 src_addr AND 0xFFFF) + (src_addr AND 0xFFFF) + (drop_bit 16 dest_addr AND 0xFFFF) + (dest_addr AND 0xFFFF);
          acc = acc + ucast (bpf_htons (ucast IPPROTO_TCP)) + ucast (bpf_htons (word_of_nat len))
      in bindR (tcp_csum_loop p p_tcp_header len acc) (\<lambda>(buf, left, acc).
         bindR (if left > 0 then bindR (get16 p buf) (\<lambda>w. Inr (acc + ucast (w AND bpf_htons 0xFF00))) else Inr acc) (\<lambda>acc.
         Inr (NOT (ucast (add_carries acc))))))"

section \<open>\<open>handle_packet\<close>\<close>

definition get32 :: "bytes \<Rightarrow> nat \<Rightarrow> u32 res" where
  "get32 p i = bindR (get_bytes p i 4) (\<lambda>bs. Inr (le_u32 bs))"

definition handle_tcp :: "bytes \<Rightarrow> (int \<times> bytes) res" where
  "handle_tcp pkt =
     bindR (get16 pkt 50) (\<lambda>_. bindR (put16 pkt 50 0) (\<lambda>pkt.
     bindR (get16 pkt 16) (\<lambda>tot_len. bindR (arr_get pkt 14) (\<lambda>vihl.
     let tcplen = bpf_htons tot_len - ucast (push_bit 2 (ucast (vihl AND 0x0F) :: u32)) in
     bindR (get32 pkt 26) (\<lambda>saddr. bindR (get32 pkt 30) (\<lambda>daddr.
     bindR (tcp_checksum pkt 34 (unat tcplen) saddr daddr) (\<lambda>c.
     bindR (put16 pkt 50 c) (\<lambda>pkt. Inr (1, pkt)))))))))"

definition handle_udp :: "bytes \<Rightarrow> (int \<times> bytes) res" where
  "handle_udp pkt =
     bindR (get16 pkt 40) (\<lambda>_. bindR (put16 pkt 40 0) (\<lambda>pkt.
     bindR (get16 pkt 38) (\<lambda>ulen.
     bindR (get32 pkt 26) (\<lambda>saddr. bindR (get32 pkt 30) (\<lambda>daddr.
     bindR (udp_checksum pkt 34 (unat (bpf_htons ulen)) saddr daddr) (\<lambda>c.
     bindR (put16 pkt 40 c) (\<lambda>pkt. Inr (1, pkt))))))))"

definition handle_packet :: "bytes \<Rightarrow> (int \<times> bytes) res" where
  "handle_packet pkt =
     bindR (get16 pkt 12) (\<lambda>h_proto.
     if bpf_htons h_proto \<noteq> ETH_P_IP then Inr (0, pkt)
     else bindR (arr_get pkt 23) (\<lambda>protocol.
       if protocol = IPPROTO_TCP then handle_tcp pkt
       else if protocol = IPPROTO_UDP then handle_udp pkt
       else Inr (1, pkt)))"

section \<open>Reference: the Internet checksum\<close>

text \<open>The 16-bit words of a byte sequence as numbers, the last one filled with a zero byte, and the number between 0 and
  65535 that a sum becomes when its carries are added to it.\<close>

fun words16 :: "bytes \<Rightarrow> nat list" where
  "words16 (a # b # bs) = (unat a + 256 * unat b) # words16 bs"
| "words16 [a] = [unat a]"
| "words16 [] = []"

definition ones_sum :: "nat \<Rightarrow> nat" where
  "ones_sum n = (if n = 0 then 0 else (n - 1) mod 65535 + 1)"

definition halves :: "u32 \<Rightarrow> nat" where
  "halves a = unat a mod 65536 + unat a div 65536"

text \<open>The pseudo header: addresses, protocol and length, in the byte order of the packet.\<close>

definition pseudo :: "u8 \<Rightarrow> nat \<Rightarrow> u32 \<Rightarrow> u32 \<Rightarrow> nat" where
  "pseudo proto len src dst = halves src + halves dst + unat (bpf_htons (ucast proto)) + unat (bpf_htons (word_of_nat len))"

definition internet_checksum :: "nat \<Rightarrow> u16" where
  "internet_checksum n = word_of_nat (65535 - ones_sum n)"

text \<open>What a receiver checks of the segment of \<open>len\<close> bytes at offset 34, behind an IP header without options.\<close>

definition verifies :: "u8 \<Rightarrow> nat \<Rightarrow> bytes \<Rightarrow> bool" where
  "verifies proto len p \<longleftrightarrow> ones_sum (sum_list (words16 (take len (drop 34 p))) +
     pseudo proto len (le_u32 (take 4 (drop 26 p))) (le_u32 (take 4 (drop 30 p)))) = 65535"

section \<open>Lemmas\<close>

lemma unat_le16: "unat (ucast lo OR push_bit 8 (ucast hi) :: u16) = unat (lo :: u8) + 256 * unat (hi :: u8)"
proof -
  have "ucast lo OR push_bit 8 (ucast hi) = (ucast lo + push_bit 8 (ucast hi) :: u16)"
    by (rule disjunctive_add [symmetric]) (auto simp: bit_simps dest: bit_imp_le_length)
  moreover have "unat lo < 256" "unat hi < 256" using unsigned_less [of lo, where ?'a = nat] unsigned_less [of hi, where ?'a = nat] by simp_all
  ultimately show ?thesis by (simp add: unat_word_ariths unsigned_ucast_eq push_bit_eq_mult take_bit_eq_mod)
qed

lemma get16_nat:
  assumes "i + 1 < length p"
  obtains w where "get16 p i = Inr w" "unat w = unat (p ! i) + 256 * unat (p ! (i + 1))"
  using assms get16_in unat_le16 by metis

lemma ones_sum_alt: "ones_sum n = (if n = 0 then 0 else if n mod 65535 = 0 then 65535 else n mod 65535)"
  by (cases n) (auto simp: ones_sum_def mod_Suc)

lemma ones_sum_le: "ones_sum n \<le> 65535"
  using mod_less_divisor [of 65535 n] by (auto simp: ones_sum_alt intro: less_imp_le)

lemma ones_sum_small: "n \<le> 65535 \<Longrightarrow> ones_sum n = n"
  by (simp add: ones_sum_def)

lemma ones_sum_mod: "ones_sum n mod 65535 = n mod 65535" "ones_sum n = 0 \<longleftrightarrow> n = 0"
  by (simp_all add: ones_sum_alt)

lemma ones_sum_cong: "m mod 65535 = n mod 65535 \<Longrightarrow> (m = 0 \<longleftrightarrow> n = 0) \<Longrightarrow> ones_sum m = ones_sum n"
  by (simp add: ones_sum_alt)

lemma ones_sum_fold: "ones_sum (n mod 65536 + n div 65536) = ones_sum n"
proof (rule ones_sum_cong)
  have "n = n mod 65536 + n div 65536 + 65535 * (n div 65536)" by simp
  then show "(n mod 65536 + n div 65536) mod 65535 = n mod 65535" by (metis mod_mult_self2)
qed auto

lemma ones_sum_add: "ones_sum (ones_sum m + n) = ones_sum (m + n)"
  by (rule ones_sum_cong) (simp_all add: ones_sum_mod mod_add_left_eq [of "ones_sum m", symmetric] mod_add_left_eq)

lemma fold_sum: "unat ((acc AND 0xFFFF) + drop_bit 16 acc :: u32) = unat acc mod 65536 + unat acc div 65536"
proof -
  have "unat acc < 65536 * 65536" using unsigned_less [of acc, where ?'a = nat] by simp
  then have "unat acc div 65536 < 65536" by (simp add: div_less_iff_less_mult)
  moreover have "unat acc mod 65536 < 65536" by simp
  ultimately show ?thesis by (simp add: unat_word_ariths unat_mask16 unat_drop16)
qed

lemma add_carries_sum: "unat (add_carries acc) = ones_sum (unat acc)"
proof (induction acc rule: add_carries.induct)
  case (1 acc)
  show ?case
  proof (cases "drop_bit 16 acc = 0")
    case True
    then have "unat acc div 65536 = 0" by (metis unat_drop16 unsigned_0)
    then have "unat acc \<le> 65535" by (simp add: div_eq_0_iff)
    with True show ?thesis by (simp add: add_carries.simps [of acc] ones_sum_small)
  next
    case False
    with 1 show ?thesis by (simp add: add_carries.simps [of acc] fold_sum ones_sum_fold)
  qed
qed

lemma not_u16: "NOT (w :: u16) = word_of_nat (65535 - unat w)"
proof -
  have "unat w \<le> 65535" using unsigned_less [of w, where ?'a = nat] by simp
  then show ?thesis by (simp add: not_eq_complement of_nat_diff)
qed

lemma checksum_of_carries: "NOT (ucast (add_carries acc) :: u16) = internet_checksum (unat acc)"
proof -
  have "unat (ucast (add_carries acc) :: u16) = ones_sum (unat acc)"
    using ones_sum_le [of "unat acc"] by (simp add: unsigned_ucast_eq take_bit_eq_mod add_carries_sum)
  then show ?thesis by (simp add: not_u16 internet_checksum_def)
qed

lemma take_drop2: "off + Suc (Suc n) \<le> length p \<Longrightarrow> take (Suc (Suc n)) (drop off p) = p ! off # p ! (off + 1) # take n (drop (off + 2) p)"
  by (simp add: Cons_nth_drop_Suc [symmetric])

lemma take_drop1: "off < length p \<Longrightarrow> take (Suc 0) (drop off p) = [p ! off]"
  by (simp add: Cons_nth_drop_Suc [symmetric])

text \<open>One round of the loops.\<close>

lemma words16_step:
  assumes "off + Suc (Suc n) \<le> length p"
  obtains w where "get16 p off = Inr w" "unat w \<le> 65535"
    "sum_list (words16 (take (Suc (Suc n)) (drop off p))) = unat w + sum_list (words16 (take n (drop (off + 2) p)))"
proof -
  have "off + 1 < length p" using assms by simp
  then obtain w where w: "get16 p off = Inr w" "unat w = unat (p ! off) + 256 * unat (p ! (off + 1))" by (rule get16_nat)
  have "unat w \<le> 65535" using unsigned_less [of w, where ?'a = nat] by simp
  moreover have "words16 (take (Suc (Suc n)) (drop off p)) = unat w # words16 (take n (drop (off + 2) p))"
    unfolding take_drop2 [OF assms] w(2) by simp
  ultimately show ?thesis using w(1) that by simp
qed

lemma ip_loop:
  assumes "off + len \<le> length p" "0 \<le> acc" "acc + 65535 * int (len div 2) < 2 ^ 31"
  shows "\<exists>acc'. ip_csum_loop p off len acc = Inr (off + 2 * (len div 2), len mod 2, acc') \<and> 0 \<le> acc' \<and> acc' \<le> acc + 65535 * int (len div 2) \<and>
    acc' + (if len mod 2 = 1 then uint (p ! (off + 2 * (len div 2))) else 0) = acc + int (sum_list (words16 (take len (drop off p))))"
  using assms
proof (induction p off len acc rule: ip_csum_loop.induct)
  case (1 p off nleft acc)
  obtain w where w: "get16 p off = Inr w" "unat w \<le> 65535"
    "sum_list (words16 (take (Suc (Suc nleft)) (drop off p))) = unat w + sum_list (words16 (take nleft (drop (off + 2) p)))"
    using words16_step [OF 1(2)] .
  have u: "int (unat w) = uint w" by simp
  then have b: "uint w \<le> 65535" "0 \<le> uint w" using w(2) by linarith+
  have a: "add_int acc (uint w) = Inr (acc + uint w)" using 1(4) b by (simp add: add_int_def)
  have "off + 2 + nleft \<le> length p" "0 \<le> acc + uint w" "acc + uint w + 65535 * int (nleft div 2) < 2 ^ 31"
    using 1(2-4) b by simp_all
  from 1(1) [OF w(1) a this] obtain acc' where
    "ip_csum_loop p (off + 2) nleft (acc + uint w) = Inr (off + 2 + 2 * (nleft div 2), nleft mod 2, acc')"
    "0 \<le> acc'" "acc' \<le> acc + uint w + 65535 * int (nleft div 2)"
    "acc' + (if nleft mod 2 = 1 then uint (p ! (off + 2 + 2 * (nleft div 2))) else 0) = acc + uint w + int (sum_list (words16 (take nleft (drop (off + 2) p))))"
    by blast
  with b u show ?case by (intro exI [of _ acc']) (simp add: w(1,3) a split: if_splits)
qed (auto simp: take_drop1)

lemma top_bit: "x AND 0x80000000 = (0 :: u32) \<Longrightarrow> unat x < 2 ^ 31"
proof -
  assume "x AND 0x80000000 = 0"
  then have n: "\<not> bit x 31" using bit_iff_and_push_bit_not_eq_0 [of x 31] by (simp add: push_bit_eq_mult)
  have "take_bit 31 x = x"
  proof (rule bit_word_eqI)
    fix i assume "i < LENGTH(32)"
    then show "bit (take_bit 31 x) i = bit x i" using n by (cases "i = 31") (auto simp: bit_simps)
  qed
  then have "unat x = unat (take_bit 31 x)" by simp
  also have "\<dots> = unat x mod 2 ^ 31" by (simp add: take_bit_eq_mod unat_mod)
  finally show ?thesis by (metis mod_less_divisor zero_less_numeral zero_less_power)
qed

lemma udp_round:
  assumes "unat (acc :: u32) < 2 ^ 31" "unat w \<le> 65535"
  defines "x \<equiv> acc + ucast (w :: u16)"
  defines "y \<equiv> if x AND 0x80000000 \<noteq> 0 then (x AND 0xFFFF) + drop_bit 16 x else x"
  shows "unat y < 2 ^ 31" "ones_sum (unat y + n) = ones_sum (unat acc + unat w + n)"
proof -
  have x: "unat x = unat acc + unat w" using assms(1,2) by (simp add: x_def unat_word_ariths unsigned_ucast_eq take_bit_eq_mod)
  have "unat x mod 65536 + unat x div 65536 < 2 ^ 31" using x assms(1,2) mod_less_divisor [of 65536 "unat x"] by simp
  then show "unat y < 2 ^ 31" using top_bit [of x] by (auto simp: y_def fold_sum)
  have "ones_sum (unat x mod 65536 + unat x div 65536 + n) = ones_sum (unat x + n)"
    using ones_sum_add [of "unat x mod 65536 + unat x div 65536" n] ones_sum_add [of "unat x" n] by (simp add: ones_sum_fold)
  then show "ones_sum (unat y + n) = ones_sum (unat acc + unat w + n)" by (simp add: y_def fold_sum x)
qed

lemma udp_loop:
  assumes "off + len \<le> length p" "unat acc < 2 ^ 31"
  shows "\<exists>acc'. udp_csum_loop p off len acc = Inr (off + 2 * (len div 2), len mod 2, acc') \<and> unat acc' < 2 ^ 31 \<and>
    (\<forall>n. ones_sum (unat acc' + (if len mod 2 = 1 then unat (p ! (off + 2 * (len div 2))) else 0) + n) =
      ones_sum (unat acc + sum_list (words16 (take len (drop off p))) + n))"
  using assms
proof (induction p off len acc rule: udp_csum_loop.induct)
  case (1 p off len acc)
  obtain w where w: "get16 p off = Inr w" "unat w \<le> 65535"
    "sum_list (words16 (take (Suc (Suc len)) (drop off p))) = unat w + sum_list (words16 (take len (drop (off + 2) p)))"
    using words16_step [OF 1(2)] .
  let ?x = "acc + ucast w"
  let ?y = "if ?x AND 0x80000000 \<noteq> 0 then (?x AND 0xFFFF) + drop_bit 16 ?x else ?x"
  note y = udp_round [OF 1(3) w(2)]
  have "off + 2 + len \<le> length p" using 1(2) by simp
  from 1(1) [OF w(1) refl refl this y(1)] obtain acc' where
    l: "udp_csum_loop p (off + 2) len ?y = Inr (off + 2 + 2 * (len div 2), len mod 2, acc')" "unat acc' < 2 ^ 31"
    and o: "\<And>n. ones_sum (unat acc' + (if len mod 2 = 1 then unat (p ! (off + 2 + 2 * (len div 2))) else 0) + n) =
      ones_sum (unat ?y + sum_list (words16 (take len (drop (off + 2) p))) + n)"
    by blast
  have "ones_sum (unat acc' + (if len mod 2 = 1 then unat (p ! (off + 2 + 2 * (len div 2))) else 0) + n) =
      ones_sum (unat acc + unat w + sum_list (words16 (take len (drop (off + 2) p))) + n)" for n
    unfolding o using y(2) [of "sum_list (words16 (take len (drop (off + 2) p))) + n"] by (simp add: add.assoc)
  then show ?case using l by (intro exI [of _ acc']) (auto simp: w(1,3) Let_def add.assoc split: if_splits)
qed (auto simp: take_drop1)

lemma tcp_loop:
  assumes "off + len \<le> length p" "unat acc + 65535 * (len div 2) < 2 ^ 32"
  shows "\<exists>acc'. tcp_csum_loop p off len acc = Inr (off + 2 * (len div 2), len mod 2, acc') \<and> unat acc' \<le> unat acc + 65535 * (len div 2) \<and>
    unat acc' + (if len mod 2 = 1 then unat (p ! (off + 2 * (len div 2))) else 0) = unat acc + sum_list (words16 (take len (drop off p)))"
  using assms
proof (induction p off len acc rule: tcp_csum_loop.induct)
  case (1 p off len acc)
  obtain w where w: "get16 p off = Inr w" "unat w \<le> 65535"
    "sum_list (words16 (take (Suc (Suc len)) (drop off p))) = unat w + sum_list (words16 (take len (drop (off + 2) p)))"
    using words16_step [OF 1(2)] .
  have a: "unat (acc + ucast w) = unat acc + unat w" using 1(3) w(2) by (simp add: unat_word_ariths unsigned_ucast_eq take_bit_eq_mod)
  have "off + 2 + len \<le> length p" "unat (acc + ucast w) + 65535 * (len div 2) < 2 ^ 32"
    using 1(2,3) w(2) unfolding a by simp_all
  from 1(1) [OF w(1) this, unfolded a] obtain acc' where "tcp_csum_loop p (off + 2) len (acc + ucast w) = Inr (off + 2 + 2 * (len div 2), len mod 2, acc')"
    "unat acc' \<le> unat acc + unat w + 65535 * (len div 2)"
    "unat acc' + (if len mod 2 = 1 then unat (p ! (off + 2 + 2 * (len div 2))) else 0) = unat acc + unat w + sum_list (words16 (take len (drop (off + 2) p)))"
    by blast
  with w(2) show ?case by (intro exI [of _ acc']) (simp add: w(1,3) split: if_splits)
qed (auto simp: take_drop1)


lemma halves_u32: "unat ((x AND 0xFFFF) :: u32) + unat (drop_bit 16 x) = halves x" "unat (drop_bit 16 x) + unat ((x AND 0xFFFF) :: u32) = halves x"
  by (simp_all add: halves_def unat_mask16 unat_drop16)

lemma halves_le: "halves x \<le> 131070"
proof -
  have "unat x < 65536 * 65536" using unsigned_less [of x, where ?'a = nat] by simp
  then have "unat x div 65536 < 65536" by (simp add: div_less_iff_less_mult)
  then show ?thesis using mod_less_divisor [of 65536 "unat x"] unfolding halves_def by linarith
qed

lemma unat_u16_le: "unat (x :: u16) \<le> 65535"
  using unsigned_less [of x, where ?'a = nat] by simp

text \<open>Sums of 32-bit words that do not overflow.\<close>

lemma unat_sum: "unat (a :: u32) + n < 2 ^ 32 \<Longrightarrow> unat b = n \<Longrightarrow> unat (a + b) = unat a + n"
  by (simp add: unat_word_ariths)

lemma add_pseudo:
  assumes "unat (acc :: u32) + 786420 < 2 ^ 32"
  shows "unat (acc + (s AND 0xFFFF) + drop_bit 16 s + (d AND 0xFFFF) + drop_bit 16 d + ucast (bpf_htons (ucast proto)) + ucast (bpf_htons (word_of_nat len))) =
    unat acc + pseudo proto len s d"
proof -
  have b: "unat (s AND 0xFFFF) \<le> 65535" "unat (d AND 0xFFFF) \<le> 65535" "unat (drop_bit 16 s) \<le> 65535" "unat (drop_bit 16 d) \<le> 65535"
    using unsigned_less [of s, where ?'a = nat] unsigned_less [of d, where ?'a = nat] by (simp_all add: unat_mask16 unat_drop16)
  have u: "unat (ucast (w :: u16) :: u32) = unat w" for w
    using unat_u16_le [of w] by (simp add: unsigned_ucast_eq take_bit_eq_mod)
  show ?thesis
    using assms b unat_u16_le [of "bpf_htons (ucast proto)"] unat_u16_le [of "bpf_htons (word_of_nat len)"]
    by (simp add: unat_word_ariths u pseudo_def flip: halves_u32)
qed

lemma udp_checksum_ref:
  assumes "off + len \<le> length p"
  shows "udp_checksum p off len src dst = Inr (internet_checksum (sum_list (words16 (take len (drop off p))) + pseudo IPPROTO_UDP len src dst))"
proof -
  let ?e = "off + 2 * (len div 2)" and ?P = "pseudo IPPROTO_UDP len src dst"
  obtain acc where a: "udp_csum_loop p off len 0 = Inr (?e, len mod 2, acc)" "unat acc < 2 ^ 31"
    "\<And>n. ones_sum (unat acc + (if len mod 2 = 1 then unat (p ! ?e) else 0) + n) = ones_sum (sum_list (words16 (take len (drop off p))) + n)"
    using udp_loop [OF assms, of 0] by auto
  define acc' where "acc' = (if len mod 2 = 1 then acc + ucast (p ! ?e) else acc)"
  have i: "?e < length p" if "len mod 2 = 1" using assms that by presburger
  have t: "unat (p ! ?e) < 256" using unsigned_less [of "p ! ?e", where ?'a = nat] by simp
  then have u: "unat acc' = unat acc + (if len mod 2 = 1 then unat (p ! ?e) else 0)"
    using a(2) by (simp add: acc'_def unat_word_ariths unsigned_ucast_eq take_bit_eq_mod)
  then have b: "unat acc' + 786420 < 2 ^ 32" using a(2) t by (simp split: if_splits)
  have "bindR (if len mod 2 = 1 then bindR (arr_get p ?e) (\<lambda>b. Inr (acc + ucast b)) else Inr acc) f = f acc'" for f :: "u32 \<Rightarrow> u16 res"
    using i by (simp add: acc'_def)
  then have "udp_checksum p off len src dst = Inr (internet_checksum (unat acc' + ?P))"
    using a(1) by (simp add: udp_checksum_def Let_def checksum_of_carries add_pseudo [OF b])
  then show ?thesis using a(3) [of ?P] by (simp add: internet_checksum_def u)
qed

lemma low_byte: "(ucast lo OR push_bit 8 (ucast hi) :: u16) AND bpf_htons 0xFF00 = ucast (lo :: u8)" for hi :: u8
proof -
  have "bpf_htons 0xFF00 = mask 8" by (simp add: bpf_htons_def mask_eq_exp_minus_1)
  then show ?thesis by (intro bit_word_eqI) (auto simp: bit_simps dest: bit_imp_le_length)
qed

lemma tcp_pseudo:
  "unat ((drop_bit 16 s AND 0xFFFF) + (s AND 0xFFFF) + (drop_bit 16 d AND 0xFFFF) + (d AND 0xFFFF) + ucast (bpf_htons (ucast proto)) +
    ucast (bpf_htons (word_of_nat len)) :: u32) = pseudo proto len s d"
proof -
  have "drop_bit 16 x AND 0xFFFF = drop_bit 16 x" for x :: u32
    using unat_mask16 [of "drop_bit 16 x"] unsigned_less [of x, where ?'a = nat] by (simp add: unat_drop16 word_unat_eq_iff)
  then show ?thesis using add_pseudo [of 0 s d proto len] by (simp add: add.commute add.left_commute)
qed

lemma tcp_checksum_ref:
  assumes "off + len + len mod 2 \<le> length p" "len \<le> 65535"
  shows "tcp_checksum p off len src dst = Inr (internet_checksum (sum_list (words16 (take len (drop off p))) + pseudo IPPROTO_TCP len src dst))"
proof -
  let ?e = "off + 2 * (len div 2)" and ?P = "pseudo IPPROTO_TCP len src dst"
  define s0 where "s0 = (drop_bit 16 src AND 0xFFFF) + (src AND 0xFFFF) + (drop_bit 16 dst AND 0xFFFF) + (dst AND 0xFFFF) +
    ucast (bpf_htons (ucast IPPROTO_TCP)) + ucast (bpf_htons (word_of_nat len))"
  have s0: "unat s0 = ?P" unfolding s0_def by (rule tcp_pseudo)
  have P: "?P \<le> 393210"
    using halves_le [of src] halves_le [of dst] unat_u16_le [of "bpf_htons (ucast IPPROTO_TCP)"] unat_u16_le [of "bpf_htons (word_of_nat len)"]
    unfolding pseudo_def by linarith
  have lb: "?P + 65535 * (len div 2) < 2 ^ 32" using P assms(2) by simp
  obtain acc where a: "tcp_csum_loop p off len s0 = Inr (?e, len mod 2, acc)" "unat acc \<le> ?P + 65535 * (len div 2)"
    "unat acc + (if len mod 2 = 1 then unat (p ! ?e) else 0) = ?P + sum_list (words16 (take len (drop off p)))"
    using tcp_loop [of off len p s0] assms(1) lb s0 by auto
  define acc' where "acc' = (if len mod 2 > 0 then acc + ucast (p ! ?e) else acc)"
  have e: "len mod 2 > 0 \<longleftrightarrow> len mod 2 = 1" by presburger
  have i: "?e + 1 < length p" if "len mod 2 = 1" using assms that by presburger
  have t: "unat (p ! ?e) < 256" using unsigned_less [of "p ! ?e", where ?'a = nat] by simp
  then have u: "unat acc' = ?P + sum_list (words16 (take len (drop off p)))"
    unfolding a(3) [symmetric] using a(2) P assms(2) by (simp add: acc'_def e unat_word_ariths unsigned_ucast_eq take_bit_eq_mod)
  have c: "ucast (ucast (b :: u8) :: u16) = (ucast b :: u32)" for b
    by (rule bit_word_eqI) (auto simp: bit_simps dest: bit_imp_le_length)
  have "bindR (if 0 < len mod 2 then bindR (get16 p ?e) (\<lambda>w. Inr (acc + ucast (w AND bpf_htons 0xFF00))) else Inr acc) f = f acc'" for f :: "u32 \<Rightarrow> u16 res"
    using i by (simp add: acc'_def e get16_in low_byte c)
  then have "tcp_checksum p off len src dst = Inr (internet_checksum (unat acc'))"
    using a(1) by (simp add: tcp_checksum_def Let_def s0_def [symmetric] checksum_of_carries)
  then show ?thesis by (simp add: u add.commute)
qed

lemma ip_csum_ref:
  assumes "off + len \<le> length p" "len \<le> 65535"
  shows "ip_csum p off len = Inr (internet_checksum (sum_list (words16 (take len (drop off p)))))"
proof -
  have lb: "65535 * int (len div 2) < 2 ^ 31" using assms(2) by simp
  obtain acc where a: "ip_csum_loop p off len 0 = Inr (off + 2 * (len div 2), len mod 2, acc)" "0 \<le> acc" "acc \<le> 65535 * int (len div 2)"
    "acc + (if len mod 2 = 1 then uint (p ! (off + 2 * (len div 2))) else 0) = int (sum_list (words16 (take len (drop off p))))"
    using ip_loop [OF assms(1), of 0] lb by auto
  have lb2: "65535 * int (len div 2) + 255 < 2 ^ 31" using assms(2) by simp
  define n where "n = sum_list (words16 (take len (drop off p)))"
  let ?t = "if len mod 2 = 1 then uint (p ! (off + 2 * (len div 2))) else 0"
  have t: "0 \<le> ?t" "?t \<le> 255" using unsigned_less [of "p ! (off + 2 * (len div 2))", where ?'a = int] by simp_all
  have i: "off + 2 * (len div 2) < length p" if "len mod 2 = 1" using assms(1) that by presburger
  have nb: "int n < 2 ^ 31" using a(3,4) t lb2 unfolding n_def by (simp split: if_splits)
  have "bindR (if len mod 2 = 1 then bindR (arr_get p (off + 2 * (len div 2))) (\<lambda>b. add_int acc (uint b)) else Inr acc) f = f (int n)" for f :: "int \<Rightarrow> u16 res"
    using i a(4) nb by (auto simp: add_int_def n_def split: if_splits)
  then have c: "ip_csum p off len = (let s = int n div 65536 + int n mod 65536; s = s + s div 65536 in Inr (NOT (word_of_int s)))"
    using a(1) by (simp add: ip_csum_def Let_def)
  define m where "m = n mod 65536 + n div 65536"
  have m: "int n div 65536 + int n mod 65536 = int m" by (simp add: m_def zdiv_int zmod_int)
  have "n div 65536 \<le> 32767" using nb by simp
  moreover have "n mod 65536 \<le> 65535" by simp
  ultimately have mb: "m < 131071" unfolding m_def by linarith
  have o: "ones_sum m = ones_sum n" by (simp add: m_def ones_sum_fold)
  have "(m + m div 65536) mod 65536 = ones_sum m"
  proof (cases "m < 65536")
    case True
    then show ?thesis by (simp add: ones_sum_small)
  next
    case False
    then have "m = 65535 + (m - 65535)" "m div 65536 = 1" "m - 65535 \<le> 65535" "m - 65535 > 0" using mb by auto
    moreover have "ones_sum (65535 + (m - 65535)) = ones_sum (m - 65535)" using \<open>m - 65535 > 0\<close> by (intro ones_sum_cong mod_add_self1) simp
    ultimately show ?thesis by (simp add: ones_sum_small mod_if)
  qed
  then have u1: "unat (word_of_nat (m + m div 65536) :: u16) = ones_sum m" by (simp only: unsigned_of_nat take_bit_eq_mod) simp
  have "int m + int m div 65536 = int (m + m div 65536)" by (simp add: zdiv_int)
  then have u: "unat (word_of_int (int m + int m div 65536) :: u16) = ones_sum n"
    using o u1 by (simp only: of_int_of_nat_eq)
  show ?thesis unfolding c Let_def m not_u16 u internet_checksum_def unfolding n_def ..
qed

lemma words16_update:
  assumes "2 * k + 1 < length bs"
  shows "sum_list (words16 (bs[2 * k := lo, 2 * k + 1 := hi])) = sum_list (words16 (bs[2 * k := 0, 2 * k + 1 := 0])) + unat lo + 256 * unat hi"
  using assms
proof (induction k arbitrary: bs)
  case 0
  then obtain a b r where "bs = a # b # r" by (cases bs rule: words16.cases) auto
  then show ?case by simp
next
  case (Suc k)
  then obtain a b r where "bs = a # b # r" by (cases bs rule: words16.cases) auto
  with Suc show ?case by simp
qed

lemma checksum_closes: "ones_sum (n + unat (internet_checksum n)) = 65535"
proof -
  have "unat (word_of_nat m :: u16) = m" if "m \<le> 65535" for m
    using that by (simp add: unsigned_of_nat take_bit_eq_mod)
  then have "unat (internet_checksum n) = 65535 - ones_sum n" unfolding internet_checksum_def by simp
  then have "ones_sum (n + unat (internet_checksum n)) = ones_sum (ones_sum n + (65535 - ones_sum n))" by (simp add: ones_sum_add)
  then show ?thesis using ones_sum_le [of n] by (simp add: ones_sum_small)
qed

lemma unat_bytes16: "unat (ucast c :: u8) + 256 * unat (ucast (drop_bit 8 c) :: u8) = unat (c :: u16)"
proof -
  have "ucast (ucast c :: u8) OR push_bit 8 (ucast (ucast (drop_bit 8 c) :: u8)) = c"
    by (rule bit_word_eqI) (auto simp: bit_simps dest: bit_imp_le_length)
  then show ?thesis using unat_le16 [of "ucast c" "ucast (drop_bit 8 c)"] by simp
qed

lemma update_twice: "a \<noteq> b \<Longrightarrow> xs[a := u, b := v, a := x, b := y] = xs[a := x, b := y]"
  by (metis list_update_overwrite list_update_swap)

text \<open>Storing the checksum of the segment with its checksum field cleared makes the segment verify.\<close>

lemma stored_verifies:
  fixes p :: bytes and proto :: u8
  assumes a: "a = 34 + 2 * k" "b = a + 1" and k: "2 * k + 1 < len" "34 + len \<le> length p"
    and c: "c = internet_checksum (sum_list (words16 (take len (drop 34 (p[a := 0, b := 0])))) +
      pseudo proto len (le_u32 (take 4 (drop 26 p))) (le_u32 (take 4 (drop 30 p))))"
  shows "verifies proto len (p[a := ucast c, b := ucast (drop_bit 8 c)])"
proof -
  let ?S = "take len (drop 34 p)" and ?P = "pseudo proto len (le_u32 (take 4 (drop 26 p))) (le_u32 (take 4 (drop 30 p)))"
  have w: "take len (drop 34 (p[a := x, b := y])) = ?S[2 * k := x, 2 * k + 1 := y]" for x y
    unfolding a by (simp add: drop_update_swap take_update_swap)
  have h: "take 4 (drop i (p[a := x, b := y])) = take 4 (drop i p)" if "i \<le> 30" for i x y
    using that unfolding a by (simp add: drop_update_swap)
  have "sum_list (words16 (?S[2 * k := ucast c, 2 * k + 1 := ucast (drop_bit 8 c)])) = sum_list (words16 (?S[2 * k := 0, 2 * k + 1 := 0])) + unat c"
    using words16_update [of k ?S "ucast c" "ucast (drop_bit 8 c)"] k unat_bytes16 [of c] by simp
  moreover have "ones_sum (sum_list (words16 (?S[2 * k := 0, 2 * k + 1 := 0])) + ?P + unat c) = 65535"
    unfolding c w by (rule checksum_closes)
  ultimately show ?thesis unfolding verifies_def w by (simp only: h ac_simps)
qed

lemma udp_loop_out:
  assumes "off \<le> length p" "length p < off + len"
  shows "udp_csum_loop p off len acc = Inl OutOfBounds \<or> (\<exists>acc'. udp_csum_loop p off len acc = Inr (off + len - 1, 1, acc') \<and> length p = off + len - 1)"
  using assms
proof (induction p off len acc rule: udp_csum_loop.induct)
  case (1 p off len acc)
  show ?case
  proof (cases "off + 1 < length p")
    case True
    then obtain w where w: "get16 p off = Inr w" by (rule get16_nat)
    from 1(1) [OF w refl refl] 1(2,3) True show ?thesis by (simp add: w Let_def)
  next
    case False
    then have "get16 p off = Inl OutOfBounds" by (auto simp: get16_def arr_get_def)
    then show ?thesis by simp
  qed
qed auto


lemma udp_checksum_out:
  assumes "off \<le> length p" "length p < off + len"
  shows "udp_checksum p off len src dst = Inl OutOfBounds"
  using udp_loop_out [OF assms, of 0] by (auto simp: udp_checksum_def)

lemma get32_in: "i + 4 \<le> length p \<Longrightarrow> get32 p i = Inr (le_u32 (take 4 (drop i p)))"
  by (simp add: get32_def get_bytes_def)

lemma get16_keep: "i + 1 < a \<Longrightarrow> get16 (p[a := x, b := y]) i = get16 p i" if "a < b"
  using that by (auto simp: get16_def arr_get_def)

lemma get32_keep: "i + 4 \<le> a \<Longrightarrow> get32 (p[a := x, b := y]) i = get32 p i" if "a < b"
  using that by (simp add: get32_def get_bytes_def drop_update_swap)

lemma handle_tcp_ok:
  assumes o: "p ! 14 AND 0x0F = 5" and t: "get16 p 16 = Inr (bpf_htons tot_len)" "40 \<le> unat tot_len"
    and l: "14 + unat tot_len + unat tot_len mod 2 \<le> length p"
  shows "\<exists>c :: u16. handle_tcp p = Inr (1, p[50 := ucast c, 51 := ucast (drop_bit 8 c)]) \<and>
    verifies IPPROTO_TCP (unat tot_len - 20) (p[50 := ucast c, 51 := ucast (drop_bit 8 c)])"
proof -
  let ?len = "unat tot_len - 20" and ?z = "p[50 := 0, 51 := 0]"
  let ?s = "le_u32 (take 4 (drop 26 p))" and ?d = "le_u32 (take 4 (drop 30 p))"
  define c where "c = internet_checksum (sum_list (words16 (take ?len (drop 34 ?z))) + pseudo IPPROTO_TCP ?len ?s ?d)"
  have L: "54 \<le> length p" using l t(2) by linarith
  have tl: "unat (tot_len - ucast (push_bit 2 (ucast (p ! 14 AND 0x0F) :: u32))) = ?len"
    using t(2) by (simp add: o unat_sub word_le_nat_alt)
  obtain k where k: "unat tot_len = k + 20" using t(2) that [of "unat tot_len - 20"] by linarith
  have "34 + ?len + ?len mod 2 \<le> length ?z" using l mod_mult_self1 [of k 10 2] unfolding k by simp
  moreover have "?len \<le> 65535" using unat_u16_le [of tot_len] by simp
  ultimately have c: "tcp_checksum ?z 34 ?len ?s ?d = Inr c" unfolding c_def by (rule tcp_checksum_ref)
  have "handle_tcp p = Inr (1, ?z[50 := ucast c, 51 := ucast (drop_bit 8 c)])"
    using L t(1) tl c get32_keep [of 50 51 26 p 0 0] get32_keep [of 50 51 30 p 0 0]
    by (simp add: handle_tcp_def put16_in get16_in [of 50 p] get16_keep get32_in)
  then have "handle_tcp p = Inr (1, p[50 := ucast c, 51 := ucast (drop_bit 8 c)])" by (simp add: update_twice)
  moreover have "verifies IPPROTO_TCP ?len (p[50 := ucast c, 51 := ucast (drop_bit 8 c)])"
    using l t(2) by (intro stored_verifies [OF _ _ _ _ c_def, of 8]) simp_all
  ultimately show ?thesis by blast
qed

lemma handle_udp_ok:
  assumes t: "get16 p 38 = Inr (bpf_htons ulen)" "8 \<le> unat ulen" and l: "34 + unat ulen \<le> length p"
  shows "\<exists>c :: u16. handle_udp p = Inr (1, p[40 := ucast c, 41 := ucast (drop_bit 8 c)]) \<and>
    verifies IPPROTO_UDP (unat ulen) (p[40 := ucast c, 41 := ucast (drop_bit 8 c)])"
proof -
  let ?len = "unat ulen" and ?z = "p[40 := 0, 41 := 0]"
  let ?s = "le_u32 (take 4 (drop 26 p))" and ?d = "le_u32 (take 4 (drop 30 p))"
  define c where "c = internet_checksum (sum_list (words16 (take ?len (drop 34 ?z))) + pseudo IPPROTO_UDP ?len ?s ?d)"
  have L: "42 \<le> length p" using l t(2) by linarith
  have c: "udp_checksum ?z 34 ?len ?s ?d = Inr c" unfolding c_def using l by (intro udp_checksum_ref) simp
  have "handle_udp p = Inr (1, ?z[40 := ucast c, 41 := ucast (drop_bit 8 c)])"
    using L t(1) c get32_keep [of 40 41 26 p 0 0] get32_keep [of 40 41 30 p 0 0]
    by (simp add: handle_udp_def put16_in get16_in [of 40 p] get16_keep get32_in)
  then have "handle_udp p = Inr (1, p[40 := ucast c, 41 := ucast (drop_bit 8 c)])" by (simp add: update_twice)
  moreover have "verifies IPPROTO_UDP ?len (p[40 := ucast c, 41 := ucast (drop_bit 8 c)])"
    using l t(2) by (intro stored_verifies [OF _ _ _ _ c_def, of 3]) simp_all
  ultimately show ?thesis by blast
qed

section \<open>Properties\<close>

text \<open>
  C7. For every stretch of at most 65535 bytes (with one byte behind it when its length is odd, which \<open>tcp_checksum\<close> reads)
  the three functions compute the Internet checksum: the complement of the one's complement sum of the 16-bit words,
  for UDP and TCP together with the pseudo header. Their different ways of adding carries make no difference, and
  neither the \<open>int\<close> of \<open>ip_csum\<close> nor the 32-bit sums overflow.
\<close>

theorem checksums_reference:
  assumes "off + len + len mod 2 \<le> length p" "len \<le> 65535"
  defines "n \<equiv> sum_list (words16 (take len (drop off p)))"
  shows "ip_csum p off len = Inr (internet_checksum n) \<and>
    udp_checksum p off len src dst = Inr (internet_checksum (n + pseudo IPPROTO_UDP len src dst)) \<and>
    tcp_checksum p off len src dst = Inr (internet_checksum (n + pseudo IPPROTO_TCP len src dst))"
  unfolding n_def using assms(1,2) ip_csum_ref udp_checksum_ref tcp_checksum_ref by simp

theorem checksums_reference_witness:
  "udp_checksum [1, 2, 3, 0] 0 3 0x0100007F 0x0100007F = Inr (internet_checksum (516 + pseudo IPPROTO_UDP 3 0x0100007F 0x0100007F))"
  using checksums_reference [of 0 3 "[1, 2, 3, 0]" "0x0100007F" "0x0100007F"] by simp



text \<open>
  \<open>handle_packet\<close> does not compare the UDP length with the length of the packet: a datagram whose length field points
  behind the memory makes it read there.
\<close>

lemma handle_packet_trusts_length:
  assumes e: "get16 p 12 = Inr (bpf_htons ETH_P_IP)" and u: "p ! 23 = IPPROTO_UDP" "get16 p 38 = Inr (bpf_htons ulen)"
    and l: "42 \<le> length p" "length p < 34 + unat ulen"
  shows "handle_packet p = Inl OutOfBounds"
proof -
  have n: "IPPROTO_UDP \<noteq> IPPROTO_TCP" by (simp add: IPPROTO_UDP_def IPPROTO_TCP_def)
  have o: "udp_checksum (p[40 := 0, 41 := 0]) 34 (unat ulen) s d = Inl OutOfBounds" for s d
    using l by (intro udp_checksum_out) simp_all
  show ?thesis using e u l n o
    by (simp add: handle_packet_def handle_udp_def put16_in get16_in [of 40 p] get16_keep get32_in)
qed

theorem handle_packet_trusts_length_witness:
  "handle_packet [0, 0, 0, 0, 0, 0, 0, 0, 0, 0, 0, 0, 8, 0, 0x45, 0, 0, 28, 0, 0, 0, 0, 64, 17, 0, 0, 10, 0, 0, 1, 10, 0, 0, 2,
      0, 7, 0, 7, 0xFF, 0xFF, 0, 0] = Inl OutOfBounds"
  using handle_packet_trusts_length [of "[0, 0, 0, 0, 0, 0, 0, 0, 0, 0, 0, 0, 8, 0, 0x45, 0, 0, 28, 0, 0, 0, 0, 64, 17, 0, 0, 10, 0, 0, 1, 10, 0, 0, 2,
      0, 7, 0, 7, 0xFF, 0xFF, 0, 0]" "0xFFFF"]
  by (simp add: get16_def bpf_htons_def ETH_P_IP_def IPPROTO_UDP_def push_bit_eq_mult drop_bit_eq_div)

end
