(* ===== verification/XskForward.thy ===== *)
theory XskForward
  imports Bpool Checksum
begin

text \<open>
  The forwarding program of \<open>dev-net-ebpf-xdp/xsk\<close>: ports with their queues, the two thread functions, the
  assignment of ports to threads and pools in \<open>setup\<close> and \<open>main\<close>, and the end of \<open>main\<close>. The rings shared with the
  kernel are those of the xsk library: what a call takes from a ring is a parameter, what the program puts into a ring
  is recorded in the state. Waking up the kernel has no effect on the state.
\<close>

section \<open>Ports\<close>

definition MAX_BURST_RX :: nat where "MAX_BURST_RX = 1"
definition MAX_BURST_TX :: nat where "MAX_BURST_TX = 1"
definition MAX_BPOOL :: nat where "MAX_BPOOL = 16"
definition BPOOL_GRP :: nat where "BPOOL_GRP = 2"
definition MAX_PORTS :: nat where "MAX_PORTS = 64"
definition MAX_THREADS :: nat where "MAX_THREADS = 32"

text \<open>The library: what is found in the receive ring and, for the \<open>k\<close>th packet of a burst, in the completion ring when at
  most \<open>n\<close> entries are asked for; the result of the \<open>t\<close>th attempt to reserve \<open>n\<close> entries; the offset computation.\<close>

record xsk_env =
  peek_rx :: "nat \<Rightarrow> (u64 \<times> u32) list"
  peek_cq :: "nat \<Rightarrow> nat \<Rightarrow> u64 list"
  reserve_fq :: "nat \<Rightarrow> nat \<Rightarrow> nat"
  reserve_tx :: "nat \<Rightarrow> nat \<Rightarrow> nat"
  comp_size :: nat
  add_offset :: "u64 \<Rightarrow> u64"

text \<open>The ports of one thread with their pool and its memory, and per port the addresses put into the fill ring, the
  descriptors put into the transmit ring and the packet counters.\<close>

record xsk =
  pool :: bpool
  caches :: "bcache list"
  umem :: bytes
  filled :: "nat \<Rightarrow> u64 list"
  sent :: "nat \<Rightarrow> (u64 \<times> u32) list"
  n_pkts_rx :: "nat \<Rightarrow> u64"
  n_pkts_tx :: "nat \<Rightarrow> u64"

text \<open>Reserving is repeated until it succeeds.\<close>

partial_function (option) reserve_wait :: "(nat \<Rightarrow> nat \<Rightarrow> nat) \<Rightarrow> nat \<Rightarrow> nat \<Rightarrow> nat option" where
  "reserve_wait reserve n t = (if reserve t n = n then Some t else reserve_wait reserve n (Suc t))"

declare reserve_wait.simps [code]

fun fill_loop :: "nat \<Rightarrow> nat \<Rightarrow> xsk \<Rightarrow> xsk res" where
  "fill_loop 0 p s = Inr s"
| "fill_loop (Suc n) p s =
     bindR (arr_get (caches s) p) (\<lambda>bc. bindR (bcache_cons bc (pool s)) (\<lambda>(b, bc).
     fill_loop n p (s\<lparr>caches := (caches s)[p := bc], filled := (filled s)(p := filled s p @ [b])\<rparr>)))"

fun comp_loop :: "u64 list \<Rightarrow> nat \<Rightarrow> xsk \<Rightarrow> xsk res" where
  "comp_loop [] p s = Inr s"
| "comp_loop (addr # addrs) p s =
     bindR (arr_get (caches s) p) (\<lambda>bc. bindR (bcache_prod addr bc (pool s)) (\<lambda>(bc, bp).
     comp_loop addrs p (s\<lparr>pool := bp, caches := (caches s)[p := bc]\<rparr>)))"

text \<open>The result has the descriptors of the packets received. \<open>None\<close> is a call that never returns.\<close>

definition port_rx_burst :: "xsk_env \<Rightarrow> nat \<Rightarrow> xsk \<Rightarrow> ((u64 \<times> u32) list \<times> xsk) res option" where
  "port_rx_burst env p s =
     (case bindR (arr_get (caches s) p) (\<lambda>bc. bcache_cons_check bc MAX_BURST_RX (pool s)) of
        Inl e \<Rightarrow> Some (Inl e)
      | Inr (n_pkts, bc, bp) \<Rightarrow>
        let s = s\<lparr>pool := bp, caches := (caches s)[p := bc]\<rparr> in
        if n_pkts = 0 then Some (Inr ([], s))
        else let b = peek_rx env n_pkts in
        if b = [] then Some (Inr ([], s))
        else if length b > MAX_BURST_RX then Some (Inl OutOfBounds)
        else let s = s\<lparr>n_pkts_rx := (n_pkts_rx s)(p := n_pkts_rx s p + word_of_nat (length b))\<rparr> in
        case reserve_wait (reserve_fq env) (length b) 0 of
          None \<Rightarrow> None
        | Some _ \<Rightarrow> Some (bindR (fill_loop (length b) p s) (\<lambda>s. Inr (b, s))))"

definition port_tx_burst :: "xsk_env \<Rightarrow> nat \<Rightarrow> nat \<Rightarrow> (u64 \<times> u32) list \<Rightarrow> xsk \<Rightarrow> xsk res option" where
  "port_tx_burst env k p b s =
     (case reserve_wait (reserve_tx env) (length b) 0 of
        None \<Rightarrow> None
      | Some _ \<Rightarrow>
        let s = s\<lparr>sent := (sent s)(p := sent s p @ b), n_pkts_tx := (n_pkts_tx s)(p := n_pkts_tx s p + word_of_nat (length b))\<rparr>
        in Some (comp_loop (peek_cq env k (comp_size env)) p s))"

section \<open>Handling a port\<close>

text \<open>The first half of \<open>handle_port\<close> is the text of \<open>port_rx_burst\<close>, and what it does with each packet after
  \<open>handle_packet\<close> is the text of \<open>port_tx_burst\<close> for one descriptor.\<close>

fun handle_pkts :: "xsk_env \<Rightarrow> nat \<Rightarrow> nat \<Rightarrow> (u64 \<times> u32) list \<Rightarrow> xsk \<Rightarrow> xsk res option" where
  "handle_pkts env k tx [] s = Some (Inr s)"
| "handle_pkts env k tx ((a, pkt_len) # brx) s =
     (let addr = add_offset env a in
      case handle_packet (drop (unat addr) (umem s)) of
        Inl e \<Rightarrow> Some (Inl e)
      | Inr (r, pkt) \<Rightarrow>
        case port_tx_burst env k tx [(addr, pkt_len)] (s\<lparr>umem := take (unat addr) (umem s) @ pkt\<rparr>) of
          None \<Rightarrow> None
        | Some (Inl e) \<Rightarrow> Some (Inl e)
        | Some (Inr s) \<Rightarrow> handle_pkts env (Suc k) tx brx s)"

definition handle_port :: "xsk_env \<Rightarrow> nat \<Rightarrow> nat \<Rightarrow> xsk \<Rightarrow> xsk res option" where
  "handle_port env rx tx s =
     (case port_rx_burst env rx s of
        None \<Rightarrow> None
      | Some (Inl e) \<Rightarrow> Some (Inl e)
      | Some (Inr (brx, s)) \<Rightarrow> handle_pkts env 0 tx brx s)"

text \<open>One round of \<open>thread_func_poll\<close>: the entries whose descriptor is readable and not in error, in the order in which
  the two loops find them, and what is done for each; \<open>env n\<close> is what the library does in the \<open>n\<close>th call.\<close>

definition poll_ports :: "nat list \<Rightarrow> (nat \<Rightarrow> bool) \<Rightarrow> (nat \<Rightarrow> bool) \<Rightarrow> nat list" where
  "poll_ports fds pollerr pollin =
     concat (map (\<lambda>i. if pollerr i then [] else filter (\<lambda>j. fds ! i = fds ! j \<and> pollin i) [0..<length fds]) [0..<length fds])"

fun handle_ports :: "(nat \<Rightarrow> xsk_env) \<Rightarrow> nat \<Rightarrow> (nat \<times> nat) list \<Rightarrow> xsk \<Rightarrow> xsk res option" where
  "handle_ports env n [] s = Some (Inr s)"
| "handle_ports env n ((rx, tx) # ps) s =
     (case handle_port (env n) rx tx s of
        None \<Rightarrow> None
      | Some (Inl e) \<Rightarrow> Some (Inl e)
      | Some (Inr s) \<Rightarrow> handle_ports env (Suc n) ps s)"

definition thread_func_poll_round :: "(nat \<Rightarrow> xsk_env) \<Rightarrow> nat list \<Rightarrow> (nat \<Rightarrow> bool) \<Rightarrow> (nat \<Rightarrow> bool) \<Rightarrow> (nat \<Rightarrow> nat \<times> nat) \<Rightarrow> xsk \<Rightarrow> xsk res option" where
  "thread_func_poll_round env fds pollerr pollin ports s = handle_ports env 0 (map ports (poll_ports fds pollerr pollin)) s"

text \<open>One round of \<open>thread_func\<close>: \<open>btx\<close> collects descriptors until there are \<open>MAX_BURST_TX\<close>.\<close>

fun collect :: "xsk_env \<Rightarrow> nat \<Rightarrow> nat \<Rightarrow> (u64 \<times> u32) list \<Rightarrow> (u64 \<times> u32) list \<Rightarrow> xsk \<Rightarrow> ((u64 \<times> u32) list \<times> xsk) res option" where
  "collect env k tx btx [] s = Some (Inr (btx, s))"
| "collect env k tx btx (d # brx) s =
     (if length btx \<ge> MAX_BURST_TX then Some (Inl OutOfBounds)
      else let btx = btx @ [d] in
      if length btx = MAX_BURST_TX then
        (case port_tx_burst env k tx btx s of
           None \<Rightarrow> None
         | Some (Inl e) \<Rightarrow> Some (Inl e)
         | Some (Inr s) \<Rightarrow> collect env (Suc k) tx [] brx s)
      else collect env (Suc k) tx btx brx s)"

definition thread_func_round :: "xsk_env \<Rightarrow> nat \<Rightarrow> nat \<Rightarrow> (u64 \<times> u32) list \<Rightarrow> xsk \<Rightarrow> ((u64 \<times> u32) list \<times> xsk) res option" where
  "thread_func_round env rx tx btx s =
     (case port_rx_burst env rx s of
        None \<Rightarrow> None
      | Some (Inl e) \<Rightarrow> Some (Inl e)
      | Some (Inr (brx, s)) \<Rightarrow> collect env 0 tx btx brx s)"

definition next_port :: "u32 \<Rightarrow> u32 \<Rightarrow> u32" where
  "next_port i n_ports_rx = (i + 1) AND (n_ports_rx - 1)"

section \<open>Starting a port\<close>

text \<open>Which of the calls succeed; \<open>fill_size\<close> is that of the UMEM configuration. The result is the cache and the
  addresses put into the fill ring, or nothing, with the pool, and the number of map updates so far. The even ones go to
  the map of the left interface.\<close>

record port_env =
  port_calloc :: bool
  bcache_calloc :: bool
  socket_ok :: bool
  xskmap_ok :: bool

fun take_buffers :: "nat \<Rightarrow> bcache \<Rightarrow> bpool \<Rightarrow> (u64 list \<times> bcache) res" where
  "take_buffers 0 bc bp = Inr ([], bc)"
| "take_buffers (Suc n) bc bp =
     bindR (bcache_cons bc bp) (\<lambda>(b, bc). bindR (take_buffers n bc bp) (\<lambda>(bs, bc). Inr (b # bs, bc)))"

definition port_free :: "bcache option \<Rightarrow> bpool \<Rightarrow> bpool res" where
  "port_free bc bp = bcache_free bc bp"

definition port_init :: "port_env \<Rightarrow> nat \<Rightarrow> nat \<Rightarrow> bpool \<Rightarrow> ((bcache \<times> u64 list) option \<times> bpool \<times> nat) res" where
  "port_init env fill_size lr_count bp =
     (if \<not> port_calloc env then Inr (None, bp, lr_count)
      else let umem_fq_size = fill_size div BPOOL_GRP in
      bindR (bcache_init (bcache_calloc env) bp) (\<lambda>(bc, bp).
      case bc of
        None \<Rightarrow> bindR (port_free None bp) (\<lambda>bp. Inr (None, bp, lr_count))
      | Some c \<Rightarrow>
        if bcache_slab_size bp < umem_fq_size then bindR (port_free (Some c) bp) (\<lambda>bp. Inr (None, bp, lr_count))
        else bindR (bcache_cons_check c umem_fq_size bp) (\<lambda>(n, c, bp).
          if n < umem_fq_size then bindR (port_free (Some c) bp) (\<lambda>bp. Inr (None, bp, lr_count))
          else if \<not> socket_ok env then bindR (port_free (Some c) bp) (\<lambda>bp. Inr (None, bp, lr_count))
          else if \<not> xskmap_ok env then Inr (None, bp, lr_count + 1)
          else bindR (take_buffers umem_fq_size c bp) (\<lambda>(bs, c). Inr (Some (c, bs), bp, lr_count + 1)))))"

text \<open>The loop of \<open>main\<close> for the two ports that share a pool.\<close>

definition start_pair :: "port_env \<Rightarrow> nat \<Rightarrow> nat \<Rightarrow> bytes \<Rightarrow> bpool \<Rightarrow> xsk option res" where
  "start_pair env fill_size lr_count mem bp =
     bindR (port_init env fill_size lr_count bp) (\<lambda>(p0, bp, lr_count).
     case p0 of None \<Rightarrow> Inr None
     | Some (c0, f0) \<Rightarrow> bindR (port_init env fill_size lr_count bp) (\<lambda>(p1, bp, lr_count).
         case p1 of None \<Rightarrow> Inr None
         | Some (c1, f1) \<Rightarrow> Inr (Some \<lparr>pool = bp, caches = [c0, c1], umem = mem, filled = (\<lambda>_. [])(0 := f0, 1 := f1),
             sent = (\<lambda>_. []), n_pkts_rx = (\<lambda>_. 0), n_pkts_tx = (\<lambda>_. 0)\<rparr>)))"

section \<open>\<open>setup\<close> and \<open>main\<close>\<close>

fun add_threads :: "nat \<Rightarrow> nat \<Rightarrow> nat option" where
  "add_threads 0 n_threads = Some n_threads"
| "add_threads (Suc i) n_threads = (if n_threads = MAX_THREADS then None else add_threads i (n_threads + 1))"

text \<open>The ports in the order they are added: for each the interface and the queue.\<close>

datatype side = Left | Right

fun add_ports :: "nat \<Rightarrow> nat \<Rightarrow> nat \<Rightarrow> (side \<times> nat) list \<Rightarrow> (side \<times> nat) list option" where
  "add_ports 0 lr_count queue ports = Some ports"
| "add_ports (Suc i) lr_count queue ports =
     (if length ports = MAX_PORTS then None
      else if even lr_count then add_ports i (lr_count + 1) queue (ports @ [(Left, queue)])
      else add_ports i (lr_count + 1) (queue + 1) (ports @ [(Right, queue)]))"

definition setup_ports :: "nat \<Rightarrow> nat \<Rightarrow> (nat \<times> (side \<times> nat) list) option" where
  "setup_ports g_threads g_ports =
     (case add_threads g_threads 0 of
        None \<Rightarrow> None
      | Some n_threads \<Rightarrow>
        case add_ports g_ports 0 0 [] of
          None \<Rightarrow> None
        | Some ports \<Rightarrow>
          if length ports = 0 then None
          else if n_threads = 0 then None
          else if length ports mod n_threads \<noteq> 0 then None
          else Some (n_threads, ports))"

text \<open>The index of the pool that the loop of \<open>main\<close> gives to each port, with the check that there is such a pool.\<close>

fun assign_pools :: "nat \<Rightarrow> nat \<Rightarrow> nat \<Rightarrow> nat list res" where
  "assign_pools i 0 bpptr = Inr []"
| "assign_pools i (Suc n) bpptr =
     (let bpptr = (if i \<noteq> 0 \<and> i mod BPOOL_GRP = 0 then bpptr + 1 else bpptr) in
      if bpptr \<ge> MAX_BPOOL then Inl OutOfBounds
      else bindR (assign_pools (Suc i) n bpptr) (\<lambda>ps. Inr (bpptr # ps)))"

text \<open>The ports that entry \<open>j\<close> of thread \<open>i\<close> receives from and sends to.\<close>

definition thread_ports :: "nat \<Rightarrow> nat \<Rightarrow> nat \<Rightarrow> nat \<Rightarrow> nat \<times> nat" where
  "thread_ports n_ports n_threads i j =
     (let n_ports_per_thread = n_ports div n_threads
      in (i * n_ports_per_thread + j, i * n_ports_per_thread + (j + 1) mod n_ports_per_thread))"

text \<open>The end of \<open>main\<close>: \<open>pools\<close> has the pools that are still allocated.\<close>

fun shutdown :: "nat \<Rightarrow> bcache list \<Rightarrow> nat \<Rightarrow> (nat \<Rightarrow> bpool option) \<Rightarrow> (nat \<Rightarrow> bpool option) res" where
  "shutdown i [] bpptr pools = Inr pools"
| "shutdown i (c # cs) bpptr pools =
     (let bpptr = (if i \<noteq> 0 \<and> i mod BPOOL_GRP = 0 then bpptr + 1 else bpptr) in
      case pools bpptr of
        None \<Rightarrow> Inl UseAfterFree
      | Some bp \<Rightarrow> bindR (port_free (Some c) bp) (\<lambda>bp.
          shutdown (Suc i) cs bpptr (pools(bpptr := None))))"

section \<open>Specification\<close>

text \<open>\<open>K\<close> are the buffers that are neither in the pool nor in a cache: the kernel has them, or they are being forwarded.
  Together with those in the pool and the caches they are always the same buffers.\<close>

definition xsk_inv :: "nat \<Rightarrow> u64 multiset \<Rightarrow> xsk \<Rightarrow> u64 multiset \<Rightarrow> bool" where
  "xsk_inv per every s K \<longleftrightarrow> pool_wf per (pool s) (caches s) \<and> bufs (pool s) (caches s) + K = every \<and>
     size every = length (slabs (pool s)) * per"

text \<open>What the library and the kernel promise: no more entries than asked for, a reservation succeeds in the end, the
  packets received and the transmissions completed are buffers the kernel was given, and in aligned mode the offset
  computation changes nothing. The packets received are well-formed as far as \<open>handle_packet\<close> needs.\<close>

definition env_ok :: "xsk_env \<Rightarrow> xsk \<Rightarrow> u64 multiset \<Rightarrow> bool" where
  "env_ok env s K \<longleftrightarrow> (\<forall>n. length (peek_rx env n) \<le> n) \<and>
     (\<forall>n. \<exists>t. reserve_fq env t n = n) \<and> (\<forall>n. \<exists>t. reserve_tx env t n = n) \<and> (\<forall>a. add_offset env a = a) \<and>
     (\<forall>n a l. (a, l) \<in> set (peek_rx env n) \<longrightarrow> a \<in># K \<and> is_ok (handle_packet (drop (unat a) (umem s)))) \<and>
     (\<forall>k n. mset (peek_cq env k n) \<subseteq># K)"

text \<open>A step of the thread that serves the ports: the buffers outside grow by those put into the fill ring and shrink by
  those whose transmission was completed.\<close>

inductive xsk_step :: "xsk \<times> u64 multiset \<Rightarrow> xsk \<times> u64 multiset \<Rightarrow> bool" where
  forward: "env_ok env s K \<Longrightarrow> rx < length (caches s) \<Longrightarrow> tx < length (caches s) \<Longrightarrow>
     handle_port env rx tx s = Some (Inr s') \<Longrightarrow> filled s' rx = filled s rx @ fs \<Longrightarrow>
     done = (if sent s' tx = sent s tx then [] else peek_cq env 0 (comp_size env)) \<Longrightarrow>
     xsk_step (s, K) (s', K + mset fs - mset done)"

definition ports_ok :: port_env where
  "ports_ok = \<lparr>port_calloc = True, bcache_calloc = True, socket_ok = True, xskmap_ok = True\<rparr>"

section \<open>Lemmas\<close>

lemma reserve_wait_ok: "reserve t n = n \<Longrightarrow> u \<le> t \<Longrightarrow> \<exists>v. reserve_wait reserve n u = Some v"
proof (induction "t - u" arbitrary: u)
  case 0
  then have "u = t" by simp
  with 0 show ?case by (simp add: reserve_wait.simps [of reserve n t])
next
  case (Suc d)
  then have "\<exists>v. reserve_wait reserve n (Suc u) = Some v" by (metis Suc_leI diff_Suc_Suc Suc_diff_Suc zero_less_diff zero_less_Suc diff_Suc_1)
  then show ?case by (simp add: reserve_wait.simps [of reserve n u])
qed

lemma fill_loop_ok:
  assumes "pool_wf per (pool s) (caches s)" "p < length (caches s)" "n \<le> n_buffers_cons (caches s ! p)"
  shows "\<exists>bs cs. fill_loop n p s = Inr (s\<lparr>caches := cs, filled := (filled s)(p := filled s p @ bs)\<rparr>) \<and> length bs = n \<and>
    pool_wf per (pool s) cs \<and> mset bs + bufs (pool s) cs = bufs (pool s) (caches s) \<and> length cs = length (caches s)"
  using assms
proof (induction n arbitrary: s)
  case 0
  then show ?case by (intro exI [of _ "[]"] exI [of _ "caches s"]) simp
next
  case (Suc n)
  obtain b c where c: "bcache_cons (caches s ! p) (pool s) = Inr (b, c)" "pool_wf per (pool s) ((caches s)[p := c])"
    "add_mset b (bufs (pool s) ((caches s)[p := c])) = bufs (pool s) (caches s)" "n_buffers_cons c = n_buffers_cons (caches s ! p) - 1"
    using cons_at [OF Suc(2,3)] Suc(4) by fastforce
  let ?s = "s\<lparr>caches := (caches s)[p := c], filled := (filled s)(p := filled s p @ [b])\<rparr>"
  have "pool_wf per (pool ?s) (caches ?s)" "p < length (caches ?s)" "n \<le> n_buffers_cons (caches ?s ! p)"
    using c(2,4) Suc(3,4) by simp_all
  from Suc(1) [OF this] obtain bs cs where f: "fill_loop n p ?s = Inr (?s\<lparr>caches := cs, filled := (filled ?s)(p := filled ?s p @ bs)\<rparr>)"
    "length bs = n" "pool_wf per (pool ?s) cs" "mset bs + bufs (pool ?s) cs = bufs (pool ?s) (caches ?s)" "length cs = length (caches ?s)"
    by blast
  have "fill_loop (Suc n) p s = fill_loop n p ?s" using Suc(3) c(1) by simp
  also have "\<dots> = Inr (s\<lparr>caches := cs, filled := (filled s)(p := filled s p @ b # bs)\<rparr>)" unfolding f(1) by simp
  finally have 1: "fill_loop (Suc n) p s = Inr (s\<lparr>caches := cs, filled := (filled s)(p := filled s p @ b # bs)\<rparr>)" .
  show ?case using f(2-5) c(3) by (intro exI [of _ "b # bs"] exI [of _ cs] conjI 1) simp_all
qed

lemma comp_ok:
  assumes "pool_wf per (pool s) (caches s)" "p < length (caches s)" "size (bufs (pool s) (caches s)) + length addrs \<le> length (slabs (pool s)) * per"
  shows "\<exists>bp cs. comp_loop addrs p s = Inr (s\<lparr>pool := bp, caches := cs\<rparr>) \<and> pool_wf per bp cs \<and>
    bufs bp cs = mset addrs + bufs (pool s) (caches s) \<and> length (slabs bp) = length (slabs (pool s)) \<and> length cs = length (caches s)"
  using assms
proof (induction addrs arbitrary: s)
  case Nil
  then show ?case by (intro exI [of _ "pool s"] exI [of _ "caches s"]) simp
next
  case (Cons b addrs)
  have "size (bufs (pool s) (caches s)) < length (slabs (pool s)) * per" using Cons(4) by simp
  from prod_at [OF Cons(2,3) this] obtain c bp where c: "bcache_prod b (caches s ! p) (pool s) = Inr (c, bp)" "pool_wf per bp ((caches s)[p := c])"
    "bufs bp ((caches s)[p := c]) = add_mset b (bufs (pool s) (caches s))" "length (slabs bp) = length (slabs (pool s))"
    by blast
  let ?s = "s\<lparr>pool := bp, caches := (caches s)[p := c]\<rparr>"
  have "pool_wf per (pool ?s) (caches ?s)" "p < length (caches ?s)" "size (bufs (pool ?s) (caches ?s)) + length addrs \<le> length (slabs (pool ?s)) * per"
    using c(2-4) Cons(3,4) by simp_all
  from Cons(1) [OF this] obtain bp' cs where f: "comp_loop addrs p ?s = Inr (?s\<lparr>pool := bp', caches := cs\<rparr>)" "pool_wf per bp' cs"
    "bufs bp' cs = mset addrs + bufs (pool ?s) (caches ?s)" "length (slabs bp') = length (slabs (pool ?s))" "length cs = length (caches ?s)"
    by blast
  have "comp_loop (b # addrs) p s = comp_loop addrs p ?s" using Cons(3) c(1) by simp
  also have "\<dots> = Inr (s\<lparr>pool := bp', caches := cs\<rparr>)" using f(1) by simp
  finally have 1: "comp_loop (b # addrs) p s = Inr (s\<lparr>pool := bp', caches := cs\<rparr>)" .
  show ?case using f(2-5) c(3,4) by (intro exI [of _ bp'] exI [of _ cs] conjI 1) simp_all
qed

lemma rx_ok:
  assumes i: "xsk_inv per every s K" and p: "p < length (caches s)" and e: "env_ok env s K"
  shows "\<exists>b s' fs. port_rx_burst env p s = Some (Inr (b, s')) \<and> (b = [] \<or> b = peek_rx env 1 \<and> length b = 1) \<and> length fs = length b \<and>
    xsk_inv per every s' (K + mset fs) \<and> filled s' = (filled s)(p := filled s p @ fs) \<and> umem s' = umem s \<and> sent s' = sent s \<and>
    length (caches s') = length (caches s)"
proof -
  have w: "pool_wf per (pool s) (caches s)" and T: "bufs (pool s) (caches s) + K = every" "size every = length (slabs (pool s)) * per"
    using i by (simp_all add: xsk_inv_def)
  have "1 \<le> per" using w by (simp add: pool_wf_def)
  then obtain k c bp where c: "bcache_cons_check (caches s ! p) 1 (pool s) = Inr (k, c, bp)" "pool_wf per bp ((caches s)[p := c])"
    "bufs bp ((caches s)[p := c]) = bufs (pool s) (caches s)" "k \<le> n_buffers_cons c" "k \<le> 1" "length (slabs bp) = length (slabs (pool s))"
    using cons_check_at [OF w p] by blast
  let ?s = "s\<lparr>pool := bp, caches := (caches s)[p := c]\<rparr>"
  have i1: "xsk_inv per every ?s K" using c(2,3,6) T by (simp add: xsk_inv_def)
  have r: "port_rx_burst env p s = (if k = 0 then Some (Inr ([], ?s)) else let b = peek_rx env k in
      if b = [] then Some (Inr ([], ?s)) else if length b > MAX_BURST_RX then Some (Inl OutOfBounds)
      else let s = ?s\<lparr>n_pkts_rx := (n_pkts_rx ?s)(p := n_pkts_rx ?s p + word_of_nat (length b))\<rparr> in
        case reserve_wait (reserve_fq env) (length b) 0 of None \<Rightarrow> None
        | Some _ \<Rightarrow> Some (bindR (fill_loop (length b) p s) (\<lambda>s. Inr (b, s))))"
    using p c(1) by (simp add: port_rx_burst_def MAX_BURST_RX_def Let_def)
  show ?thesis
  proof (cases "k = 0 \<or> peek_rx env k = []")
    case True
    then have "port_rx_burst env p s = Some (Inr ([], ?s))" using r by auto
    then show ?thesis using i1 by (intro exI [of _ "[]"] exI [of _ ?s]) simp
  next
    case False
    then have k: "k = 1" using c(5) by simp
    let ?b = "peek_rx env 1"
    have "length ?b \<le> 1" using e by (simp add: env_ok_def)
    then have l: "length ?b = 1" using False k by (cases ?b) auto
    obtain t where "reserve_fq env t 1 = 1" using e unfolding env_ok_def by blast
    then obtain v where v: "reserve_wait (reserve_fq env) 1 0 = Some v" using reserve_wait_ok [of "reserve_fq env" t 1 0] by auto
    define s1 where "s1 = ?s\<lparr>n_pkts_rx := (n_pkts_rx ?s)(p := n_pkts_rx ?s p + word_of_nat (length ?b))\<rparr>"
    have s1: "pool s1 = bp" "caches s1 = (caches s)[p := c]" "filled s1 = filled s" "umem s1 = umem s" "sent s1 = sent s" by (simp_all add: s1_def)
    have "pool_wf per (pool s1) (caches s1)" "p < length (caches s1)" "1 \<le> n_buffers_cons (caches s1 ! p)"
      using c(2,4) p k by (simp_all add: s1)
    from fill_loop_ok [OF this] obtain fs cs where f: "fill_loop 1 p s1 = Inr (s1\<lparr>caches := cs, filled := (filled s1)(p := filled s1 p @ fs)\<rparr>)"
      "length fs = 1" "pool_wf per (pool s1) cs" "mset fs + bufs (pool s1) cs = bufs (pool s1) (caches s1)" "length cs = length (caches s1)"
      by blast
    let ?s' = "s1\<lparr>caches := cs, filled := (filled s1)(p := filled s1 p @ fs)\<rparr>"
    have "port_rx_burst env p s = Some (bindR (fill_loop 1 p s1) (\<lambda>s. Inr (?b, s)))"
      using False r v l unfolding k s1_def by (simp add: Let_def MAX_BURST_RX_def del: fill_loop.simps One_nat_def)
    then have "port_rx_burst env p s = Some (Inr (?b, ?s'))" unfolding f(1) by simp
    moreover have "xsk_inv per every ?s' (K + mset fs)"
      using f(3,4) c(3,6) T by (simp add: xsk_inv_def s1 ac_simps flip: f(4))
    ultimately show ?thesis using f(2,5) l by (intro exI [of _ ?b] exI [of _ ?s'] exI [of _ fs]) (simp add: s1)
  qed
qed

lemma tx_ok:
  assumes i: "xsk_inv per every s K" and p: "p < length (caches s)" and c: "mset (peek_cq env k (comp_size env)) \<subseteq># K"
    and r: "reserve_tx env t (length b) = length b"
  shows "\<exists>s'. port_tx_burst env k p b s = Some (Inr s') \<and> xsk_inv per every s' (K - mset (peek_cq env k (comp_size env))) \<and>
    sent s' = (sent s)(p := sent s p @ b) \<and> filled s' = filled s \<and> umem s' = umem s \<and> length (caches s') = length (caches s)"
proof -
  let ?C = "peek_cq env k (comp_size env)"
  have w: "pool_wf per (pool s) (caches s)" and T: "bufs (pool s) (caches s) + K = every" "size every = length (slabs (pool s)) * per"
    using i by (simp_all add: xsk_inv_def)
  define s1 where "s1 = s\<lparr>sent := (sent s)(p := sent s p @ b), n_pkts_tx := (n_pkts_tx s)(p := n_pkts_tx s p + word_of_nat (length b))\<rparr>"
  have s1: "pool s1 = pool s" "caches s1 = caches s" "filled s1 = filled s" "umem s1 = umem s" "sent s1 = (sent s)(p := sent s p @ b)"
    by (simp_all add: s1_def)
  obtain v where v: "reserve_wait (reserve_tx env) (length b) 0 = Some v" using reserve_wait_ok [of "reserve_tx env" t "length b" 0] r by auto
  have "size (bufs (pool s) (caches s)) + length ?C \<le> length (slabs (pool s)) * per"
    using size_mset_mono [OF c] T(2) size_union [of "bufs (pool s) (caches s)" K] unfolding T(1) size_mset by linarith
  then have "pool_wf per (pool s1) (caches s1)" "p < length (caches s1)" "size (bufs (pool s1) (caches s1)) + length ?C \<le> length (slabs (pool s1)) * per"
    using w p by (simp_all add: s1)
  from comp_ok [OF this] obtain bp cs where f: "comp_loop ?C p s1 = Inr (s1\<lparr>pool := bp, caches := cs\<rparr>)" "pool_wf per bp cs"
    "bufs bp cs = mset ?C + bufs (pool s1) (caches s1)" "length (slabs bp) = length (slabs (pool s1))" "length cs = length (caches s1)"
    by blast
  let ?s' = "s1\<lparr>pool := bp, caches := cs\<rparr>"
  have "port_tx_burst env k p b s = Some (Inr ?s')" using v f(1) by (simp add: port_tx_burst_def s1_def [symmetric] Let_def)
  moreover have "mset ?C + bufs (pool s) (caches s) + (K - mset ?C) = every"
    using subset_mset.add_diff_inverse [OF c] T(1) by (simp only: ac_simps)
  then have "xsk_inv per every ?s' (K - mset ?C)" using f(2-4) T(2) by (simp add: xsk_inv_def s1)
  ultimately show ?thesis using f(5) by (intro exI [of _ ?s']) (simp add: s1)
qed

lemma handle_port_ok:
  assumes i: "xsk_inv per every s K" and p: "rx < length (caches s)" "tx < length (caches s)" and e: "env_ok env s K"
  shows "\<exists>s' b fs. handle_port env rx tx s = Some (Inr s') \<and> (b = [] \<or> b = peek_rx env 1 \<and> length b = 1) \<and> length fs = length b \<and>
    sent s' = (sent s)(tx := sent s tx @ b) \<and> filled s' = (filled s)(rx := filled s rx @ fs) \<and>
    xsk_inv per every s' (K + mset fs - mset (if b = [] then [] else peek_cq env 0 (comp_size env))) \<and> length (caches s') = length (caches s)"
proof -
  obtain b s1 fs where 1: "port_rx_burst env rx s = Some (Inr (b, s1))" "b = [] \<or> b = peek_rx env 1 \<and> length b = 1" "length fs = length b"
    "xsk_inv per every s1 (K + mset fs)" "filled s1 = (filled s)(rx := filled s rx @ fs)" "umem s1 = umem s" "sent s1 = sent s"
    "length (caches s1) = length (caches s)"
    using rx_ok [OF i p(1) e] by blast
  show ?thesis
  proof (cases "b = []")
    case True
    then have "handle_port env rx tx s = Some (Inr s1)" using 1(1) by (simp add: handle_port_def)
    then show ?thesis using 1 True by (intro exI [of _ s1] exI [of _ "[]"] exI [of _ fs]) simp
  next
    case False
    then obtain a l where b: "b = [(a, l)]" "b = peek_rx env 1" using 1(2) by (cases b) auto
    have "(a, l) \<in> set (peek_rx env 1)" using b by simp
    then have "is_ok (handle_packet (drop (unat a) (umem s)))" using e unfolding env_ok_def by blast
    then obtain r pkt where h: "handle_packet (drop (unat a) (umem s)) = Inr (r, pkt)" by (metis is_okE surj_pair)
    have o: "add_offset env a = a" "mset (peek_cq env 0 (comp_size env)) \<subseteq># K + mset fs"
      using e unfolding env_ok_def by (auto intro: subset_mset.add_increasing2)
    obtain t where t: "reserve_tx env t (length [(a, l)]) = length [(a, l)]" using e unfolding env_ok_def by blast
    define s2 where "s2 = s1\<lparr>umem := take (unat a) (umem s1) @ pkt\<rparr>"
    have i2: "xsk_inv per every s2 (K + mset fs)" "tx < length (caches s2)" using 1(4,8) p(2) by (simp_all add: s2_def xsk_inv_def)
    obtain s3 where 3: "port_tx_burst env 0 tx [(a, l)] s2 = Some (Inr s3)" "xsk_inv per every s3 (K + mset fs - mset (peek_cq env 0 (comp_size env)))"
      "sent s3 = (sent s2)(tx := sent s2 tx @ [(a, l)])" "filled s3 = filled s2" "length (caches s3) = length (caches s2)"
      using tx_ok [OF i2 o(2) t] by blast
    have "handle_port env rx tx s = Some (Inr s3)"
      using 1(1,6) b(1) h o(1) 3(1) by (simp add: handle_port_def Let_def s2_def)
    moreover have B: "b = [] \<or> b = peek_rx env 1 \<and> length b = 1" by (rule 1(2))
    ultimately show ?thesis using 1(3,5,7,8) 3(2-5) False b(1)
      by (intro exI [of _ s3] exI [of _ b] exI [of _ fs] conjI B) (simp_all add: s2_def)
  qed
qed

lemma xsk_step_inv:
  assumes "xsk_step x y" "xsk_inv per every (fst x) (snd x)"
  shows "xsk_inv per every (fst y) (snd y) \<and> length (caches (fst y)) = length (caches (fst x))"
  using assms
proof (induction rule: xsk_step.induct)
  case (forward env s K rx tx s' fs "done")
  then obtain b fs' where h: "b = [] \<or> b = peek_rx env 1 \<and> length b = 1" "sent s' = (sent s)(tx := sent s tx @ b)"
    "filled s' = (filled s)(rx := filled s rx @ fs')" "length (caches s') = length (caches s)"
    "xsk_inv per every s' (K + mset fs' - mset (if b = [] then [] else peek_cq env 0 (comp_size env)))"
    using handle_port_ok [of per every s K rx tx env] by auto
  have "fs' = fs" using h(3) forward(5) by simp
  moreover have "done = (if b = [] then [] else peek_cq env 0 (comp_size env))" using h(2) forward(6) by simp
  ultimately show ?case using h(4,5) by simp
qed

lemma take_buffers_ok:
  assumes "pool_wf per bp (cs @ [c])" "n \<le> n_buffers_cons c"
  shows "\<exists>bs c'. take_buffers n c bp = Inr (bs, c') \<and> length bs = n \<and> pool_wf per bp (cs @ [c']) \<and>
    mset bs + bufs bp (cs @ [c']) = bufs bp (cs @ [c])"
  using assms
proof (induction n arbitrary: c)
  case 0
  then show ?case by simp
next
  case (Suc n)
  obtain b c1 where c: "bcache_cons c bp = Inr (b, c1)" "pool_wf per bp (cs @ [c1])" "add_mset b (bufs bp (cs @ [c1])) = bufs bp (cs @ [c])"
    "n_buffers_cons c1 = n_buffers_cons c - 1"
    using cons_ok [of per bp cs c "[]"] Suc(2,3) by auto
  have "n \<le> n_buffers_cons c1" using c(4) Suc(3) by simp
  from Suc(1) [OF c(2) this] obtain bs c' where t: "take_buffers n c1 bp = Inr (bs, c')" "length bs = n" "pool_wf per bp (cs @ [c'])"
    "mset bs + bufs bp (cs @ [c']) = bufs bp (cs @ [c1])" by blast
  show ?case by (intro exI [of _ "b # bs"] exI [of _ c']) (simp add: c(1,3) t)
qed

lemma port_init_ok:
  assumes w: "pool_wf per bp cs" and r: "0 < n_slabs_reserved_available bp" "0 < n_slabs_available bp" and f: "fill_size div BPOOL_GRP \<le> per"
  shows "\<exists>c fs bp'. port_init ports_ok fill_size lr bp = Inr (Some (c, fs), bp', lr + 1) \<and> pool_wf per bp' (cs @ [c]) \<and>
    mset fs + bufs bp' (cs @ [c]) = bufs bp cs \<and> n_slabs_available bp' = n_slabs_available bp - 1 \<and>
    n_slabs_reserved_available bp' = n_slabs_reserved_available bp - 2 \<and> length (slabs bp') = length (slabs bp)"
proof -
  let ?n = "fill_size div BPOOL_GRP"
  obtain c1 bp1 where 1: "bcache_init True bp = Inr (Some c1, bp1)" "pool_wf per bp1 (cs @ [c1])" "bufs bp1 (cs @ [c1]) = bufs bp cs"
    "n_buffers_cons c1 = 0" "slabs bp1 = slabs bp" "n_slabs_available bp1 = n_slabs_available bp"
    "n_slabs_reserved_available bp1 = n_slabs_reserved_available bp - 2"
    using bcache_init_ok [OF w r(1)] by blast
  obtain k c2 bp2 where 2: "bcache_cons_check c1 ?n bp1 = Inr (k, c2, bp2)" "pool_wf per bp2 (cs @ [c2])" "bufs bp2 (cs @ [c2]) = bufs bp1 (cs @ [c1])"
    "k \<le> n_buffers_cons c2" "length (slabs bp2) = length (slabs bp1)" "n_slabs_reserved_available bp2 = n_slabs_reserved_available bp1"
    "k = ?n" "n_slabs_available bp2 = n_slabs_available bp1 - 1"
    using cons_check_ok [OF 1(2) f] 1(4,6) r(2) by auto
  obtain fs c3 where 3: "take_buffers ?n c2 bp2 = Inr (fs, c3)" "pool_wf per bp2 (cs @ [c3])" "mset fs + bufs bp2 (cs @ [c3]) = bufs bp2 (cs @ [c2])"
    using take_buffers_ok [OF 2(2)] 2(4,7) by blast
  have "bcache_slab_size bp1 = per" using 1(2) by (simp add: pool_wf_def)
  then have "port_init ports_ok fill_size lr bp = Inr (Some (c3, fs), bp2, lr + 1)"
    using 1(1) 2(1,7) 3(1) f by (simp add: port_init_def ports_ok_def Let_def)
  then show ?thesis using 1 2 3 by (intro exI [of _ c3] exI [of _ fs] exI [of _ bp2]) simp
qed

lemma start_pair_ok:
  assumes w: "pool_wf per bp []" and r: "4 \<le> n_slabs_reserved_available bp" "2 \<le> n_slabs_available bp" and f: "fill_size div BPOOL_GRP \<le> per"
    and t: "bufs bp [] = every" "size every = length (slabs bp) * per"
  shows "\<exists>s. start_pair ports_ok fill_size lr mem bp = Inr (Some s) \<and> xsk_inv per every s (mset (filled s 0) + mset (filled s 1)) \<and> length (caches s) = 2"
proof -
  have "0 < n_slabs_reserved_available bp" "0 < n_slabs_available bp" using r by simp_all
  from port_init_ok [OF w this f, of lr] obtain c0 f0 bp0 where 0: "port_init ports_ok fill_size lr bp = Inr (Some (c0, f0), bp0, lr + 1)" "pool_wf per bp0 [c0]"
    "mset f0 + bufs bp0 [c0] = bufs bp []" "n_slabs_available bp0 = n_slabs_available bp - 1"
    "n_slabs_reserved_available bp0 = n_slabs_reserved_available bp - 2" "length (slabs bp0) = length (slabs bp)" by auto
  have "0 < n_slabs_reserved_available bp0" "0 < n_slabs_available bp0" using 0(4,5) r by simp_all
  from port_init_ok [OF 0(2) this f, of "lr + 1"] obtain c1 f1 bp1 where 1: "port_init ports_ok fill_size (lr + 1) bp0 = Inr (Some (c1, f1), bp1, lr + 1 + 1)"
    "pool_wf per bp1 [c0, c1]" "mset f1 + bufs bp1 [c0, c1] = bufs bp0 [c0]" "length (slabs bp1) = length (slabs bp0)" by auto
  have "bufs bp1 [c0, c1] + (mset f0 + mset f1) = every" using 0(3) 1(3) t(1) by (metis add.assoc add.commute)
  then show ?thesis using 0 1 t(2) by (simp add: start_pair_def xsk_inv_def)
qed

lemma xsk_reach_inv:
  assumes "xsk_step\<^sup>*\<^sup>* x y" "xsk_inv per every (fst x) (snd x)"
  shows "xsk_inv per every (fst y) (snd y) \<and> length (caches (fst y)) = length (caches (fst x))"
  using assms by (induction rule: rtranclp_induct) (auto dest: xsk_step_inv)

lemma the_bufs_distinct:
  assumes "0 < unat (p_buffer_size params)" "n * unat (p_buffer_size params) \<le> 2 ^ 64"
  shows "distinct (the_bufs params n)"
proof -
  let ?z = "unat (p_buffer_size params)"
  have u: "unat (word_of_nat i * ucast (p_buffer_size params) :: u64) = i * ?z" if "i < n" for i
  proof -
    have "i * ?z < n * ?z" using that assms(1) by simp
    then have b: "i * ?z < 2 ^ 64" using assms(2) by linarith
    then have "i < 2 ^ 64" using assms(1) by (metis le_less_trans mult.right_neutral mult_le_mono2 Suc_leI One_nat_def)
    then have "unat (word_of_nat i :: u64) = i" by (simp add: unsigned_of_nat take_bit_eq_mod)
    moreover have "unat (ucast (p_buffer_size params) :: u64) = ?z"
      using unsigned_less [of "p_buffer_size params", where ?'a = nat] by (simp add: unsigned_ucast_eq take_bit_eq_mod)
    ultimately show ?thesis using b by (simp add: unat_word_ariths)
  qed
  have "inj_on (\<lambda>i. word_of_nat i * ucast (p_buffer_size params) :: u64) {0..<n}"
  proof (rule inj_onI)
    fix i j assume "i \<in> {0..<n}" "j \<in> {0..<n}" "word_of_nat i * ucast (p_buffer_size params) = (word_of_nat j * ucast (p_buffer_size params) :: u64)"
    then have "i * ?z = j * ?z" using u by (metis atLeastLessThan_iff)
    then show "i = j" using assms(1) by simp
  qed
  then show ?thesis by (simp add: the_bufs_def distinct_map)
qed

lemma add_threads_ok: "n + k \<le> MAX_THREADS \<Longrightarrow> add_threads n k = Some (n + k)"
  by (induction n arbitrary: k) (auto simp: MAX_THREADS_def)

lemma add_ports_ok:
  assumes "even lr" "length ports + 2 * t \<le> MAX_PORTS"
  shows "add_ports (2 * t) lr q ports = Some (ports @ concat (map (\<lambda>i. [(Left, q + i), (Right, q + i)]) [0..<t]))"
  using assms
proof (induction t arbitrary: lr q ports)
  case (Suc t)
  have "[0..<Suc t] = 0 # map Suc [0..<t]" by (simp add: map_Suc_upt upt_conv_Cons)
  moreover have "add_ports (2 * Suc t) lr q ports = add_ports (2 * t) (lr + 2) (q + 1) (ports @ [(Left, q), (Right, q)])"
    using Suc(2,3) by (simp add: MAX_PORTS_def)
  ultimately show ?case using Suc by (simp add: comp_def)
qed simp

lemma assign_step:
  assumes "b = (i - 1) div 2"
  shows "assign_pools i (Suc n) b =
    (if i div 2 \<ge> MAX_BPOOL then Inl OutOfBounds else bindR (assign_pools (Suc i) n (i div 2)) (\<lambda>ps. Inr (i div 2 # ps)))"
proof -
  have e: "(if i \<noteq> 0 \<and> i mod BPOOL_GRP = 0 then b + 1 else b) = i div 2" using assms unfolding BPOOL_GRP_def by presburger
  show ?thesis unfolding assign_pools.simps Let_def e ..
qed

lemma assign_pools_ok: "b = (i - 1) div 2 \<Longrightarrow> i + n \<le> 32 \<Longrightarrow> assign_pools i n b = Inr (map (\<lambda>k. k div 2) [i..<i + n])"
proof (induction n arbitrary: i b)
  case (Suc n)
  have "i div 2 < MAX_BPOOL" using Suc(3) by (simp add: MAX_BPOOL_def)
  then show ?case using Suc(1) [of "i div 2" "Suc i"] Suc(3) unfolding assign_step [OF Suc(2)]
    by (simp add: upt_conv_Cons del: upt_Suc)
qed simp

lemma assign_pools_out: "b = (i - 1) div 2 \<Longrightarrow> i \<le> 32 \<Longrightarrow> 32 < i + n \<Longrightarrow> assign_pools i n b = Inl OutOfBounds"
proof (induction n arbitrary: i b)
  case (Suc n)
  then show ?case using Suc(1) [of "i div 2" "Suc i"] unfolding assign_step [OF Suc(2)]
    by (cases "i = 32") (simp_all add: MAX_BPOOL_def)
qed simp

section \<open>Properties\<close>



text \<open>
  C24. With twice as many ports as threads, and at most 16 threads, \<open>setup\<close> makes ports for the left and the right interface
  on the same queue in turn, \<open>main\<close> gives both ports of a queue the same pool, and each thread forwards from one port of
  a queue to the other, so that a packet never leaves the memory area it was received in.
\<close>

theorem xsk_wiring:
  assumes "0 < t" "t \<le> 16"
  shows "setup_ports t (2 * t) = Some (t, concat (map (\<lambda>q. [(Left, q), (Right, q)]) [0..<t])) \<and>
    assign_pools 0 (2 * t) 0 = Inr (map (\<lambda>i. i div 2) [0..<2 * t]) \<and>
    thread_ports (2 * t) t i 0 = (2 * i, 2 * i + 1) \<and> thread_ports (2 * t) t i 1 = (2 * i + 1, 2 * i)"
  using assms add_threads_ok [of t 0] add_ports_ok [of 0 "[]" t 0] assign_pools_ok [of 0 0 "2 * t"]
  by (simp add: setup_ports_def MAX_THREADS_def MAX_PORTS_def thread_ports_def Let_def length_concat comp_def sum_list_triv del: upt_Suc)

theorem xsk_wiring_witness: "assign_pools 0 8 0 = Inr [0, 0, 1, 1, 2, 2, 3, 3]"
  using xsk_wiring [of 4 0] by (simp add: upt_rec)

text \<open>
  With 17 to 32 threads \<open>setup\<close> succeeds, but the loop that assigns the pools runs past the array of 16 pools. And at the
  end of \<open>main\<close> the pool two ports share is freed after the first of them, so that freeing the second port uses it
  after it was freed.
\<close>

lemma xsk_main_faults:
  assumes "16 < t" "t \<le> 32"
  shows "setup_ports t (2 * t) \<noteq> None \<and> assign_pools 0 (2 * t) 0 = Inl OutOfBounds \<and>
    (\<forall>bp pools c0 c1 cs. pools 0 = Some bp \<and> is_ok (port_free (Some c0) bp) \<longrightarrow> shutdown 0 (c0 # c1 # cs) 0 pools = Inl UseAfterFree)"
  using assms add_threads_ok [of t 0] add_ports_ok [of 0 "[]" t 0] assign_pools_out [of 0 0 "2 * t"]
  by (auto simp: setup_ports_def MAX_THREADS_def MAX_PORTS_def length_concat comp_def sum_list_triv BPOOL_GRP_def elim!: is_okE)

theorem xsk_main_faults_witness: "assign_pools 0 64 0 = Inl OutOfBounds"
  using xsk_main_faults [of 32] by simp

end
