(* ===== verification/SecretDrv.thy ===== *)
theory SecretDrv
  imports Prelude
begin

text \<open>
  The three character drivers that keep a "secret" of at most 128 bytes
  (\<open>kdev-misc/miscdrv_rdwr.c\<close> without locks, \<open>ksync-mutex/mutexlock_misc.c\<close> and
  \<open>ksync-spin/spinlock_misc.c\<close>), and the user program that reads and writes it
  (\<open>kdev-misc/rdwr_test_secret.c\<close>). The driver's context is a record that the two locking drivers extend
  by their locks; a method takes what the kernel decides (whether an allocation succeeds, how much of the
  user's buffer can be accessed) as arguments. The critical sections of the locking drivers are definitions
  of their own, so that the methods and the interleavings of several callers are made of the same parts.
  Log output is left out.
\<close>

section \<open>String functions of the kernel on a buffer\<close>

definition strlen8 :: "bytes \<Rightarrow> nat res" where
  "strlen8 s = (if 0 \<in> set s then Inr (length (takeWhile (\<lambda>b. b \<noteq> 0) s)) else Inl OutOfBounds)"

definition strnlen8 :: "bytes \<Rightarrow> nat \<Rightarrow> nat res" where
  "strnlen8 s n = (if 0 \<in> set (take n s) \<or> n \<le> length s
     then Inr (length (takeWhile (\<lambda>b. b \<noteq> 0) (take n s))) else Inl OutOfBounds)"

text \<open>\<open>strlcpy\<close> measures the whole source first.\<close>

definition strlcpy :: "bytes \<Rightarrow> bytes \<Rightarrow> nat \<Rightarrow> bytes res" where
  "strlcpy dst src n = bindR (strlen8 src) (\<lambda>k.
     if n = 0 then Inr dst
     else let len = min k (n - 1) in bindR (memcpy dst src len) (\<lambda>d. arr_set d len 0))"

text \<open>\<open>strscpy\<close> reads at most \<open>n\<close> bytes of the source, and always terminates a destination that has room.\<close>

definition strscpy :: "bytes \<Rightarrow> bytes \<Rightarrow> nat \<Rightarrow> bytes res" where
  "strscpy dst src n =
     (if n = 0 then Inr dst
      else if 0 \<in> set (take n src) then memcpy dst src (length (takeWhile (\<lambda>b. b \<noteq> 0) src) + 1)
      else bindR (memcpy dst src n) (\<lambda>d. arr_set d (n - 1) 0))"

text \<open>
  \<open>copy_to_user\<close> and \<open>copy_from_user\<close> return the number of bytes that could not be copied. The user's
  buffer is given by the number of bytes that can be written, or by the bytes that can be read.
\<close>

definition copy_to_user :: "nat \<Rightarrow> bytes \<Rightarrow> nat \<Rightarrow> (nat \<times> bytes) res" where
  "copy_to_user room src n =
     (if n \<le> length src then Inr (n - room, take (min n room) src) else Inl OutOfBounds)"

definition copy_from_user :: "bytes \<Rightarrow> bytes \<Rightarrow> nat \<Rightarrow> (nat \<times> bytes) res" where
  "copy_from_user dst ubuf n =
     (if n \<le> length dst
      then Inr (n - length ubuf, take n ubuf @ replicate (n - length ubuf) 0 @ drop n dst)
      else Inl OutOfBounds)"

definition EFAULT :: int where "EFAULT = 14"
definition EINVAL :: int where "EINVAL = 22"
definition ENOMEM :: int where "ENOMEM = 12"

text \<open>The conversion of a \<open>size_t\<close> to \<open>int\<close>.\<close>

definition to_int :: "nat \<Rightarrow> int" where
  "to_int n = sint (of_nat n :: u32)"

section \<open>State\<close>

definition MAXBYTES :: nat where
  "MAXBYTES = 128"

record drv_ctx =
  tx :: u32
  rx :: u32
  err :: u32
  myword :: u32
  config1 :: u32
  config2 :: u32
  config3 :: u64
  oursecret :: bytes

record drv_ctx_mutex = drv_ctx +
  lock :: bool

record drv_ctx_spin = drv_ctx +
  mutex :: bool
  spinlock :: bool
  atomic_sleep :: bool

text \<open>
  The module: its global integers and their lock, the context (absent before it is allocated and after
  it is freed) and whether the device node exists. A lock is true while it is held; \<open>atomic_sleep\<close> records
  that the driver slept while it held its spinlock.
\<close>

record 'c module =
  ga :: u32
  gb :: u32
  lock1 :: bool
  ctx :: "'c option"
  registered :: bool

definition insmod :: "'c module" where
  "insmod = \<lparr>ga = 0, gb = 1, lock1 = False, ctx = None, registered = False\<rparr>"

definition zero_ctx :: drv_ctx where
  "zero_ctx = \<lparr>tx = 0, rx = 0, err = 0, myword = 0, config1 = 0, config2 = 0, config3 = 0,
     oursecret = replicate MAXBYTES 0\<rparr>"

definition initmsg :: bytes where
  "initmsg = [0x69, 0x6e, 0x69, 0x74, 0x6d, 0x73, 0x67, 0]"

text \<open>Taking a lock that is held and never released is a deadlock; the context must exist.\<close>

definition take_lock :: "bool \<Rightarrow> 'a \<Rightarrow> 'a res" where
  "take_lock held s = (if held then Inl DeadLock else Inr s)"

definition the_ctx :: "'c module \<Rightarrow> 'c res" where
  "the_ctx d = (case ctx d of None \<Rightarrow> Inl NullDeref | Some c \<Rightarrow> Inr c)"

text \<open>
  A driver's \<open>struct file_operations\<close>. The Boolean of \<open>fop_open\<close>, \<open>fop_write\<close> and \<open>fop_release\<close> tells
  whether the allocation in the method succeeds; \<open>fop_read\<close> takes the number of bytes asked for and the
  number of bytes the user's buffer has, and gives what was written into it; \<open>fop_write\<close> takes the user's
  buffer and the number of bytes to write.
\<close>

record 'd fops =
  fop_open :: "bool \<Rightarrow> 'd \<Rightarrow> (int \<times> 'd) res"
  fop_read :: "nat \<Rightarrow> nat \<Rightarrow> 'd \<Rightarrow> (int \<times> bytes \<times> 'd) res"
  fop_write :: "bool \<Rightarrow> bytes \<Rightarrow> nat \<Rightarrow> 'd \<Rightarrow> (int \<times> 'd) res"
  fop_release :: "bool \<Rightarrow> 'd \<Rightarrow> (int \<times> 'd) res"

section \<open>The driver without locks\<close>

type_synonym misc = "drv_ctx module"

definition open_misc :: "bool \<Rightarrow> misc \<Rightarrow> (int \<times> misc) res" where
  "open_misc mem d = bindR (the_ctx d) (\<lambda>_.
     if \<not> mem then Inr (- ENOMEM, d)
     else Inr (0, d\<lparr>ga := ga d + 1, gb := gb d - 1\<rparr>))"

definition read_misc :: "nat \<Rightarrow> nat \<Rightarrow> misc \<Rightarrow> (int \<times> bytes \<times> misc) res" where
  "read_misc cnt room d = bindR (the_ctx d) (\<lambda>c.
     bindR (strnlen8 (oursecret c) MAXBYTES) (\<lambda>secret_len.
       if cnt < MAXBYTES then Inr (- EINVAL, [], d)
       else if secret_len \<le> 0 then Inr (- EINVAL, [], d)
       else bindR (copy_to_user room (oursecret c) secret_len) (\<lambda>(left, out).
         if left \<noteq> 0 then Inr (- EFAULT, out, d)
         else Inr (int secret_len, out, d\<lparr>ctx := Some (c\<lparr>tx := tx c + of_nat secret_len\<rparr>)\<rparr>))))"

definition write_misc :: "bool \<Rightarrow> bytes \<Rightarrow> nat \<Rightarrow> misc \<Rightarrow> (int \<times> misc) res" where
  "write_misc mem ubuf cnt d = bindR (the_ctx d) (\<lambda>c.
     if cnt > MAXBYTES then Inr (to_int cnt, d)
     else if \<not> mem then Inr (- ENOMEM, d)
     else bindR (copy_from_user (replicate cnt 0) ubuf cnt) (\<lambda>(left, kbuf).
       if left \<noteq> 0 then Inr (- EFAULT, d)
       else bindR (strlcpy (oursecret c) kbuf (if cnt > MAXBYTES then MAXBYTES else cnt)) (\<lambda>s.
         Inr (to_int cnt, d\<lparr>ctx := Some (c\<lparr>oursecret := s, rx := rx c + of_nat cnt\<rparr>)\<rparr>))))"

definition close_misc :: "bool \<Rightarrow> misc \<Rightarrow> (int \<times> misc) res" where
  "close_misc mem d = bindR (the_ctx d) (\<lambda>_.
     if \<not> mem then Inr (- ENOMEM, d)
     else Inr (0, d\<lparr>ga := ga d - 1, gb := gb d + 1\<rparr>))"

definition misc_fops :: "misc fops" where
  "misc_fops = \<lparr>fop_open = open_misc, fop_read = read_misc, fop_write = write_misc, fop_release = close_misc\<rparr>"

text \<open>\<open>reg\<close> is what \<open>misc_register\<close> returns, \<open>mem\<close> whether the context can be allocated.\<close>

definition misc_init :: "int \<Rightarrow> bool \<Rightarrow> misc \<Rightarrow> (int \<times> misc) res" where
  "misc_init reg mem d =
     (if reg \<noteq> 0 then Inr (reg, d)
      else let d = d\<lparr>registered := True\<rparr> in
        if \<not> mem then Inr (- ENOMEM, d)
        else bindR (strlcpy (oursecret zero_ctx) initmsg 8) (\<lambda>s.
          Inr (0, d\<lparr>ctx := Some (zero_ctx\<lparr>oursecret := s\<rparr>)\<rparr>)))"

definition misc_exit :: "misc \<Rightarrow> misc" where
  "misc_exit d = d\<lparr>registered := False, ctx := None\<rparr>"

section \<open>The driver with a mutex\<close>

type_synonym mtx = "drv_ctx_mutex module"

definition open_mutex :: "bool \<Rightarrow> mtx \<Rightarrow> (int \<times> mtx) res" where
  "open_mutex mem d = bindR (the_ctx d) (\<lambda>_.
     bindR (take_lock (lock1 d) (d\<lparr>lock1 := True\<rparr>)) (\<lambda>d.
       let d = d\<lparr>ga := ga d + 1, gb := gb d - 1\<rparr> in Inr (0, d\<lparr>lock1 := False\<rparr>)))"

text \<open>The first critical section of a read: the length of the secret.\<close>

definition len_mutex :: "mtx \<Rightarrow> (nat \<times> mtx) res" where
  "len_mutex d = bindR (the_ctx d) (\<lambda>c.
     bindR (take_lock (lock c) (c\<lparr>lock := True\<rparr>)) (\<lambda>c.
       bindR (strlen8 (oursecret c)) (\<lambda>secret_len.
         Inr (secret_len, d\<lparr>ctx := Some (c\<lparr>lock := False\<rparr>)\<rparr>))))"

text \<open>The second one: that many bytes of the secret go to the user.\<close>

definition copy_mutex :: "nat \<Rightarrow> nat \<Rightarrow> mtx \<Rightarrow> (int \<times> bytes \<times> mtx) res" where
  "copy_mutex secret_len room d = bindR (the_ctx d) (\<lambda>c.
     bindR (take_lock (lock c) (c\<lparr>lock := True\<rparr>)) (\<lambda>c.
       bindR (copy_to_user room (oursecret c) secret_len) (\<lambda>(left, out).
         if left \<noteq> 0 then Inr (- EFAULT, out, d\<lparr>ctx := Some (c\<lparr>lock := False\<rparr>)\<rparr>)
         else let c = c\<lparr>tx := tx c + of_nat secret_len\<rparr> in
           Inr (int secret_len, out, d\<lparr>ctx := Some (c\<lparr>lock := False\<rparr>)\<rparr>))))"

definition read_mutex :: "nat \<Rightarrow> nat \<Rightarrow> mtx \<Rightarrow> (int \<times> bytes \<times> mtx) res" where
  "read_mutex cnt room d = bindR (len_mutex d) (\<lambda>(secret_len, d).
     if cnt < MAXBYTES then Inr (- EINVAL, [], d)
     else if secret_len \<le> 0 then Inr (- EINVAL, [], d)
     else copy_mutex secret_len room d)"

text \<open>The critical section of a write.\<close>

definition store_mutex :: "bytes \<Rightarrow> nat \<Rightarrow> mtx \<Rightarrow> (int \<times> mtx) res" where
  "store_mutex kbuf cnt d = bindR (the_ctx d) (\<lambda>c.
     bindR (take_lock (lock c) (c\<lparr>lock := True\<rparr>)) (\<lambda>c.
       bindR (strscpy (oursecret c) kbuf (if cnt > MAXBYTES then MAXBYTES else cnt)) (\<lambda>s.
         let c = c\<lparr>oursecret := s, rx := rx c + of_nat cnt\<rparr> in
           Inr (to_int cnt, d\<lparr>ctx := Some (c\<lparr>lock := False\<rparr>)\<rparr>))))"

definition write_mutex :: "bool \<Rightarrow> bytes \<Rightarrow> nat \<Rightarrow> mtx \<Rightarrow> (int \<times> mtx) res" where
  "write_mutex mem ubuf cnt d = bindR (the_ctx d) (\<lambda>_.
     if \<not> mem then Inr (- ENOMEM, d)
     else bindR (copy_from_user (replicate cnt 0) ubuf cnt) (\<lambda>(left, kbuf).
       if left \<noteq> 0 then Inr (- EFAULT, d) else store_mutex kbuf cnt d))"

definition close_mutex :: "bool \<Rightarrow> mtx \<Rightarrow> (int \<times> mtx) res" where
  "close_mutex mem d = bindR (the_ctx d) (\<lambda>_.
     bindR (take_lock (lock1 d) (d\<lparr>lock1 := True\<rparr>)) (\<lambda>d.
       let d = d\<lparr>ga := ga d - 1, gb := gb d + 1\<rparr> in Inr (0, d\<lparr>lock1 := False\<rparr>)))"

definition mutex_fops :: "mtx fops" where
  "mutex_fops = \<lparr>fop_open = open_mutex, fop_read = read_mutex, fop_write = write_mutex,
     fop_release = close_mutex\<rparr>"

definition mutex_init :: "int \<Rightarrow> bool \<Rightarrow> mtx \<Rightarrow> (int \<times> mtx) res" where
  "mutex_init reg mem d =
     (if reg < 0 then Inr (reg, d)
      else let d = d\<lparr>registered := True\<rparr> in
        if \<not> mem then Inr (- ENOMEM, d)
        else let c = drv_ctx.extend zero_ctx (drv_ctx_mutex.fields False) in
          bindR (strscpy (oursecret c) initmsg 8) (\<lambda>s.
            Inr (0, d\<lparr>ctx := Some (c\<lparr>oursecret := s\<rparr>)\<rparr>)))"

definition mutex_exit :: "mtx \<Rightarrow> mtx" where
  "mutex_exit d = d\<lparr>registered := False, ctx := None\<rparr>"

section \<open>The driver with a spinlock and a mutex\<close>

type_synonym spn = "drv_ctx_spin module"

definition display_stats :: "bool \<Rightarrow> spn \<Rightarrow> spn res" where
  "display_stats show_stats d = bindR (the_ctx d) (\<lambda>c.
     if \<not> show_stats then Inr d
     else bindR (take_lock (spinlock c) (c\<lparr>spinlock := True\<rparr>)) (\<lambda>c.
       Inr (d\<lparr>ctx := Some (c\<lparr>spinlock := False\<rparr>)\<rparr>)))"

definition open_spin :: "bool \<Rightarrow> spn \<Rightarrow> (int \<times> spn) res" where
  "open_spin mem d = bindR (the_ctx d) (\<lambda>_.
     bindR (take_lock (lock1 d) (d\<lparr>lock1 := True\<rparr>)) (\<lambda>d.
       let d = d\<lparr>ga := ga d + 1, gb := gb d - 1\<rparr> in
         bindR (display_stats True (d\<lparr>lock1 := False\<rparr>)) (\<lambda>d. Inr (0, d))))"

definition len_spin :: "spn \<Rightarrow> (nat \<times> spn) res" where
  "len_spin d = bindR (the_ctx d) (\<lambda>c.
     bindR (take_lock (spinlock c) (c\<lparr>spinlock := True\<rparr>)) (\<lambda>c.
       bindR (strlen8 (oursecret c)) (\<lambda>secret_len.
         Inr (secret_len, d\<lparr>ctx := Some (c\<lparr>spinlock := False\<rparr>)\<rparr>))))"

definition copy_spin :: "nat \<Rightarrow> nat \<Rightarrow> spn \<Rightarrow> (int \<times> bytes \<times> bool \<times> spn) res" where
  "copy_spin secret_len room d = bindR (the_ctx d) (\<lambda>c.
     bindR (take_lock (mutex c) (c\<lparr>mutex := True\<rparr>)) (\<lambda>c.
       bindR (copy_to_user room (oursecret c) secret_len) (\<lambda>(left, out).
         if left \<noteq> 0 then Inr (- EFAULT, out, True, d\<lparr>ctx := Some (c\<lparr>mutex := False\<rparr>)\<rparr>)
         else let c = c\<lparr>tx := tx c + of_nat secret_len\<rparr> in
           Inr (int secret_len, out, False, d\<lparr>ctx := Some (c\<lparr>mutex := False\<rparr>)\<rparr>))))"

definition read_spin :: "nat \<Rightarrow> nat \<Rightarrow> spn \<Rightarrow> (int \<times> bytes \<times> spn) res" where
  "read_spin cnt room d = bindR (len_spin d) (\<lambda>(secret_len, d).
     if cnt < MAXBYTES then Inr (- EINVAL, [], d)
     else if secret_len \<le> 0 then Inr (- EINVAL, [], d)
     else bindR (copy_spin secret_len room d) (\<lambda>(ret, out, err_path, d).
       bindR (display_stats err_path d) (\<lambda>d. Inr (ret, out, d))))"

text \<open>
  \<open>buggy\<close> is the module parameter; with the value 1 the writer blocks inside its critical section.
\<close>

definition store_spin :: "int \<Rightarrow> bytes \<Rightarrow> nat \<Rightarrow> spn \<Rightarrow> (int \<times> spn) res" where
  "store_spin buggy kbuf cnt d = bindR (the_ctx d) (\<lambda>c.
     bindR (take_lock (spinlock c) (c\<lparr>spinlock := True\<rparr>)) (\<lambda>c.
       bindR (strscpy (oursecret c) kbuf (if cnt > MAXBYTES then MAXBYTES else cnt)) (\<lambda>s.
         let c = c\<lparr>oursecret := s, rx := rx c + of_nat cnt\<rparr>;
             c = (if buggy = 1 then c\<lparr>atomic_sleep := True\<rparr> else c) in
           Inr (to_int cnt, d\<lparr>ctx := Some (c\<lparr>spinlock := False\<rparr>)\<rparr>))))"

definition write_spin :: "int \<Rightarrow> bool \<Rightarrow> bytes \<Rightarrow> nat \<Rightarrow> spn \<Rightarrow> (int \<times> spn) res" where
  "write_spin buggy mem ubuf cnt d = bindR (the_ctx d) (\<lambda>_.
     if \<not> mem then Inr (- ENOMEM, d)
     else bindR (copy_from_user (replicate cnt 0) ubuf cnt) (\<lambda>(left, kbuf).
       if left \<noteq> 0 then bindR (display_stats True d) (\<lambda>d. Inr (- EFAULT, d))
       else bindR (store_spin buggy kbuf cnt d) (\<lambda>(ret, d).
         bindR (display_stats False d) (\<lambda>d. Inr (ret, d)))))"

definition close_spin :: "bool \<Rightarrow> spn \<Rightarrow> (int \<times> spn) res" where
  "close_spin mem d = bindR (the_ctx d) (\<lambda>_.
     bindR (take_lock (lock1 d) (d\<lparr>lock1 := True\<rparr>)) (\<lambda>d.
       let d = d\<lparr>ga := ga d - 1, gb := gb d + 1\<rparr> in
         bindR (display_stats True (d\<lparr>lock1 := False\<rparr>)) (\<lambda>d. Inr (0, d))))"

definition spin_fops :: "int \<Rightarrow> spn fops" where
  "spin_fops buggy = \<lparr>fop_open = open_spin, fop_read = read_spin, fop_write = write_spin buggy,
     fop_release = close_spin\<rparr>"

definition spin_init :: "int \<Rightarrow> bool \<Rightarrow> spn \<Rightarrow> (int \<times> spn) res" where
  "spin_init reg mem d =
     (if reg < 0 then Inr (reg, d)
      else let d = d\<lparr>registered := True\<rparr> in
        if \<not> mem then Inr (- ENOMEM, d)
        else let c = drv_ctx.extend zero_ctx (drv_ctx_spin.fields False False False) in
          bindR (strscpy (oursecret c) initmsg 8) (\<lambda>s.
            Inr (0, d\<lparr>ctx := Some (c\<lparr>oursecret := s\<rparr>)\<rparr>)))"

definition spin_exit :: "spn \<Rightarrow> spn" where
  "spin_exit d = d\<lparr>registered := False, ctx := None\<rparr>"

section \<open>The user program\<close>

text \<open>
  \<open>main\<close> of the test program on an opened device: \<open>argv\<close> as byte strings without their terminating zero.
  What the system decides: whether \<open>open\<close> finds the file, whether \<open>malloc\<close> succeeds, and whether the
  driver's own allocations do. The result is the exit status and the secret it prints. Every way out after
  the \<open>open\<close> closes the file.
\<close>

record uenv =
  can_open :: bool
  can_malloc :: bool
  kmem :: bool

definition opt_of :: "bytes \<Rightarrow> u8" where
  "opt_of s = hd (s @ [0])"

definition strncpy8 :: "bytes \<Rightarrow> nat \<Rightarrow> bytes" where
  "strncpy8 s n = take n s @ replicate (n - length s) 0"

definition printf_prec :: "nat \<Rightarrow> bytes \<Rightarrow> bytes" where
  "printf_prec n buf = takeWhile (\<lambda>b. b \<noteq> 0) (take n buf)"

definition finish :: "'d fops \<Rightarrow> uenv \<Rightarrow> int \<Rightarrow> bytes option \<Rightarrow> 'd \<Rightarrow> (int \<times> bytes option \<times> 'd) res" where
  "finish f e status out d = bindR (fop_release f (kmem e) d) (\<lambda>(_, d). Inr (status, out, d))"

definition rdwr_main :: "'d fops \<Rightarrow> uenv \<Rightarrow> bytes list \<Rightarrow> 'd \<Rightarrow> (int \<times> bytes option \<times> 'd) res" where
  "rdwr_main f e argv d =
     (if length argv < 3 then Inr (1, None, d)
      else let opt = opt_of (argv ! 1) in
        if opt \<noteq> 0x72 \<and> opt \<noteq> 0x77 then Inr (1, None, d)
        else if opt = 0x77 \<and> length argv \<noteq> 4 \<or> opt = 0x72 \<and> length argv \<noteq> 3 then Inr (1, None, d)
        else bindR (if opt = 0x77 then strnlen8 (argv ! 3 @ [0]) MAXBYTES else Inr 0) (\<lambda>n3.
          if opt = 0x77 \<and> n3 > MAXBYTES then Inr (1, None, d)
          else if \<not> can_open e then Inr (1, None, d)
          else bindR (fop_open f (kmem e) d) (\<lambda>(r, d).
            if r < 0 then Inr (1, None, d)
            else let num = (if opt = 0x77 then min (n3 + 1) MAXBYTES else MAXBYTES) in
              if \<not> can_malloc e then finish f e 1 None d
              else if opt = 0x72 then
                bindR (fop_read f num num d) (\<lambda>(n, buf, d).
                  if n < 0 then finish f e 1 None d
                  else finish f e 0 (Some (printf_prec (nat n) buf)) d)
              else
                bindR (fop_write f (kmem e) (strncpy8 (argv ! 3) num) num d) (\<lambda>(n, d).
                  if n < 0 then finish f e 1 None d else finish f e 0 None d))))"

section \<open>Sequences of calls\<close>

datatype dop = Open bool | Release bool | Read nat nat | Write bool bytes nat

fun run_op :: "'d fops \<Rightarrow> 'd \<Rightarrow> dop \<Rightarrow> 'd res" where
  "run_op f d (Open m) = bindR (fop_open f m d) (\<lambda>(_, d). Inr d)"
| "run_op f d (Release m) = bindR (fop_release f m d) (\<lambda>(_, d). Inr d)"
| "run_op f d (Read cnt room) = bindR (fop_read f cnt room d) (\<lambda>(_, _, d). Inr d)"
| "run_op f d (Write m ubuf cnt) = bindR (fop_write f m ubuf cnt d) (\<lambda>(_, d). Inr d)"

text \<open>The type of the module's state: a secret that fills its array and ends inside it, and no lock held.\<close>

definition secret_ok :: "bytes \<Rightarrow> bool" where
  "secret_ok s \<longleftrightarrow> length s = MAXBYTES \<and> 0 \<in> set s"

definition c_str :: "bytes \<Rightarrow> bytes" where
  "c_str s = takeWhile (\<lambda>b. b \<noteq> 0) s"

definition wf_globals :: "'c module \<Rightarrow> bool" where
  "wf_globals d \<longleftrightarrow> ga d + gb d = 1 \<and> \<not> lock1 d \<and> registered d"

definition wf_misc :: "misc \<Rightarrow> bool" where
  "wf_misc d \<longleftrightarrow> wf_globals d \<and> (\<exists>c. ctx d = Some c \<and> secret_ok (oursecret c))"

definition wf_mutex :: "mtx \<Rightarrow> bool" where
  "wf_mutex d \<longleftrightarrow> wf_globals d \<and> (\<exists>c. ctx d = Some c \<and> secret_ok (oursecret c) \<and> \<not> lock c)"

definition wf_spin :: "spn \<Rightarrow> bool" where
  "wf_spin d \<longleftrightarrow> wf_globals d \<and>
     (\<exists>c. ctx d = Some c \<and> secret_ok (oursecret c) \<and> \<not> mutex c \<and> \<not> spinlock c)"

definition secret :: "('a drv_ctx_scheme) module \<Rightarrow> bytes" where
  "secret d = c_str (oursecret (the (ctx d)))"

text \<open>What a write must satisfy for the driver without locks: a non-empty request that holds a zero.\<close>

definition terminated :: "bytes \<Rightarrow> nat \<Rightarrow> bool" where
  "terminated ubuf cnt \<longleftrightarrow> cnt > MAXBYTES \<or> 0 \<in> set (take cnt ubuf) \<or> length ubuf < cnt"

fun op_safe :: "(bytes \<Rightarrow> nat \<Rightarrow> bool) \<Rightarrow> dop \<Rightarrow> bool" where
  "op_safe safe (Write m ubuf cnt) = safe ubuf cnt"
| "op_safe safe _ = True"

section \<open>Interleaved callers\<close>

text \<open>
  A caller of the driver with the mutex, between two of its critical sections: a read that has not started
  (with the size it asks for and the room of its buffer), a read that knows the length, a write that has
  not started, a write that has copied the user's data, and a caller that has returned.
\<close>

datatype caller = Rd nat nat | RdCopy nat nat | Wr bool bytes nat | WrStore bytes nat | Ret int bytes

fun caller_step :: "caller \<Rightarrow> mtx \<Rightarrow> (caller \<times> mtx) res" where
  "caller_step (Rd cnt room) d = bindR (len_mutex d) (\<lambda>(n, d).
     Inr (if cnt < MAXBYTES \<or> n \<le> 0 then Ret (- EINVAL) [] else RdCopy n room, d))"
| "caller_step (RdCopy n room) d = bindR (copy_mutex n room d) (\<lambda>(r, out, d). Inr (Ret r out, d))"
| "caller_step (Wr m ubuf cnt) d =
     (if \<not> m then Inr (Ret (- ENOMEM) [], d)
      else bindR (copy_from_user (replicate cnt 0) ubuf cnt) (\<lambda>(left, kbuf).
        Inr (if left \<noteq> 0 then Ret (- EFAULT) [] else WrStore kbuf cnt, d)))"
| "caller_step (WrStore kbuf cnt) d = bindR (store_mutex kbuf cnt d) (\<lambda>(r, d). Inr (Ret r [], d))"
| "caller_step (Ret r out) d = Inr (Ret r out, d)"

fun returned :: "caller \<Rightarrow> bool" where
  "returned (Ret r out) = True"
| "returned _ = False"

text \<open>The critical sections a caller has left.\<close>

fun sections :: "caller \<Rightarrow> nat" where
  "sections (Rd _ _) = 2"
| "sections (RdCopy _ _) = 1"
| "sections (Wr _ _ _) = 2"
| "sections (WrStore _ _) = 1"
| "sections (Ret _ _) = 0"

inductive mutex_step :: "mtx \<times> caller list \<Rightarrow> mtx \<times> caller list \<Rightarrow> bool" where
  mutex_stepI: "i < length cs \<Longrightarrow> \<not> returned (cs ! i) \<Longrightarrow> caller_step (cs ! i) d = Inr (c', d') \<Longrightarrow>
    mutex_step (d, cs) (d', cs[i := c'])"

text \<open>
  Callers of the driver with the spinlock. The copy to the user may be interrupted at any byte: \<open>SRest\<close>
  is a reader that holds the mutex and has copied the first bytes. A writer needs the spinlock only.
\<close>

datatype scaller = SRd nat nat | SCopy nat nat | SRest nat nat bytes | SStore bytes nat | SRet int bytes

inductive spin_step :: "int \<Rightarrow> spn \<times> scaller list \<Rightarrow> spn \<times> scaller list \<Rightarrow> bool" for buggy where
  s_len: "i < length cs \<Longrightarrow> cs ! i = SRd cnt room \<Longrightarrow> len_spin d = Inr (n, d') \<Longrightarrow>
    spin_step buggy (d, cs)
      (d', cs[i := if cnt < MAXBYTES \<or> n \<le> 0 then SRet (- EINVAL) [] else SCopy n room])"
| s_copy: "i < length cs \<Longrightarrow> cs ! i = SCopy n room \<Longrightarrow> ctx d = Some c \<Longrightarrow> \<not> mutex c \<Longrightarrow> k \<le> n \<Longrightarrow>
    copy_to_user room (oursecret c) k = Inr (0, got) \<Longrightarrow>
    spin_step buggy (d, cs) (d\<lparr>ctx := Some (c\<lparr>mutex := True\<rparr>)\<rparr>, cs[i := SRest n room got])"
| s_rest: "i < length cs \<Longrightarrow> cs ! i = SRest n room got \<Longrightarrow> ctx d = Some c \<Longrightarrow>
    copy_to_user (room - length got) (drop (length got) (oursecret c)) (n - length got) = Inr (0, rest) \<Longrightarrow>
    spin_step buggy (d, cs)
      (d\<lparr>ctx := Some (c\<lparr>tx := tx c + of_nat n, mutex := False\<rparr>)\<rparr>, cs[i := SRet (int n) (got @ rest)])"
| s_store: "i < length cs \<Longrightarrow> cs ! i = SStore kbuf cnt \<Longrightarrow> store_spin buggy kbuf cnt d = Inr (r, d') \<Longrightarrow>
    spin_step buggy (d, cs) (d', cs[i := SRet r []])"

text \<open>What a caller between its sections knows, and a caller among readers only.\<close>

fun caller_ok :: "caller \<Rightarrow> bool" where
  "caller_ok (RdCopy n room) = (n < MAXBYTES)"
| "caller_ok (WrStore kbuf cnt) = (length kbuf = cnt)"
| "caller_ok _ = True"

definition reading :: "bytes \<Rightarrow> caller \<Rightarrow> bool" where
  "reading s c \<longleftrightarrow> c = Rd MAXBYTES MAXBYTES \<or> c = RdCopy (length s) MAXBYTES \<or> c = Ret (int (length s)) s"

text \<open>The races: what the buffer holds after a shorter or equally long string was written over a secret.\<close>

definition overwritten :: "bytes \<Rightarrow> bytes \<Rightarrow> bytes" where
  "overwritten old new = take (length old) (new @ 0 # drop (length new + 1) old)"

section \<open>Lemmas on buffers\<close>

lemma secret_okD:
  assumes "secret_ok s"
  shows "strlen8 s = Inr (length (c_str s))" "strnlen8 s MAXBYTES = Inr (length (c_str s))"
    "length (c_str s) < MAXBYTES" "take (length (c_str s)) s = c_str s"
    "length s = MAXBYTES"
proof -
  have s: "length s = MAXBYTES" "0 \<in> set s"
    using assms by (auto simp: secret_ok_def)
  show "strlen8 s = Inr (length (c_str s))" "strnlen8 s MAXBYTES = Inr (length (c_str s))"
    using s by (auto simp: strlen8_def strnlen8_def c_str_def)
  have "takeWhile (\<lambda>b. b \<noteq> 0) s \<noteq> s"
    using s(2) by (metis (mono_tags) takeWhile_eq_all_conv)
  then have "length (takeWhile (\<lambda>b. b \<noteq> 0) s) < length s"
    using length_takeWhile_le[of "\<lambda>b. b \<noteq> 0" s] takeWhile_eq_take[of "\<lambda>b. b \<noteq> 0" s]
    by (metis le_neq_implies_less take_all_iff nle_le)
  then show "length (c_str s) < MAXBYTES"
    using s by (simp add: c_str_def)
  show "take (length (c_str s)) s = c_str s"
    by (simp add: c_str_def takeWhile_eq_take [symmetric])
  show "length s = MAXBYTES" by (rule s)
qed

lemma copy_from_user_all [simp]:
  "length ubuf \<ge> n \<Longrightarrow> copy_from_user (replicate n 0) ubuf n = Inr (0, take n ubuf)"
  by (simp add: copy_from_user_def)

lemma copy_from_user_ok: "\<exists>left kbuf. copy_from_user (replicate n 0) ubuf n = Inr (left, kbuf) \<and> length kbuf = n \<and>
   (left = 0 \<longleftrightarrow> n \<le> length ubuf) \<and> (left = 0 \<longrightarrow> kbuf = take n ubuf)"
  by (auto simp: copy_from_user_def)

lemma copy_to_user_ok: "n \<le> length s \<Longrightarrow>
   copy_to_user room s n = Inr (n - room, take (min n room) s)"
  by (simp add: copy_to_user_def)

text \<open>The first zero of a buffer.\<close>

lemma first_zero:
  fixes kbuf :: bytes
  assumes "0 \<in> set (take n kbuf)"
  defines "l \<equiv> length (takeWhile (\<lambda>b. b \<noteq> 0) kbuf)"
  shows "l < n" "l < length kbuf" "kbuf ! l = 0"
proof -
  obtain i where i: "i < n" "i < length kbuf" "kbuf ! i = 0"
    using assms(1) by (auto simp: in_set_conv_nth)
  have "\<not> i < l"
  proof
    assume "i < l"
    then have "takeWhile (\<lambda>b. b \<noteq> 0) kbuf ! i = 0"
      using i(3) unfolding l_def by (simp add: takeWhile_nth)
    moreover have "takeWhile (\<lambda>b. b \<noteq> 0) kbuf ! i \<in> set (takeWhile (\<lambda>b. b \<noteq> 0) kbuf)"
      using \<open>i < l\<close> unfolding l_def by (rule nth_mem)
    ultimately show False
      using set_takeWhileD [of "0 :: u8"] by metis
  qed
  then show l: "l < n" "l < length kbuf"
    using i by simp_all
  show "kbuf ! l = 0"
    using l(2) nth_length_takeWhile [of "\<lambda>b. b \<noteq> 0" kbuf] unfolding l_def by simp
qed

lemma zero_in_take: "l < n \<Longrightarrow> l < length s \<Longrightarrow> s ! l = 0 \<Longrightarrow> 0 \<in> set (take n s)"
  for s :: bytes
  by (auto simp: in_set_conv_nth intro!: exI [of _ l])

text \<open>\<open>strscpy\<close> of any request keeps the secret well formed.\<close>

lemma strscpy_ok:
  assumes s: "secret_ok s" and n: "n \<le> MAXBYTES" "n \<le> length kbuf"
  shows "\<exists>s'. strscpy s kbuf n = Inr s' \<and> secret_ok s'"
proof (cases "n = 0")
  case True
  then show ?thesis using s by (simp add: strscpy_def)
next
  case n0: False
  define l where "l = length (takeWhile (\<lambda>b. b \<noteq> 0) kbuf)"
  note ls = secret_okD(5) [OF s]
  show ?thesis
  proof (cases "0 \<in> set (take n kbuf)")
    case True
    note l = first_zero [OF True, folded l_def]
    have "0 \<in> set (take (l + 1) kbuf)"
      using l by (intro zero_in_take [of l]) simp_all
    then have "secret_ok (take (l + 1) kbuf @ drop (l + 1) s)"
      using l n ls unfolding secret_ok_def by simp
    moreover have "strscpy s kbuf n = Inr (take (l + 1) kbuf @ drop (l + 1) s)"
      using True l n ls n0 unfolding strscpy_def memcpy_def l_def [symmetric] by simp
    ultimately show ?thesis by blast
  next
    case False
    define s' where "s' = (take n kbuf @ drop n s)[n - 1 := 0]"
    have "strscpy s kbuf n = Inr s'"
      using False n ls n0 unfolding strscpy_def memcpy_def s'_def by simp
    moreover have "0 \<in> set s'"
      unfolding s'_def using n n0 by (intro set_update_memI) simp
    then have "secret_ok s'"
      using n ls unfolding secret_ok_def s'_def by simp
    ultimately show ?thesis by blast
  qed
qed

lemma strscpy_cap:
  assumes "secret_ok s" "length kbuf = n"
  shows "\<exists>s'. strscpy s kbuf (if n > MAXBYTES then MAXBYTES else n) = Inr s' \<and> secret_ok s'"
  using assms by (intro strscpy_ok) simp_all

text \<open>Both functions store a string that fits.\<close>

lemma c_str_snoc: "0 \<notin> set s \<Longrightarrow> c_str (s @ 0 # r) = s"
  by (auto simp: c_str_def takeWhile_append)

lemma takeWhile_snoc0: "0 \<notin> set s \<Longrightarrow> takeWhile (\<lambda>b. b \<noteq> (0::u8)) (s @ 0 # r) = s"
  using c_str_snoc by (simp add: c_str_def)

lemma str_copies:
  assumes "length old = MAXBYTES" "0 \<notin> set s" "length s < MAXBYTES"
  shows "strscpy old (s @ [0]) (length s + 1) = Inr (s @ 0 # drop (length s + 1) old)"
    "strlcpy old (s @ [0]) (length s + 1) = Inr (s @ 0 # drop (length s + 1) old)"
proof -
  show "strscpy old (s @ [0]) (length s + 1) = Inr (s @ 0 # drop (length s + 1) old)"
    using assms by (simp add: strscpy_def memcpy_def takeWhile_snoc0)
  have "(s @ drop (length s) old)[length s := 0] = s @ 0 # drop (length s + 1) old"
    using assms by (simp add: list_update_append Cons_nth_drop_Suc [symmetric])
  then show "strlcpy old (s @ [0]) (length s + 1) = Inr (s @ 0 # drop (length s + 1) old)"
    using assms by (simp add: strlcpy_def strlen8_def memcpy_def takeWhile_snoc0)
qed

lemma strlcpy_ok:
  assumes s: "secret_ok s" and n: "n \<le> MAXBYTES" "n \<le> length kbuf" and z: "0 \<in> set (take n kbuf)"
  shows "\<exists>s'. strlcpy s kbuf n = Inr s' \<and> secret_ok s'"
proof -
  define l where "l = length (takeWhile (\<lambda>b. b \<noteq> 0) kbuf)"
  note ls = secret_okD(5) [OF s] and l = first_zero [OF z, folded l_def]
  define s' where "s' = (take l kbuf @ drop l s)[l := 0]"
  have m: "min l (n - 1) = l" using l by simp
  have "0 \<in> set kbuf" using z by (rule in_set_takeD)
  then have "strlcpy s kbuf n = Inr s'"
    using l n ls m unfolding strlcpy_def strlen8_def memcpy_def l_def [symmetric] s'_def by simp
  moreover have "0 \<in> set s'"
    unfolding s'_def using n l ls by (intro set_update_memI) simp
  then have "secret_ok s'"
    using n l ls unfolding secret_ok_def s'_def by simp
  ultimately show ?thesis by blast
qed

lemma to_int_small [simp]: "n < 2 ^ 31 \<Longrightarrow> to_int n = int n"
  unfolding to_int_def by (simp add: signed_of_nat signed_take_bit_int_eq_self)

section \<open>What a secret device promises\<close>

text \<open>
  The contract of a driver towards its callers: every method returns and keeps the state well formed, a read
  with enough room returns the secret, a write of a terminated string that fits replaces it. The program
  that uses the device is proved correct once, from the contract.
\<close>

locale secret_device =
  fixes f :: "'d fops" and wf :: "'d \<Rightarrow> bool" and the_secret :: "'d \<Rightarrow> bytes"
    and safe :: "bytes \<Rightarrow> nat \<Rightarrow> bool"
  assumes open_law: "wf d \<Longrightarrow> \<exists>r d'. fop_open f m d = Inr (r, d') \<and> wf d' \<and> the_secret d' = the_secret d \<and>
      (m \<longrightarrow> r = 0)"
    and release_law: "wf d \<Longrightarrow> \<exists>r d'. fop_release f m d = Inr (r, d') \<and> wf d' \<and> the_secret d' = the_secret d"
    and read_law: "wf d \<Longrightarrow> \<exists>r out d'. fop_read f cnt room d = Inr (r, out, d') \<and> wf d' \<and>
      the_secret d' = the_secret d \<and>
      (MAXBYTES \<le> cnt \<and> MAXBYTES \<le> room \<and> the_secret d \<noteq> [] \<longrightarrow>
         r = int (length (the_secret d)) \<and> out = the_secret d) \<and>
      (cnt < MAXBYTES \<or> the_secret d = [] \<longrightarrow> r = - EINVAL)"
    and write_law: "wf d \<Longrightarrow> safe ubuf cnt \<Longrightarrow> \<exists>r d'. fop_write f m ubuf cnt d = Inr (r, d') \<and> wf d'"
    and store_law: "wf d \<Longrightarrow> 0 \<notin> set s \<Longrightarrow> length s < MAXBYTES \<Longrightarrow>
      \<exists>d'. fop_write f True (s @ [0]) (length s + 1) d = Inr (int (length s + 1), d') \<and> wf d' \<and> the_secret d' = s"
    and secret_zero: "0 \<notin> set (the_secret d)"
begin

lemma run_op_wf: "wf d \<Longrightarrow> op_safe safe x \<Longrightarrow> \<exists>d'. run_op f d x = Inr d' \<and> wf d'"
proof (cases x)
  case (Open m)
  assume "wf d" then show ?thesis using open_law [of d m] Open by auto
next
  case (Release m)
  assume "wf d" then show ?thesis using release_law [of d m] Release by auto
next
  case (Read cnt room)
  assume "wf d" then show ?thesis using read_law [of d cnt room] Read by fastforce
next
  case (Write m ubuf cnt)
  assume "wf d" "op_safe safe x" then show ?thesis using write_law [of d ubuf cnt m] Write by auto
qed

lemma run_ops_wf:
  "wf d \<Longrightarrow> \<forall>x\<in>set xs. op_safe safe x \<Longrightarrow> \<exists>d'. foldR (run_op f) d xs = Inr d' \<and> wf d'"
proof (induction xs arbitrary: d)
  case (Cons x xs)
  then obtain d' where "run_op f d x = Inr d'" "wf d'"
    using run_op_wf [of d x] by auto
  then show ?case using Cons.IH [of d'] Cons.prems by simp
qed simp

lemma main_write:
  assumes d: "wf d" and e: "can_open e" "can_malloc e" "kmem e"
    and s: "0 \<notin> set s" "length s < MAXBYTES"
  shows "\<exists>d'. rdwr_main f e [prg, 0x77 # w, path, s] d = Inr (0, None, d') \<and> wf d' \<and> the_secret d' = s"
proof -
  obtain d1 where d1: "fop_open f (kmem e) d = Inr (0, d1)" "wf d1"
    using open_law [OF d, of "kmem e"] e by blast
  obtain d2 where d2: "fop_write f True (s @ [0]) (length s + 1) d1 = Inr (int (length s + 1), d2)" "wf d2"
      "the_secret d2 = s"
    using store_law [OF d1(2) s] by blast
  obtain r d3 where d3: "fop_release f (kmem e) d2 = Inr (r, d3)" "wf d3" "the_secret d3 = s"
    using release_law [OF d2(2), of "kmem e"] d2(3) by blast
  have n: "strnlen8 (s @ [0]) MAXBYTES = Inr (length s)"
    using s by (simp add: strnlen8_def takeWhile_snoc0)
  have c: "strncpy8 s (length s + 1) = s @ [0]"
    by (simp add: strncpy8_def)
  have m: "min (length s + 1) MAXBYTES = length s + 1"
    using s by simp
  have "rdwr_main f e [prg, 0x77 # w, path, s] d = Inr (0, None, d3)"
    using s(2) d1 d2(1) d3(1) e
    by (simp add: rdwr_main_def opt_of_def n m c finish_def Let_def del: One_nat_def)
  then show ?thesis using d3 by blast
qed

lemma main_read:
  assumes d: "wf d" and e: "can_open e" "can_malloc e" "kmem e" and s: "the_secret d \<noteq> []"
  shows "\<exists>d'. rdwr_main f e [prg, 0x72 # w, path] d = Inr (0, Some (the_secret d), d') \<and> wf d' \<and>
    the_secret d' = the_secret d"
proof -
  obtain d1 where d1: "fop_open f (kmem e) d = Inr (0, d1)" "wf d1" "the_secret d1 = the_secret d"
    using open_law [OF d, of "kmem e"] e by blast
  obtain d2 where d2: "fop_read f MAXBYTES MAXBYTES d1 = Inr (int (length (the_secret d)), the_secret d, d2)"
      "wf d2" "the_secret d2 = the_secret d"
    using read_law [OF d1(2), of MAXBYTES MAXBYTES] d1(3) s by fastforce
  obtain r d3 where d3: "fop_release f (kmem e) d2 = Inr (r, d3)" "wf d3" "the_secret d3 = the_secret d"
    using release_law [OF d2(2), of "kmem e"] d2(3) by metis
  have p: "printf_prec (length (the_secret d)) (the_secret d) = the_secret d"
    using secret_zero [of d] by (auto simp: printf_prec_def takeWhile_eq_all_conv)
  have "rdwr_main f e [prg, 0x72 # w, path] d = Inr (0, Some (the_secret d), d3)"
    using d1(1) d2(1) d3(1) e
    by (simp add: rdwr_main_def opt_of_def finish_def p)
  then show ?thesis using d3 by blast
qed

lemma main_write_read:
  assumes "wf d" "can_open e" "can_malloc e" "kmem e" "0 \<notin> set s" "length s < MAXBYTES" "s \<noteq> []"
  shows "\<exists>d1 d2. rdwr_main f e [prg, 0x77 # w, path, s] d = Inr (0, None, d1) \<and>
     rdwr_main f e [prg, 0x72 # w', path] d1 = Inr (0, Some s, d2) \<and> wf d2"
  using main_write [OF assms(1-6), of prg w path] main_read [OF _ assms(2-4), of _ prg w' path] assms(7)
  by metis

end

section \<open>The drivers keep the contract\<close>

lemma c_str_zero [simp]: "0 \<notin> set (c_str s)"
  by (auto simp: c_str_def dest: set_takeWhileD)

lemma secret_zero_free [simp]: "0 \<notin> set (secret d)"
  by (simp add: secret_def)

lemmas drv_defs = the_ctx_def take_lock_def wf_globals_def Let_def

lemma misc_open_law: "wf_misc d \<Longrightarrow> \<exists>r d'. open_misc m d = Inr (r, d') \<and> wf_misc d' \<and> secret d' = secret d \<and>
    (m \<longrightarrow> r = 0)"
  by (cases m) (auto simp: wf_misc_def open_misc_def drv_defs secret_def)

lemma misc_release_law: "wf_misc d \<Longrightarrow> \<exists>r d'. close_misc m d = Inr (r, d') \<and> wf_misc d' \<and> secret d' = secret d"
  by (cases m) (auto simp: wf_misc_def close_misc_def drv_defs secret_def)

text \<open>The reads differ in how they take the length, and agree on the rest.\<close>

lemma copy_secret:
  assumes "secret_ok s"
  shows "\<exists>left out. copy_to_user room s (length (c_str s)) = Inr (left, out) \<and>
    (MAXBYTES \<le> room \<longrightarrow> left = 0 \<and> out = c_str s)"
  using secret_okD [OF assms] by (auto simp: copy_to_user_def)

lemma misc_read_law: "wf_misc d \<Longrightarrow> \<exists>r out d'. read_misc cnt room d = Inr (r, out, d') \<and> wf_misc d' \<and>
    secret d' = secret d \<and>
    (MAXBYTES \<le> cnt \<and> MAXBYTES \<le> room \<and> secret d \<noteq> [] \<longrightarrow> r = int (length (secret d)) \<and> out = secret d) \<and>
    (cnt < MAXBYTES \<or> secret d = [] \<longrightarrow> r = - EINVAL)"
proof -
  assume d: "wf_misc d"
  then obtain c where c: "ctx d = Some c" "secret_ok (oursecret c)" by (auto simp: wf_misc_def)
  obtain left out where cp: "copy_to_user room (oursecret c) (length (c_str (oursecret c))) = Inr (left, out)"
      "MAXBYTES \<le> room \<Longrightarrow> left = 0 \<and> out = c_str (oursecret c)"
    using copy_secret [OF c(2), of room] by blast
  show ?thesis
    using d c cp by (auto simp: read_misc_def drv_defs secret_okD wf_misc_def secret_def)
qed

lemma misc_write_law:
  assumes d: "wf_misc d" and t: "terminated ubuf cnt"
  shows "\<exists>r d'. write_misc m ubuf cnt d = Inr (r, d') \<and> wf_misc d'"
proof -
  obtain c where c: "ctx d = Some c" "secret_ok (oursecret c)" using d by (auto simp: wf_misc_def)
  obtain left kbuf where k: "copy_from_user (replicate cnt 0) ubuf cnt = Inr (left, kbuf)" "length kbuf = cnt"
      "left = 0 \<longleftrightarrow> cnt \<le> length ubuf" "left = 0 \<Longrightarrow> kbuf = take cnt ubuf"
    using copy_from_user_ok [of cnt ubuf] by blast
  show ?thesis
  proof (cases "cnt \<le> MAXBYTES \<and> m \<and> left = 0")
    case True
    have "\<exists>s'. strlcpy (oursecret c) kbuf cnt = Inr s' \<and> secret_ok s'"
      using True k t by (intro strlcpy_ok [OF c(2)]) (auto simp: terminated_def)
    then show ?thesis
      using True d c k(1) by (auto simp: write_misc_def drv_defs wf_misc_def)
  next
    case False
    then show ?thesis
      using d c k(1) by (auto simp: write_misc_def drv_defs wf_misc_def)
  qed
qed

lemma misc_store_law:
  assumes d: "wf_misc d" and s: "0 \<notin> set s" "length s < MAXBYTES"
  shows "\<exists>d'. write_misc True (s @ [0]) (length s + 1) d = Inr (int (length s + 1), d') \<and> wf_misc d' \<and> secret d' = s"
proof -
  obtain c where c: "ctx d = Some c" "secret_ok (oursecret c)" using d by (auto simp: wf_misc_def)
  note l = secret_okD(5) [OF c(2)]
  have k: "copy_from_user (replicate (length s + 1) 0) (s @ [0]) (length s + 1) = Inr (0, s @ [0])"
    by (simp add: copy_from_user_def)
  have i: "to_int (length s + 1) = int (length s + 1)"
    using s(2) by (intro to_int_small) (simp add: MAXBYTES_def)
  have n: "\<not> length s + 1 > MAXBYTES" using s(2) by simp
  show ?thesis
    using d c s l unfolding write_misc_def
    by (simp add: k i n str_copies wf_misc_def drv_defs secret_def c_str_snoc secret_ok_def del: One_nat_def replicate_Suc replicate.simps)
qed

interpretation misc_dev: secret_device misc_fops wf_misc secret terminated
  by unfold_locales
    (simp_all only: misc_fops_def fops.select_convs misc_open_law misc_release_law misc_read_law misc_write_law
      misc_store_law secret_zero_free not_False_eq_True)

lemma mutex_open_law: "wf_mutex d \<Longrightarrow> \<exists>r d'. open_mutex m d = Inr (r, d') \<and> wf_mutex d' \<and> secret d' = secret d \<and>
    (m \<longrightarrow> r = 0)"
  by (auto simp: wf_mutex_def open_mutex_def drv_defs secret_def)

lemma mutex_release_law:
  "wf_mutex d \<Longrightarrow> \<exists>r d'. close_mutex m d = Inr (r, d') \<and> wf_mutex d' \<and> secret d' = secret d"
  by (auto simp: wf_mutex_def close_mutex_def drv_defs secret_def)

text \<open>The three critical sections.\<close>

lemma len_mutex_ok: "wf_mutex d \<Longrightarrow> len_mutex d = Inr (length (secret d), d)"
  by (cases d) (auto simp: wf_mutex_def len_mutex_def drv_defs secret_def secret_okD)

lemma copy_mutex_ok:
  assumes "wf_mutex d" "n < MAXBYTES"
  shows "\<exists>r out d'. copy_mutex n room d = Inr (r, out, d') \<and> wf_mutex d' \<and>
    (\<forall>c c'. ctx d = Some c \<longrightarrow> ctx d' = Some c' \<longrightarrow> oursecret c' = oursecret c \<and>
       (n \<le> room \<longrightarrow> r = int n \<and> out = take n (oursecret c)))"
  using assms by (auto simp: wf_mutex_def copy_mutex_def copy_to_user_def drv_defs secret_ok_def)

lemma store_mutex_ok:
  assumes "wf_mutex d" "length kbuf = cnt"
  shows "\<exists>r d'. store_mutex kbuf cnt d = Inr (r, d') \<and> wf_mutex d'"
proof -
  obtain c where c: "ctx d = Some c" "secret_ok (oursecret c)" "\<not> lock c" using assms by (auto simp: wf_mutex_def)
  obtain s' where "strscpy (oursecret c) kbuf (if cnt > MAXBYTES then MAXBYTES else cnt) = Inr s'" "secret_ok s'"
    using strscpy_cap [OF c(2) assms(2)] by blast
  then show ?thesis using assms(1) c by (auto simp: store_mutex_def drv_defs wf_mutex_def)
qed

text \<open>A read or a write is its sections one after the other.\<close>

lemma mutex_read_law:
  assumes "wf_mutex d"
  shows "\<exists>r out d'. read_mutex cnt room d = Inr (r, out, d') \<and> wf_mutex d' \<and> secret d' = secret d \<and>
    (MAXBYTES \<le> cnt \<and> MAXBYTES \<le> room \<and> secret d \<noteq> [] \<longrightarrow> r = int (length (secret d)) \<and> out = secret d) \<and>
    (cnt < MAXBYTES \<or> secret d = [] \<longrightarrow> r = - EINVAL)"
proof -
  obtain c where c: "ctx d = Some c" "secret_ok (oursecret c)" using assms by (auto simp: wf_mutex_def)
  have n: "length (secret d) < MAXBYTES" "take (length (secret d)) (oursecret c) = secret d"
    using c secret_okD by (auto simp: secret_def)
  obtain r out d' where d': "copy_mutex (length (secret d)) room d = Inr (r, out, d')" "wf_mutex d'"
      "\<And>c'. ctx d' = Some c' \<Longrightarrow> oursecret c' = oursecret c"
      "\<And>c'. ctx d' = Some c' \<Longrightarrow> length (secret d) \<le> room \<Longrightarrow> r = int (length (secret d)) \<and> out = secret d"
    using copy_mutex_ok [OF assms n(1), of room] c(1) n(2) by metis
  obtain c' where c': "ctx d' = Some c'" using d'(2) by (auto simp: wf_mutex_def)
  have "secret d' = secret d" using d'(3) [OF c'] c c' by (simp add: secret_def)
  then show ?thesis
    using d'(1,2) d'(4) [OF c'] n(1) assms by (auto simp: read_mutex_def len_mutex_ok)
qed

lemma mutex_write_law:
  assumes "wf_mutex d"
  shows "\<exists>r d'. write_mutex m ubuf cnt d = Inr (r, d') \<and> wf_mutex d'"
proof -
  obtain left kbuf where k: "copy_from_user (replicate cnt 0) ubuf cnt = Inr (left, kbuf)" "length kbuf = cnt"
    using copy_from_user_ok [of cnt ubuf] by blast
  obtain r d' where "store_mutex kbuf cnt d = Inr (r, d')" "wf_mutex d'"
    using store_mutex_ok [OF assms k(2)] by blast
  then show ?thesis
    using assms k(1) by (auto simp: write_mutex_def wf_mutex_def the_ctx_def)
qed

lemma mutex_store_law:
  assumes d: "wf_mutex d" and s: "0 \<notin> set s" "length s < MAXBYTES"
  shows "\<exists>d'. write_mutex True (s @ [0]) (length s + 1) d = Inr (int (length s + 1), d') \<and> wf_mutex d' \<and>
    secret d' = s"
proof -
  obtain c where c: "ctx d = Some c" "secret_ok (oursecret c)" using d by (auto simp: wf_mutex_def)
  note l = secret_okD(5) [OF c(2)]
  have k: "copy_from_user (replicate (length s + 1) 0) (s @ [0]) (length s + 1) = Inr (0, s @ [0])"
    by (simp add: copy_from_user_def)
  have i: "to_int (length s + 1) = int (length s + 1)"
    using s(2) by (intro to_int_small) (simp add: MAXBYTES_def)
  have n: "\<not> length s + 1 > MAXBYTES" using s(2) by simp
  show ?thesis
    using d c s l unfolding write_mutex_def store_mutex_def
    by (simp add: k i n str_copies wf_mutex_def drv_defs secret_def c_str_snoc secret_ok_def
      del: One_nat_def replicate_Suc replicate.simps)
qed

interpretation mutex_dev: secret_device mutex_fops wf_mutex secret "\<lambda>_ _. True"
  by unfold_locales
    (simp_all only: mutex_fops_def fops.select_convs mutex_open_law mutex_release_law mutex_read_law
      mutex_write_law mutex_store_law secret_zero_free not_False_eq_True)

lemma display_stats_ok [simp]: "wf_spin d \<Longrightarrow> display_stats b d = Inr d"
  by (cases d) (auto simp: wf_spin_def display_stats_def drv_defs)

lemma spin_open_law: "wf_spin d \<Longrightarrow> \<exists>r d'. open_spin m d = Inr (r, d') \<and> wf_spin d' \<and> secret d' = secret d \<and>
    (m \<longrightarrow> r = 0)"
  by (auto simp: wf_spin_def open_spin_def drv_defs secret_def display_stats_def)

lemma spin_release_law: "wf_spin d \<Longrightarrow> \<exists>r d'. close_spin m d = Inr (r, d') \<and> wf_spin d' \<and> secret d' = secret d"
  by (auto simp: wf_spin_def close_spin_def drv_defs secret_def display_stats_def)

lemma len_spin_ok: "wf_spin d \<Longrightarrow> len_spin d = Inr (length (secret d), d)"
  by (cases d) (auto simp: wf_spin_def len_spin_def drv_defs secret_def secret_okD)

lemma copy_spin_ok:
  assumes "wf_spin d" "n < MAXBYTES"
  shows "\<exists>r out b d'. copy_spin n room d = Inr (r, out, b, d') \<and> wf_spin d' \<and>
    (\<forall>c c'. ctx d = Some c \<longrightarrow> ctx d' = Some c' \<longrightarrow> oursecret c' = oursecret c \<and>
       (n \<le> room \<longrightarrow> r = int n \<and> out = take n (oursecret c)))"
  using assms by (auto simp: wf_spin_def copy_spin_def copy_to_user_def drv_defs secret_ok_def)

lemma store_spin_ok:
  assumes "wf_spin d" "length kbuf = cnt"
  shows "\<exists>r d'. store_spin buggy kbuf cnt d = Inr (r, d') \<and> wf_spin d'"
proof -
  obtain c where c: "ctx d = Some c" "secret_ok (oursecret c)" "\<not> spinlock c" "\<not> mutex c"
    using assms by (auto simp: wf_spin_def)
  obtain s' where "strscpy (oursecret c) kbuf (if cnt > MAXBYTES then MAXBYTES else cnt) = Inr s'" "secret_ok s'"
    using strscpy_cap [OF c(2) assms(2)] by blast
  then show ?thesis using assms(1) c by (auto simp: store_spin_def drv_defs wf_spin_def)
qed

lemma spin_read_law:
  assumes "wf_spin d"
  shows "\<exists>r out d'. read_spin cnt room d = Inr (r, out, d') \<and> wf_spin d' \<and> secret d' = secret d \<and>
    (MAXBYTES \<le> cnt \<and> MAXBYTES \<le> room \<and> secret d \<noteq> [] \<longrightarrow> r = int (length (secret d)) \<and> out = secret d) \<and>
    (cnt < MAXBYTES \<or> secret d = [] \<longrightarrow> r = - EINVAL)"
proof -
  obtain c where c: "ctx d = Some c" "secret_ok (oursecret c)" using assms by (auto simp: wf_spin_def)
  have n: "length (secret d) < MAXBYTES" "take (length (secret d)) (oursecret c) = secret d"
    using c secret_okD by (auto simp: secret_def)
  obtain r out b d' where d': "copy_spin (length (secret d)) room d = Inr (r, out, b, d')" "wf_spin d'"
      "\<And>c'. ctx d' = Some c' \<Longrightarrow> oursecret c' = oursecret c"
      "\<And>c'. ctx d' = Some c' \<Longrightarrow> length (secret d) \<le> room \<Longrightarrow> r = int (length (secret d)) \<and> out = secret d"
    using copy_spin_ok [OF assms n(1), of room] c(1) n(2) by metis
  obtain c' where c': "ctx d' = Some c'" using d'(2) by (auto simp: wf_spin_def)
  have "secret d' = secret d" using d'(3) [OF c'] c c' by (simp add: secret_def)
  then show ?thesis
    using d'(1,2) d'(4) [OF c'] n(1) assms by (auto simp: read_spin_def len_spin_ok)
qed

lemma spin_write_law:
  assumes "wf_spin d"
  shows "\<exists>r d'. write_spin buggy m ubuf cnt d = Inr (r, d') \<and> wf_spin d'"
proof -
  obtain left kbuf where k: "copy_from_user (replicate cnt 0) ubuf cnt = Inr (left, kbuf)" "length kbuf = cnt"
    using copy_from_user_ok [of cnt ubuf] by blast
  obtain r d' where "store_spin buggy kbuf cnt d = Inr (r, d')" "wf_spin d'"
    using store_spin_ok [OF assms k(2)] by blast
  moreover obtain c where "ctx d = Some c" using assms by (auto simp: wf_spin_def)
  ultimately show ?thesis
    using assms k(1) by (auto simp: write_spin_def the_ctx_def)
qed

lemma spin_store_law:
  assumes d: "wf_spin d" and s: "0 \<notin> set s" "length s < MAXBYTES"
  shows "\<exists>d'. write_spin buggy True (s @ [0]) (length s + 1) d = Inr (int (length s + 1), d') \<and> wf_spin d' \<and>
    secret d' = s"
proof -
  obtain c where c: "ctx d = Some c" "secret_ok (oursecret c)" using d by (auto simp: wf_spin_def)
  note l = secret_okD(5) [OF c(2)]
  have k: "copy_from_user (replicate (length s + 1) 0) (s @ [0]) (length s + 1) = Inr (0, s @ [0])"
    by (simp add: copy_from_user_def)
  have i: "to_int (length s + 1) = int (length s + 1)"
    using s(2) by (intro to_int_small) (simp add: MAXBYTES_def)
  have n: "\<not> length s + 1 > MAXBYTES" using s(2) by simp
  show ?thesis
    using d c s l unfolding write_spin_def store_spin_def display_stats_def
    by (simp add: k i n str_copies wf_spin_def drv_defs secret_def c_str_snoc secret_ok_def
      del: One_nat_def replicate_Suc replicate.simps)
qed

interpretation spin_dev: secret_device "spin_fops buggy" wf_spin secret "\<lambda>_ _. True" for buggy
  by unfold_locales
    (simp_all only: spin_fops_def fops.select_convs spin_open_law spin_release_law spin_read_law
      spin_write_law spin_store_law secret_zero_free not_False_eq_True)

lemma init_wf:
  assumes "mem"
  shows "\<exists>d. misc_init 0 mem insmod = Inr (0, d) \<and> wf_misc d \<and> secret d = butlast initmsg"
    "\<exists>d. mutex_init 0 mem insmod = Inr (0, d) \<and> wf_mutex d \<and> secret d = butlast initmsg"
    "\<exists>d. spin_init 0 mem insmod = Inr (0, d) \<and> wf_spin d \<and> secret d = butlast initmsg"
proof -
  let ?m = "[0x69, 0x6e, 0x69, 0x74, 0x6d, 0x73, 0x67] :: bytes"
  have m: "initmsg = ?m @ [0]" and l: "length ?m + 1 = 8"
    by (simp_all add: initmsg_def)
  have z: "length (replicate MAXBYTES (0 :: u8)) = MAXBYTES" "0 \<notin> set ?m" "length ?m < MAXBYTES"
    by (simp_all add: MAXBYTES_def)
  define s where "s = ?m @ 0 # drop (length ?m + 1) (replicate MAXBYTES (0 :: u8))"
  have cp: "strscpy (replicate MAXBYTES 0) initmsg 8 = Inr s" "strlcpy (replicate MAXBYTES 0) initmsg 8 = Inr s"
    using str_copies [OF z] unfolding m s_def l .
  have s: "secret_ok s" "c_str s = butlast initmsg"
    using z c_str_snoc [OF z(2)] unfolding s_def by (auto simp: secret_ok_def m)
  show "\<exists>d. misc_init 0 mem insmod = Inr (0, d) \<and> wf_misc d \<and> secret d = butlast initmsg"
    using cp(2) s assms
    by (simp add: misc_init_def zero_ctx_def insmod_def wf_misc_def wf_globals_def secret_def)
  show "\<exists>d. mutex_init 0 mem insmod = Inr (0, d) \<and> wf_mutex d \<and> secret d = butlast initmsg"
    using cp(1) s assms
    by (simp add: mutex_init_def zero_ctx_def insmod_def wf_mutex_def wf_globals_def secret_def
      drv_ctx.extend_def drv_ctx_mutex.fields_def Let_def)
  show "\<exists>d. spin_init 0 mem insmod = Inr (0, d) \<and> wf_spin d \<and> secret d = butlast initmsg"
    using cp(1) s assms
    by (simp add: spin_init_def zero_ctx_def insmod_def wf_spin_def wf_globals_def secret_def
      drv_ctx.extend_def drv_ctx_spin.fields_def Let_def)
qed


section \<open>Lemmas on interleaved callers\<close>

lemma read_sections: "bindR (caller_step (Rd cnt room) d) (\<lambda>(c, d). caller_step c d) =
    bindR (read_mutex cnt room d) (\<lambda>(r, out, d). Inr (Ret r out, d))"
  by (auto simp: read_mutex_def bindR_def split: sum.splits)

lemma write_sections: "ctx d \<noteq> None \<Longrightarrow> bindR (caller_step (Wr m ubuf cnt) d) (\<lambda>(c, d). caller_step c d) =
    bindR (write_mutex m ubuf cnt d) (\<lambda>(r, d). Inr (Ret r [], d))"
  by (auto simp: write_mutex_def the_ctx_def bindR_def split: sum.splits)

lemma mutex_len_bound: "wf_mutex d \<Longrightarrow> length (secret d) < MAXBYTES"
  by (auto simp: wf_mutex_def secret_def secret_okD)

lemma caller_step_ok:
  assumes d: "wf_mutex d" and c: "caller_ok c"
  shows "\<exists>c' d'. caller_step c d = Inr (c', d') \<and> wf_mutex d' \<and> caller_ok c' \<and>
    (\<not> returned c \<longrightarrow> sections c' < sections c)"
proof (cases c)
  case (Rd cnt room)
  then show ?thesis using d mutex_len_bound [OF d] by (simp add: len_mutex_ok)
next
  case (RdCopy n room)
  then show ?thesis using copy_mutex_ok [OF d, of n room] c by fastforce
next
  case (Wr m ubuf cnt)
  then show ?thesis using d copy_from_user_ok [of cnt ubuf] by fastforce
next
  case (WrStore kbuf cnt)
  then show ?thesis using store_mutex_ok [OF d, of kbuf cnt] c by fastforce
next
  case (Ret r out)
  then show ?thesis using d by simp
qed

lemma sum_list_upd_less: "i < length cs \<Longrightarrow> f c < f (cs ! i) \<Longrightarrow>
    sum_list (map f (cs[i := c])) < sum_list (map (f :: 'a \<Rightarrow> nat) cs)"
proof (induction cs arbitrary: i)
  case (Cons a cs)
  then show ?case by (cases i) auto
qed simp

lemma mutex_step_inv:
  assumes "mutex_step (d, cs) (d', cs')" "wf_mutex d" "\<forall>c\<in>set cs. caller_ok c"
  shows "wf_mutex d' \<and> (\<forall>c\<in>set cs'. caller_ok c) \<and> sum_list (map sections cs') < sum_list (map sections cs)"
  using assms(1)
proof cases
  case (mutex_stepI i c')
  have "caller_ok (cs ! i)" using assms(3) mutex_stepI(2) by simp
  from caller_step_ok [OF assms(2) this] mutex_stepI(3,4)
  have "wf_mutex d'" "caller_ok c'" "sections c' < sections (cs ! i)" by auto
  then show ?thesis
    using assms(3) mutex_stepI sum_list_upd_less [of i cs sections c']
    by (auto dest!: set_update_subset_insert [THEN subsetD])
qed

lemma mutex_steps_inv:
  assumes "(mutex_step ^^ n) (d, cs) (d', cs')" "wf_mutex d" "\<forall>c\<in>set cs. caller_ok c"
  shows "wf_mutex d' \<and> (\<forall>c\<in>set cs'. caller_ok c) \<and> n + sum_list (map sections cs') \<le> sum_list (map sections cs)"
  using assms(1)
proof (induction n arbitrary: d' cs')
  case 0
  then show ?case using assms by auto
next
  case (Suc n)
  then obtain s where s: "(mutex_step ^^ n) (d, cs) s" "mutex_step s (d', cs')"
    by (auto elim: relpowp_Suc_E)
  obtain d1 cs1 where s1: "s = (d1, cs1)" by (cases s)
  have i: "wf_mutex d1" "\<forall>c\<in>set cs1. caller_ok c" "n + sum_list (map sections cs1) \<le> sum_list (map sections cs)"
    using Suc.IH [OF s(1) [unfolded s1]] by simp_all
  show ?case using mutex_step_inv [OF s(2) [unfolded s1] i(1,2)] i(3) by auto
qed

text \<open>Readers alone: the secret does not change and every reader that has returned has read it.\<close>

lemma reading_step:
  assumes d: "wf_mutex d" "secret d \<noteq> []" and c: "reading (secret d) c" and s: "caller_step c d = Inr (c', d')"
  shows "reading (secret d) c' \<and> wf_mutex d' \<and> secret d' = secret d"
  using c [unfolded reading_def]
proof (elim disjE)
  assume "c = Rd MAXBYTES MAXBYTES"
  then show ?thesis using s d by (auto simp: len_mutex_ok reading_def)
next
  assume c: "c = RdCopy (length (secret d)) MAXBYTES"
  obtain x where x: "ctx d = Some x" "secret_ok (oursecret x)" using d by (auto simp: wf_mutex_def)
  have n: "length (secret d) < MAXBYTES" "take (length (secret d)) (oursecret x) = secret d"
    using x secret_okD by (auto simp: secret_def)
  obtain r out d1 where d1: "copy_mutex (length (secret d)) MAXBYTES d = Inr (r, out, d1)" "wf_mutex d1"
      "\<And>c'. ctx d1 = Some c' \<Longrightarrow> oursecret c' = oursecret x"
      "\<And>c'. ctx d1 = Some c' \<Longrightarrow> r = int (length (secret d)) \<and> out = secret d"
    using copy_mutex_ok [OF d(1) n(1), of MAXBYTES] x(1) n by (metis less_imp_le)
  obtain y where y: "ctx d1 = Some y" using d1(2) by (auto simp: wf_mutex_def)
  have "secret d1 = secret d" using d1(3) [OF y] x y by (simp add: secret_def)
  then show ?thesis using s c d1(1,2) d1(4) [OF y] by (auto simp: reading_def)
next
  assume "c = Ret (int (length (secret d))) (secret d)"
  then show ?thesis using s d by (auto simp: reading_def)
qed

lemma reading_steps:
  assumes "(mutex_step ^^ n) (d, cs) (d', cs')" "wf_mutex d" "secret d \<noteq> []" "\<forall>c\<in>set cs. reading (secret d) c"
  shows "wf_mutex d' \<and> secret d' = secret d \<and> (\<forall>c\<in>set cs'. reading (secret d) c)"
  using assms(1)
proof (induction n arbitrary: d' cs')
  case 0
  then show ?case using assms by auto
next
  case (Suc n)
  then obtain s where s: "(mutex_step ^^ n) (d, cs) s" "mutex_step s (d', cs')"
    by (auto elim: relpowp_Suc_E)
  obtain d1 cs1 where s1: "s = (d1, cs1)" by (cases s)
  have i: "wf_mutex d1" "secret d1 = secret d" "\<forall>c\<in>set cs1. reading (secret d) c"
    using Suc.IH [OF s(1) [unfolded s1]] by simp_all
  from s(2) [unfolded s1] show ?case
  proof cases
    case (mutex_stepI i c')
    have "reading (secret d1) (cs1 ! i)" using i mutex_stepI(2) by simp
    then show ?thesis
      using reading_step [OF i(1) _ _ mutex_stepI(4)] i assms(3) mutex_stepI(1)
      by (auto dest!: set_update_subset_insert [THEN subsetD])
  qed
qed

lemma strscpy_over:
  assumes s: "secret_ok s" and n: "0 \<notin> set new" "length new \<le> length (c_str s)"
  shows "\<exists>s'. strscpy s (new @ [0]) (if length new + 1 > MAXBYTES then MAXBYTES else length new + 1) = Inr s' \<and>
    secret_ok s' \<and> take (length (c_str s)) s' = overwritten (c_str s) new"
proof -
  note o = secret_okD [OF s]
  have "\<not> length new + 1 > MAXBYTES" using n o(3) by simp
  then have e: "strscpy s (new @ [0]) (if length new + 1 > MAXBYTES then MAXBYTES else length new + 1)
      = Inr (new @ 0 # drop (length new + 1) s)"
    using str_copies(1) [OF o(5) n(1)] by simp
  have "take (length (c_str s)) (new @ 0 # drop (length new + 1) s) = overwritten (c_str s) new"
  proof -
    have "take (length (c_str s) - length new - 1) (drop (length new + 1) s) = drop (length new + 1) (c_str s)"
      using o(4) by (metis diff_diff_add drop_take)
    then show ?thesis
      using n(2) unfolding overwritten_def by (cases "length (c_str s) - length new") (simp_all add: take_Cons')
  qed
  moreover have "secret_ok (new @ 0 # drop (length new + 1) s)"
    using n o by (auto simp: secret_ok_def)
  ultimately show ?thesis using e by blast
qed

lemma mutex_race:
  assumes d: "wf_mutex d" "secret d \<noteq> []" and n: "0 \<notin> set new" "length new \<le> length (secret d)"
  shows "\<exists>d'. mutex_step\<^sup>*\<^sup>* (d, [Rd MAXBYTES MAXBYTES, Wr True (new @ [0]) (length new + 1)])
     (d', [Ret (int (length (secret d))) (overwritten (secret d) new), Ret (int (length new + 1)) []])"
proof -
  obtain c where c: "ctx d = Some c" "secret_ok (oursecret c)" "\<not> lock c" using d by (auto simp: wf_mutex_def)
  have sc: "secret d = c_str (oursecret c)" using c by (simp add: secret_def)
  note o = secret_okD [OF c(2), folded sc]
  let ?n = "length new + 1" and ?l = "length (secret d)"
  obtain s' where s': "strscpy (oursecret c) (new @ [0]) (if ?n > MAXBYTES then MAXBYTES else ?n) = Inr s'"
      "secret_ok s'" "take ?l s' = overwritten (secret d) new"
    using strscpy_over [OF c(2) n(1)] n(2) unfolding sc by blast
  define d2 where "d2 = d\<lparr>ctx := Some (c\<lparr>oursecret := s', rx := rx c + of_nat ?n, lock := False\<rparr>)\<rparr>"
  have i: "to_int ?n = int ?n"
    using n(2) o(3) by (intro to_int_small) (simp add: MAXBYTES_def)
  have st: "store_mutex (new @ [0]) ?n d = Inr (int ?n, d2)"
    using c s'(1) unfolding store_mutex_def d2_def by (simp add: drv_defs i del: One_nat_def)
  obtain r out d3 where d3: "copy_mutex ?l MAXBYTES d2 = Inr (r, out, d3)"
      "r = int ?l" "out = overwritten (secret d) new"
    using o(3) s'(2,3) unfolding copy_mutex_def d2_def
    by (simp add: drv_defs copy_to_user_def secret_ok_def)
  have k: "copy_from_user (replicate ?n 0) (new @ [0]) ?n = Inr (0, new @ [0])"
    by (simp add: copy_from_user_def)
  have "mutex_step (d, [Rd MAXBYTES MAXBYTES, Wr True (new @ [0]) ?n])
      (d, [RdCopy ?l MAXBYTES, Wr True (new @ [0]) ?n])"
    using mutex_stepI [of 0 "[Rd MAXBYTES MAXBYTES, Wr True (new @ [0]) ?n]" d] d by (simp add: len_mutex_ok)
  moreover have "mutex_step (d, [RdCopy ?l MAXBYTES, Wr True (new @ [0]) ?n])
      (d, [RdCopy ?l MAXBYTES, WrStore (new @ [0]) ?n])"
    using mutex_stepI [of 1 "[RdCopy ?l MAXBYTES, Wr True (new @ [0]) ?n]" d] k by (simp del: replicate_Suc)
  moreover have "mutex_step (d, [RdCopy ?l MAXBYTES, WrStore (new @ [0]) ?n]) (d2, [RdCopy ?l MAXBYTES, Ret (int ?n) []])"
    using mutex_stepI [of 1 "[RdCopy ?l MAXBYTES, WrStore (new @ [0]) ?n]" d] st by simp
  moreover have "mutex_step (d2, [RdCopy ?l MAXBYTES, Ret (int ?n) []]) (d3, [Ret r out, Ret (int ?n) []])"
    using mutex_stepI [of 0 "[RdCopy ?l MAXBYTES, Ret (int ?n) []]" d2] d3(1) by simp
  ultimately show ?thesis
    unfolding d3(2,3) [symmetric]
    by (meson converse_rtranclp_into_rtranclp rtranclp.rtrancl_refl)
qed

lemma spin_race:
  assumes d: "wf_spin d" "secret d \<noteq> []" and n: "0 \<notin> set new" "length new \<le> length (secret d)"
    and k: "k \<le> length (secret d)"
  shows "\<exists>d'. (spin_step buggy)\<^sup>*\<^sup>* (d, [SRd MAXBYTES MAXBYTES, SStore (new @ [0]) (length new + 1)])
     (d', [SRet (int (length (secret d))) (take k (secret d) @ drop k (overwritten (secret d) new)),
       SRet (int (length new + 1)) []])"
proof -
  obtain c where c: "ctx d = Some c" "secret_ok (oursecret c)" "\<not> mutex c" "\<not> spinlock c"
    using d by (auto simp: wf_spin_def)
  have sc: "secret d = c_str (oursecret c)" using c by (simp add: secret_def)
  note o = secret_okD [OF c(2), folded sc]
  let ?n = "length new + 1" and ?l = "length (secret d)"
  obtain s' where s': "strscpy (oursecret c) (new @ [0]) (if ?n > MAXBYTES then MAXBYTES else ?n) = Inr s'"
      "secret_ok s'" "take ?l s' = overwritten (secret d) new"
    using strscpy_over [OF c(2) n(1)] n(2) unfolding sc by blast
  have tk: "take k (oursecret c) = take k (secret d)"
    using o(4) k by (metis take_take min.absorb2 min.commute)
  have i: "to_int ?n = int ?n"
    using n(2) o(3) by (intro to_int_small) (simp add: MAXBYTES_def)
  define d1 where "d1 = d\<lparr>ctx := Some (c\<lparr>mutex := True\<rparr>)\<rparr>"
  have "\<exists>c2. store_spin buggy (new @ [0]) ?n d1 = Inr (int ?n, d1\<lparr>ctx := Some c2\<rparr>) \<and> oursecret c2 = s'"
    using c s'(1) unfolding store_spin_def d1_def
    by (cases "buggy = 1") (auto simp: drv_defs i simp del: One_nat_def)
  then obtain c2 where st: "store_spin buggy (new @ [0]) ?n d1 = Inr (int ?n, d1\<lparr>ctx := Some c2\<rparr>)"
      and c2: "oursecret c2 = s'" by blast
  define d2 where "d2 = d1\<lparr>ctx := Some c2\<rparr>"
  define d3 where "d3 = d2\<lparr>ctx := Some (c2\<lparr>tx := tx c2 + of_nat ?l, mutex := False\<rparr>)\<rparr>"
  have ge: "copy_to_user MAXBYTES (oursecret c) k = Inr (0, take k (secret d))"
    using k o(3,5) tk by (simp add: copy_to_user_def)
  have lk: "length (take k (secret d)) = k" using k by simp
  have rest: "copy_to_user (MAXBYTES - k) (drop k (oursecret c2)) (?l - k)
      = Inr (0, drop k (overwritten (secret d) new))"
  proof -
    have "?l - k \<le> length (drop k s')" "?l - k - (MAXBYTES - k) = 0" "min (?l - k) (MAXBYTES - k) = ?l - k"
      using o(3) secret_okD(5) [OF s'(2)] k by auto
    then show ?thesis
      unfolding copy_to_user_def c2 s'(3) [symmetric] by (simp add: drop_take)
  qed
  have "spin_step buggy (d, [SRd MAXBYTES MAXBYTES, SStore (new @ [0]) ?n]) (d, [SCopy ?l MAXBYTES, SStore (new @ [0]) ?n])"
    using s_len [of 0 "[SRd MAXBYTES MAXBYTES, SStore (new @ [0]) ?n]" MAXBYTES MAXBYTES d ?l d buggy] d
    by (simp add: len_spin_ok)
  moreover have "spin_step buggy (d, [SCopy ?l MAXBYTES, SStore (new @ [0]) ?n])
      (d1, [SRest ?l MAXBYTES (take k (secret d)), SStore (new @ [0]) ?n])"
    using s_copy [of 0 "[SCopy ?l MAXBYTES, SStore (new @ [0]) ?n]" ?l MAXBYTES d c k "take k (secret d)" buggy] c k ge
    by (simp add: d1_def)
  moreover have "spin_step buggy (d1, [SRest ?l MAXBYTES (take k (secret d)), SStore (new @ [0]) ?n])
      (d2, [SRest ?l MAXBYTES (take k (secret d)), SRet (int ?n) []])"
    using s_store [of 1 "[SRest ?l MAXBYTES (take k (secret d)), SStore (new @ [0]) ?n]" "new @ [0]" ?n buggy d1 "int ?n" d2] st
    by (simp add: d2_def)
  moreover have "spin_step buggy (d2, [SRest ?l MAXBYTES (take k (secret d)), SRet (int ?n) []])
      (d3, [SRet (int ?l) (take k (secret d) @ drop k (overwritten (secret d) new)), SRet (int ?n) []])"
    using s_rest [of 0 "[SRest ?l MAXBYTES (take k (secret d)), SRet (int ?n) []]" ?l MAXBYTES "take k (secret d)" d2 c2
        "drop k (overwritten (secret d) new)" buggy] rest lk
    by (simp add: d3_def d2_def)
  ultimately show ?thesis
    by (meson converse_rtranclp_into_rtranclp rtranclp.rtrancl_refl)
qed

text \<open>A secret that is too long: the program writes 128 bytes without a zero.\<close>

lemma too_long:
  assumes "0 \<notin> set s" "MAXBYTES \<le> length s"
  shows "strnlen8 (s @ [0]) MAXBYTES = Inr MAXBYTES" "strncpy8 s MAXBYTES = take MAXBYTES s"
    "0 \<notin> set (take MAXBYTES s)" "copy_from_user (replicate MAXBYTES 0) (take MAXBYTES s) MAXBYTES = Inr (0, take MAXBYTES s)"
proof -
  show z: "0 \<notin> set (take MAXBYTES s)" using assms(1) by (auto dest: in_set_takeD)
  then have tw: "takeWhile (\<lambda>b. b \<noteq> 0) (take MAXBYTES s) = take MAXBYTES s"
    by (auto simp: takeWhile_eq_all_conv)
  show "strnlen8 (s @ [0]) MAXBYTES = Inr MAXBYTES"
    using assms(2) by (simp add: strnlen8_def tw)
  show "strncpy8 s MAXBYTES = take MAXBYTES s" using assms(2) by (simp add: strncpy8_def)
  show "copy_from_user (replicate MAXBYTES 0) (take MAXBYTES s) MAXBYTES = Inr (0, take MAXBYTES s)"
    using assms(2) by (simp add: copy_from_user_def)
qed

lemma misc_too_long:
  assumes "wf_misc d" "0 \<notin> set s" "MAXBYTES \<le> length s"
  shows "write_misc True (take MAXBYTES s) MAXBYTES d = Inl OutOfBounds"
  using assms(1) too_long [OF assms(2,3)]
  by (auto simp: wf_misc_def write_misc_def drv_defs strlcpy_def strlen8_def)

lemma mutex_too_long:
  assumes "wf_mutex m" "0 \<notin> set s" "MAXBYTES \<le> length s"
  shows "\<exists>m'. write_mutex True (take MAXBYTES s) MAXBYTES m = Inr (128, m') \<and> wf_mutex m' \<and>
    secret m' = take (MAXBYTES - 1) s"
proof -
  obtain c where c: "ctx m = Some c" "secret_ok (oursecret c)" "\<not> lock c" using assms(1) by (auto simp: wf_mutex_def)
  define n where "n = MAXBYTES - 1"
  have n: "MAXBYTES = Suc n" "MAXBYTES - Suc 0 = n" by (simp_all add: n_def MAXBYTES_def)
  define s' where "s' = take n s @ [0]"
  have z: "0 \<notin> set (take n s)" using assms(2) by (auto dest: in_set_takeD)
  have "(take MAXBYTES s)[n := 0] = s'"
    using assms(3) unfolding n(1) s'_def by (simp add: take_Suc_conv_app_nth list_update_append)
  then have e: "strscpy (oursecret c) (take MAXBYTES s) MAXBYTES = Inr s'"
    using too_long(3) [OF assms(2,3)] assms(3) secret_okD(5) [OF c(2)] n
    by (simp add: strscpy_def memcpy_def)
  have "secret_ok s'" "c_str s' = take n s"
    using assms(3) n z c_str_snoc [OF z, of "[]"] unfolding s'_def by (simp_all add: secret_ok_def)
  moreover have "to_int MAXBYTES = 128" by (simp add: MAXBYTES_def)
  ultimately show ?thesis
    using assms(1) c e too_long(4) [OF assms(2,3)] unfolding n_def [symmetric]
    by (simp add: write_mutex_def store_mutex_def drv_defs wf_mutex_def secret_def)
qed

lemma main_too_long:
  assumes "can_open e" "can_malloc e" "kmem e" "0 \<notin> set s" "MAXBYTES \<le> length s"
    and "fop_open f True d = Inr (0, d1)"
  shows "rdwr_main f e [prg, 0x77 # w, path, s] d =
    bindR (fop_write f True (take MAXBYTES s) MAXBYTES d1) (\<lambda>(n, d).
      if n < 0 then finish f e 1 None d else finish f e 0 None d)"
  using assms(1-3,6) too_long [OF assms(4,5)] by (simp add: rdwr_main_def opt_of_def Let_def)

section \<open>Properties\<close>



text \<open>
  C36. The test program writes and reads back: started with the option \<open>w\<close> and a secret of 1 to 127 bytes and
  then with the option \<open>r\<close>, on any well-formed state of any of the three drivers, both runs exit with
  status 0 and the second prints the secret.
\<close>

theorem secret_roundtrip:
  assumes "can_open e" "can_malloc e" "kmem e" "0 \<notin> set s" "length s < MAXBYTES" "s \<noteq> []"
  shows "(wf_misc d \<longrightarrow> (\<exists>d1 d2. rdwr_main misc_fops e [prg, 0x77 # w, path, s] d = Inr (0, None, d1) \<and>
        rdwr_main misc_fops e [prg, 0x72 # w', path] d1 = Inr (0, Some s, d2) \<and> wf_misc d2)) \<and>
    (wf_mutex m \<longrightarrow> (\<exists>m1 m2. rdwr_main mutex_fops e [prg, 0x77 # w, path, s] m = Inr (0, None, m1) \<and>
        rdwr_main mutex_fops e [prg, 0x72 # w', path] m1 = Inr (0, Some s, m2) \<and> wf_mutex m2)) \<and>
    (wf_spin x \<longrightarrow> (\<exists>x1 x2. rdwr_main (spin_fops buggy) e [prg, 0x77 # w, path, s] x = Inr (0, None, x1) \<and>
        rdwr_main (spin_fops buggy) e [prg, 0x72 # w', path] x1 = Inr (0, Some s, x2) \<and> wf_spin x2))"
  using misc_dev.main_write_read [OF _ assms, of d prg w path w']
    mutex_dev.main_write_read [OF _ assms, of m prg w path w']
    spin_dev.main_write_read [OF _ assms, of x buggy prg w path w']
  by blast

theorem secret_roundtrip_witness:
  "\<exists>m m1 m2. mutex_init 0 True insmod = Inr (0, m) \<and>
     rdwr_main mutex_fops \<lparr>can_open = True, can_malloc = True, kmem = True\<rparr> [[], [0x77], [], [0x68, 0x69]] m
       = Inr (0, None, m1) \<and>
     rdwr_main mutex_fops \<lparr>can_open = True, can_malloc = True, kmem = True\<rparr> [[], [0x72], []] m1
       = Inr (0, Some [0x68, 0x69], m2)"
proof -
  obtain m where m: "mutex_init 0 True insmod = Inr (0, m)" "wf_mutex m"
    using init_wf(2) [OF TrueI] by blast
  show ?thesis
    using m secret_roundtrip [of "\<lparr>can_open = True, can_malloc = True, kmem = True\<rparr>" "[0x68, 0x69]" undefined "[]" "[]" "[]"
      "[]" m] by (simp add: MAXBYTES_def) blast
qed

text \<open>
  C28. Any number of callers of the driver with the mutex, interleaved section by section: the state stays well
  formed, no section faults and each brings its caller closer to its return, so that after at most two steps
  per caller all have returned; when all of them are readers, each returns exactly the secret.
\<close>

theorem mutex_interleave:
  assumes "wf_mutex d" "\<forall>c\<in>set cs. sections c = 2" "(mutex_step ^^ n) (d, cs) (d', cs')"
  shows "wf_mutex d' \<and> n \<le> 2 * length cs \<and>
    (\<forall>c\<in>set cs'. \<not> returned c \<longrightarrow> (\<exists>c1 d1. caller_step c d' = Inr (c1, d1) \<and> sections c1 < sections c)) \<and>
    (cs = replicate k (Rd MAXBYTES MAXBYTES) \<and> secret d \<noteq> [] \<longrightarrow>
       (\<forall>c\<in>set cs'. returned c \<longrightarrow> c = Ret (int (length (secret d))) (secret d)))"
proof -
  have ok: "\<forall>c\<in>set cs. caller_ok c"
  proof
    fix c assume "c \<in> set cs"
    then have "sections c = 2" using assms(2) by blast
    then show "caller_ok c" by (cases c) auto
  qed
  note inv = mutex_steps_inv [OF assms(3,1) ok]
  have "sum_list (map sections cs) = 2 * length cs"
    using assms(2) by (induction cs) auto
  moreover have "\<exists>c1 d1. caller_step c d' = Inr (c1, d1) \<and> sections c1 < sections c"
    if "c \<in> set cs'" "\<not> returned c" for c
    using caller_step_ok [of d' c] inv that by blast
  moreover have "c = Ret (int (length (secret d))) (secret d)"
    if "cs = replicate k (Rd MAXBYTES MAXBYTES)" "secret d \<noteq> []" "c \<in> set cs'" "returned c" for c
  proof -
    have "\<forall>c\<in>set cs. reading (secret d) c" unfolding that(1) by (simp add: reading_def)
    then have "reading (secret d) c" using reading_steps [OF assms(3,1) that(2)] that(3) by blast
    then show ?thesis using that(4) unfolding reading_def by auto
  qed
  ultimately show ?thesis using inv by auto
qed

theorem mutex_interleave_witness:
  "\<exists>d. mutex_init 0 True insmod = Inr (0, d) \<and>
     (\<forall>n d' cs'. (mutex_step ^^ n) (d, replicate 2 (Rd MAXBYTES MAXBYTES)) (d', cs') \<longrightarrow> n \<le> 4 \<and>
       (\<forall>c\<in>set cs'. returned c \<longrightarrow> c = Ret 7 (butlast initmsg)))"
proof -
  obtain d where d: "mutex_init 0 True insmod = Inr (0, d)" "wf_mutex d" "secret d = butlast initmsg"
    using init_wf(2) [OF TrueI] by blast
  have "n \<le> 4 \<and> (\<forall>c\<in>set cs'. returned c \<longrightarrow> c = Ret 7 (butlast initmsg))"
    if "(mutex_step ^^ n) (d, replicate 2 (Rd MAXBYTES MAXBYTES)) (d', cs')" for n d' cs'
    using mutex_interleave [OF d(2) _ that, of 2] d(3) by (simp add: initmsg_def)
  then show ?thesis using d(1) by blast
qed

text \<open>
  Reading takes the length and the bytes of the secret in two critical sections. With the mutex, a shorter
  secret that is written in between makes the reader return the old length, and with it the rest of the old
  secret. With the spinlock driver, where the reader copies under the mutex and the writer stores under the
  spinlock, the write can moreover fall between any two bytes, so that the reader returns the first \<open>k\<close>
  bytes of the old secret and the others of the new one, for every \<open>k\<close>.
\<close>

lemma secret_races:
  assumes "wf_mutex d" "wf_spin x" "secret d = old" "secret x = old" "old \<noteq> []" "0 \<notin> set new"
    "length new \<le> length old" "k \<le> length old"
  shows "(\<exists>d'. mutex_step\<^sup>*\<^sup>* (d, [Rd MAXBYTES MAXBYTES, Wr True (new @ [0]) (length new + 1)])
       (d', [Ret (int (length old)) (overwritten old new), Ret (int (length new + 1)) []])) \<and>
    (\<exists>x'. (spin_step buggy)\<^sup>*\<^sup>* (x, [SRd MAXBYTES MAXBYTES, SStore (new @ [0]) (length new + 1)])
       (x', [SRet (int (length old)) (take k old @ drop k (overwritten old new)),
         SRet (int (length new + 1)) []]))"
  using mutex_race [of d new] spin_race [of x new k buggy] assms by simp

theorem secret_races_witness:
  "\<exists>d x. mutex_init 0 True insmod = Inr (0, d) \<and> spin_init 0 True insmod = Inr (0, x) \<and>
     (\<exists>d'. mutex_step\<^sup>*\<^sup>* (d, [Rd MAXBYTES MAXBYTES, Wr True [0x78, 0] 2])
       (d', [Ret 7 [0x78, 0, 0x69, 0x74, 0x6d, 0x73, 0x67], Ret 2 []])) \<and>
     (\<exists>x'. (spin_step 0)\<^sup>*\<^sup>* (x, [SRd MAXBYTES MAXBYTES, SStore [0x78, 0] 2])
       (x', [SRet 7 [0x69, 0, 0x69, 0x74, 0x6d, 0x73, 0x67], SRet 2 []]))"
proof -
  obtain d x where d: "mutex_init 0 True insmod = Inr (0, d)" "wf_mutex d" "secret d = butlast initmsg"
      "spin_init 0 True insmod = Inr (0, x)" "wf_spin x" "secret x = butlast initmsg"
    using init_wf(2,3) [OF TrueI] by blast
  show ?thesis
    using secret_races [OF d(2,5,3,6), of "[0x78]" 1 0] d(1,4)
    by (simp add: initmsg_def overwritten_def) (simp add: numeral_2_eq_2)
qed

text \<open>
  Where the drivers fail: a write of more than 128 bytes to the driver without locks stores nothing and
  reports success; 128 bytes without a zero make its \<open>strlcpy\<close> read past the kernel's copy, which the test
  program provokes with any secret of 128 bytes or more, because its length check can never be true; the
  locking drivers drop the last byte of such a secret. A failed allocation of the context leaves the device
  registered, and opening it dereferences a null pointer.
\<close>

lemma secret_faults:
  assumes "wf_misc d" "wf_mutex m" "can_open e" "can_malloc e" "kmem e" "0 \<notin> set s" "MAXBYTES \<le> length s"
    "MAXBYTES < cnt" "cnt < 2 ^ 31"
  shows "write_misc mem u cnt d = Inr (int cnt, d) \<and>
    write_misc True s MAXBYTES d = Inl OutOfBounds \<and>
    rdwr_main misc_fops e [prg, 0x77 # w, path, s] d = Inl OutOfBounds \<and>
    (\<exists>m'. rdwr_main mutex_fops e [prg, 0x77 # w, path, s] m = Inr (0, None, m') \<and>
       secret m' = take (MAXBYTES - 1) s) \<and>
    (\<exists>d'. misc_init 0 False insmod = Inr (- ENOMEM, d') \<and> registered d' \<and> open_misc True d' = Inl NullDeref)"
proof (intro conjI)
  obtain c where c: "ctx d = Some c" using assms(1) by (auto simp: wf_misc_def)
  show "write_misc mem u cnt d = Inr (int cnt, d)"
    using assms(8,9) c by (simp add: write_misc_def the_ctx_def)
  have "write_misc True s MAXBYTES d = write_misc True (take MAXBYTES s) MAXBYTES d"
    using assms(7) by (simp add: write_misc_def copy_from_user_def)
  then show "write_misc True s MAXBYTES d = Inl OutOfBounds"
    using misc_too_long [OF assms(1,6,7)] by simp
  obtain d1 where d1: "open_misc True d = Inr (0, d1)" "wf_misc d1"
    using misc_open_law [OF assms(1), of True] by blast
  have o: "fop_open misc_fops True d = Inr (0, d1)" using d1 by (simp add: misc_fops_def)
  show "rdwr_main misc_fops e [prg, 0x77 # w, path, s] d = Inl OutOfBounds"
    unfolding main_too_long [OF assms(3-7) o] using misc_too_long [OF d1(2) assms(6,7)] by (simp add: misc_fops_def)
  obtain m1 where m1: "open_mutex True m = Inr (0, m1)" "wf_mutex m1"
    using mutex_open_law [OF assms(2), of True] by blast
  have om: "fop_open mutex_fops True m = Inr (0, m1)" using m1 by (simp add: mutex_fops_def)
  obtain m2 where m2: "write_mutex True (take MAXBYTES s) MAXBYTES m1 = Inr (128, m2)" "wf_mutex m2"
      "secret m2 = take (MAXBYTES - 1) s"
    using mutex_too_long [OF m1(2) assms(6,7)] by blast
  obtain r m3 where m3: "close_mutex (kmem e) m2 = Inr (r, m3)" "secret m3 = secret m2"
    using mutex_release_law [OF m2(2), of "kmem e"] by blast
  show "\<exists>m'. rdwr_main mutex_fops e [prg, 0x77 # w, path, s] m = Inr (0, None, m') \<and>
      secret m' = take (MAXBYTES - 1) s"
    unfolding main_too_long [OF assms(3-7) om] using m2 m3 by (simp add: mutex_fops_def finish_def)
  show "\<exists>d'. misc_init 0 False insmod = Inr (- ENOMEM, d') \<and> registered d' \<and> open_misc True d' = Inl NullDeref"
    by (simp add: misc_init_def insmod_def open_misc_def the_ctx_def)
qed

theorem secret_faults_witness:
  "\<exists>d m. misc_init 0 True insmod = Inr (0, d) \<and> mutex_init 0 True insmod = Inr (0, m) \<and>
     write_misc True [] 200 d = Inr (200, d) \<and>
     rdwr_main misc_fops \<lparr>can_open = True, can_malloc = True, kmem = True\<rparr> [[], [0x77], [], replicate 128 0x61] d
       = Inl OutOfBounds \<and>
     (\<exists>m'. rdwr_main mutex_fops \<lparr>can_open = True, can_malloc = True, kmem = True\<rparr>
         [[], [0x77], [], replicate 128 0x61] m = Inr (0, None, m') \<and> secret m' = replicate 127 0x61)"
proof -
  obtain d m where d: "misc_init 0 True insmod = Inr (0, d)" "wf_misc d"
      "mutex_init 0 True insmod = Inr (0, m)" "wf_mutex m"
    using init_wf(1,2) [OF TrueI] by blast
  show ?thesis
    using secret_faults [OF d(2,4), of "\<lparr>can_open = True, can_malloc = True, kmem = True\<rparr>" "replicate 128 0x61" 200
      True "[]" "[]" "[]" "[]"] d(1,3)
    by (simp add: MAXBYTES_def)
qed

end
