(* ===== verification/Kfs.thy ===== *)
theory Kfs
  imports Prelude
begin

text \<open>
  The kernel modules that show how a driver talks to user space: \<open>kfs-sys/sysfs_if.c\<close>,
  \<open>kfs-proc/procfs_if.c\<close>, \<open>kfs-debug/debugfs_if.c\<close> and \<open>kioctl\<close> with its user program. A module's state
  holds its variables, its mutex and the files it has registered. What the kernel decides (whether a
  registration or an allocation succeeds, whether waiting for the mutex is interrupted) and the kernel's
  number parser are arguments. A user's buffer is given by its readable characters.
\<close>

section \<open>Library functions\<close>

definition ERESTARTSYS :: int where "ERESTARTSYS = 512"
definition EINVAL :: int where "EINVAL = 22"
definition EFAULT :: int where "EFAULT = 14"
definition ENOMEM :: int where "ENOMEM = 12"
definition EPERM :: int where "EPERM = 1"
definition ENXIO :: int where "ENXIO = 6"
definition ENOTTY :: int where "ENOTTY = 25"

text \<open>The digits of a number, for the conversions of \<open>printf\<close>.\<close>

definition digit :: "nat \<Rightarrow> char" where
  "digit d = (if d < 10 then char_of (48 + d) else char_of (87 + d))"

function digits :: "nat \<Rightarrow> nat \<Rightarrow> string" where
  "digits b n = (if b < 2 \<or> n < b then [digit n] else digits b (n div b) @ [digit (n mod b)])"
  by pat_completeness auto
termination
  by (relation "measure snd") (auto intro!: div_less_dividend)

declare digits.simps [simp del]

definition fmt_d :: "int \<Rightarrow> string" where
  "fmt_d x = (if x < 0 then CHR ''-'' # digits 10 (nat (- x)) else digits 10 (nat x))"

definition fmt_u :: "nat \<Rightarrow> string" where
  "fmt_u n = digits 10 n"

definition fmt_x :: "nat \<Rightarrow> string" where
  "fmt_x n = digits 16 n"

definition fmt_px :: "u64 \<Rightarrow> string" where
  "fmt_px p = (let s = digits 16 (unat p) in replicate (16 - length s) CHR ''0'' @ s)"

definition newline :: char where
  "newline = CHR 0x0A"

text \<open>\<open>snprintf\<close>: what is stored, without the terminating null, and the value it returns.\<close>

definition snprintf :: "nat \<Rightarrow> string \<Rightarrow> string \<times> int" where
  "snprintf n s = (take (n - 1) s, int (length s))"

text \<open>\<open>copy_from_user\<close>: the copy, or nothing when not all bytes can be read.\<close>

definition from_user :: "string \<Rightarrow> nat \<Rightarrow> string option" where
  "from_user ubuf n = (if n \<le> length ubuf then Some (take n ubuf) else None)"

text \<open>The string a buffer holds.\<close>

definition cstring :: "string \<Rightarrow> string" where
  "cstring s = takeWhile (\<lambda>c. c \<noteq> CHR 0x00) s"

text \<open>The kernel's parser of an \<open>int\<close>: the value, or a negative error code.\<close>

type_synonym parser = "string \<Rightarrow> int + int"

definition DEBUG_LEVEL_MIN :: int where "DEBUG_LEVEL_MIN = 0"
definition DEBUG_LEVEL_MAX :: int where "DEBUG_LEVEL_MAX = 2"

section \<open>The sysfs module\<close>

record sysfs =
  s_debug_level :: int
  gpressure :: u32
  s_mtx :: bool
  platdev :: bool
  s_files :: "string list"

definition sysfs_module :: sysfs where
  "sysfs_module = \<lparr>s_debug_level = 0, gpressure = 0, s_mtx = False, platdev = False, s_files = []\<rparr>"

definition SYSFS_FILE1 :: string where "SYSFS_FILE1 = ''llkdsysfs_debug_level''"
definition SYSFS_FILE2 :: string where "SYSFS_FILE2 = ''llkdsysfs_pgoff''"
definition SYSFS_FILE3 :: string where "SYSFS_FILE3 = ''llkdsysfs_pressure''"

text \<open>\<open>mutex_lock_interruptible\<close>: waiting for a mutex that nobody releases never ends unless a signal arrives.\<close>

definition lock_intr :: "bool \<Rightarrow> bool \<Rightarrow> bool res" where
  "lock_intr sig held = (if sig then Inr False else if held then Inl DeadLock else Inr True)"

definition llkdsysfs_pressure_show :: "bool \<Rightarrow> sysfs \<Rightarrow> (int \<times> string \<times> sysfs) res" where
  "llkdsysfs_pressure_show sig s = bindR (lock_intr sig (s_mtx s)) (\<lambda>ok.
     if \<not> ok then Inr (- ERESTARTSYS, [], s)
     else let s = s\<lparr>s_mtx := True\<rparr>; (buf, n) = snprintf 25 (fmt_u (unat (gpressure s))) in
       Inr (n, buf, s\<lparr>s_mtx := False\<rparr>))"

definition llkdsysfs_pgoff_show :: "u64 \<Rightarrow> bool \<Rightarrow> sysfs \<Rightarrow> (int \<times> string \<times> sysfs) res" where
  "llkdsysfs_pgoff_show page_offset sig s = bindR (lock_intr sig (s_mtx s)) (\<lambda>ok.
     if \<not> ok then Inr (- ERESTARTSYS, [], s)
     else let s = s\<lparr>s_mtx := True\<rparr>; (buf, n) = snprintf 25 (''0x'' @ fmt_px page_offset) in
       Inr (n, buf, s\<lparr>s_mtx := False\<rparr>))"

definition llkdsysfs_debug_level_show :: "bool \<Rightarrow> sysfs \<Rightarrow> (int \<times> string \<times> sysfs) res" where
  "llkdsysfs_debug_level_show sig s = bindR (lock_intr sig (s_mtx s)) (\<lambda>ok.
     if \<not> ok then Inr (- ERESTARTSYS, [], s)
     else let s = s\<lparr>s_mtx := True\<rparr>; (buf, n) = snprintf 25 (fmt_d (s_debug_level s) @ [newline]) in
       Inr (n, buf, s\<lparr>s_mtx := False\<rparr>))"

definition llkdsysfs_debug_level_store :: "parser \<Rightarrow> bool \<Rightarrow> string \<Rightarrow> nat \<Rightarrow> sysfs \<Rightarrow> (int \<times> sysfs) res" where
  "llkdsysfs_debug_level_store kstrtoint sig buf cnt s = bindR (lock_intr sig (s_mtx s)) (\<lambda>ok.
     if \<not> ok then Inr (- ERESTARTSYS, s)
     else let s = s\<lparr>s_mtx := True\<rparr>; prev_dbglevel = s_debug_level s in
       if cnt = 0 \<or> cnt > 12 then Inr (- EINVAL, s\<lparr>s_mtx := False\<rparr>)
       else case kstrtoint buf of
         Inl ret \<Rightarrow> Inr (ret, s\<lparr>s_mtx := False\<rparr>)
       | Inr v \<Rightarrow> let s = s\<lparr>s_debug_level := v\<rparr> in
           if s_debug_level s < DEBUG_LEVEL_MIN \<or> s_debug_level s > DEBUG_LEVEL_MAX
           then Inr (- EFAULT, s\<lparr>s_debug_level := prev_dbglevel, s_mtx := False\<rparr>)
           else Inr (int cnt, s\<lparr>s_mtx := False\<rparr>))"

text \<open>
  \<open>enabled\<close>: sysfs is configured; \<open>reg\<close>: what registering the platform device returns; \<open>c1\<close>, \<open>c2\<close>, \<open>c3\<close>:
  what creating the three files returns, 0 for success.
\<close>

definition sysfs_if_init :: "bool \<Rightarrow> int \<Rightarrow> int \<Rightarrow> int \<Rightarrow> int \<Rightarrow> sysfs \<Rightarrow> int \<times> sysfs" where
  "sysfs_if_init enabled reg c1 c2 c3 s =
     (if \<not> enabled then (- EINVAL, s)
      else if reg \<noteq> 0 then (reg, s)
      else let s = s\<lparr>platdev := True\<rparr> in
        if c1 \<noteq> 0 then (c1, s\<lparr>platdev := False\<rparr>)
        else let s = s\<lparr>s_files := SYSFS_FILE1 # s_files s\<rparr> in
          if c2 \<noteq> 0 then (c2, s\<lparr>s_files := remove1 SYSFS_FILE1 (s_files s), platdev := False\<rparr>)
          else let s = s\<lparr>s_files := SYSFS_FILE2 # s_files s, gpressure := 25\<rparr> in
            if c3 \<noteq> 0 then
              let s = s\<lparr>s_files := remove1 SYSFS_FILE2 (s_files s)\<rparr>;
                  s = s\<lparr>s_files := remove1 SYSFS_FILE1 (s_files s)\<rparr> in
                (c3, s\<lparr>platdev := False\<rparr>)
            else (0, s\<lparr>s_files := SYSFS_FILE3 # s_files s\<rparr>))"

definition sysfs_if_cleanup :: "sysfs \<Rightarrow> sysfs" where
  "sysfs_if_cleanup s =
     (let s = s\<lparr>s_files := remove1 SYSFS_FILE3 (s_files s)\<rparr>;
          s = s\<lparr>s_files := remove1 SYSFS_FILE2 (s_files s)\<rparr>;
          s = s\<lparr>s_files := remove1 SYSFS_FILE1 (s_files s)\<rparr> in
        s\<lparr>platdev := False\<rparr>)"

section \<open>The driver context of the proc and debugfs modules\<close>

record kctx =
  k_tx :: int
  k_rx :: int
  k_err :: int
  k_myword :: int
  k_power :: int
  k_config1 :: u32
  k_config2 :: u32
  k_config3 :: u64
  k_oursecret :: string

text \<open>A pointer to it: null, an error code, freed memory or a live structure.\<close>

datatype kptr = KNull | KErr int | KFreed | KLive kctx

definition deref :: "kptr \<Rightarrow> kctx res" where
  "deref p = (case p of KNull \<Rightarrow> Inl NullDeref | KErr _ \<Rightarrow> Inl NullDeref | KFreed \<Rightarrow> Inl UseAfterFree | KLive c \<Rightarrow> Inr c)"

text \<open>\<open>config3\<close> and the secret are what the two modules initialise differently.\<close>

definition alloc_init_drvctx :: "bool \<Rightarrow> u64 \<Rightarrow> string \<Rightarrow> kptr" where
  "alloc_init_drvctx mem config3 msg =
     (if \<not> mem then KErr (- ENOMEM)
      else KLive \<lparr>k_tx = 0, k_rx = 0, k_err = 0, k_myword = 0, k_power = 1, k_config1 = 0,
        k_config2 = 0x48524a5f, k_config3 = config3, k_oursecret = msg\<rparr>)"

section \<open>The proc module\<close>

record proc =
  p_debug_level :: int
  gdrvctx :: kptr
  p_mtx :: bool
  gprocdir :: bool
  p_files :: "string list"

definition proc_module :: proc where
  "proc_module = \<lparr>p_debug_level = 0, gdrvctx = KNull, p_mtx = False, gprocdir = False, p_files = []\<rparr>"

definition PROC_FILE1 :: string where "PROC_FILE1 = ''llkdproc_debug_level''"
definition PROC_FILE2 :: string where "PROC_FILE2 = ''llkdproc_show_pgoff''"
definition PROC_FILE3 :: string where "PROC_FILE3 = ''llkdproc_show_drvctx''"
definition PROC_FILE4 :: string where "PROC_FILE4 = ''llkdproc_config1''"

definition proc_show_config1 :: "bool \<Rightarrow> proc \<Rightarrow> (int \<times> string \<times> proc) res" where
  "proc_show_config1 sig s = bindR (lock_intr sig (p_mtx s)) (\<lambda>ok.
     if \<not> ok then Inr (- ERESTARTSYS, [], s)
     else bindR (deref (gdrvctx s)) (\<lambda>c.
       Inr (0, ''procfs_if:config1:'' @ fmt_d (sint (k_config1 c)) @ '',0x'' @ fmt_x (unat (k_config1 c)) @ [newline], s)))"

text \<open>\<open>kstrtoul\<close> delivers an \<open>unsigned long\<close>, which is cut to \<open>u32\<close> and to \<open>int\<close>.\<close>

definition myproc_write_config1 :: "(string \<Rightarrow> int + u64) \<Rightarrow> bool \<Rightarrow> string \<Rightarrow> nat \<Rightarrow> proc \<Rightarrow> (int \<times> proc) res" where
  "myproc_write_config1 kstrtoul sig ubuf cnt s = bindR (lock_intr sig (p_mtx s)) (\<lambda>ok.
     if \<not> ok then Inr (- ERESTARTSYS, s)
     else let s = s\<lparr>p_mtx := True\<rparr> in
       if cnt = 0 \<or> cnt > 8 then Inr (- EINVAL, s\<lparr>p_mtx := False\<rparr>)
       else case from_user ubuf cnt of
         None \<Rightarrow> Inr (- EFAULT, s\<lparr>p_mtx := False\<rparr>)
       | Some buf \<Rightarrow>
           let buf = buf[cnt - 1 := CHR 0x00] in
           case kstrtoul (cstring buf) of
             Inl ret \<Rightarrow> Inr (ret, s\<lparr>p_mtx := False\<rparr>)
           | Inr configval \<Rightarrow> bindR (deref (gdrvctx s)) (\<lambda>c.
               Inr (int cnt, s\<lparr>gdrvctx := KLive (c\<lparr>k_config1 := ucast configval\<rparr>),
                 p_debug_level := sint (ucast configval :: u32), p_mtx := False\<rparr>)))"

definition proc_show_drvctx :: "bool \<Rightarrow> proc \<Rightarrow> (int \<times> string \<times> proc) res" where
  "proc_show_drvctx sig s = bindR (lock_intr sig (p_mtx s)) (\<lambda>ok.
     if \<not> ok then Inr (- ERESTARTSYS, [], s)
     else bindR (deref (gdrvctx s)) (\<lambda>c.
       Inr (0, ''prodname:procfs_if'' @ [newline] @ ''tx:'' @ fmt_d (k_tx c) @ '',rx:'' @ fmt_d (k_rx c) @
         '',err:'' @ fmt_d (k_err c) @ '',myword:'' @ fmt_d (k_myword c) @ '',power:'' @ fmt_d (k_power c) @
         [newline] @ ''config1:0x'' @ fmt_x (unat (k_config1 c)) @ '',config2:0x'' @ fmt_x (unat (k_config2 c)) @
         '',config3:0x'' @ fmt_x (unat (k_config3 c)) @ [newline] @ ''oursecret:'' @ k_oursecret c @ [newline], s)))"

definition proc_show_pgoff :: "u64 \<Rightarrow> int \<times> string" where
  "proc_show_pgoff page_offset = (0, ''procfs_if:PAGE_OFFSET:0x'' @ fmt_px page_offset @ [newline])"

definition myproc_write_debug_level :: "parser \<Rightarrow> bool \<Rightarrow> string \<Rightarrow> nat \<Rightarrow> proc \<Rightarrow> (int \<times> proc) res" where
  "myproc_write_debug_level kstrtoint sig ubuf cnt s = bindR (lock_intr sig (p_mtx s)) (\<lambda>ok.
     if \<not> ok then Inr (- ERESTARTSYS, s)
     else let s = s\<lparr>p_mtx := True\<rparr> in
       if cnt = 0 \<or> cnt > 12 then Inr (- EINVAL, s\<lparr>p_mtx := False\<rparr>)
       else case from_user ubuf cnt of
         None \<Rightarrow> Inr (- EFAULT, s\<lparr>p_mtx := False\<rparr>)
       | Some buf \<Rightarrow>
           let buf = buf[cnt - 1 := CHR 0x00] in
           case kstrtoint (cstring buf) of
             Inl ret \<Rightarrow> Inr (ret, s\<lparr>p_mtx := False\<rparr>)
           | Inr v \<Rightarrow> let s = s\<lparr>p_debug_level := v\<rparr> in
               if p_debug_level s < DEBUG_LEVEL_MIN \<or> p_debug_level s > DEBUG_LEVEL_MAX
               then Inr (- EFAULT, s\<lparr>p_debug_level := DEBUG_LEVEL_MIN, p_mtx := False\<rparr>)
               else bindR (deref (gdrvctx s)) (\<lambda>c.
                 Inr (int cnt, s\<lparr>gdrvctx := KLive (c\<lparr>k_config1 := of_int (p_debug_level s)\<rparr>), p_mtx := False\<rparr>)))"

definition proc_show_debug_level :: "bool \<Rightarrow> proc \<Rightarrow> (int \<times> string \<times> proc) res" where
  "proc_show_debug_level sig s = bindR (lock_intr sig (p_mtx s)) (\<lambda>ok.
     if \<not> ok then Inr (- ERESTARTSYS, [], s)
     else Inr (0, ''debug_level:'' @ fmt_d (p_debug_level s) @ [newline], s))"

text \<open>\<open>remove_proc_subtree\<close> and \<open>kfree_sensitive\<close>.\<close>

definition remove_proc_subtree :: "proc \<Rightarrow> proc" where
  "remove_proc_subtree s = s\<lparr>gprocdir := False, p_files := []\<rparr>"

definition free_ctx :: "kptr \<Rightarrow> kptr res" where
  "free_ctx p = (case p of KNull \<Rightarrow> Inr KNull | KLive _ \<Rightarrow> Inr KFreed | _ \<Rightarrow> Inl BadFree)"

text \<open>
  Initialisation, in the part before the driver context exists and the part from its allocation on.
  \<open>mk\<close> and \<open>f1\<close> to \<open>f4\<close> tell whether the directory and the files can be created.
\<close>

definition procfs_init_files :: "bool \<Rightarrow> bool \<Rightarrow> bool \<Rightarrow> bool \<Rightarrow> proc \<Rightarrow> int \<times> proc" where
  "procfs_init_files enabled mk f1 f2 s =
     (if \<not> enabled then (- EINVAL, s)
      else if \<not> mk then (- ENOMEM, s)
      else let s = s\<lparr>gprocdir := True\<rparr> in
        if \<not> f1 then (- ENOMEM, s)
        else let s = s\<lparr>p_files := PROC_FILE1 # p_files s\<rparr> in
          if \<not> f2 then (- ENOMEM, remove_proc_subtree s)
          else (0, s\<lparr>p_files := PROC_FILE2 # p_files s\<rparr>))"

definition procfs_init_ctx :: "bool \<Rightarrow> bool \<Rightarrow> bool \<Rightarrow> proc \<Rightarrow> (int \<times> proc) res" where
  "procfs_init_ctx mem f3 f4 s =
     (let s = s\<lparr>gdrvctx := alloc_init_drvctx mem 0x424c0a52 ''AhA xxx''\<rparr> in
      case gdrvctx s of
        KErr e \<Rightarrow> Inr (e, remove_proc_subtree s)
      | _ \<Rightarrow>
        if \<not> f3 then bindR (free_ctx (gdrvctx s)) (\<lambda>p. Inr (- ENOMEM, remove_proc_subtree (s\<lparr>gdrvctx := p\<rparr>)))
        else let s = s\<lparr>p_files := PROC_FILE3 # p_files s\<rparr> in
          if \<not> f4 then bindR (free_ctx (gdrvctx s)) (\<lambda>p. Inr (- ENOMEM, remove_proc_subtree (s\<lparr>gdrvctx := p\<rparr>)))
          else Inr (0, s\<lparr>p_files := PROC_FILE4 # p_files s\<rparr>))"

definition procfs_if_init :: "bool \<Rightarrow> bool \<Rightarrow> bool \<Rightarrow> bool \<Rightarrow> bool \<Rightarrow> bool \<Rightarrow> bool \<Rightarrow> proc \<Rightarrow> (int \<times> proc) res" where
  "procfs_if_init enabled mk f1 f2 mem f3 f4 s =
     (case procfs_init_files enabled mk f1 f2 s of (stat, s) \<Rightarrow>
        if stat \<noteq> 0 then Inr (stat, s) else procfs_init_ctx mem f3 f4 s)"

definition procfs_if_cleanup :: "proc \<Rightarrow> proc res" where
  "procfs_if_cleanup s = bindR (deref (gdrvctx s)) (\<lambda>c.
     let s = remove_proc_subtree (s\<lparr>gdrvctx := KLive (c\<lparr>k_power := 0\<rparr>)\<rparr>) in
       bindR (free_ctx (gdrvctx s)) (\<lambda>p. Inr (s\<lparr>gdrvctx := p\<rparr>)))"

section \<open>The debugfs module\<close>

record dbgfs =
  d_debug_level :: u32
  d_gdrvctx :: kptr
  d_mtx :: bool
  gparent :: bool
  d_files :: "string list"

definition dbgfs_module :: dbgfs where
  "dbgfs_module = \<lparr>d_debug_level = 0, d_gdrvctx = KNull, d_mtx = False, gparent = False, d_files = []\<rparr>"

definition MAXUPASS :: nat where "MAXUPASS = 256"

definition drvctx_text :: "kctx \<Rightarrow> string" where
  "drvctx_text c = ''prodname:dbgfs_simple_intf'' @ [newline] @ ''tx:'' @ fmt_d (k_tx c) @ '',rx:'' @ fmt_d (k_rx c) @
     '',err:'' @ fmt_d (k_err c) @ '',myword:'' @ fmt_d (k_myword c) @ '',power:'' @ fmt_d (k_power c) @
     [newline] @ ''config1:0x'' @ fmt_x (unat (k_config1 c)) @ '',config2:0x'' @ fmt_x (unat (k_config2 c)) @
     '',config3:0x'' @ fmt_x (unat (k_config3 c)) @ '' ('' @ fmt_u (unat (k_config3 c)) @ '')'' @ [newline] @
     ''oursecret:'' @ k_oursecret c @ [newline]"

text \<open>\<open>simple_read_from_buffer\<close> on a user buffer that can be written: the value, the data and the new position.\<close>

definition simple_read_from_buffer :: "nat \<Rightarrow> nat \<Rightarrow> string \<Rightarrow> int \<times> string \<times> nat" where
  "simple_read_from_buffer n pos from =
     (if length from \<le> pos then (0, [], pos)
      else let out = take n (drop pos from) in (int (length out), out, pos + length out))"

text \<open>A read of \<open>cnt\<close> bytes at position \<open>fpos\<close>: the value, what is written to the user's buffer, the position.\<close>

definition dbgfs_show_drvctx ::
  "u64 \<Rightarrow> bool \<Rightarrow> nat \<Rightarrow> nat \<Rightarrow> dbgfs \<Rightarrow> (int \<times> string \<times> nat \<times> dbgfs) res" where
  "dbgfs_show_drvctx jiffies sig cnt fpos s = bindR (lock_intr sig (d_mtx s)) (\<lambda>ok.
     if \<not> ok then Inr (- ERESTARTSYS, [], fpos, s)
     else bindR (deref (d_gdrvctx s)) (\<lambda>c.
       let c = c\<lparr>k_config3 := jiffies\<rparr>; s = s\<lparr>d_gdrvctx := KLive c\<rparr>;
           (locbuf, _) = snprintf (MAXUPASS - 1) (drvctx_text c);
           (n, out, pos) = simple_read_from_buffer MAXUPASS fpos locbuf in
         Inr (n, out, pos, s)))"

definition DBGFS_FILE1 :: string where "DBGFS_FILE1 = ''llkd_dbgfs_show_drvctx''"
definition DBGFS_FILE2 :: string where "DBGFS_FILE2 = ''llkd_dbgfs_debug_level''"

text \<open>The file of \<open>debugfs_create_u32\<close> stores any 32-bit value.\<close>

definition dbgfs_write_level :: "u32 \<Rightarrow> dbgfs \<Rightarrow> dbgfs" where
  "dbgfs_write_level v s = s\<lparr>d_debug_level := v\<rparr>"

text \<open>\<open>dir\<close> and \<open>f1\<close>: the directory and the first file are created (a null pointer is returned otherwise).\<close>

definition debugfs_if_init :: "bool \<Rightarrow> bool \<Rightarrow> bool \<Rightarrow> bool \<Rightarrow> u64 \<Rightarrow> dbgfs \<Rightarrow> (int \<times> dbgfs) res" where
  "debugfs_if_init enabled dir mem f1 jiffies s =
     (if \<not> enabled then Inr (- EINVAL, s)
      else if \<not> dir then Inr (0, s)
      else let s = s\<lparr>gparent := True, d_gdrvctx := alloc_init_drvctx mem jiffies ''AhA yyy''\<rparr> in
        case d_gdrvctx s of
          KErr e \<Rightarrow> Inr (e, s\<lparr>gparent := False, d_files := []\<rparr>)
        | _ \<Rightarrow>
          if \<not> f1 then bindR (free_ctx (d_gdrvctx s)) (\<lambda>p. Inr (0, s\<lparr>d_gdrvctx := p, gparent := False, d_files := []\<rparr>))
          else Inr (0, s\<lparr>d_files := [DBGFS_FILE2, DBGFS_FILE1]\<rparr>))"

text \<open>Unloading frees the context first and then removes the files, unless an oops is asked for.\<close>

definition debugfs_cleanup_free :: "dbgfs \<Rightarrow> dbgfs res" where
  "debugfs_cleanup_free s = bindR (free_ctx (d_gdrvctx s)) (\<lambda>p. Inr (s\<lparr>d_gdrvctx := p\<rparr>))"

definition debugfs_if_cleanup :: "int \<Rightarrow> dbgfs \<Rightarrow> dbgfs res" where
  "debugfs_if_cleanup cause_an_oops s = bindR (debugfs_cleanup_free s) (\<lambda>s.
     if cause_an_oops = 0 then Inr (s\<lparr>gparent := False, d_files := []\<rparr>) else Inr s)"

section \<open>The ioctl driver and its user program\<close>

text \<open>The encoding of the kernel's \<open>_IO\<close> macros: direction, size, type and number.\<close>

definition IOC :: "u32 \<Rightarrow> u32 \<Rightarrow> u32 \<Rightarrow> u32 \<Rightarrow> u32" where
  "IOC d t nr sz = push_bit 30 d OR push_bit 8 t OR nr OR push_bit 16 sz"

definition IOC_TYPE :: "u32 \<Rightarrow> u32" where
  "IOC_TYPE cmd = drop_bit 8 cmd AND 0xFF"

definition IOC_NR :: "u32 \<Rightarrow> u32" where
  "IOC_NR cmd = cmd AND 0xFF"

definition IOCTL_LLKD_MAGIC :: u32 where "IOCTL_LLKD_MAGIC = 0xA8"
definition IOCTL_LLKD_MAXIOCTL :: u32 where "IOCTL_LLKD_MAXIOCTL = 3"
definition IOCTL_LLKD_IOCRESET :: u32 where "IOCTL_LLKD_IOCRESET = IOC 0 IOCTL_LLKD_MAGIC 0 0"
definition IOCTL_LLKD_IOCQPOWER :: u32 where "IOCTL_LLKD_IOCQPOWER = IOC 2 IOCTL_LLKD_MAGIC 1 4"
definition IOCTL_LLKD_IOCSPOWER :: u32 where "IOCTL_LLKD_IOCSPOWER = IOC 1 IOCTL_LLKD_MAGIC 2 4"

text \<open>
  \<open>admin\<close>: the caller has \<open>CAP_SYS_ADMIN\<close>; \<open>put\<close>: what \<open>__put_user\<close> returns. The result is the return
  value, what is stored at the user's address, and the driver's power state.
\<close>

definition ioctl_intf_ioctl :: "bool \<Rightarrow> int \<Rightarrow> u32 \<Rightarrow> u64 \<Rightarrow> int \<Rightarrow> int \<times> int option \<times> int" where
  "ioctl_intf_ioctl admin put cmd arg pw =
     (if IOC_TYPE cmd \<noteq> IOCTL_LLKD_MAGIC then (- ENOTTY, None, pw)
      else if IOC_NR cmd > IOCTL_LLKD_MAXIOCTL then (- ENOTTY, None, pw)
      else if cmd = IOCTL_LLKD_IOCRESET then (0, None, pw)
      else if cmd = IOCTL_LLKD_IOCQPOWER then
        (if \<not> admin then (- EPERM, None, pw) else (put, if put = 0 then Some pw else None, pw))
      else if cmd = IOCTL_LLKD_IOCSPOWER then
        (if \<not> admin then (- EPERM, None, pw) else (0, None, sint (ucast arg :: u32)))
      else (- ENOTTY, None, pw))"

definition ioctl_intf_open :: "u32 \<Rightarrow> int" where
  "ioctl_intf_open minor = (if minor = 0 then 0 else - ENXIO)"

text \<open>Registration with the major number 0 asks for a dynamic one; \<open>result\<close> is what the kernel returns.\<close>

definition ioctl_llkd_kdrv_init :: "int \<Rightarrow> int \<Rightarrow> int \<times> int" where
  "ioctl_llkd_kdrv_init result major =
     (if result < 0 then (result, major) else (0, if major = 0 then result else major))"

text \<open>
  The user program: with the device node opened it resets the device, asks for the power state and
  switches it. The result is the exit status and the new power state.
\<close>

definition ioctl_userspace_main :: "bool \<Rightarrow> string list \<Rightarrow> (string \<Rightarrow> u32 option) \<Rightarrow> int \<Rightarrow> int \<times> int" where
  "ioctl_userspace_main admin argv node pw0 =
     (if length argv < 2 then (1, pw0)
      else case node (argv ! 1) of
        None \<Rightarrow> (1, pw0)
      | Some minor \<Rightarrow>
        if ioctl_intf_open minor < 0 then (1, pw0)
        else case ioctl_intf_ioctl admin 0 IOCTL_LLKD_IOCRESET 0 pw0 of (r, _, pw1) \<Rightarrow>
          if r < 0 then (1, pw1)
          else case ioctl_intf_ioctl admin 0 IOCTL_LLKD_IOCQPOWER 0 pw1 of (r, q, pw2) \<Rightarrow>
            (case q of
               Some v \<Rightarrow>
                 if r < 0 then (1, pw2)
                 else if v = 0 then
                   (case ioctl_intf_ioctl admin 0 IOCTL_LLKD_IOCSPOWER 1 pw2 of (r, _, pw3) \<Rightarrow>
                      if r < 0 then (1, pw3) else (0, pw3))
                 else if v = 1 then
                   (case ioctl_intf_ioctl admin 0 IOCTL_LLKD_IOCSPOWER 0 pw2 of (r, _, pw3) \<Rightarrow>
                      if r < 0 then (1, pw3) else (0, pw3))
                 else (0, pw2)
             | None \<Rightarrow> (1, pw2)))"

section \<open>Sequences of operations\<close>

text \<open>Operations on the files; a Boolean tells whether a signal interrupts the wait for the mutex.\<close>

datatype sys_op = SPressure bool | SPgoff bool | SShow bool | SStore bool string nat

fun run_sysfs :: "parser \<Rightarrow> u64 \<Rightarrow> sysfs \<Rightarrow> sys_op \<Rightarrow> sysfs res" where
  "run_sysfs ki po s (SPressure g) = bindR (llkdsysfs_pressure_show g s) (\<lambda>(_, _, s). Inr s)"
| "run_sysfs ki po s (SPgoff g) = bindR (llkdsysfs_pgoff_show po g s) (\<lambda>(_, _, s). Inr s)"
| "run_sysfs ki po s (SShow g) = bindR (llkdsysfs_debug_level_show g s) (\<lambda>(_, _, s). Inr s)"
| "run_sysfs ki po s (SStore g buf n) = bindR (llkdsysfs_debug_level_store ki g buf n s) (\<lambda>(_, s). Inr s)"

datatype proc_op = PConfig bool | PCtx bool | PLevel bool | PWrite bool string nat | PWriteConfig bool string nat

fun run_proc :: "parser \<Rightarrow> (string \<Rightarrow> int + u64) \<Rightarrow> proc \<Rightarrow> proc_op \<Rightarrow> proc res" where
  "run_proc ki ku s (PConfig g) = bindR (proc_show_config1 g s) (\<lambda>(_, _, s). Inr s)"
| "run_proc ki ku s (PCtx g) = bindR (proc_show_drvctx g s) (\<lambda>(_, _, s). Inr s)"
| "run_proc ki ku s (PLevel g) = bindR (proc_show_debug_level g s) (\<lambda>(_, _, s). Inr s)"
| "run_proc ki ku s (PWrite g ubuf n) = bindR (myproc_write_debug_level ki g ubuf n s) (\<lambda>(_, s). Inr s)"
| "run_proc ki ku s (PWriteConfig g ubuf n) = bindR (myproc_write_config1 ku g ubuf n s) (\<lambda>(_, s). Inr s)"

fun no_config :: "proc_op \<Rightarrow> bool" where
  "no_config (PWriteConfig _ _ _) = False"
| "no_config _ = True"

definition level_ok :: "int \<Rightarrow> bool" where
  "level_ok v \<longleftrightarrow> DEBUG_LEVEL_MIN \<le> v \<and> v \<le> DEBUG_LEVEL_MAX"

definition proc_live :: "proc \<Rightarrow> bool" where
  "proc_live s \<longleftrightarrow> \<not> p_mtx s \<and> (\<exists>c. gdrvctx s = KLive c)"

section \<open>Lemmas\<close>

lemma run_sysfs_ok:
  assumes "\<not> s_mtx s" "level_ok (s_debug_level s)"
  shows "\<exists>s'. run_sysfs ki po s x = Inr s' \<and> \<not> s_mtx s' \<and> level_ok (s_debug_level s')"
  using assms
  by (cases x) (auto simp: llkdsysfs_pressure_show_def llkdsysfs_pgoff_show_def llkdsysfs_debug_level_show_def
    llkdsysfs_debug_level_store_def lock_intr_def Let_def level_ok_def split: sum.splits prod.splits)

lemma run_sysfs_all:
  "\<not> s_mtx s \<Longrightarrow> level_ok (s_debug_level s) \<Longrightarrow>
     \<exists>s'. foldR (run_sysfs ki po) s xs = Inr s' \<and> \<not> s_mtx s' \<and> level_ok (s_debug_level s')"
proof (induction xs arbitrary: s)
  case (Cons x xs)
  then obtain s' where "run_sysfs ki po s x = Inr s'" "\<not> s_mtx s'" "level_ok (s_debug_level s')"
    using run_sysfs_ok [of s ki po x] by blast
  then show ?case using Cons.IH [of s'] by simp
qed simp

lemma run_proc_ok:
  assumes "proc_live s"
  shows "\<exists>s'. run_proc ki ku s x = Inr s' \<and> proc_live s' \<and>
    (no_config x \<and> level_ok (p_debug_level s) \<longrightarrow> level_ok (p_debug_level s'))"
  using assms
  by (cases x) (auto simp: proc_show_config1_def proc_show_drvctx_def proc_show_debug_level_def
    myproc_write_debug_level_def myproc_write_config1_def lock_intr_def Let_def level_ok_def deref_def
    DEBUG_LEVEL_MIN_def DEBUG_LEVEL_MAX_def proc_live_def split: sum.splits option.splits)

lemma run_proc_all:
  "proc_live s \<Longrightarrow> \<exists>s'. foldR (run_proc ki ku) s xs = Inr s' \<and> proc_live s' \<and>
     (list_all no_config xs \<and> level_ok (p_debug_level s) \<longrightarrow> level_ok (p_debug_level s'))"
proof (induction xs arbitrary: s)
  case (Cons x xs)
  then obtain s' where "run_proc ki ku s x = Inr s'" "proc_live s'"
      "no_config x \<and> level_ok (p_debug_level s) \<longrightarrow> level_ok (p_debug_level s')"
    using run_proc_ok [of s ki ku x] by blast
  then show ?case using Cons.IH [of s'] by auto
qed simp

lemma level_cases: "level_ok v \<longleftrightarrow> v \<in> {0, 1, 2}"
  by (auto simp: level_ok_def DEBUG_LEVEL_MIN_def DEBUG_LEVEL_MAX_def)

lemma fmt_level: "level_ok v \<Longrightarrow> length (fmt_d v) = 1"
  by (auto simp: level_cases fmt_d_def digits.simps)

text \<open>The proc files overwrite the last character they are given by the terminating null.\<close>

lemma from_user_all: "from_user v (length v) = Some v"
  by (simp add: from_user_def)

lemma cstring_snoc: "CHR 0x00 \<notin> set v \<Longrightarrow> cstring (v @ [CHR 0x00]) = v"
  by (auto simp: cstring_def takeWhile_append)

lemma write_level_line:
  assumes "CHR 0x00 \<notin> set v" "length v < 12" "\<not> p_mtx p"
  shows "myproc_write_debug_level ki False (v @ [x]) (length v + 1) p =
    (case ki v of
       Inl ret \<Rightarrow> Inr (ret, p)
     | Inr n \<Rightarrow> if \<not> level_ok n then Inr (- EFAULT, p\<lparr>p_debug_level := 0\<rparr>)
         else bindR (deref (gdrvctx p)) (\<lambda>c. Inr (int (length v + 1),
           p\<lparr>p_debug_level := n, gdrvctx := KLive (c\<lparr>k_config1 := of_int n\<rparr>)\<rparr>)))"
proof -
  have f: "from_user (v @ [x]) (length v + 1) = Some (v @ [x])"
    using from_user_all [of "v @ [x]"] by simp
  have m: "p\<lparr>p_mtx := False\<rparr> = p" "p\<lparr>p_mtx := False, p_debug_level := n\<rparr> = p\<lparr>p_debug_level := n\<rparr>" for n
    using assms(3) by simp_all
  show ?thesis
    using assms unfolding myproc_write_debug_level_def f
    by (auto simp: lock_intr_def Let_def cstring_snoc level_ok_def DEBUG_LEVEL_MIN_def not_less
      bindR_def m split: sum.splits)
qed

section \<open>Properties\<close>

text \<open>
  C30. After loading, any sequence of reads and writes of the files of the sysfs and of the proc module, whatever the
  kernel's parsers make of the data, runs without a fault and leaves the mutex free. The debug level of the
  sysfs module stays within its range, and so does that of the proc module as long as only its debug level
  file is written.
\<close>

theorem kfs_level_range:
  "(\<exists>s'. foldR (run_sysfs ki po) (snd (sysfs_if_init True 0 0 0 0 sysfs_module)) xs = Inr s' \<and>
      \<not> s_mtx s' \<and> level_ok (s_debug_level s')) \<and>
   (\<exists>p p'. procfs_if_init True True True True True True True proc_module = Inr (0, p) \<and>
      foldR (run_proc ki ku) p ys = Inr p' \<and> proc_live p' \<and>
      (list_all no_config ys \<longrightarrow> level_ok (p_debug_level p')))"
proof
  have "\<not> s_mtx (snd (sysfs_if_init True 0 0 0 0 sysfs_module))"
    "level_ok (s_debug_level (snd (sysfs_if_init True 0 0 0 0 sysfs_module)))"
    by (simp_all add: sysfs_if_init_def sysfs_module_def level_cases Let_def)
  from run_sysfs_all [OF this]
  show "\<exists>s'. foldR (run_sysfs ki po) (snd (sysfs_if_init True 0 0 0 0 sysfs_module)) xs = Inr s' \<and>
      \<not> s_mtx s' \<and> level_ok (s_debug_level s')" .
  obtain p where p: "procfs_if_init True True True True True True True proc_module = Inr (0, p)"
      "proc_live p" "p_debug_level p = 0"
    by (simp add: procfs_if_init_def procfs_init_files_def procfs_init_ctx_def proc_module_def
      alloc_init_drvctx_def proc_live_def Let_def)
  then show "\<exists>p p'. procfs_if_init True True True True True True True proc_module = Inr (0, p) \<and>
      foldR (run_proc ki ku) p ys = Inr p' \<and> proc_live p' \<and>
      (list_all no_config ys \<longrightarrow> level_ok (p_debug_level p'))"
    using run_proc_all [of p ki ku ys] by (auto simp: level_cases)
qed

theorem kfs_level_range_witness:
  "\<exists>p p'. procfs_if_init True True True True True True True proc_module = Inr (0, p) \<and>
     foldR (run_proc (\<lambda>_. Inr 7) (\<lambda>_. Inl (- EINVAL))) p [PWrite False ''70'' 2, PLevel False] = Inr p' \<and>
     level_ok (p_debug_level p')"
proof -
  have "list_all no_config [PWrite False ''70'' 2, PLevel False]" by simp
  then show ?thesis
    using kfs_level_range [of "\<lambda>_. Inr 7" 0 "[]" "\<lambda>_. Inl (- EINVAL)" "[PWrite False ''70'' 2, PLevel False]"]
    by blast
qed

text \<open>
  What the sysfs module shows as its debug level can be stored again, in this or another instance, and sets
  exactly that level, provided the kernel's parser reads back one decimal digit followed by a newline.
\<close>

lemma sysfs_level_roundtrip:
  assumes "\<forall>v\<in>{0, 1, 2}. ki (fmt_d v @ [newline]) = Inr v"
    and "\<not> s_mtx s" "level_ok (s_debug_level s)" "\<not> s_mtx t"
  shows "\<exists>buf. llkdsysfs_debug_level_show False s = Inr (int (length buf), buf, s) \<and>
    llkdsysfs_debug_level_store ki False buf (length buf) t
      = Inr (int (length buf), t\<lparr>s_debug_level := s_debug_level s\<rparr>)"
proof -
  let ?b = "fmt_d (s_debug_level s) @ [newline]"
  have l: "length ?b = 2" using fmt_level [OF assms(3)] by simp
  have k: "ki ?b = Inr (s_debug_level s)" using assms(1,3) by (auto simp: level_cases)
  have m: "s\<lparr>s_mtx := False\<rparr> = s" "t\<lparr>s_debug_level := v, s_mtx := False\<rparr> = t\<lparr>s_debug_level := v\<rparr>" for v
    using assms(2,4) by simp_all
  have "llkdsysfs_debug_level_show False s = Inr (int (length ?b), ?b, s)"
    using assms(2) l m(1) by (simp add: llkdsysfs_debug_level_show_def lock_intr_def snprintf_def Let_def)
  moreover have "llkdsysfs_debug_level_store ki False ?b (length ?b) t
      = Inr (int (length ?b), t\<lparr>s_debug_level := s_debug_level s\<rparr>)"
    using assms(3,4) unfolding llkdsysfs_debug_level_store_def l k
    by (simp add: lock_intr_def Let_def level_ok_def m)
  ultimately show ?thesis by blast
qed

text \<open>The parser of the witness: one decimal digit and a newline.\<close>

theorem sysfs_level_roundtrip_witness:
  "\<exists>buf. llkdsysfs_debug_level_show False (sysfs_module\<lparr>s_debug_level := 2\<rparr>)
       = Inr (int (length buf), buf, sysfs_module\<lparr>s_debug_level := 2\<rparr>) \<and>
     llkdsysfs_debug_level_store (\<lambda>b. if b = [] then Inl (- EINVAL) else Inr (int (of_char (hd b)) - 48)) False
       buf (length buf) sysfs_module = Inr (int (length buf), sysfs_module\<lparr>s_debug_level := 2\<rparr>)"
proof -
  let ?k = "\<lambda>b. if b = [] then Inl (- EINVAL) else Inr (int (of_char (hd b)) - 48)"
  have k: "\<forall>v\<in>{0, 1, 2}. ?k (fmt_d v @ [newline]) = Inr v"
    by (simp add: fmt_d_def digits.simps digit_def)
  have "level_ok (s_debug_level (sysfs_module\<lparr>s_debug_level := 2\<rparr>))" by (simp add: level_cases)
  from sysfs_level_roundtrip [OF k _ this, of sysfs_module] show ?thesis
    by (simp add: sysfs_module_def)
qed


text \<open>
  Where the proc and debugfs modules fail: a write to the debug level file before the context is allocated
  dereferences a null pointer; writing \<open>config1\<close> sets a debug level outside the range; the proc files
  overwrite the last character they are given, newline or not; a read of one byte of the debugfs file writes
  more than one byte to the user's buffer; and a read between the two steps of unloading, or after it when
  an oops was asked for, uses the freed context.
\<close>

lemma kfs_faults:
  assumes "ki v = Inr 1" "v \<noteq> []" "length v < 12" "CHR 0x00 \<notin> set v"
    and "ku w = Inr 1000" "length w < 8" "CHR 0x00 \<notin> set w"
    and "proc_live p" "d_gdrvctx d = KLive c" "\<not> d_mtx d"
  shows "(\<exists>q. procfs_init_files True True True True proc_module = (0, q) \<and>
        myproc_write_debug_level ki False (v @ [newline]) (length v + 1) q = Inl NullDeref) \<and>
    (\<exists>q. myproc_write_config1 ku False (w @ [newline]) (length w + 1) p = Inr (int (length w + 1), q) \<and>
        p_debug_level q = 1000) \<and>
    myproc_write_debug_level ki False v (length v) p
      = myproc_write_debug_level ki False (butlast v @ [newline]) (length v) p \<and>
    (\<exists>n out pos d'. dbgfs_show_drvctx jif False 1 0 d = Inr (n, out, pos, d') \<and> length out > 1) \<and>
    (\<exists>e. debugfs_cleanup_free d = Inr e \<and> d_files e = d_files d \<and>
       dbgfs_show_drvctx jif False n 0 e = Inl UseAfterFree) \<and>
    (\<exists>e. debugfs_if_cleanup 1 d = Inr e \<and> d_files e = d_files d \<and>
       dbgfs_show_drvctx jif False n 0 e = Inl UseAfterFree)"
proof (intro conjI)
  have p: "\<not> p_mtx p" "\<exists>c. gdrvctx p = KLive c" using assms(8) by (auto simp: proc_live_def)
  show "\<exists>q. procfs_init_files True True True True proc_module = (0, q) \<and>
      myproc_write_debug_level ki False (v @ [newline]) (length v + 1) q = Inl NullDeref"
    using assms(1,3,4)
    by (simp add: procfs_init_files_def proc_module_def write_level_line level_cases deref_def Let_def del: One_nat_def)
  have f: "from_user (w @ [newline]) (length w + 1) = Some (w @ [newline])"
    using from_user_all [of "w @ [newline]"] by simp
  show "\<exists>q. myproc_write_config1 ku False (w @ [newline]) (length w + 1) p = Inr (int (length w + 1), q) \<and>
      p_debug_level q = 1000"
    using p assms(5,6) unfolding myproc_write_config1_def f
    by (auto simp: lock_intr_def Let_def cstring_snoc [OF assms(7)] deref_def)
  obtain u x where u: "v = u @ [x]" using assms(2) by (cases v rule: rev_cases) auto
  show "myproc_write_debug_level ki False v (length v) p
      = myproc_write_debug_level ki False (butlast v @ [newline]) (length v) p"
    using write_level_line [of u p ki x] write_level_line [of u p ki newline] assms(3,4) p(1) unfolding u by simp
  show "\<exists>n out pos d'. dbgfs_show_drvctx jif False 1 0 d = Inr (n, out, pos, d') \<and> length out > 1"
    using assms(9,10)
    by (simp add: dbgfs_show_drvctx_def lock_intr_def deref_def Let_def snprintf_def simple_read_from_buffer_def
      drvctx_text_def MAXUPASS_def)
  show "\<exists>e. debugfs_cleanup_free d = Inr e \<and> d_files e = d_files d \<and>
       dbgfs_show_drvctx jif False n 0 e = Inl UseAfterFree"
    using assms(9,10) by (simp add: debugfs_cleanup_free_def free_ctx_def dbgfs_show_drvctx_def lock_intr_def deref_def)
  show "\<exists>e. debugfs_if_cleanup 1 d = Inr e \<and> d_files e = d_files d \<and>
       dbgfs_show_drvctx jif False n 0 e = Inl UseAfterFree"
    using assms(9,10)
    by (simp add: debugfs_if_cleanup_def debugfs_cleanup_free_def free_ctx_def dbgfs_show_drvctx_def lock_intr_def deref_def)
qed

theorem kfs_faults_witness:
  "\<exists>p d. procfs_if_init True True True True True True True proc_module = Inr (0, p) \<and>
     debugfs_if_init True True True True 5 dbgfs_module = Inr (0, d) \<and>
     (\<exists>q. myproc_write_config1 (\<lambda>_. Inr 1000) False (''1000'' @ [newline]) (length ''1000'' + 1) p = Inr (5, q) \<and> p_debug_level q = 1000) \<and>
     (\<exists>n out pos d'. dbgfs_show_drvctx 5 False 1 0 d = Inr (n, out, pos, d') \<and> length out > 1)"
proof -
  obtain p where p: "procfs_if_init True True True True True True True proc_module = Inr (0, p)" "proc_live p"
    by (simp add: procfs_if_init_def procfs_init_files_def procfs_init_ctx_def proc_module_def
      alloc_init_drvctx_def proc_live_def Let_def)
  obtain d c where d: "debugfs_if_init True True True True 5 dbgfs_module = Inr (0, d)" "d_gdrvctx d = KLive c"
      "\<not> d_mtx d"
    by (simp add: debugfs_if_init_def dbgfs_module_def Let_def alloc_init_drvctx_def)
  show ?thesis
    using kfs_faults [of "\<lambda>_. Inr 1" "''1''" "\<lambda>_. Inr 1000" "''1000''", OF _ _ _ _ _ _ _ p(2) d(2,3), of 5] p(1) d(1)
    by simp
qed

text \<open>The three commands are distinct and pass the checks of type and number.\<close>

lemma ioctl_cmds:
  "IOCTL_LLKD_IOCRESET = 0xA800" "IOCTL_LLKD_IOCQPOWER = 0x8004A801" "IOCTL_LLKD_IOCSPOWER = 0x4004A802"
  by (simp_all add: IOCTL_LLKD_IOCRESET_def IOCTL_LLKD_IOCQPOWER_def IOCTL_LLKD_IOCSPOWER_def IOC_def
    IOCTL_LLKD_MAGIC_def push_bit_eq_mult)

lemma ioctl_checks:
  "IOC_TYPE 0xA800 = 0xA8" "IOC_TYPE 0x8004A801 = 0xA8" "IOC_TYPE 0x4004A802 = 0xA8"
  "IOC_NR 0xA800 = 0" "IOC_NR 0x8004A801 = 1" "IOC_NR 0x4004A802 = 2"
  by (simp_all add: IOC_TYPE_def IOC_NR_def drop_bit_eq_div)

text \<open>
  The user program of the ioctl driver, run by an administrator on a device node with minor number 0, switches
  the power state between 0 and 1 and leaves every other value; in every other case it fails and changes
  nothing. The driver refuses every command but its three, and only an administrator changes the power state.
\<close>

lemma ioctl_toggle:
  "ioctl_userspace_main admin argv node pw =
     (if length argv < 2 \<or> node (argv ! 1) \<noteq> Some 0 \<or> \<not> admin then (1, pw)
      else (0, if pw = 0 then 1 else if pw = 1 then 0 else pw)) \<and>
   (cmd \<notin> {IOCTL_LLKD_IOCRESET, IOCTL_LLKD_IOCQPOWER, IOCTL_LLKD_IOCSPOWER} \<longrightarrow>
      ioctl_intf_ioctl admin put cmd arg pw = (- ENOTTY, None, pw)) \<and>
   (\<not> admin \<longrightarrow> snd (snd (ioctl_intf_ioctl admin put cmd arg pw)) = pw)"
proof (intro conjI)
  show "ioctl_userspace_main admin argv node pw =
     (if length argv < 2 \<or> node (argv ! 1) \<noteq> Some 0 \<or> \<not> admin then (1, pw)
      else (0, if pw = 0 then 1 else if pw = 1 then 0 else pw))"
    by (simp add: ioctl_userspace_main_def ioctl_intf_ioctl_def ioctl_intf_open_def ioctl_cmds ioctl_checks
      IOCTL_LLKD_MAGIC_def IOCTL_LLKD_MAXIOCTL_def ENXIO_def EPERM_def split: option.splits)
qed (auto simp: ioctl_intf_ioctl_def)

theorem ioctl_toggle_witness:
  "ioctl_userspace_main True [''a'', ''/dev/llkd''] (\<lambda>_. Some 0) 1 = (0, 0) \<and>
   ioctl_userspace_main True [''a'', ''/dev/llkd''] (\<lambda>_. Some 0) 0 = (0, 1) \<and>
   ioctl_intf_ioctl True 0 0xA803 7 1 = (- ENOTTY, None, 1)"
  using ioctl_toggle [of True "[''a'', ''/dev/llkd'']" "\<lambda>_. Some 0" 1 "0xA803" 0 7]
    ioctl_toggle [of True "[''a'', ''/dev/llkd'']" "\<lambda>_. Some 0" 0]
  by (simp add: ioctl_cmds)

end
