(* ===== verification/GpioLink.thy ===== *)
theory GpioLink
  imports Prelude
begin

text \<open>
  The network driver that sends frames over two GPIO lines (\<open>kdev-gpio-irqsock\<close>). The wire is the sequence of
  pulses on the control and on the data line; the sender turns a frame into pulses, the receiver's two
  interrupt handlers turn pulses back into a frame, queue it and let the poll function deliver it. The
  socket buffers handed to the network stack and the queue state are recorded in the state; whether an
  allocation or a request of the kernel succeeds is an argument. Log output is left out.
\<close>

section \<open>State\<close>

datatype pulse = Ctl | Data

definition MAX_PKTLEN :: nat where "MAX_PKTLEN = 1500"
definition MAX_Q_LEN :: nat where "MAX_Q_LEN = 1"
definition ETH_ZLEN :: nat where "ETH_ZLEN = 60"
definition ETH_DATA_LEN :: nat where "ETH_DATA_LEN = 1500"

record geth_stats =
  tx_packets :: u64
  tx_bytes :: u64
  tx_errors :: u64
  rx_packets :: u64
  rx_bytes :: u64
  rx_dropped :: u64

datatype resource = Gpio int | Irq int

text \<open>
  The module's variables. \<open>geth_interrupt\<close> tells whether the function pointer is set, \<open>geth_devs\<close> whether
  the device is allocated; \<open>received\<close> is what went up to the network stack, \<open>held\<close> the lines and interrupts
  the module holds.
\<close>

record geth =
  lockup :: nat
  gpio_ctl_o :: int
  gpio_ctl_i :: int
  gpio_data_o :: int
  gpio_data_i :: int
  comms_mode_o :: bool
  comms_mode_i :: bool
  ctl_bits_count :: nat
  data_bits_count :: nat
  i_value :: bytes
  i_q_ptr :: int
  i_q_len :: "nat list"
  i_q :: "bytes list"
  geth_interrupt :: bool
  geth_devs :: bool
  stats :: geth_stats
  napi_scheduled :: bool
  napi_enabled :: bool
  queue_stopped :: bool
  priv_skb :: "bytes option"
  received :: "bytes list"
  held :: "resource list"

definition zero_stats :: geth_stats where
  "zero_stats = \<lparr>tx_packets = 0, tx_bytes = 0, tx_errors = 0, rx_packets = 0, rx_bytes = 0, rx_dropped = 0\<rparr>"

definition geth_module :: "int \<Rightarrow> int \<Rightarrow> int \<Rightarrow> int \<Rightarrow> geth" where
  "geth_module ctl_o ctl_i data_o data_i =
     \<lparr>lockup = 0, gpio_ctl_o = ctl_o, gpio_ctl_i = ctl_i, gpio_data_o = data_o, gpio_data_i = data_i,
      comms_mode_o = False, comms_mode_i = False, ctl_bits_count = 0, data_bits_count = 0,
      i_value = replicate MAX_PKTLEN 0, i_q_ptr = -1, i_q_len = replicate MAX_Q_LEN 0,
      i_q = replicate MAX_Q_LEN (replicate MAX_PKTLEN 0), geth_interrupt = False, geth_devs = False,
      stats = zero_stats, napi_scheduled = False, napi_enabled = False, queue_stopped = True, priv_skb = None,
      received = [], held = []\<rparr>"

text \<open>An array access with an index of type \<open>int\<close>.\<close>

definition get_i :: "'a list \<Rightarrow> int \<Rightarrow> 'a res" where
  "get_i xs i = (if 0 \<le> i then arr_get xs (nat i) else Inl OutOfBounds)"

definition set_i :: "'a list \<Rightarrow> int \<Rightarrow> 'a \<Rightarrow> 'a list res" where
  "set_i xs i v = (if 0 \<le> i then arr_set xs (nat i) v else Inl OutOfBounds)"

section \<open>Sending\<close>

definition gpio_ctl_on :: "pulse list" where
  "gpio_ctl_on = [Ctl]"

definition gpio_data_on :: "pulse list" where
  "gpio_data_on = [Data]"

text \<open>One bit: the control line is pulsed when the mode has to change. The mode and the pulses so far.\<close>

definition tx_bit :: "u8 \<Rightarrow> nat \<Rightarrow> bool \<times> pulse list \<Rightarrow> bool \<times> pulse list" where
  "tx_bit d j = (\<lambda>(mode, w).
     if bit d j then
       (let w = (if \<not> mode then w @ gpio_ctl_on else w) in (True, w @ gpio_data_on))
     else
       (let w = (if mode then w @ gpio_ctl_on else w) in (False, w @ gpio_data_on)))"

definition tx_byte :: "u8 \<Rightarrow> bool \<times> pulse list \<Rightarrow> bool \<times> pulse list" where
  "tx_byte d = fold (tx_bit d) [0..<8]"

definition gpio_tx :: "bytes \<Rightarrow> geth \<Rightarrow> pulse list \<times> geth" where
  "gpio_tx data s =
     (let w = concat (replicate 3 gpio_ctl_on) @ gpio_data_on;
          (_, w) = fold tx_byte data (comms_mode_o s, w);
          w = w @ concat (replicate 3 gpio_ctl_on) @ gpio_data_on in
        (w, s\<lparr>comms_mode_o := False\<rparr>))"

definition geth_hw_tx :: "bytes \<Rightarrow> geth \<Rightarrow> pulse list \<times> geth" where
  "geth_hw_tx buf s =
     (if length buf < 14 + 20 then ([], s)
      else let (w, s) = gpio_tx buf s;
               st = stats s;
               s = s\<lparr>stats := st\<lparr>tx_packets := tx_packets st + 1, tx_bytes := tx_bytes st + of_nat (length buf)\<rparr>,
                     priv_skb := None\<rparr>;
               s = (if lockup s \<noteq> 0 \<and> unat (tx_packets (stats s) + 1) mod lockup s = 0
                    then s\<lparr>queue_stopped := True\<rparr> else s) in
        (w, s))"

definition geth_xmit :: "bytes \<Rightarrow> geth \<Rightarrow> pulse list \<times> geth" where
  "geth_xmit skb s =
     (let data = (if length skb < ETH_ZLEN then skb @ replicate (ETH_ZLEN - length skb) 0 else skb) in
        geth_hw_tx data (s\<lparr>priv_skb := Some skb\<rparr>))"

section \<open>Receiving\<close>

definition geth_napi_interrupt :: "geth \<Rightarrow> geth res" where
  "geth_napi_interrupt s =
     (if \<not> geth_devs s then Inr s
      else let s = s\<lparr>i_q_ptr := i_q_ptr s + 1\<rparr>; n = data_bits_count s div 8 in
        bindR (set_i (i_q_len s) (i_q_ptr s) n) (\<lambda>ls.
        bindR (get_i (i_q s) (i_q_ptr s)) (\<lambda>row.
        bindR (memcpy row (i_value s) n) (\<lambda>row.
        bindR (set_i (i_q s) (i_q_ptr s) row) (\<lambda>q.
          Inr (s\<lparr>i_q_len := ls, i_q := q, napi_scheduled := True\<rparr>))))))"

definition gpio_ctl_irq_handler :: "geth \<Rightarrow> geth" where
  "gpio_ctl_irq_handler s = s\<lparr>ctl_bits_count := ctl_bits_count s + 1\<rparr>"

definition gpio_data_irq_handler :: "geth \<Rightarrow> geth res" where
  "gpio_data_irq_handler s =
     (if ctl_bits_count s = 3 then
        let s = s\<lparr>ctl_bits_count := 0\<rparr> in
        if data_bits_count s = 0 then Inr s
        else bindR (if gpio_ctl_i s \<noteq> 0 \<and> gpio_ctl_o s \<noteq> 0
                    then (if geth_interrupt s then geth_napi_interrupt s else Inl NullDeref)
                    else Inr s) (\<lambda>s.
          Inr (s\<lparr>i_value := replicate MAX_PKTLEN 0, data_bits_count := 0, comms_mode_i := False\<rparr>))
      else
        let s = (if ctl_bits_count s = 1
                 then s\<lparr>ctl_bits_count := 0, comms_mode_i := \<not> comms_mode_i s\<rparr> else s);
            pktidx = data_bits_count s div 8; bitidx = data_bits_count s mod 8 in
        bindR (arr_get (i_value s) pktidx) (\<lambda>v.
        bindR (arr_set (i_value s) pktidx (if comms_mode_i s then v OR push_bit bitidx 1 else v OR push_bit bitidx 0)) (\<lambda>iv.
          Inr (s\<lparr>i_value := iv, data_bits_count := data_bits_count s + 1\<rparr>))))"

text \<open>A pulse on the wire raises the interrupt of its line.\<close>

definition rx_pulse :: "geth \<Rightarrow> pulse \<Rightarrow> geth res" where
  "rx_pulse s p = (case p of Ctl \<Rightarrow> Inr (gpio_ctl_irq_handler s) | Data \<Rightarrow> gpio_data_irq_handler s)"

text \<open>
  The loop of the poll function delivers the packet that was read before it; \<open>mem\<close> tells for each round
  whether a socket buffer can be allocated.
\<close>

function geth_poll_loop :: "(nat \<Rightarrow> bool) \<Rightarrow> nat \<Rightarrow> bytes \<Rightarrow> nat \<Rightarrow> geth \<Rightarrow> nat \<times> geth" where
  "geth_poll_loop mem budget pkt npackets s =
     (if npackets < budget \<and> i_q_ptr s + 1 \<noteq> 0 then
        let s = s\<lparr>i_q_ptr := i_q_ptr s - 1\<rparr>; st = stats s in
        if \<not> mem npackets then
          geth_poll_loop mem budget pkt (npackets + 1) (s\<lparr>stats := st\<lparr>rx_dropped := rx_dropped st + 1\<rparr>\<rparr>)
        else
          geth_poll_loop mem budget pkt (npackets + 1)
            (s\<lparr>received := received s @ [pkt],
               stats := st\<lparr>rx_packets := rx_packets st + 1, rx_bytes := rx_bytes st + of_nat (length pkt)\<rparr>\<rparr>)
      else (npackets, s))"
  by pat_completeness auto
termination
  by (relation "measure (\<lambda>(_, budget, _, n, _). budget - n)") auto

declare geth_poll_loop.simps [simp del]

definition geth_poll :: "(nat \<Rightarrow> bool) \<Rightarrow> nat \<Rightarrow> geth \<Rightarrow> (nat \<times> geth) res" where
  "geth_poll mem budget s =
     bindR (get_i (i_q_len s) (i_q_ptr s)) (\<lambda>datalen.
     bindR (get_i (i_q s) (i_q_ptr s)) (\<lambda>row.
     bindR (memcpy (replicate ETH_DATA_LEN 0) row datalen) (\<lambda>d.
       let (npackets, s) = geth_poll_loop mem budget (take datalen d) 0 s;
           s = (if npackets < budget then s\<lparr>napi_scheduled := False\<rparr> else s) in
         Inr (npackets, s))))"

section \<open>Device operations\<close>

text \<open>Decimal digits of an \<open>int\<close>, as \<open>sprintf\<close> writes them.\<close>

fun dec_len :: "nat \<Rightarrow> nat" where
  "dec_len n = (if n < 10 then 1 else dec_len (n div 10) + 1)"

declare dec_len.simps [simp del]

definition dec_width :: "int \<Rightarrow> nat" where
  "dec_width v = (if v < 0 then 1 + dec_len (nat (- v)) else dec_len (nat v))"

text \<open>
  \<open>sprintf\<close> into \<open>char macaddr[ETH_ALEN]\<close>, six bytes: the text \<open>GETH0\<close>, the number and the terminating null.
\<close>

definition sprintf_mac :: "int \<Rightarrow> unit res" where
  "sprintf_mac v = (if 5 + dec_width v + 1 \<le> 6 then Inr () else Inl OutOfBounds)"

definition geth_open :: "geth \<Rightarrow> (int \<times> geth) res" where
  "geth_open s = bindR (sprintf_mac (gpio_data_i s - gpio_ctl_i s)) (\<lambda>_.
     Inr (0, s\<lparr>napi_enabled := True, queue_stopped := False\<rparr>))"

definition geth_stop :: "geth \<Rightarrow> int \<times> geth" where
  "geth_stop s = (0, s\<lparr>queue_stopped := True, napi_enabled := False\<rparr>)"

definition geth_tx_timeout :: "geth \<Rightarrow> geth res" where
  "geth_tx_timeout s =
     (if \<not> geth_interrupt s then Inl NullDeref
      else bindR (geth_napi_interrupt s) (\<lambda>s.
        let st = stats s in
        Inr (s\<lparr>stats := st\<lparr>tx_errors := tx_errors st + 1\<rparr>, queue_stopped := False\<rparr>)))"

definition geth_setup :: "geth \<Rightarrow> geth" where
  "geth_setup s = s\<lparr>stats := zero_stats, priv_skb := None\<rparr>"

section \<open>Loading and unloading\<close>

text \<open>
  What the kernel answers: whether requesting and configuring each line and interrupt succeeds, whether the
  device can be allocated and registered, the interrupt of a line, and the random test packet.
\<close>

record genv =
  req_ctl_o :: bool
  dir_ctl_o :: bool
  req_data_o :: bool
  dir_data_o :: bool
  req_ctl_i :: bool
  dir_ctl_i :: bool
  req_data_i :: bool
  dir_data_i :: bool
  irq_ctl :: bool
  irq_data :: bool
  alloc_dev :: bool
  reg_dev :: bool
  gpio_to_irq :: "int \<Rightarrow> int"
  random_pkt :: bytes

definition acquire :: "resource \<Rightarrow> geth \<Rightarrow> geth" where
  "acquire r s = s\<lparr>held := r # held s\<rparr>"

definition release :: "resource \<Rightarrow> geth \<Rightarrow> geth" where
  "release r s = s\<lparr>held := remove1 r (held s)\<rparr>"

definition free_out :: "geth \<Rightarrow> geth" where
  "free_out s = (if gpio_ctl_o s \<noteq> 0
     then release (Gpio (gpio_data_o s)) (release (Gpio (gpio_ctl_o s)) s) else s)"

text \<open>The output lines.\<close>

definition init_out :: "genv \<Rightarrow> geth \<Rightarrow> int \<times> geth" where
  "init_out e s =
     (if gpio_ctl_o s = 0 then (0, s)
      else if gpio_data_o s = 0 then (-1, s)
      else if \<not> req_ctl_o e then (-1, s)
      else let s = acquire (Gpio (gpio_ctl_o s)) s in
      if \<not> dir_ctl_o e then (-1, release (Gpio (gpio_ctl_o s)) s)
      else if \<not> req_data_o e then (-1, release (Gpio (gpio_ctl_o s)) s)
      else let s = acquire (Gpio (gpio_data_o s)) s in
      if \<not> dir_data_o e then (-1, free_out s)
      else (0, s))"

text \<open>The input lines and their interrupts.\<close>

definition init_in :: "genv \<Rightarrow> geth \<Rightarrow> int \<times> geth" where
  "init_in e s =
     (if gpio_ctl_i s = 0 then (0, s)
      else if gpio_data_i s = 0 then (-1, free_out s)
      else if \<not> req_ctl_i e then (-1, free_out s)
      else let s = acquire (Gpio (gpio_ctl_i s)) s in
      if \<not> dir_ctl_i e then (-1, release (Gpio (gpio_ctl_i s)) (free_out s))
      else if \<not> req_data_i e then (-1, release (Gpio (gpio_ctl_i s)) (free_out s))
      else let s = acquire (Gpio (gpio_data_i s)) s in
      if \<not> dir_data_i e then (-1, release (Gpio (gpio_data_i s)) (release (Gpio (gpio_ctl_i s)) (free_out s)))
      else if \<not> irq_ctl e then (-1, release (Gpio (gpio_data_i s)) (release (Gpio (gpio_ctl_i s)) (free_out s)))
      else let s = acquire (Irq (gpio_to_irq e (gpio_ctl_i s))) s in
      if \<not> irq_data e then
        (-1, release (Irq (gpio_to_irq e (gpio_ctl_i s)))
          (release (Gpio (gpio_data_i s)) (release (Gpio (gpio_ctl_i s)) (free_out s))))
      else (0, acquire (Irq (gpio_to_irq e (gpio_data_i s))) s))"

text \<open>The end of every failure of the last part: all lines and both interrupts are given back.\<close>

definition free_all :: "genv \<Rightarrow> geth \<Rightarrow> geth" where
  "free_all e s =
     (let s = release (Gpio (gpio_ctl_o s)) s; s = release (Gpio (gpio_data_o s)) s;
          s = release (Gpio (gpio_ctl_i s)) s; s = release (Gpio (gpio_data_i s)) s;
          s = release (Irq (gpio_to_irq e (gpio_ctl_i s))) s in
        release (Irq (gpio_to_irq e (gpio_data_i s))) s)"

text \<open>Ten runs of the work item in test mode, each sending the same packet.\<close>

fun run_jobs :: "nat \<Rightarrow> bytes \<Rightarrow> geth \<Rightarrow> pulse list \<times> geth" where
  "run_jobs 0 d s = ([], s)"
| "run_jobs (Suc n) d s = (let (w, s) = gpio_tx d s; (ws, s) = run_jobs n d s in (w @ ws, s))"

definition ksock_gpio_init :: "genv \<Rightarrow> geth \<Rightarrow> int \<times> pulse list \<times> geth" where
  "ksock_gpio_init e s =
     (if gpio_ctl_o s = 0 \<and> gpio_ctl_i s = 0 then (-1, [], s)
      else case init_out e s of (r, s) \<Rightarrow>
        if r \<noteq> 0 then (r, [], s)
        else case init_in e s of (r, s) \<Rightarrow>
          if r \<noteq> 0 then (r, [], s)
          else if gpio_ctl_o s \<noteq> 0 \<and> gpio_ctl_i s = 0 then
            (let (w, s) = run_jobs 10 (random_pkt e) s in (0, w, s))
          else if gpio_ctl_o s \<noteq> 0 \<and> gpio_ctl_i s \<noteq> 0 then
            (let s = s\<lparr>geth_interrupt := True\<rparr> in
             if \<not> alloc_dev e then (-12, [], free_all e s)
             else let s = geth_setup (s\<lparr>geth_devs := True\<rparr>) in
               if \<not> reg_dev e then (-1, [], (free_all e s)\<lparr>geth_devs := False\<rparr>)
               else (0, [], s))
          else (0, [], s))"

definition ksock_gpio_exit :: "genv \<Rightarrow> geth \<Rightarrow> geth" where
  "ksock_gpio_exit e s =
     (let s = free_out s;
          s = (if gpio_ctl_i s \<noteq> 0 then
                 release (Irq (gpio_to_irq e (gpio_data_i s))) (release (Irq (gpio_to_irq e (gpio_ctl_i s)))
                   (release (Gpio (gpio_data_i s)) (release (Gpio (gpio_ctl_i s)) s)))
               else s) in
        if gpio_ctl_i s \<noteq> 0 \<and> gpio_ctl_o s \<noteq> 0 then s\<lparr>geth_devs := False\<rparr> else s)"

section \<open>The code on the wire\<close>

text \<open>The bits of a frame in the order in which they are sent, and their pulses after a bit of value \<open>m\<close>.\<close>

definition bits_of :: "u8 \<Rightarrow> bool list" where
  "bits_of d = map (bit d) [0..<8]"

fun enc :: "bool \<Rightarrow> bool list \<Rightarrow> pulse list" where
  "enc m [] = []"
| "enc m (b # bs) = (if b \<noteq> m then [Ctl] else []) @ [Data] @ enc b bs"

text \<open>What the receiver stores for bits that arrive at position \<open>k\<close>.\<close>

definition put_bit :: "nat \<Rightarrow> bool \<Rightarrow> bytes \<Rightarrow> bytes" where
  "put_bit k b iv = iv[k div 8 := (if b then iv ! (k div 8) OR push_bit (k mod 8) 1 else iv ! (k div 8) OR push_bit (k mod 8) 0)]"

fun put_bits :: "nat \<Rightarrow> bool list \<Rightarrow> bytes \<Rightarrow> bytes" where
  "put_bits k [] iv = iv"
| "put_bits k (b # bs) iv = put_bits (Suc k) bs (put_bit k b iv)"

text \<open>A receiver that waits for a frame.\<close>

definition idle :: "geth \<Rightarrow> bool" where
  "idle s \<longleftrightarrow> gpio_ctl_i s \<noteq> 0 \<and> gpio_ctl_o s \<noteq> 0 \<and> geth_interrupt s \<and> geth_devs s \<and>
     ctl_bits_count s = 0 \<and> data_bits_count s = 0 \<and> \<not> comms_mode_i s \<and> i_value s = replicate MAX_PKTLEN 0 \<and>
     i_q_ptr s = -1 \<and> length (i_q_len s) = MAX_Q_LEN \<and> length (i_q s) = MAX_Q_LEN \<and>
     (\<forall>r\<in>set (i_q s). length r = MAX_PKTLEN)"

definition padded :: "bytes \<Rightarrow> bytes" where
  "padded frame = frame @ replicate (ETH_ZLEN - length frame) 0"

text \<open>The receiver before the end of a frame.\<close>

definition filled :: "bytes \<Rightarrow> geth \<Rightarrow> geth" where
  "filled data s = s\<lparr>i_value := data @ replicate (MAX_PKTLEN - length data) 0,
     data_bits_count := 8 * length data, comms_mode_i := last (False # concat (map bits_of data))\<rparr>"

text \<open>The receiver after a frame has arrived.\<close>

definition queued :: "bytes \<Rightarrow> geth \<Rightarrow> geth" where
  "queued data s = s\<lparr>i_q_ptr := 0, i_q_len := [length data], i_q := [data @ drop (length data) (i_q s ! 0)],
     napi_scheduled := True\<rparr>"

text \<open>Frames sent one after the other by \<open>t\<close>, received and polled by \<open>s\<close>.\<close>

fun link_run :: "geth \<Rightarrow> geth \<Rightarrow> bytes list \<Rightarrow> (geth \<times> geth) res" where
  "link_run t s [] = Inr (t, s)"
| "link_run t s (f # fs) = (let (w, t) = geth_xmit f t in
     bindR (foldR rx_pulse s w) (\<lambda>s. bindR (geth_poll (\<lambda>_. True) 2 s) (\<lambda>(_, s). link_run t s fs)))"

text \<open>The lines and interrupts the module holds, and those a successful initialisation takes.\<close>

definition holds :: "geth \<Rightarrow> resource multiset" where
  "holds s = mset (held s)"

definition lines_out :: "geth \<Rightarrow> resource multiset" where
  "lines_out s = (if gpio_ctl_o s \<noteq> 0 then {#Gpio (gpio_ctl_o s), Gpio (gpio_data_o s)#} else {#})"

definition lines_in :: "genv \<Rightarrow> geth \<Rightarrow> resource multiset" where
  "lines_in e s = (if gpio_ctl_i s \<noteq> 0 then {#Gpio (gpio_ctl_i s), Gpio (gpio_data_i s),
     Irq (gpio_to_irq e (gpio_ctl_i s)), Irq (gpio_to_irq e (gpio_data_i s))#} else {#})"

definition same_lines :: "geth \<Rightarrow> geth \<Rightarrow> bool" where
  "same_lines s t \<longleftrightarrow> gpio_ctl_o t = gpio_ctl_o s \<and> gpio_ctl_i t = gpio_ctl_i s \<and>
     gpio_data_o t = gpio_data_o s \<and> gpio_data_i t = gpio_data_i s \<and> geth_devs t = geth_devs s"

section \<open>Lemmas\<close>

lemma tx_bit_enc: "tx_bit d j (m, w) = (bit d j, w @ enc m [bit d j])"
  by (simp add: tx_bit_def gpio_ctl_on_def gpio_data_on_def)

lemma enc_append: "enc m (as @ bs) = enc m as @ enc (last (m # as)) bs"
  by (induction as arbitrary: m) simp_all

lemma tx_byte_fold: "fold (tx_bit d) js (m, w) = (last (m # map (bit d) js), w @ enc m (map (bit d) js))"
  by (induction js arbitrary: m w) (simp_all add: tx_bit_enc)

lemma tx_byte_enc: "tx_byte d (m, w) = (last (m # bits_of d), w @ enc m (bits_of d))"
  by (simp only: tx_byte_def tx_byte_fold bits_of_def)

lemma tx_bytes_fold:
  "fold tx_byte ds (m, w) = (last (m # concat (map bits_of ds)), w @ enc m (concat (map bits_of ds)))"
proof (induction ds arbitrary: m w)
  case (Cons d ds)
  have l: "last (m # bits_of d @ xs) = last (last (m # bits_of d) # xs)" for xs
    by (cases xs) (auto simp: bits_of_def)
  have "fold tx_byte (d # ds) (m, w) = fold tx_byte ds (last (m # bits_of d), w @ enc m (bits_of d))"
    by (simp add: tx_byte_enc del: last.simps)
  then show ?case
    unfolding Cons.IH by (simp only: list.map concat.simps enc_append append_assoc l)
qed simp

lemma gpio_tx_pulses: "gpio_tx data s =
    ([Ctl, Ctl, Ctl, Data] @ enc (comms_mode_o s) (concat (map bits_of data)) @ [Ctl, Ctl, Ctl, Data],
     s\<lparr>comms_mode_o := False\<rparr>)"
  by (simp add: gpio_tx_def tx_bytes_fold gpio_ctl_on_def gpio_data_on_def numeral_3_eq_3)

lemma length_put_bit [simp]: "length (put_bit k b iv) = length iv"
  by (simp add: put_bit_def)

lemma length_put_bits [simp]: "length (put_bits k bs iv) = length iv"
  by (induction bs arbitrary: k iv) simp_all

lemma rx_bits:
  assumes "ctl_bits_count s = 0" "data_bits_count s + length bs \<le> 8 * length (i_value s)"
  shows "foldR rx_pulse s (enc (comms_mode_i s) bs) =
    Inr (s\<lparr>i_value := put_bits (data_bits_count s) bs (i_value s),
      data_bits_count := data_bits_count s + length bs, comms_mode_i := last (comms_mode_i s # bs)\<rparr>)"
  using assms
proof (induction bs arbitrary: s)
  case Nil
  then show ?case by (cases s) simp
next
  case (Cons b bs)
  let ?k = "data_bits_count s"
  define s1 where "s1 = s\<lparr>i_value := put_bit ?k b (i_value s), data_bits_count := ?k + 1, comms_mode_i := b\<rparr>"
  have k: "?k div 8 < length (i_value s)" using Cons.prems(2) by simp
  have st: "foldR rx_pulse s ((if b \<noteq> comms_mode_i s then [Ctl] else []) @ [Data]) = Inr s1"
    using Cons.prems(1) k unfolding s1_def
    by (cases s) (auto simp: rx_pulse_def gpio_ctl_irq_handler_def gpio_data_irq_handler_def Let_def put_bit_def)
  have "foldR rx_pulse s1 (enc b bs) = Inr (s1\<lparr>i_value := put_bits (?k + 1) bs (i_value s1),
      data_bits_count := ?k + 1 + length bs, comms_mode_i := last (b # bs)\<rparr>)"
    using Cons.IH [of s1] Cons.prems by (simp add: s1_def)
  moreover have "enc (comms_mode_i s) (b # bs) = ((if b \<noteq> comms_mode_i s then [Ctl] else []) @ [Data]) @ enc b bs"
    by simp
  ultimately have "foldR rx_pulse s (enc (comms_mode_i s) (b # bs)) =
      Inr (s1\<lparr>i_value := put_bits (?k + 1) bs (i_value s1), data_bits_count := ?k + 1 + length bs,
        comms_mode_i := last (b # bs)\<rparr>)"
    using st by (simp only: foldR_append bindR_Inr)
  then show ?case by (simp add: s1_def)
qed

lemma bit_put_bit:
  assumes "p < length iv" "j < 8"
  shows "bit (put_bit k b iv ! p) j \<longleftrightarrow> bit (iv ! p) j \<or> b \<and> 8 * p + j = k"
proof (cases "k div 8 = p")
  case True
  then have "8 * p + j = k \<longleftrightarrow> j = k mod 8" by presburger
  then show ?thesis
    using True assms by (auto simp: put_bit_def bit_or_iff bit_exp_iff possible_bit_def)
next
  case False
  then have "8 * p + j \<noteq> k" using assms(2) by auto
  then show ?thesis using False by (simp add: put_bit_def)
qed

lemma bit_put_bits:
  assumes "p < length iv" "j < 8"
  shows "bit (put_bits k bs iv ! p) j \<longleftrightarrow>
    bit (iv ! p) j \<or> (k \<le> 8 * p + j \<and> 8 * p + j < k + length bs \<and> bs ! (8 * p + j - k))"
  using assms(1)
proof (induction bs arbitrary: k iv)
  case (Cons b bs)
  have "bit (put_bits k (b # bs) iv ! p) j \<longleftrightarrow> bit (put_bit k b iv ! p) j \<or>
      (k + 1 \<le> 8 * p + j \<and> 8 * p + j < k + 1 + length bs \<and> bs ! (8 * p + j - (k + 1)))"
    using Cons.IH [of "put_bit k b iv" "Suc k"] Cons.prems by simp
  also have "\<dots> \<longleftrightarrow> bit (iv ! p) j \<or>
      (k \<le> 8 * p + j \<and> 8 * p + j < k + length (b # bs) \<and> (b # bs) ! (8 * p + j - k))"
    using bit_put_bit [OF Cons.prems assms(2), of k b]
    by (cases "8 * p + j = k") (auto simp: nth_Cons')
  finally show ?case .
qed auto

lemma length_bits_of [simp]: "length (bits_of d) = 8"
  by (simp add: bits_of_def)

lemma length_all_bits [simp]: "length (concat (map bits_of ds)) = 8 * length ds"
  by (induction ds) simp_all

lemma nth_all_bits: "p < length ds \<Longrightarrow> j < 8 \<Longrightarrow> concat (map bits_of ds) ! (8 * p + j) = bit (ds ! p) j"
proof (induction ds arbitrary: p)
  case (Cons d ds)
  then show ?case
    by (cases p) (simp_all add: nth_append bits_of_def)
qed simp

lemma put_all_bits:
  assumes "length ds \<le> n"
  shows "put_bits 0 (concat (map bits_of ds)) (replicate n 0) = ds @ replicate (n - length ds) 0"
proof (rule nth_equalityI)
  show "length (put_bits 0 (concat (map bits_of ds)) (replicate n 0)) = length (ds @ replicate (n - length ds) 0)"
    using assms by simp
  fix p assume "p < length (put_bits 0 (concat (map bits_of ds)) (replicate n 0))"
  then have p: "p < n" by simp
  show "put_bits 0 (concat (map bits_of ds)) (replicate n 0) ! p = (ds @ replicate (n - length ds) 0) ! p"
  proof (rule bit_word_eqI)
    fix j assume "j < LENGTH(8)"
    then have j: "j < 8" by simp
    have "bit (put_bits 0 (concat (map bits_of ds)) (replicate n 0) ! p) j \<longleftrightarrow>
        8 * p + j < 8 * length ds \<and> concat (map bits_of ds) ! (8 * p + j)"
      using bit_put_bits [of p "replicate n 0" j 0] p j by simp
    also have "\<dots> \<longleftrightarrow> p < length ds \<and> bit (ds ! p) j"
      using nth_all_bits [of p ds j] j by (cases "p < length ds") auto
    also have "\<dots> \<longleftrightarrow> bit ((ds @ replicate (n - length ds) 0) ! p) j"
      using p by (auto simp: nth_append)
    finally show "bit (put_bits 0 (concat (map bits_of ds)) (replicate n 0) ! p) j \<longleftrightarrow>
        bit ((ds @ replicate (n - length ds) 0) ! p) j" .
  qed
qed

text \<open>The preamble and the end of a frame.\<close>

lemma rx_preamble: "ctl_bits_count s = 0 \<Longrightarrow> data_bits_count s = 0 \<Longrightarrow>
    foldR rx_pulse s [Ctl, Ctl, Ctl, Data] = Inr s"
  by (cases s) (simp add: rx_pulse_def gpio_ctl_irq_handler_def gpio_data_irq_handler_def Let_def)

lemma rx_end:
  assumes "ctl_bits_count s = 0" "data_bits_count s \<noteq> 0" "gpio_ctl_i s \<noteq> 0" "gpio_ctl_o s \<noteq> 0" "geth_interrupt s"
  shows "foldR rx_pulse s [Ctl, Ctl, Ctl, Data] = bindR (geth_napi_interrupt s) (\<lambda>s.
    Inr (s\<lparr>i_value := replicate MAX_PKTLEN 0, data_bits_count := 0, comms_mode_i := False\<rparr>))"
proof -
  have "s\<lparr>ctl_bits_count := 0\<rparr> = s" using assms(1) by simp
  then have "geth_napi_interrupt (s\<lparr>ctl_bits_count := 0\<rparr>) = geth_napi_interrupt s"
    by (rule arg_cong)
  then show ?thesis
    using assms
    by (simp add: rx_pulse_def gpio_ctl_irq_handler_def gpio_data_irq_handler_def Let_def eval_nat_numeral bindR_assoc)
qed

text \<open>A frame that fits is queued as it was sent.\<close>

lemma rx_body:
  assumes s: "ctl_bits_count s = 0" "data_bits_count s = 0" "\<not> comms_mode_i s" "i_value s = replicate MAX_PKTLEN 0"
    and d: "length data \<le> MAX_PKTLEN" and t: "\<not> comms_mode_o t"
  shows "foldR rx_pulse s (fst (gpio_tx data t)) = foldR rx_pulse (filled data s) [Ctl, Ctl, Ctl, Data]"
proof -
  let ?bs = "concat (map bits_of data)"
  have "foldR rx_pulse s (enc (comms_mode_i s) ?bs) = Inr (filled data s)"
    using s d by (subst rx_bits) (auto simp: put_all_bits filled_def)
  then have 1: "foldR rx_pulse s (enc False ?bs) = Inr (filled data s)"
    using s by simp
  have 2: "foldR rx_pulse s [Ctl, Ctl, Ctl, Data] = Inr s"
    using s by (intro rx_preamble)
  show ?thesis
    using t unfolding gpio_tx_pulses by (simp only: fst_conv foldR_append 1 2 bindR_Inr simp_thms)
qed

lemma rx_body_end:
  assumes "ctl_bits_count s = 0" "data \<noteq> []" "gpio_ctl_i s \<noteq> 0" "gpio_ctl_o s \<noteq> 0" "geth_interrupt s"
  shows "foldR rx_pulse (filled data s) [Ctl, Ctl, Ctl, Data] = bindR (geth_napi_interrupt (filled data s)) (\<lambda>s.
    Inr (s\<lparr>i_value := replicate MAX_PKTLEN 0, data_bits_count := 0, comms_mode_i := False\<rparr>))"
  using assms by (intro rx_end) (auto simp: filled_def)

lemma rx_frame:
  assumes s: "idle s" and d: "data \<noteq> []" "length data \<le> MAX_PKTLEN" and t: "\<not> comms_mode_o t"
  shows "foldR rx_pulse s (fst (gpio_tx data t)) = Inr (queued data s)"
proof -
  obtain l r where q: "i_q_len s = [l]" "i_q s = [r]" "length r = MAX_PKTLEN"
    using s by (auto simp: idle_def MAX_Q_LEN_def length_Suc_conv)
  have 1: "foldR rx_pulse s (fst (gpio_tx data t)) = foldR rx_pulse (filled data s) [Ctl, Ctl, Ctl, Data]"
    using s by (intro rx_body d t) (auto simp: idle_def)
  have 2: "foldR rx_pulse (filled data s) [Ctl, Ctl, Ctl, Data] = bindR (geth_napi_interrupt (filled data s)) (\<lambda>s.
      Inr (s\<lparr>i_value := replicate MAX_PKTLEN 0, data_bits_count := 0, comms_mode_i := False\<rparr>))"
    using s by (intro rx_body_end d) (auto simp: idle_def)
  have 3: "geth_napi_interrupt (filled data s) = Inr (filled data s\<lparr>i_q_ptr := 0, i_q_len := [length data],
      i_q := [data @ drop (length data) r], napi_scheduled := True\<rparr>)"
    using s d(2) q
    by (simp add: idle_def filled_def geth_napi_interrupt_def Let_def set_i_def get_i_def memcpy_def)
  show ?thesis
    unfolding 1 2 3 using s q by (cases s) (simp add: filled_def queued_def idle_def)
qed

text \<open>The queue has room for one frame.\<close>

lemma rx_second:
  assumes s: "idle s" and d: "data \<noteq> []" "length data \<le> MAX_PKTLEN" and t: "\<not> comms_mode_o t"
  shows "foldR rx_pulse (queued a s) (fst (gpio_tx data t)) = Inl OutOfBounds"
proof -
  have 1: "foldR rx_pulse (queued a s) (fst (gpio_tx data t)) = foldR rx_pulse (filled data (queued a s)) [Ctl, Ctl, Ctl, Data]"
    using s by (intro rx_body d t) (auto simp: idle_def queued_def)
  have 2: "foldR rx_pulse (filled data (queued a s)) [Ctl, Ctl, Ctl, Data] =
      bindR (geth_napi_interrupt (filled data (queued a s))) (\<lambda>s.
      Inr (s\<lparr>i_value := replicate MAX_PKTLEN 0, data_bits_count := 0, comms_mode_i := False\<rparr>))"
    using s by (intro rx_body_end d) (auto simp: idle_def queued_def)
  have 3: "geth_napi_interrupt (filled data (queued a s)) = Inl OutOfBounds"
    using s by (simp add: idle_def filled_def queued_def geth_napi_interrupt_def Let_def set_i_def)
  show ?thesis unfolding 1 2 3 by simp
qed

text \<open>A longer frame runs past the receiver's buffer.\<close>

lemma rx_overrun:
  assumes s: "idle s" and d: "length data > MAX_PKTLEN" and t: "\<not> comms_mode_o t"
  shows "foldR rx_pulse s (fst (gpio_tx data t)) = Inl OutOfBounds"
proof -
  let ?bs = "concat (map bits_of data)" and ?n = "8 * MAX_PKTLEN"
  obtain b bs where bs: "drop ?n ?bs = b # bs"
    using d by (cases "drop ?n ?bs") auto
  have split: "?bs = take ?n ?bs @ b # bs" using bs by (metis append_take_drop_id)
  define s1 where "s1 = s\<lparr>i_value := put_bits 0 (take ?n ?bs) (i_value s),
    data_bits_count := ?n, comms_mode_i := last (False # take ?n ?bs)\<rparr>"
  have l: "length (take ?n ?bs) = ?n" using d by simp
  have "foldR rx_pulse s (enc (comms_mode_i s) (take ?n ?bs)) = Inr s1"
    using s l by (subst rx_bits) (auto simp: idle_def s1_def)
  then have 1: "foldR rx_pulse s (enc False (take ?n ?bs)) = Inr s1"
    using s by (simp add: idle_def)
  have "length (i_value s1) = MAX_PKTLEN" "data_bits_count s1 = ?n" "ctl_bits_count s1 = 0"
    using s by (auto simp: s1_def idle_def)
  then have 2: "foldR rx_pulse s1 (enc m (b # bs)) = Inl OutOfBounds" for m
    by (simp add: rx_pulse_def gpio_ctl_irq_handler_def gpio_data_irq_handler_def Let_def)
  have 4: "foldR rx_pulse s [Ctl, Ctl, Ctl, Data] = Inr s"
    using s by (intro rx_preamble) (auto simp: idle_def)
  have e: "enc False ?bs = enc False (take ?n ?bs) @ enc (last (False # take ?n ?bs)) (b # bs)"
    by (subst split) (rule enc_append)
  show ?thesis
    using t unfolding gpio_tx_pulses e
    by (simp only: fst_conv foldR_append 1 2 4 bindR_Inr bindR_Inl simp_thms e)
qed

lemma xmit_pulses:
  "\<exists>t'. geth_xmit frame t = (fst (gpio_tx (padded frame) t), t') \<and> \<not> comms_mode_o t' \<and>
     tx_packets (stats t') = tx_packets (stats t) + 1"
proof -
  have p: "(if length frame < ETH_ZLEN then frame @ replicate (ETH_ZLEN - length frame) 0 else frame) = padded frame"
    by (simp add: padded_def)
  have l: "\<not> length (padded frame) < 14 + 20"
    by (simp add: padded_def ETH_ZLEN_def)
  show ?thesis
    unfolding geth_xmit_def p Let_def geth_hw_tx_def using l by (simp add: gpio_tx_pulses Let_def)
qed

lemma poll_queued:
  assumes "idle s" "length data \<le> MAX_PKTLEN" "mem 0" "1 < budget"
  shows "\<exists>s'. geth_poll mem budget (queued data s) = Inr (1, s') \<and> idle s' \<and> received s' = received s @ [data]"
proof -
  obtain l r where q: "i_q_len s = [l]" "i_q s = [r]" "length r = MAX_PKTLEN"
    using assms(1) by (auto simp: idle_def MAX_Q_LEN_def length_Suc_conv)
  have n: "geth_poll_loop mem budget pkt 1 (x\<lparr>i_q_ptr := -1, received := rs, stats := st\<rparr>) =
      (1, x\<lparr>i_q_ptr := -1, received := rs, stats := st\<rparr>)" for pkt x rs st
    by (subst geth_poll_loop.simps) simp
  have "idle (queued data s\<lparr>i_q_ptr := -1, received := received s @ [data], stats := st, napi_scheduled := False\<rparr>)" for st
    using assms(1,2) q by (auto simp: idle_def queued_def MAX_Q_LEN_def)
  then show ?thesis
    using assms(2-) q
    by (subst geth_poll_def, subst geth_poll_loop.simps)
      (simp add: queued_def get_i_def memcpy_def ETH_DATA_LEN_def MAX_PKTLEN_def Let_def n [simplified])
qed

lemma link_run_ok:
  "idle s \<Longrightarrow> \<not> comms_mode_o t \<Longrightarrow> \<forall>f\<in>set fs. length f \<le> MAX_PKTLEN \<Longrightarrow>
     \<exists>t' s'. link_run t s fs = Inr (t', s') \<and> idle s' \<and> \<not> comms_mode_o t' \<and>
       received s' = received s @ map padded fs \<and>
       tx_packets (stats t') = tx_packets (stats t) + of_nat (length fs)"
proof (induction fs arbitrary: s t)
  case (Cons f fs)
  have l: "padded f \<noteq> []" "length (padded f) \<le> MAX_PKTLEN"
    using Cons.prems(3) by (auto simp: padded_def ETH_ZLEN_def MAX_PKTLEN_def)
  obtain t1 where t1: "geth_xmit f t = (fst (gpio_tx (padded f) t), t1)" "\<not> comms_mode_o t1"
      "tx_packets (stats t1) = tx_packets (stats t) + 1"
    using xmit_pulses [of f t] by blast
  obtain s1 where s1: "geth_poll (\<lambda>_. True) 2 (queued (padded f) s) = Inr (1, s1)" "idle s1"
      "received s1 = received s @ [padded f]"
    using poll_queued [OF Cons.prems(1) l(2), of "\<lambda>_. True" 2] by auto
  obtain t2 s2 where "link_run t1 s1 fs = Inr (t2, s2)" "idle s2" "\<not> comms_mode_o t2"
      "received s2 = received s1 @ map padded fs" "tx_packets (stats t2) = tx_packets (stats t1) + of_nat (length fs)"
    using Cons.IH [OF s1(2) t1(2)] Cons.prems(3) by auto
  then show ?case
    using t1 s1 rx_frame [OF Cons.prems(1) l Cons.prems(2)] by simp
qed simp

lemma mset_held [simp]:
  "holds (release r s) = holds s - {#r#}" "holds (acquire r s) = add_mset r (holds s)"
  by (simp_all add: release_def acquire_def holds_def)

lemma release_keeps [simp]:
  "gpio_ctl_o (release r s) = gpio_ctl_o s" "gpio_ctl_i (release r s) = gpio_ctl_i s"
  "gpio_data_o (release r s) = gpio_data_o s" "gpio_data_i (release r s) = gpio_data_i s"
  "geth_devs (release r s) = geth_devs s" "geth_interrupt (release r s) = geth_interrupt s"
  "gpio_ctl_o (acquire r s) = gpio_ctl_o s" "gpio_ctl_i (acquire r s) = gpio_ctl_i s"
  "gpio_data_o (acquire r s) = gpio_data_o s" "gpio_data_i (acquire r s) = gpio_data_i s"
  "geth_devs (acquire r s) = geth_devs s" "geth_interrupt (acquire r s) = geth_interrupt s"
  by (simp_all add: release_def acquire_def)

lemma init_out_held:
  assumes "init_out e s = (r, t)" "holds s = {#}"
  shows "same_lines s t \<and> holds t = (if r = 0 then lines_out s else {#})"
  using assms
  by (auto simp: init_out_def free_out_def lines_out_def same_lines_def Let_def split: if_splits)

lemma init_in_held:
  assumes "init_in e s = (r, t)" "holds s = lines_out s"
  shows "same_lines s t \<and> holds t = (if r = 0 then lines_out s + lines_in e s else {#})"
  using assms
  by (auto simp: init_in_def free_out_def lines_out_def lines_in_def same_lines_def Let_def split: if_splits)

lemma free_all_holds: "holds (free_all e s) = holds s - {#Gpio (gpio_ctl_o s)#} - {#Gpio (gpio_data_o s)#} -
    {#Gpio (gpio_ctl_i s)#} - {#Gpio (gpio_data_i s)#} - {#Irq (gpio_to_irq e (gpio_ctl_i s))#} -
    {#Irq (gpio_to_irq e (gpio_data_i s))#}"
  by (simp add: free_all_def Let_def)

lemma run_jobs_keeps: "run_jobs n d s = (w, t) \<Longrightarrow> holds t = holds s \<and> same_lines s t"
  by (induction n arbitrary: s w t) (auto simp: gpio_tx_pulses holds_def same_lines_def split: prod.splits)

lemma exit_holds:
  assumes "holds s = lines_out s + lines_in e s"
  shows "holds (ksock_gpio_exit e s) = {#}"
proof -
  have h: "holds (x\<lparr>geth_devs := b\<rparr>) = holds x" for x b by (simp add: holds_def)
  have "holds (if c then x\<lparr>geth_devs := b\<rparr> else x) = holds x" for c x b
    by (simp add: h)
  then show ?thesis
    using assms by (auto simp: ksock_gpio_exit_def Let_def free_out_def lines_out_def lines_in_def)
qed

section \<open>Properties\<close>

text \<open>
  C6. The link is faithful: frames of at most 1500 bytes that one side transmits, turned into pulses on the control
  and the data line, decoded by the interrupt handlers of the other side and polled after each frame, go up
  to its network stack in order and byte for byte, padded to 60 bytes; the receiver is idle again after each
  and the sender has counted them.
\<close>

theorem gpio_link_delivers:
  assumes "idle s" "\<not> comms_mode_o t" "\<forall>f\<in>set fs. length f \<le> MAX_PKTLEN"
  shows "\<exists>t' s'. link_run t s fs = Inr (t', s') \<and> idle s' \<and> \<not> comms_mode_o t' \<and>
    received s' = received s @ map padded fs \<and>
    tx_packets (stats t') = tx_packets (stats t) + of_nat (length fs)"
  using link_run_ok [OF assms] .

text \<open>The state that loading in production mode leaves, on lines 1 to 4.\<close>

lemma loaded_idle: "\<exists>s. ksock_gpio_init \<lparr>req_ctl_o = True, dir_ctl_o = True, req_data_o = True, dir_data_o = True,
    req_ctl_i = True, dir_ctl_i = True, req_data_i = True, dir_data_i = True, irq_ctl = True, irq_data = True,
    alloc_dev = True, reg_dev = True, gpio_to_irq = (\<lambda>n. n + 100), random_pkt = []\<rparr> (geth_module 1 2 3 4) = (0, [], s) \<and>
    idle s \<and> \<not> comms_mode_o s \<and> received s = []"
  by (simp add: ksock_gpio_init_def init_out_def init_in_def geth_module_def Let_def acquire_def geth_setup_def idle_def
    MAX_Q_LEN_def)

theorem gpio_link_delivers_witness:
  "\<exists>s t' s'. idle s \<and> link_run s s [[1, 2, 3], replicate 100 7] = Inr (t', s') \<and>
     received s' = [[1, 2, 3] @ replicate 57 0, replicate 100 7]"
proof -
  obtain s where s: "idle s" "\<not> comms_mode_o s" "received s = []"
    using loaded_idle by blast
  have "\<forall>f\<in>set [[1, 2, 3], replicate 100 7]. length f \<le> MAX_PKTLEN" by (simp add: MAX_PKTLEN_def)
  from gpio_link_delivers [OF s(1,2) this] s show ?thesis
    by (auto simp: padded_def ETH_ZLEN_def)
qed

text \<open>
  Loading the module, whichever request of a line, an interrupt or the device fails: after a failure no line, no
  interrupt and no device is left; after a success the module holds exactly the lines and interrupts of its
  parameters, and unloading gives all of them back.
\<close>

lemma gpio_unwind:
  "(case ksock_gpio_init e (geth_module ctl_o ctl_i data_o data_i) of (r, w, s) \<Rightarrow>
      (if r = 0 then holds s = lines_out s + lines_in e s \<and> (geth_devs s \<longleftrightarrow> ctl_o \<noteq> 0 \<and> ctl_i \<noteq> 0) \<and>
         holds (ksock_gpio_exit e s) = {#}
       else holds s = {#} \<and> \<not> geth_devs s))"
proof -
  let ?s = "geth_module ctl_o ctl_i data_o data_i"
  have z: "holds ?s = {#}" "\<not> geth_devs ?s" "gpio_ctl_o ?s = ctl_o" "gpio_ctl_i ?s = ctl_i"
    by (simp_all add: geth_module_def holds_def)
  obtain r1 s1 where 1: "init_out e ?s = (r1, s1)" by fastforce
  obtain r2 s2 where 2: "init_in e s1 = (r2, s2)" by fastforce
  note h1 = init_out_held [OF 1 z(1)]
  have l1: "lines_out s1 = lines_out ?s" using h1 by (simp add: lines_out_def same_lines_def)
  have h2: "same_lines s1 s2 \<and> holds s2 = (if r2 = 0 then lines_out s1 + lines_in e s1 else {#})" if "r1 = 0"
    using init_in_held [OF 2] h1 l1 that by simp
  have l2: "lines_out s2 = lines_out s1" "lines_in e s2 = lines_in e s1" if "r1 = 0"
    using h2 that by (simp_all add: lines_out_def lines_in_def same_lines_def)
  obtain w3 s3 where 3: "run_jobs 10 (random_pkt e) s2 = (w3, s3)" by fastforce
  note h3 = run_jobs_keeps [OF 3]
  have l3: "lines_out s3 = lines_out s2" "lines_in e s3 = lines_in e s2"
    using h3 by (simp_all add: lines_out_def lines_in_def same_lines_def)
  define s4 where "s4 = s2\<lparr>geth_interrupt := True\<rparr>"
  define s5 where "s5 = geth_setup (s4\<lparr>geth_devs := True\<rparr>)"
  have k: "holds s4 = holds s2" "holds s5 = holds s2" "lines_out s5 = lines_out s2" "lines_in e s5 = lines_in e s2"
    "geth_devs s5" "geth_devs s4 = geth_devs s2"
    by (simp_all add: s4_def s5_def geth_setup_def holds_def lines_out_def lines_in_def)
  have f: "holds (x\<lparr>geth_devs := b\<rparr>) = holds x" for x b by (simp add: holds_def)
  have c: "gpio_ctl_o s2 = ctl_o" "gpio_ctl_i s2 = ctl_i" "\<not> geth_devs s2" if "r1 = 0"
    using h1 h2 that z by (simp_all add: same_lines_def)
  have fa: "holds (free_all e x) = {#}"
    if "holds x = lines_out s2 + lines_in e s2" "gpio_ctl_o x = gpio_ctl_o s2" "gpio_ctl_i x = gpio_ctl_i s2"
      "gpio_data_o x = gpio_data_o s2" "gpio_data_i x = gpio_data_i s2" "gpio_ctl_o s2 \<noteq> 0" "gpio_ctl_i s2 \<noteq> 0" for x
    unfolding free_all_holds that by (simp add: lines_out_def lines_in_def that)
  have fd: "geth_devs (free_all e x) = geth_devs x" for x by (simp add: free_all_def Let_def)
  have p4: "gpio_ctl_o s4 = gpio_ctl_o s2" "gpio_ctl_i s4 = gpio_ctl_i s2"
    "gpio_data_o s4 = gpio_data_o s2" "gpio_data_i s4 = gpio_data_i s2"
    "gpio_ctl_o s5 = gpio_ctl_o s2" "gpio_ctl_i s5 = gpio_ctl_i s2"
    "gpio_data_o s5 = gpio_data_o s2" "gpio_data_i s5 = gpio_data_i s2"
    by (simp_all add: s4_def s5_def geth_setup_def)
  show ?thesis
  proof (cases "(ctl_o = 0 \<and> ctl_i = 0) \<or> r1 \<noteq> 0 \<or> r2 \<noteq> 0")
    case True
    then show ?thesis
      using z h1 h2 by (auto simp: ksock_gpio_init_def 1 2 same_lines_def)
  next
    case False
    then have ok: "r1 = 0" "r2 = 0" "\<not> (ctl_o = 0 \<and> ctl_i = 0)" by auto
    have e2: "holds s2 = lines_out s2 + lines_in e s2" using h2 l2 ok by simp
    show ?thesis
      using ok c [OF ok(1)] z(3,4) e2 h3 l3 exit_holds [of s2 e] exit_holds [of s3 e] exit_holds [of s5 e] k p4
        fa [of s4] fa [of s5]
      by (auto simp: ksock_gpio_init_def 1 2 3 s4_def [symmetric] s5_def [symmetric] Let_def f fd same_lines_def)
  qed
qed

text \<open>\<open>sprintf\<close> never fits.\<close>

lemma dec_len_pos: "dec_len n > 0"
  by (subst dec_len.simps) simp

text \<open>
  Where the driver leaves its arrays: a frame of more than 1500 bytes overruns the receive buffer; a second frame
  before the first was polled, and a poll without a frame, index the queue outside its single slot; opening
  the device always writes past the array of the hardware address. A transmit timeout queues what has been
  received so far, on an idle line an empty frame; a frame that ends before loading has set the interrupt
  function calls a null pointer.
\<close>

lemma gpio_faults:
  assumes "idle s" "\<not> comms_mode_o t" "MAX_PKTLEN < length long" "length a \<le> MAX_PKTLEN" "length b \<le> MAX_PKTLEN"
    "a \<noteq> []" "b \<noteq> []" "\<not> geth_interrupt u" "gpio_ctl_i u \<noteq> 0" "gpio_ctl_o u \<noteq> 0"
    "ctl_bits_count u = 3" "data_bits_count u \<noteq> 0"
  shows "foldR rx_pulse s (fst (gpio_tx long t)) = Inl OutOfBounds \<and>
    foldR rx_pulse s (fst (gpio_tx a t) @ fst (gpio_tx b t)) = Inl OutOfBounds \<and>
    geth_poll mem budget s = Inl OutOfBounds \<and>
    geth_open v = Inl OutOfBounds \<and>
    (\<exists>s1 s2. geth_tx_timeout s = Inr s1 \<and> geth_poll (\<lambda>_. True) 2 s1 = Inr (1, s2) \<and>
       received s2 = received s @ [[]]) \<and>
    gpio_data_irq_handler u = Inl NullDeref"
proof (intro conjI)
  show "foldR rx_pulse s (fst (gpio_tx long t)) = Inl OutOfBounds"
    using rx_overrun [OF assms(1,3,2)] .
  show "foldR rx_pulse s (fst (gpio_tx a t) @ fst (gpio_tx b t)) = Inl OutOfBounds"
    unfolding foldR_append rx_frame [OF assms(1,6,4,2)] bindR_Inr
    using rx_second [OF assms(1,7,5,2)] .
  show "geth_poll mem budget s = Inl OutOfBounds"
    using assms(1) by (simp add: idle_def geth_poll_def get_i_def)
  show "geth_open v = Inl OutOfBounds"
    using dec_len_pos by (simp add: geth_open_def sprintf_mac_def dec_width_def Suc_le_eq)
  obtain l r where q: "i_q_len s = [l]" "i_q s = [r]" "length r = MAX_PKTLEN"
    using assms(1) by (auto simp: idle_def MAX_Q_LEN_def length_Suc_conv)
  define s1 where "s1 = queued [] s\<lparr>stats := (stats s)\<lparr>tx_errors := tx_errors (stats s) + 1\<rparr>, queue_stopped := False\<rparr>"
  have "geth_napi_interrupt s = Inr (queued [] s)"
    using assms(1) q by (simp add: idle_def geth_napi_interrupt_def Let_def set_i_def get_i_def memcpy_def queued_def)
  then have 1: "geth_tx_timeout s = Inr s1"
    using assms(1) by (simp add: idle_def geth_tx_timeout_def s1_def Let_def queued_def)
  let ?x = "s\<lparr>stats := (stats s)\<lparr>tx_errors := tx_errors (stats s) + 1\<rparr>, queue_stopped := False\<rparr>"
  have "idle ?x" "s1 = queued [] ?x" using assms(1) by (simp_all add: idle_def s1_def queued_def)
  then have "\<exists>s2. geth_poll (\<lambda>_. True) 2 s1 = Inr (1, s2) \<and> received s2 = received s @ [[]]"
    using poll_queued [of ?x "[]" "\<lambda>_. True" 2] by auto
  then show "\<exists>s1 s2. geth_tx_timeout s = Inr s1 \<and> geth_poll (\<lambda>_. True) 2 s1 = Inr (1, s2) \<and>
       received s2 = received s @ [[]]"
    using 1 by blast
  show "gpio_data_irq_handler u = Inl NullDeref"
    using assms(8-) by (simp add: gpio_data_irq_handler_def Let_def)
qed

theorem gpio_faults_witness:
  "\<exists>s. idle s \<and> foldR rx_pulse s (fst (gpio_tx (replicate 1514 1) s)) = Inl OutOfBounds \<and>
     foldR rx_pulse s (fst (gpio_tx [1] s) @ fst (gpio_tx [2] s)) = Inl OutOfBounds \<and>
     geth_open s = Inl OutOfBounds"
proof -
  obtain s where s: "idle s" "\<not> comms_mode_o s" using loaded_idle by blast
  let ?u = "geth_module 1 2 3 4\<lparr>ctl_bits_count := 3, data_bits_count := 8\<rparr>"
  have "MAX_PKTLEN < length (replicate 1514 (1 :: u8))" "length [1 :: u8] \<le> MAX_PKTLEN" "length [2 :: u8] \<le> MAX_PKTLEN"
    by (simp_all add: MAX_PKTLEN_def)
  from gpio_faults [OF s this, of ?u] s show ?thesis
    by (auto simp: geth_module_def)
qed

end
