(* ===== verification/TenK.thy ===== *)
theory TenK
  imports Prelude
begin

text \<open>
  The ten-thousand-connections server and client (\<open>var-ten-k\<close>): the three event loops on \<open>select\<close>, \<open>poll\<close>
  and \<open>epoll\<close>, one iteration each, and the client's threads. What the system calls answer is an argument:
  the number of events, which descriptors are ready, what \<open>accept\<close> returns, and the results of the reads of
  each descriptor as a stream. A loop that never ends is the value \<open>None\<close>. Descriptors are natural numbers;
  0 marks a free slot, as in the code.
\<close>

section \<open>Constants and state\<close>

definition MAXCLIENT :: nat where "MAXCLIENT = 10000"
definition CLIENTS_PER_THREAD :: nat where "CLIENTS_PER_THREAD = 100"
definition THREAD_ITER :: nat where "THREAD_ITER = 100"
definition MAXBUFFLEN :: nat where "MAXBUFFLEN = 65536"

text \<open>The size of an \<open>fd_set\<close>.\<close>

definition FD_SETSIZE :: nat where "FD_SETSIZE = 1024"

definition client_num :: nat where "client_num = MAXCLIENT"

record srv =
  client_fds :: "nat list"
  connections :: nat
  connections_printed :: bool
  keep :: bool
  client_buff :: "bytes list"

section \<open>Reading from a client\<close>

text \<open>The result of one \<open>read\<close>: some bytes (none at the end of the stream), nothing for now, or an error.\<close>

datatype rdres = RdData bytes | RdAgain | RdErr

definition write_at :: "bytes \<Rightarrow> nat \<Rightarrow> bytes \<Rightarrow> bytes" where
  "write_at buf off d = take off buf @ d @ drop (off + length d) buf"

text \<open>
  The loop of all three servers; \<open>k\<close> counts the calls of \<open>read\<close>, which returns at most the number of bytes
  asked for. The result tells whether the server keeps running, and gives the bytes read and the buffer.
\<close>

partial_function (option) read_loop ::
  "(nat \<Rightarrow> rdres) \<Rightarrow> nat \<Rightarrow> nat \<Rightarrow> bytes \<Rightarrow> (bool \<times> nat \<times> bytes) option" where
  "read_loop rd k valread buf =
     (if valread < MAXBUFFLEN then
        (case rd k of
           RdErr \<Rightarrow> Some (False, valread, buf)
         | RdAgain \<Rightarrow> Some (True, valread, buf)
         | RdData d \<Rightarrow> let d = take (MAXBUFFLEN - valread) d in
             read_loop rd (k + 1) (valread + length d) (write_at buf valread d))
      else Some (True, valread, buf))"

text \<open>The client of slot \<open>i\<close> is read into its buffer.\<close>

definition read_client :: "(nat \<Rightarrow> rdres) \<Rightarrow> nat \<Rightarrow> srv \<Rightarrow> srv res option" where
  "read_client rd i s =
     (if \<not> i < length (client_buff s) then Some (Inl OutOfBounds)
      else case read_loop rd 0 0 (client_buff s ! i) of
        None \<Rightarrow> None
      | Some (ok, _, buf) \<Rightarrow>
          Some (Inr (s\<lparr>client_buff := (client_buff s)[i := buf], keep := (keep s \<and> ok)\<rparr>)))"

section \<open>The select server\<close>

text \<open>
  What the system answers in one iteration: the events (negative for an error, which may be an
  interrupted call), the ready descriptors, the new connection (if
  \<open>accept\<close> returns one), whether it can be made non-blocking, and the reads of a descriptor.
\<close>

record world =
  w_event :: int
  w_eintr :: bool
  w_ready :: "nat \<Rightarrow> bool"
  w_accept :: "nat option"
  w_nonblock :: bool
  w_read :: "nat \<Rightarrow> nat \<Rightarrow> rdres"

definition FD_SET :: "nat \<Rightarrow> unit res" where
  "FD_SET fd = (if fd < FD_SETSIZE then Inr () else Inl OutOfBounds)"

text \<open>The first loop: all clients go into the set; the result is the largest descriptor.\<close>

definition select_fds :: "nat \<Rightarrow> nat list \<Rightarrow> nat res" where
  "select_fds fd cs = bindR (FD_SET fd) (\<lambda>_.
     foldR (\<lambda>m c. bindR (if c > 0 then FD_SET c else Inr ()) (\<lambda>_. Inr (if c > m then c else m))) fd cs)"

text \<open>
  The accept block: the new client takes the first free slot. A value of the state and the remaining events.
\<close>

definition select_accept :: "world \<Rightarrow> nat \<Rightarrow> srv \<times> int \<Rightarrow> srv \<times> int" where
  "select_accept w fd = (\<lambda>(s, event).
     if w_ready w fd then
       let event = event - 1 in
       case w_accept w of
         None \<Rightarrow> (s, event)
       | Some c \<Rightarrow>
           if \<not> w_nonblock w then (s, event)
           else case upd_first (\<lambda>x. x = 0) (\<lambda>_. c) (client_fds s) of
             None \<Rightarrow> (s, event)
           | Some cs \<Rightarrow> (s\<lparr>client_fds := cs, connections := connections s + 1\<rparr>, event)
     else (s, event))"

fun select_serve :: "world \<Rightarrow> nat list \<Rightarrow> srv \<times> int \<Rightarrow> srv res option" where
  "select_serve w [] (s, event) = Some (Inr s)"
| "select_serve w (i # is) (s, event) =
     (if event = 0 then Some (Inr s)
      else if \<not> i < length (client_fds s) then Some (Inl OutOfBounds)
      else let c = client_fds s ! i in
        if c = 0 then select_serve w is (s, event)
        else if \<not> c < FD_SETSIZE then Some (Inl OutOfBounds)
        else if w_ready w c then
          (case read_client (w_read w c) i s of
             None \<Rightarrow> None
           | Some (Inl e) \<Rightarrow> Some (Inl e)
           | Some (Inr s) \<Rightarrow> select_serve w is (s, event - 1))
        else select_serve w is (s, event))"

text \<open>One iteration of \<open>run_select\<close>; an error ends the loop. Nothing is read before all clients are connected.\<close>

definition select_iter :: "world \<Rightarrow> nat \<Rightarrow> srv \<Rightarrow> srv res option" where
  "select_iter w fd s =
     (case select_fds fd (client_fds s) of
        Inl e \<Rightarrow> Some (Inl e)
      | Inr max_fd \<Rightarrow>
        if w_event w < 0 \<and> \<not> w_eintr w then Some (Inr (s\<lparr>keep := False\<rparr>))
        else let (s, event) = select_accept w fd (s, w_event w) in
        if connections s \<noteq> MAXCLIENT then Some (Inr s)
        else select_serve w [0..<client_num] (s\<lparr>connections_printed := True\<rparr>, event))"

section \<open>The poll server\<close>

text \<open>Its table has the listening socket in front of the clients.\<close>

record psrv =
  pollfds :: "nat list"
  p_connections :: nat
  p_printed :: bool
  p_keep :: bool
  p_buff :: "bytes list"

definition poll_init :: "nat \<Rightarrow> bytes list \<Rightarrow> psrv" where
  "poll_init fd bufs = \<lparr>pollfds = fd # replicate client_num 0, p_connections = 0, p_printed = False, p_keep = True,
     p_buff = bufs\<rparr>"

fun poll_free :: "nat list \<Rightarrow> nat \<Rightarrow> nat list \<Rightarrow> nat list option" where
  "poll_free fds c [] = None"
| "poll_free fds c (i # is) = (if i < length fds \<and> fds ! i = 0 then Some (fds[i := c]) else poll_free fds c is)"

definition poll_accept :: "world \<Rightarrow> (nat \<Rightarrow> bool) \<Rightarrow> psrv \<times> int \<Rightarrow> psrv \<times> int" where
  "poll_accept w rv = (\<lambda>(s, event).
     if rv 0 then
       let event = event - 1 in
       case w_accept w of
         None \<Rightarrow> (s, event)
       | Some c \<Rightarrow>
           if \<not> w_nonblock w then (s, event)
           else case poll_free (pollfds s) c [1..<client_num + 1] of
             None \<Rightarrow> (s, event)
           | Some fds \<Rightarrow> (s\<lparr>pollfds := fds, p_connections := p_connections s + 1\<rparr>, event)
     else (s, event))"

definition poll_read :: "(nat \<Rightarrow> rdres) \<Rightarrow> nat \<Rightarrow> psrv \<Rightarrow> psrv res option" where
  "poll_read rd i s =
     (if \<not> i < length (p_buff s) then Some (Inl OutOfBounds)
      else case read_loop rd 0 0 (p_buff s ! i) of
        None \<Rightarrow> None
      | Some (ok, _, buf) \<Rightarrow> Some (Inr (s\<lparr>p_buff := (p_buff s)[i := buf], p_keep := (p_keep s \<and> ok)\<rparr>)))"

fun poll_serve :: "world \<Rightarrow> (nat \<Rightarrow> bool) \<Rightarrow> nat list \<Rightarrow> psrv \<times> int \<Rightarrow> psrv res option" where
  "poll_serve w rv [] (s, event) = Some (Inr s)"
| "poll_serve w rv (i # is) (s, event) =
     (let idx = i - 1 in
      if event = 0 then Some (Inr s)
      else if \<not> i < length (pollfds s) then Some (Inl OutOfBounds)
      else if pollfds s ! i = 0 then poll_serve w rv is (s, event)
      else if rv i then
        (case poll_read (w_read w (pollfds s ! i)) idx s of
           None \<Rightarrow> None
         | Some (Inl e) \<Rightarrow> Some (Inl e)
         | Some (Inr s) \<Rightarrow> poll_serve w rv is (s, event - 1))
      else poll_serve w rv is (s, event))"

text \<open>
  One iteration. The \<open>revents\<close> of a slot are those of the descriptor the slot had when \<open>poll\<close> was called:
  a slot that is still free polls descriptor 0.
\<close>

definition poll_iter :: "world \<Rightarrow> psrv \<Rightarrow> psrv res option" where
  "poll_iter w s =
     (let rv = (\<lambda>i. w_ready w (pollfds s ! i)); (s, event) = poll_accept w rv (s, w_event w) in
      if p_connections s \<noteq> MAXCLIENT then Some (Inr s)
      else poll_serve w rv [1..<client_num + 1] (s\<lparr>p_printed := True\<rparr>, event))"

section \<open>The epoll server\<close>

text \<open>
  The client's slot is found by probing from its descriptor modulo the table size. A start outside the table
  does not occur; an index outside it would be a fault.
\<close>

function add_probe :: "nat list \<Rightarrow> nat \<Rightarrow> nat \<Rightarrow> nat \<Rightarrow> (nat list \<times> int) res" where
  "add_probe cs fd start idx =
     (if \<not> (idx < MAXCLIENT \<and> start < MAXCLIENT \<and> idx < length cs) then Inl OutOfBounds
      else if cs ! idx = 0 then Inr (cs[idx := fd], int idx)
      else let idx = idx + 1; idx = (if idx = MAXCLIENT then 0 else idx) in
        if idx = start then Inr (cs, -1) else add_probe cs fd start idx)"
  by pat_completeness auto
termination
  by (relation "measure (\<lambda>(cs, fd, start, idx). if idx < start then start - idx else MAXCLIENT - idx + start)")
    (auto simp: MAXCLIENT_def)

function get_probe :: "nat list \<Rightarrow> nat \<Rightarrow> nat \<Rightarrow> nat \<Rightarrow> int res" where
  "get_probe cs fd start idx =
     (if \<not> (idx < MAXCLIENT \<and> start < MAXCLIENT \<and> idx < length cs) then Inl OutOfBounds
      else if cs ! idx = fd then Inr (int idx)
      else let idx = idx + 1; idx = (if idx = MAXCLIENT then 0 else idx) in
        if idx = start then Inr (-1) else get_probe cs fd start idx)"
  by pat_completeness auto
termination
  by (relation "measure (\<lambda>(cs, fd, start, idx). if idx < start then start - idx else MAXCLIENT - idx + start)")
    (auto simp: MAXCLIENT_def)

declare add_probe.simps [simp del] get_probe.simps [simp del]

definition epoll_add_idx :: "nat list \<Rightarrow> nat \<Rightarrow> (nat list \<times> int) res" where
  "epoll_add_idx cs fd = add_probe cs fd (fd mod MAXCLIENT) (fd mod MAXCLIENT)"

definition epoll_get_idx :: "nat list \<Rightarrow> nat \<Rightarrow> int res" where
  "epoll_get_idx cs fd = get_probe cs fd (fd mod MAXCLIENT) (fd mod MAXCLIENT)"

text \<open>
  One event of \<open>run_epoll\<close>: \<open>bad\<close> is a hang-up, an error, or no input; \<open>ctl\<close> tells whether the new
  client can be added to the epoll set.
\<close>

definition epoll_event :: "world \<Rightarrow> bool \<Rightarrow> nat \<Rightarrow> bool \<Rightarrow> nat \<Rightarrow> srv \<Rightarrow> srv res option" where
  "epoll_event w ctl fd bad efd s =
     (if bad then Some (Inr s)
      else if efd = fd then
        (case w_accept w of
           None \<Rightarrow> Some (Inr s)
         | Some c \<Rightarrow>
             if \<not> w_nonblock w then Some (Inr s)
             else if \<not> ctl then Some (Inr s)
             else case epoll_add_idx (client_fds s) c of
               Inl e \<Rightarrow> Some (Inl e)
             | Inr (cs, idx) \<Rightarrow>
                 if idx < 0 then Some (Inr (s\<lparr>client_fds := cs\<rparr>))
                 else Some (Inr (s\<lparr>client_fds := cs, connections := connections s + 1\<rparr>)))
      else if connections s \<noteq> MAXCLIENT then Some (Inr s)
      else let s = s\<lparr>connections_printed := True\<rparr> in
        case epoll_get_idx (client_fds s) efd of
          Inl e \<Rightarrow> Some (Inl e)
        | Inr idx \<Rightarrow> if idx < 0 then Some (Inr s) else read_client (w_read w efd) (nat idx) s)"

text \<open>One wake-up of \<open>epoll_wait\<close>: its events in turn, each with what the system answers while it is handled.\<close>

fun epoll_iter :: "nat \<Rightarrow> (world \<times> bool \<times> bool \<times> nat) list \<Rightarrow> srv \<Rightarrow> srv res option" where
  "epoll_iter fd [] s = Some (Inr s)"
| "epoll_iter fd ((w, ctl, bad, efd) # es) s =
     (case epoll_event w ctl fd bad efd s of
        None \<Rightarrow> None
      | Some (Inl e) \<Rightarrow> Some (Inl e)
      | Some (Inr s) \<Rightarrow> epoll_iter fd es s)"

section \<open>The servers\<close>

text \<open>\<open>while(keep)\<close>, for as many iterations as the list has entries.\<close>

fun keep_loop :: "('s \<Rightarrow> bool) \<Rightarrow> ('w \<Rightarrow> 's \<Rightarrow> 's res option) \<Rightarrow> 'w list \<Rightarrow> 's \<Rightarrow> 's res option" where
  "keep_loop kp it [] s = Some (Inr s)"
| "keep_loop kp it (w # ws) s =
     (if kp s then
        (case it w s of
           None \<Rightarrow> None
         | Some (Inl e) \<Rightarrow> Some (Inl e)
         | Some (Inr s) \<Rightarrow> keep_loop kp it ws s)
      else Some (Inr s))"

definition srv_init :: "bytes list \<Rightarrow> srv" where
  "srv_init bufs = \<lparr>client_fds = replicate MAXCLIENT 0, connections = 0, connections_printed = False, keep = True,
     client_buff = bufs\<rparr>"

definition run_select :: "nat \<Rightarrow> bytes list \<Rightarrow> world list \<Rightarrow> srv res option" where
  "run_select fd bufs ws = keep_loop keep (\<lambda>w. select_iter w fd) ws (srv_init bufs)"

definition run_poll :: "nat \<Rightarrow> bytes list \<Rightarrow> world list \<Rightarrow> psrv res option" where
  "run_poll fd bufs ws = keep_loop p_keep poll_iter ws (poll_init fd bufs)"

definition run_epoll :: "nat \<Rightarrow> bytes list \<Rightarrow> (world \<times> bool \<times> bool \<times> nat) list list \<Rightarrow> srv res option" where
  "run_epoll fd bufs ess = keep_loop keep (epoll_iter fd) ess (srv_init bufs)"

section \<open>The client's threads\<close>

text \<open>
  The descriptors a thread writes to in one round, and the writes of its \<open>THREAD_ITER\<close> rounds; each round
  sends a fresh random buffer to each of them. Failed writes are skipped.
\<close>

definition thread_fds :: "nat \<Rightarrow> nat list" where
  "thread_fds tid = [tid * CLIENTS_PER_THREAD..<tid + CLIENTS_PER_THREAD]"

definition run_client_thread :: "nat \<Rightarrow> (nat \<Rightarrow> bytes) \<Rightarrow> (nat \<times> bytes) list" where
  "run_client_thread tid random = concat (map (\<lambda>r. map (\<lambda>i. (i, random r)) (thread_fds tid)) [0..<THREAD_ITER])"

section \<open>Specification\<close>

text \<open>A descriptor whose reads deliver the chunks \<open>ds\<close> and then nothing for now.\<close>

definition delivers :: "(nat \<Rightarrow> rdres) \<Rightarrow> bytes list \<Rightarrow> bool" where
  "delivers rd ds \<longleftrightarrow> (\<forall>i < length ds. rd i = RdData (ds ! i)) \<and> rd (length ds) = RdAgain"

definition stored :: "bytes \<Rightarrow> bytes list \<Rightarrow> bytes" where
  "stored buf ds = write_at buf 0 (take MAXBUFFLEN (concat ds))"

text \<open>The slots that a probe from \<open>start\<close> has passed when it stands at \<open>idx\<close>.\<close>

definition passed :: "nat \<Rightarrow> nat \<Rightarrow> nat \<Rightarrow> bool" where
  "passed start idx j \<longleftrightarrow> (if start \<le> idx then start \<le> j \<and> j < idx else start \<le> j \<or> j < idx)"

text \<open>What the buffer of slot \<open>i\<close> holds after the ready clients have been read.\<close>

definition served :: "world \<Rightarrow> (nat \<Rightarrow> bytes list) \<Rightarrow> psrv \<Rightarrow> nat \<Rightarrow> bytes" where
  "served w ch s i = (if w_ready w (pollfds s ! (i + 1)) then stored (p_buff s ! i) (ch (pollfds s ! (i + 1)))
     else p_buff s ! i)"

text \<open>The system never gives out descriptor 0, and no client closes its connection.\<close>

definition world_ok :: "world \<Rightarrow> bool" where
  "world_ok w \<longleftrightarrow> w_accept w \<noteq> Some 0 \<and> (\<forall>c i. w_read w c i \<noteq> RdData [])"

definition bufs_ok :: "bytes list \<Rightarrow> bool" where
  "bufs_ok bs \<longleftrightarrow> length bs = MAXCLIENT \<and> (\<forall>b\<in>set bs. length b = MAXBUFFLEN)"

text \<open>The connections counted are the slots taken.\<close>

definition taken :: "nat list \<Rightarrow> nat" where
  "taken cs = length (filter (\<lambda>x. x \<noteq> 0) cs)"

definition srv_ok :: "srv \<Rightarrow> bool" where
  "srv_ok s \<longleftrightarrow> length (client_fds s) = MAXCLIENT \<and> connections s = taken (client_fds s) \<and> bufs_ok (client_buff s)"

definition psrv_ok :: "psrv \<Rightarrow> bool" where
  "psrv_ok s \<longleftrightarrow> length (pollfds s) = MAXCLIENT + 1 \<and> p_connections s = taken (tl (pollfds s)) \<and> bufs_ok (p_buff s)"

section \<open>Lemmas on the slots\<close>

lemma MAXCLIENT_pos [simp]: "0 < MAXCLIENT"
  by (simp add: MAXCLIENT_def)

lemma passed_start [simp]: "\<not> passed start start j"
  by (simp add: passed_def)

lemma passed_next:
  assumes "idx < MAXCLIENT" "start < MAXCLIENT" "j < MAXCLIENT"
    and "(if idx + 1 = MAXCLIENT then 0 else idx + 1) \<noteq> start"
  shows "passed start (if idx + 1 = MAXCLIENT then 0 else idx + 1) j \<longleftrightarrow> passed start idx j \<or> j = idx"
  using assms unfolding passed_def by (auto split: if_splits)

lemma passed_all:
  assumes "idx < MAXCLIENT" "start < MAXCLIENT" "j < MAXCLIENT"
    and "(if idx + 1 = MAXCLIENT then 0 else idx + 1) = start"
  shows "passed start idx j \<or> j = idx"
  using assms unfolding passed_def by (auto split: if_splits)

lemma add_probe_spec:
  assumes "length cs = MAXCLIENT" "start < MAXCLIENT" "idx < MAXCLIENT"
    and "\<forall>j < MAXCLIENT. passed start idx j \<longrightarrow> cs ! j \<noteq> 0"
  shows "if 0 \<in> set cs then \<exists>j < MAXCLIENT. cs ! j = 0 \<and> add_probe cs fd start idx = Inr (cs[j := fd], int j)
    else add_probe cs fd start idx = Inr (cs, -1)"
  using assms
proof (induction cs fd start idx rule: add_probe.induct)
  case (1 cs fd start idx)
  let ?n = "if idx + 1 = MAXCLIENT then 0 else idx + 1"
  have n: "?n < MAXCLIENT" using 1(4) by simp
  show ?case
  proof (cases "cs ! idx = 0")
    case True
    then have "add_probe cs fd start idx = Inr (cs[idx := fd], int idx)"
      using 1(2-4) by (subst add_probe.simps) simp
    moreover have "0 \<in> set cs" using True 1(2,4) by (metis nth_mem)
    ultimately show ?thesis using True 1(4) by auto
  next
    case False
    show ?thesis
    proof (cases "?n = start")
      case True
      have "\<forall>j < MAXCLIENT. cs ! j \<noteq> 0"
        using passed_all [OF 1(4,3) _ True] 1(5) False by metis
      then have "0 \<notin> set cs" using 1(2) by (metis in_set_conv_nth)
      moreover have "add_probe cs fd start idx = Inr (cs, -1)"
        using False True 1(2-4) by (subst add_probe.simps) (auto simp: Let_def split: if_splits)
      ultimately show ?thesis by simp
    next
      case neq: False
      have p: "\<forall>j < MAXCLIENT. passed start ?n j \<longrightarrow> cs ! j \<noteq> 0"
        using passed_next [OF 1(4,3) _ neq] 1(5) False by metis
      have e: "add_probe cs fd start idx = add_probe cs fd start ?n"
        using False neq 1(2-4) by (subst add_probe.simps) (auto simp: Let_def split: if_splits)
      show ?thesis
        unfolding e using 1(1) [OF _ False refl refl neq] 1(2-4) n p by simp
    qed
  qed
qed

lemma get_probe_spec:
  assumes "length cs = MAXCLIENT" "start < MAXCLIENT" "idx < MAXCLIENT"
    and "\<forall>j < MAXCLIENT. passed start idx j \<longrightarrow> cs ! j \<noteq> fd"
  shows "if fd \<in> set cs then \<exists>j < MAXCLIENT. cs ! j = fd \<and> get_probe cs fd start idx = Inr (int j)
    else get_probe cs fd start idx = Inr (-1)"
  using assms
proof (induction cs fd start idx rule: get_probe.induct)
  case (1 cs fd start idx)
  let ?n = "if idx + 1 = MAXCLIENT then 0 else idx + 1"
  have n: "?n < MAXCLIENT" using 1(4) by simp
  show ?case
  proof (cases "cs ! idx = fd")
    case True
    then have "get_probe cs fd start idx = Inr (int idx)"
      using 1(2-4) by (subst get_probe.simps) simp
    moreover have "fd \<in> set cs" using True 1(2,4) by (metis nth_mem)
    ultimately show ?thesis using True 1(4) by auto
  next
    case False
    show ?thesis
    proof (cases "?n = start")
      case True
      have "\<forall>j < MAXCLIENT. cs ! j \<noteq> fd"
        using passed_all [OF 1(4,3) _ True] 1(5) False by metis
      then have "fd \<notin> set cs" using 1(2) by (metis in_set_conv_nth)
      moreover have "get_probe cs fd start idx = Inr (-1)"
        using False True 1(2-4) by (subst get_probe.simps) (auto simp: Let_def split: if_splits)
      ultimately show ?thesis by simp
    next
      case neq: False
      have p: "\<forall>j < MAXCLIENT. passed start ?n j \<longrightarrow> cs ! j \<noteq> fd"
        using passed_next [OF 1(4,3) _ neq] 1(5) False by metis
      have e: "get_probe cs fd start idx = get_probe cs fd start ?n"
        using False neq 1(2-4) by (subst get_probe.simps) (auto simp: Let_def split: if_splits)
      show ?thesis
        unfolding e using 1(1) [OF _ False refl refl neq] 1(2-4) n p by simp
    qed
  qed
qed

lemma epoll_add_spec: "length cs = MAXCLIENT \<Longrightarrow>
    if 0 \<in> set cs then \<exists>j < MAXCLIENT. cs ! j = 0 \<and> epoll_add_idx cs fd = Inr (cs[j := fd], int j)
    else epoll_add_idx cs fd = Inr (cs, -1)"
  unfolding epoll_add_idx_def by (rule add_probe_spec) simp_all

lemma epoll_get_spec: "length cs = MAXCLIENT \<Longrightarrow>
    if fd \<in> set cs then \<exists>j < MAXCLIENT. cs ! j = fd \<and> epoll_get_idx cs fd = Inr (int j)
    else epoll_get_idx cs fd = Inr (-1)"
  unfolding epoll_get_idx_def by (rule get_probe_spec) simp_all

section \<open>Lemmas on reading\<close>

lemma read_loop_chunks:
  assumes "\<forall>i < length ds. rd (k + i) = RdData (ds ! i)" "rd (k + length ds) = RdAgain"
    and "v \<le> MAXBUFFLEN" "length buf = MAXBUFFLEN"
  shows "read_loop rd k v buf = Some (True, min MAXBUFFLEN (v + length (concat ds)),
    write_at buf v (take (MAXBUFFLEN - v) (concat ds)))"
  using assms
proof (induction ds arbitrary: k v buf)
  case Nil
  then show ?case by (subst read_loop.simps) (auto simp: write_at_def)
next
  case (Cons d ds)
  show ?case
  proof (cases "v < MAXBUFFLEN")
    case False
    then show ?thesis using Cons.prems by (subst read_loop.simps) (simp add: write_at_def)
  next
    case True
    define e where "e = take (MAXBUFFLEN - v) d"
    have r: "rd k = RdData d" using Cons.prems(1) by auto
    have l: "length e = min (MAXBUFFLEN - v) (length d)" by (simp add: e_def)
    have wl: "length (write_at buf v e) = MAXBUFFLEN"
      using Cons.prems(4) True l by (simp add: write_at_def)
    have 1: "read_loop rd k v buf = read_loop rd (k + 1) (v + length e) (write_at buf v e)"
      using True r by (subst read_loop.simps) (simp add: e_def Let_def)
    have 2: "read_loop rd (k + 1) (v + length e) (write_at buf v e) =
        Some (True, min MAXBUFFLEN (v + length e + length (concat ds)),
          write_at (write_at buf v e) (v + length e) (take (MAXBUFFLEN - (v + length e)) (concat ds)))"
      using Cons.prems l True wl by (intro Cons.IH) (auto simp: nth_Cons' dest: spec [of _ "Suc _"])
    have 3: "write_at (write_at buf v e) (v + length e) x = write_at buf v (e @ x)" for x
      using Cons.prems(4) True l by (simp add: write_at_def add_ac)
    have 4: "e @ take (MAXBUFFLEN - (v + length e)) (concat ds) = take (MAXBUFFLEN - v) (concat (d # ds))"
      using l by (auto simp: e_def min_def)
    have 5: "min MAXBUFFLEN (v + length e + length (concat ds)) = min MAXBUFFLEN (v + length (concat (d # ds)))"
      using l True by auto
    show ?thesis unfolding 1 2 3 4 5 ..
  qed
qed

lemma read_delivers: "delivers rd ds \<Longrightarrow> length buf = MAXBUFFLEN \<Longrightarrow>
    read_loop rd 0 0 buf = Some (True, min MAXBUFFLEN (length (concat ds)), stored buf ds)"
  using read_loop_chunks [of ds rd 0 0 buf] by (simp add: delivers_def stored_def)

text \<open>At the end of the stream \<open>read\<close> returns 0 for ever, and so does the loop run.\<close>

lemma read_loop_returns:
  assumes "read_loop rd k v buf = Some y"
  shows "(\<forall>i. rd i = RdData []) \<longrightarrow> MAXBUFFLEN \<le> v"
proof (rule read_loop.raw_induct [where P = "\<lambda>rd k v buf y. (\<forall>i. rd i = RdData []) \<longrightarrow> MAXBUFFLEN \<le> v", OF _ assms],
    intro impI, rule ccontr)
  fix f :: "(nat \<Rightarrow> rdres) \<Rightarrow> nat \<Rightarrow> nat \<Rightarrow> bytes \<Rightarrow> (bool \<times> nat \<times> bytes) option"
    and rd :: "nat \<Rightarrow> rdres" and k v :: nat and buf :: bytes and y :: "bool \<times> nat \<times> bytes"
  assume IH: "\<And>rd k v buf y. f rd k v buf = Some y \<Longrightarrow> (\<forall>i. rd i = RdData []) \<longrightarrow> MAXBUFFLEN \<le> v"
    and body: "(if v < MAXBUFFLEN then case rd k of
        RdData d \<Rightarrow> let d = take (MAXBUFFLEN - v) d in f rd (k + 1) (v + length d) (write_at buf v d)
      | RdAgain \<Rightarrow> Some (True, v, buf) | RdErr \<Rightarrow> Some (False, v, buf)
      else Some (True, v, buf)) = Some y"
    and rd: "\<forall>i. rd i = RdData []" and v: "\<not> MAXBUFFLEN \<le> v"
  have "f rd (k + 1) v (write_at buf v []) = Some y"
    using body rd v by (simp add: Let_def)
  from IH [OF this] rd v show False by simp
qed

lemma read_loop_eof: "\<forall>i. rd i = RdData [] \<Longrightarrow> v < MAXBUFFLEN \<Longrightarrow> read_loop rd k v buf = None"
  using read_loop_returns [of rd k v buf] by (cases "read_loop rd k v buf") auto

section \<open>Lemmas on the servers\<close>

text \<open>The poll server serves the slots one after the other, as long as events are left.\<close>

lemma poll_serve_all:
  assumes "length (pollfds s) = Suc n" "length (p_buff s) = n" "\<forall>b\<in>set (p_buff s). length b = MAXBUFFLEN"
    and "\<forall>i \<in> {1..n}. pollfds s ! i \<noteq> 0" "\<forall>c. delivers (w_read w c) (ch c)"
    and "a \<le> n" "event = int (card {i \<in> {a..<n}. w_ready w (pollfds s ! (i + 1))})"
    and "\<forall>i. rv i = w_ready w (pollfds s ! i)"
  shows "\<exists>s'. poll_serve w rv [a + 1..<n + 1] (s, event) = Some (Inr s') \<and> pollfds s' = pollfds s \<and>
    p_keep s' = p_keep s \<and> p_connections s' = p_connections s \<and> length (p_buff s') = n \<and>
    (\<forall>i < n. p_buff s' ! i = (if a \<le> i then served w ch s i else p_buff s ! i))"
  using assms
proof (induction "n - a" arbitrary: a s event)
  case 0
  then show ?case by simp
next
  case (Suc m)
  have an: "a < n" using Suc(2) by simp
  have u: "[a + 1..<n + 1] = (a + 1) # [(a + 1) + 1..<n + 1]" using an by (simp add: upt_conv_Cons)
  have c: "pollfds s ! (a + 1) \<noteq> 0" using Suc.prems(4) an by auto
  let ?R = "\<lambda>a. {i \<in> {a..<n}. w_ready w (pollfds s ! (i + 1))}"
  show ?case
  proof (cases "w_ready w (pollfds s ! (a + 1))")
    case True
    have R: "?R a = insert a (?R (a + 1))" using True an by auto
    then have ev: "event = int (card (?R (a + 1))) + 1"
      using Suc.prems(7) by (simp add: card_insert_if)
    define b where "b = stored (p_buff s ! a) (ch (pollfds s ! (a + 1)))"
    have la: "length (p_buff s ! a) = MAXBUFFLEN" using Suc.prems(2,3) an by simp
    define s1 where "s1 = s\<lparr>p_buff := (p_buff s)[a := b]\<rparr>"
    have rl: "read_loop (w_read w (pollfds s ! (a + 1))) 0 0 (p_buff s ! a) =
        Some (True, min MAXBUFFLEN (length (concat (ch (pollfds s ! (a + 1))))), b)"
      unfolding b_def using Suc.prems(5) la by (intro read_delivers) auto
    have st: "poll_serve w rv [a + 1..<n + 1] (s, event) = poll_serve w rv [(a + 1) + 1..<n + 1] (s1, event - 1)"
      unfolding u using True c ev Suc.prems(1,2,8) an rl
      by (simp add: Let_def poll_read_def s1_def del: upt_Suc)
    have lb: "length b = MAXBUFFLEN" using la by (simp add: b_def stored_def write_at_def)
    have "\<exists>s'. poll_serve w rv [(a + 1) + 1..<n + 1] (s1, event - 1) = Some (Inr s') \<and> pollfds s' = pollfds s1 \<and>
        p_keep s' = p_keep s1 \<and> p_connections s' = p_connections s1 \<and> length (p_buff s') = n \<and>
        (\<forall>i < n. p_buff s' ! i = (if a + 1 \<le> i then served w ch s1 i else p_buff s1 ! i))"
    proof (rule Suc.hyps(1))
      show "m = n - (a + 1)" using Suc(2) by simp
      show "\<forall>b\<in>set (p_buff s1). length b = MAXBUFFLEN"
        using Suc.prems(3) lb by (auto simp: s1_def dest!: set_update_subset_insert [THEN subsetD])
      show "event - 1 = int (card {i \<in> {a + 1..<n}. w_ready w (pollfds s1 ! (i + 1))})"
        using ev by (simp add: s1_def)
    qed (use Suc.prems an in \<open>auto simp: s1_def\<close>)
    then obtain s' where s': "poll_serve w rv [(a + 1) + 1..<n + 1] (s1, event - 1) = Some (Inr s')"
        "pollfds s' = pollfds s1" "p_keep s' = p_keep s1" "p_connections s' = p_connections s1"
        "length (p_buff s') = n"
        "\<forall>i < n. p_buff s' ! i = (if a + 1 \<le> i then served w ch s1 i else p_buff s1 ! i)"
      by blast
    have "p_buff s' ! i = (if a \<le> i then served w ch s i else p_buff s ! i)" if "i < n" for i
      using s'(6) that Suc.prems(2) True
      by (cases "i = a") (auto simp: s1_def served_def b_def)
    then show ?thesis using s' unfolding st by (auto simp: s1_def)
  next
    case False
    have R: "?R a = ?R (a + 1)" using False an by (auto simp: le_eq_less_or_eq [of a] Suc_le_eq)
    show ?thesis
    proof (cases "event = 0")
      case True
      then have "?R a = {}" using Suc.prems(7) by simp
      then have "\<forall>i < n. a \<le> i \<longrightarrow> served w ch s i = p_buff s ! i" by (auto simp: served_def)
      then show ?thesis using True Suc.prems(2) unfolding u by (auto simp del: upt_Suc)
    next
      case ev: False
      have st: "poll_serve w rv [a + 1..<n + 1] (s, event) = poll_serve w rv [(a + 1) + 1..<n + 1] (s, event)"
        unfolding u using False c ev Suc.prems(1,8) an by (simp add: Let_def del: upt_Suc)
      have "\<exists>s'. poll_serve w rv [(a + 1) + 1..<n + 1] (s, event) = Some (Inr s') \<and> pollfds s' = pollfds s \<and>
          p_keep s' = p_keep s \<and> p_connections s' = p_connections s \<and> length (p_buff s') = n \<and>
          (\<forall>i < n. p_buff s' ! i = (if a + 1 \<le> i then served w ch s i else p_buff s ! i))"
        by (rule Suc.hyps(1)) (use Suc(2) Suc.prems an R in auto)
      then obtain s' where s': "poll_serve w rv [(a + 1) + 1..<n + 1] (s, event) = Some (Inr s')"
          "pollfds s' = pollfds s" "p_keep s' = p_keep s" "p_connections s' = p_connections s" "length (p_buff s') = n"
          "\<forall>i < n. p_buff s' ! i = (if a + 1 \<le> i then served w ch s i else p_buff s ! i)"
        by blast
      have "p_buff s' ! i = (if a \<le> i then served w ch s i else p_buff s ! i)" if "i < n" for i
        using s'(6) that False by (cases "i = a") (auto simp: served_def)
      then show ?thesis using s' unfolding st by auto
    qed
  qed
qed

lemma select_fds_fault: "\<exists>c\<in>set cs. FD_SETSIZE \<le> c \<Longrightarrow> select_fds fd cs = Inl OutOfBounds"
proof -
  assume c: "\<exists>c\<in>set cs. FD_SETSIZE \<le> c"
  have "foldR (\<lambda>m c. bindR (if c > 0 then FD_SET c else Inr ()) (\<lambda>_. Inr (if c > m then c else m))) m cs = Inl OutOfBounds" for m
    using c
  proof (induction cs arbitrary: m)
    case (Cons x cs)
    then show ?case
      by (cases "FD_SETSIZE \<le> x") (auto simp: FD_SET_def FD_SETSIZE_def)
  qed simp
  then show ?thesis by (simp add: select_fds_def FD_SET_def)
qed

lemma many_fds: "distinct cs \<Longrightarrow> length cs = MAXCLIENT \<Longrightarrow> \<exists>c\<in>set cs. FD_SETSIZE \<le> c"
proof (rule ccontr)
  assume d: "distinct cs" "length cs = MAXCLIENT" and n: "\<not> (\<exists>c\<in>set cs. FD_SETSIZE \<le> c)"
  have "set cs \<subseteq> {..<FD_SETSIZE}" using n by auto
  then have "card (set cs) \<le> FD_SETSIZE" using card_mono [of "{..<FD_SETSIZE}"] by fastforce
  then show False using d by (simp add: distinct_card MAXCLIENT_def FD_SETSIZE_def)
qed

section \<open>Lemmas on the invariant\<close>

lemma read_loop_total:
  assumes "\<forall>i. rd i \<noteq> RdData []" "v \<le> MAXBUFFLEN" "length buf = MAXBUFFLEN"
  shows "\<exists>ok n buf'. read_loop rd k v buf = Some (ok, n, buf') \<and> length buf' = MAXBUFFLEN"
  using assms(2,3)
proof (induction "MAXBUFFLEN - v" arbitrary: k v buf rule: less_induct)
  case less
  show ?case
  proof (cases "v < MAXBUFFLEN")
    case False
    then show ?thesis using less.prems by (subst read_loop.simps) auto
  next
    case True
    show ?thesis
    proof (cases "rd k")
      case (RdData d)
      define e where "e = take (MAXBUFFLEN - v) d"
      have e: "0 < length e" "length e \<le> MAXBUFFLEN - v"
        using assms(1) RdData True by (auto simp: e_def)
      have 1: "read_loop rd k v buf = read_loop rd (k + 1) (v + length e) (write_at buf v e)"
        using True RdData by (subst read_loop.simps) (simp add: e_def Let_def)
      show ?thesis unfolding 1
      proof (rule less.hyps)
        show "MAXBUFFLEN - (v + length e) < MAXBUFFLEN - v" using e True by linarith
      qed (use e True less.prems in \<open>simp_all add: write_at_def\<close>)
    qed (use True less.prems in \<open>(subst read_loop.simps, auto)+\<close>)
  qed
qed

lemma bufs_ok_update: "bufs_ok bs \<Longrightarrow> length b = MAXBUFFLEN \<Longrightarrow> bufs_ok (bs[i := b])"
  by (auto simp: bufs_ok_def dest!: set_update_subset_insert [THEN subsetD])

lemma bufs_ok_nth: "bufs_ok bs \<Longrightarrow> i < MAXCLIENT \<Longrightarrow> i < length bs \<and> length (bs ! i) = MAXBUFFLEN"
  by (simp add: bufs_ok_def)

lemma taken_update: "i < length cs \<Longrightarrow> cs ! i = 0 \<Longrightarrow> c \<noteq> 0 \<Longrightarrow> taken (cs[i := c]) = taken cs + 1"
proof (induction cs arbitrary: i)
  case (Cons x xs)
  then show ?case by (cases i) (auto simp: taken_def)
qed simp

lemma upd_first_free: "upd_first (\<lambda>x. x = 0) (\<lambda>_. c) cs = Some cs' \<Longrightarrow>
    \<exists>i < length cs. cs ! i = 0 \<and> cs' = cs[i := c]"
proof (induction cs arbitrary: cs')
  case (Cons x xs)
  show ?case
  proof (cases "x = 0")
    case True
    then show ?thesis using Cons.prems by (intro exI [of _ 0]) auto
  next
    case False
    then obtain ys where ys: "upd_first (\<lambda>x. x = 0) (\<lambda>_. c) xs = Some ys" "cs' = x # ys"
      using Cons.prems by (auto split: option.splits)
    from Cons.IH [OF ys(1)] obtain i where "i < length xs" "xs ! i = 0" "ys = xs[i := c]" by blast
    then show ?thesis using ys(2) by (intro exI [of _ "Suc i"]) simp
  qed
qed simp

lemma poll_free_Some: "poll_free fds c is = Some fds' \<Longrightarrow>
    \<exists>i\<in>set is. i < length fds \<and> fds ! i = 0 \<and> fds' = fds[i := c]"
  by (induction "is") (auto split: if_splits)

text \<open>Reading a client, and the loops over the clients, keep the invariant.\<close>

lemma read_client_ok:
  assumes "srv_ok s" "\<forall>i. rd i \<noteq> RdData []" "i < MAXCLIENT"
  shows "\<exists>s'. read_client rd i s = Some (Inr s') \<and> srv_ok s' \<and> client_fds s' = client_fds s"
proof -
  have b: "i < length (client_buff s)" "length (client_buff s ! i) = MAXBUFFLEN"
    using assms bufs_ok_nth by (auto simp: srv_ok_def)
  obtain ok n buf where "read_loop rd 0 0 (client_buff s ! i) = Some (ok, n, buf)" "length buf = MAXBUFFLEN"
    using read_loop_total [OF assms(2) _ b(2), of 0 0] by auto
  then show ?thesis using assms(1) b by (simp add: read_client_def srv_ok_def bufs_ok_update)
qed

lemma poll_read_ok:
  assumes "psrv_ok s" "\<forall>i. rd i \<noteq> RdData []" "i < MAXCLIENT"
  shows "\<exists>s'. poll_read rd i s = Some (Inr s') \<and> psrv_ok s' \<and> pollfds s' = pollfds s"
proof -
  have b: "i < length (p_buff s)" "length (p_buff s ! i) = MAXBUFFLEN"
    using assms bufs_ok_nth by (auto simp: psrv_ok_def)
  obtain ok n buf where "read_loop rd 0 0 (p_buff s ! i) = Some (ok, n, buf)" "length buf = MAXBUFFLEN"
    using read_loop_total [OF assms(2) _ b(2), of 0 0] by auto
  then show ?thesis using assms(1) b by (simp add: poll_read_def psrv_ok_def bufs_ok_update)
qed

lemma select_serve_ok:
  assumes "srv_ok s" "world_ok w" "\<forall>i\<in>set is. i < MAXCLIENT"
  shows "select_serve w is (s, event) = Some (Inl OutOfBounds) \<or>
    (\<exists>s'. select_serve w is (s, event) = Some (Inr s') \<and> srv_ok s')"
  using assms(1,3)
proof (induction "is" arbitrary: s event)
  case (Cons i "is")
  have rd: "\<forall>k. w_read w c k \<noteq> RdData []" for c using assms(2) by (simp add: world_ok_def)
  obtain s' where "read_client (w_read w (client_fds s ! i)) i s = Some (Inr s')" "srv_ok s'"
    using read_client_ok [OF Cons.prems(1) rd, of i "client_fds s ! i"] Cons.prems(2) by auto
  then show ?case using Cons by (simp add: Let_def)
qed simp

lemma poll_serve_ok:
  assumes "psrv_ok s" "world_ok w" "\<forall>i\<in>set is. 1 \<le> i \<and> i \<le> MAXCLIENT"
  shows "\<exists>s'. poll_serve w rv is (s, event) = Some (Inr s') \<and> psrv_ok s'"
  using assms(1,3)
proof (induction "is" arbitrary: s event)
  case (Cons i "is")
  have rd: "\<forall>k. w_read w c k \<noteq> RdData []" for c using assms(2) by (simp add: world_ok_def)
  have i: "i - 1 < MAXCLIENT" "i < length (pollfds s)" using Cons.prems by (auto simp: psrv_ok_def)
  obtain s' where "poll_read (w_read w (pollfds s ! i)) (i - 1) s = Some (Inr s')" "psrv_ok s'"
    using poll_read_ok [OF Cons.prems(1) rd i(1)] by auto
  then show ?case using Cons i(2) by (simp add: Let_def)
qed simp

lemma select_accept_ok: "srv_ok s \<Longrightarrow> world_ok w \<Longrightarrow> srv_ok (fst (select_accept w fd (s, event)))"
  by (auto simp: select_accept_def world_ok_def srv_ok_def Let_def taken_update
    dest!: upd_first_free split: option.splits)

lemma poll_accept_ok:
  assumes "psrv_ok s" "world_ok w"
  shows "psrv_ok (fst (poll_accept w rv (s, event)))"
proof -
  have "psrv_ok (s\<lparr>pollfds := fds, p_connections := p_connections s + 1\<rparr>)"
    if c: "poll_free (pollfds s) c [1..<client_num + 1] = Some fds" "c \<noteq> 0" for c fds
  proof -
    obtain i where i: "1 \<le> i" "i < length (pollfds s)" "pollfds s ! i = 0" "fds = (pollfds s)[i := c]"
      using poll_free_Some [OF c(1)] by auto
    obtain k where k: "i = Suc k" using i(1) by (cases i) auto
    have "tl fds = (tl (pollfds s))[k := c]" using i(4) k by (cases "pollfds s") simp_all
    moreover have "k < length (tl (pollfds s))" "tl (pollfds s) ! k = 0" using i k by (auto simp: nth_tl)
    ultimately have "taken (tl fds) = taken (tl (pollfds s)) + 1" using c(2) by (simp add: taken_update)
    then show ?thesis using assms(1) i(4) by (simp add: psrv_ok_def)
  qed
  then show ?thesis using assms by (auto simp: poll_accept_def world_ok_def Let_def split: option.splits)
qed

lemma select_iter_ok:
  assumes "srv_ok s" "world_ok w"
  shows "select_iter w fd s = Some (Inl OutOfBounds) \<or> (\<exists>s'. select_iter w fd s = Some (Inr s') \<and> srv_ok s')"
proof -
  obtain s1 ev where a: "select_accept w fd (s, w_event w) = (s1, ev)" by fastforce
  have "srv_ok s1" using select_accept_ok [OF assms, of fd "w_event w"] a by simp
  then have "srv_ok (s1\<lparr>connections_printed := True\<rparr>)" by (simp add: srv_ok_def)
  note S = select_serve_ok [OF this assms(2), of "[0..<client_num]" ev]
  have "select_fds fd cs = Inl e \<Longrightarrow> e = OutOfBounds" for cs e
  proof -
    have "foldR (\<lambda>m c. bindR (if c > 0 then FD_SET c else Inr ()) (\<lambda>_. Inr (if c > m then c else m))) m cs = Inl e
      \<Longrightarrow> e = OutOfBounds" for m
      by (induction cs arbitrary: m) (auto simp: FD_SET_def split: if_splits)
    then show "select_fds fd cs = Inl e \<Longrightarrow> e = OutOfBounds"
      by (auto simp: select_fds_def FD_SET_def split: if_splits)
  qed
  moreover have "srv_ok (s\<lparr>keep := False\<rparr>)" using assms(1) by (simp add: srv_ok_def)
  ultimately show ?thesis using S \<open>srv_ok s1\<close> a
    by (auto simp: select_iter_def client_num_def split: sum.splits)
qed

lemma poll_iter_ok:
  assumes "psrv_ok s" "world_ok w"
  shows "\<exists>s'. poll_iter w s = Some (Inr s') \<and> psrv_ok s'"
proof -
  let ?rv = "\<lambda>i. w_ready w (pollfds s ! i)"
  obtain s1 ev where a: "poll_accept w ?rv (s, w_event w) = (s1, ev)" by fastforce
  have 1: "psrv_ok s1" using poll_accept_ok [OF assms, of ?rv "w_event w"] a by simp
  then have "psrv_ok (s1\<lparr>p_printed := True\<rparr>)" by (simp add: psrv_ok_def)
  from poll_serve_ok [OF this assms(2), of "[1..<client_num + 1]" ?rv ev] 1 a show ?thesis
    by (simp add: poll_iter_def client_num_def del: upt_Suc)
qed

lemma epoll_event_ok:
  assumes "srv_ok s" "world_ok w"
  shows "\<exists>s'. epoll_event w ctl fd bad efd s = Some (Inr s') \<and> srv_ok s'"
proof -
  have l: "length (client_fds s) = MAXCLIENT" using assms(1) by (simp add: srv_ok_def)
  have p: "srv_ok (s\<lparr>connections_printed := True\<rparr>)" using assms(1) by (simp add: srv_ok_def)
  have add: "\<exists>cs idx. epoll_add_idx (client_fds s) c = Inr (cs, idx) \<and>
      (if idx < 0 then cs = client_fds s else length cs = MAXCLIENT \<and> taken cs = taken (client_fds s) + 1)" if "c \<noteq> 0" for c
  proof (cases "0 \<in> set (client_fds s)")
    case True
    then obtain j where "j < MAXCLIENT" "client_fds s ! j = 0" "epoll_add_idx (client_fds s) c = Inr ((client_fds s)[j := c], int j)"
      using epoll_add_spec [OF l, of c] by auto
    then show ?thesis using taken_update [of j "client_fds s" c] that l by simp
  next
    case False
    then show ?thesis using epoll_add_spec [OF l, of c] by simp
  qed
  have get: "\<exists>idx. epoll_get_idx (client_fds s) c = Inr idx \<and> (0 \<le> idx \<longrightarrow> nat idx < MAXCLIENT)" for c
    using epoll_get_spec [OF l, of c] by (auto split: if_splits)
  have rd: "\<forall>k. w_read w c k \<noteq> RdData []" for c using assms(2) by (simp add: world_ok_def)
  show ?thesis
  proof (cases "bad \<or> efd = fd")
    case True
    show ?thesis
    proof (cases "bad \<or> w_accept w = None \<or> \<not> w_nonblock w \<or> \<not> ctl")
      case True
      then show ?thesis using assms(1) \<open>bad \<or> efd = fd\<close> by (auto simp: epoll_event_def split: option.splits)
    next
      case False
      then obtain c where c: "w_accept w = Some c" "c \<noteq> 0" using assms(2) by (auto simp: world_ok_def)
      with add obtain cs idx where a: "epoll_add_idx (client_fds s) c = Inr (cs, idx)"
        "if idx < 0 then cs = client_fds s else length cs = MAXCLIENT \<and> taken cs = taken (client_fds s) + 1" by blast
      show ?thesis using False \<open>bad \<or> efd = fd\<close> c a assms(1)
        by (auto simp: epoll_event_def srv_ok_def split: if_splits)
    qed
  next
    case False
    obtain idx where i: "epoll_get_idx (client_fds s) efd = Inr idx" "0 \<le> idx \<longrightarrow> nat idx < MAXCLIENT"
      using get by blast
    obtain s' where "0 \<le> idx \<longrightarrow> read_client (w_read w efd) (nat idx) (s\<lparr>connections_printed := True\<rparr>) = Some (Inr s') \<and> srv_ok s'"
      using read_client_ok [OF p rd] i(2) by blast
    then show ?thesis using False i(1) p assms(1) by (auto simp: epoll_event_def Let_def not_less)
  qed
qed

lemma epoll_iter_ok: "srv_ok s \<Longrightarrow> \<forall>(w, _)\<in>set es. world_ok w \<Longrightarrow> \<exists>s'. epoll_iter fd es s = Some (Inr s') \<and> srv_ok s'"
proof (induction es arbitrary: s)
  case (Cons e es)
  obtain w ctl bad efd where e: "e = (w, ctl, bad, efd)" by (cases e)
  obtain s1 where "epoll_event w ctl fd bad efd s = Some (Inr s1)" "srv_ok s1"
    using epoll_event_ok [OF Cons.prems(1), of w ctl fd bad efd] Cons.prems(2) e by auto
  then show ?case using Cons e by simp
qed simp

text \<open>A loop keeps what each of its iterations keeps.\<close>

lemma keep_loop_ok:
  assumes "\<And>w s. w \<in> set ws \<Longrightarrow> I s \<Longrightarrow> it w s = Some (Inl e) \<or> (\<exists>s'. it w s = Some (Inr s') \<and> I s')" "I s"
  shows "keep_loop kp it ws s = Some (Inl e) \<or> (\<exists>s'. keep_loop kp it ws s = Some (Inr s') \<and> I s')"
  using assms
proof (induction ws arbitrary: s)
  case (Cons w ws)
  have IH: "I s' \<Longrightarrow> keep_loop kp it ws s' = Some (Inl e) \<or> (\<exists>s''. keep_loop kp it ws s' = Some (Inr s'') \<and> I s'')" for s'
    by (rule Cons.IH) (use Cons.prems(1) in auto)
  show ?case using Cons.prems(1) [of w s] Cons.prems(2) by (auto dest: IH)
qed simp

lemma keep_loop_total:
  assumes "\<And>w s. w \<in> set ws \<Longrightarrow> I s \<Longrightarrow> \<exists>s'. it w s = Some (Inr s') \<and> I s'" "I s"
  shows "\<exists>s'. keep_loop kp it ws s = Some (Inr s') \<and> I s'"
  using assms
proof (induction ws arbitrary: s)
  case (Cons w ws)
  have IH: "I s' \<Longrightarrow> \<exists>s''. keep_loop kp it ws s' = Some (Inr s'') \<and> I s''" for s'
    by (rule Cons.IH) (use Cons.prems(1) in auto)
  show ?case using Cons.prems(1) [of w s] Cons.prems(2) IH by auto
qed simp

lemma taken_free: "taken (replicate n 0) = 0"
  by (simp add: taken_def)

lemma srv_init_ok: "bufs_ok bufs \<Longrightarrow> srv_ok (srv_init bufs)"
  by (simp add: srv_ok_def srv_init_def taken_free)

lemma poll_init_ok: "bufs_ok bufs \<Longrightarrow> psrv_ok (poll_init fd bufs)"
  by (simp add: psrv_ok_def poll_init_def client_num_def taken_free)

section \<open>Properties\<close>

text \<open>
  The slots of the epoll server. Adding a new client takes a free slot if there is one, looking the client up then finds that slot, and every client that was connected is still found in its own slot; when no slot is free, both report -1 and the table is unchanged.
\<close>

lemma tenk_slots:
  assumes "length cs = MAXCLIENT" "\<forall>i < MAXCLIENT. \<forall>j < MAXCLIENT. cs ! i = cs ! j \<and> cs ! i \<noteq> 0 \<longrightarrow> i = j"
    and "fd \<noteq> 0" "fd \<notin> set cs"
  shows "if 0 \<in> set cs then
      \<exists>j < MAXCLIENT. cs ! j = 0 \<and> epoll_add_idx cs fd = Inr (cs[j := fd], int j) \<and>
        epoll_get_idx (cs[j := fd]) fd = Inr (int j) \<and>
        (\<forall>i < MAXCLIENT. cs ! i \<noteq> 0 \<longrightarrow> epoll_get_idx (cs[j := fd]) (cs ! i) = Inr (int i))
    else epoll_add_idx cs fd = Inr (cs, -1) \<and> epoll_get_idx cs fd = Inr (-1)"
proof (cases "0 \<in> set cs")
  case True
  then obtain j where j: "j < MAXCLIENT" "cs ! j = 0" "epoll_add_idx cs fd = Inr (cs[j := fd], int j)"
    using epoll_add_spec [OF assms(1), of fd] by auto
  let ?c = "cs[j := fd]"
  have l: "length ?c = MAXCLIENT" using assms(1) by simp
  have u: "epoll_get_idx ?c (?c ! i) = Inr (int i)" if i: "i < MAXCLIENT" "?c ! i \<noteq> 0" for i
  proof -
    have "?c ! i \<in> set ?c" using i(1) l by simp
    then obtain k where k: "k < MAXCLIENT" "?c ! k = ?c ! i" "epoll_get_idx ?c (?c ! i) = Inr (int k)"
      using epoll_get_spec [OF l, of "?c ! i"] by auto
    have "fd \<noteq> cs ! x" if "x < MAXCLIENT" for x using assms(1,4) that by (metis nth_mem)
    then have "k = i"
      using k(1,2) i assms(1,2) j(1) by (cases "k = j"; cases "i = j") (auto simp: nth_list_update)
    then show ?thesis using k(3) by simp
  qed
  have f: "?c ! j = fd" using j assms(1) by simp
  have "epoll_get_idx ?c fd = Inr (int j)" using u [OF j(1)] f assms(3) by simp
  moreover have "epoll_get_idx ?c (cs ! i) = Inr (int i)" if "i < MAXCLIENT" "cs ! i \<noteq> 0" for i
  proof -
    have "?c ! i = cs ! i" using that j(2) by (cases "i = j") auto
    then show ?thesis using u [of i] that by simp
  qed
  ultimately show ?thesis using True j by auto
next
  case False
  then show ?thesis
    using epoll_add_spec [OF assms(1), of fd] epoll_get_spec [OF assms(1), of fd] assms(4) by simp
qed

theorem tenk_slots_witness:
  "\<exists>j < MAXCLIENT. epoll_add_idx (replicate MAXCLIENT 0) 7 = Inr ((replicate MAXCLIENT 0)[j := 7], int j) \<and>
     epoll_get_idx ((replicate MAXCLIENT 0)[j := 7]) 7 = Inr (int j)"
  using tenk_slots [of "replicate MAXCLIENT 0" 7] by auto

text \<open>
  Reading from a client. When the reads give the chunks of a message and then report that nothing is left for now, the loop returns, the first 65536 bytes of the message are at the start of the buffer, and the length of the buffer is unchanged. When the client has closed its connection, the loop does not return.
\<close>

lemma tenk_read:
  assumes "length buf = MAXBUFFLEN" "delivers rd ds" "\<forall>i. eof i = RdData []"
  shows "read_loop rd 0 0 buf = Some (True, min MAXBUFFLEN (length (concat ds)), stored buf ds) \<and>
    length (stored buf ds) = MAXBUFFLEN \<and>
    take (min MAXBUFFLEN (length (concat ds))) (stored buf ds) = take MAXBUFFLEN (concat ds) \<and>
    read_loop eof 0 0 buf = None"
proof (intro conjI)
  show "read_loop rd 0 0 buf = Some (True, min MAXBUFFLEN (length (concat ds)), stored buf ds)"
    by (rule read_delivers [OF assms(2,1)])
  show "length (stored buf ds) = MAXBUFFLEN"
    using assms(1) by (simp add: stored_def write_at_def)
  show "take (min MAXBUFFLEN (length (concat ds))) (stored buf ds) = take MAXBUFFLEN (concat ds)"
    by (simp add: stored_def write_at_def min_def)
  show "read_loop eof 0 0 buf = None"
    by (rule read_loop_eof [OF assms(3)]) (simp add: MAXBUFFLEN_def)
qed

theorem tenk_read_witness:
  "read_loop (\<lambda>i. if i = 0 then RdData [1, 2] else if i = 1 then RdData [3] else RdAgain) 0 0 (replicate MAXBUFFLEN 0) =
     Some (True, 3, stored (replicate MAXBUFFLEN 0) [[1, 2], [3]]) \<and>
   read_loop (\<lambda>_. RdData []) 0 0 (replicate MAXBUFFLEN 0) = None"
proof -
  let ?rd = "\<lambda>i :: nat. if i = 0 then RdData [1, 2] else if i = 1 then RdData [3] else RdAgain"
  have "delivers ?rd [[1, 2], [3]]" by (auto simp: delivers_def less_Suc_eq nth_Cons')
  from tenk_read [OF _ this, of "replicate MAXBUFFLEN 0" "\<lambda>_. RdData []"] show ?thesis
    by (simp add: MAXBUFFLEN_def)
qed

text \<open>
  One round of the poll server when all clients are connected: every ready client is read into the buffer of its own slot and no other buffer changes, and the round ends.
\<close>

lemma tenk_poll_serves:
  assumes "length (pollfds s) = MAXCLIENT + 1" "p_connections s = MAXCLIENT" "length (p_buff s) = MAXCLIENT"
    and "\<forall>b\<in>set (p_buff s). length b = MAXBUFFLEN" "\<forall>i\<in>{1..MAXCLIENT}. pollfds s ! i \<noteq> 0"
    and "\<not> w_ready w (pollfds s ! 0)" "\<forall>c. delivers (w_read w c) (ch c)"
    and "w_event w = int (card {i \<in> {0..<MAXCLIENT}. w_ready w (pollfds s ! (i + 1))})"
  shows "\<exists>s'. poll_iter w s = Some (Inr s') \<and> pollfds s' = pollfds s \<and> p_keep s' = p_keep s \<and>
    p_buff s' = map (served w ch s) [0..<MAXCLIENT]"
proof -
  let ?s = "s\<lparr>p_printed := True\<rparr>" and ?rv = "\<lambda>i. w_ready w (pollfds s ! i)"
  have e: "served w ch ?s i = served w ch s i" for i by (simp add: served_def)
  have "\<exists>s'. poll_serve w ?rv [0 + 1..<MAXCLIENT + 1] (?s, w_event w) = Some (Inr s') \<and> pollfds s' = pollfds ?s \<and>
      p_keep s' = p_keep ?s \<and> p_connections s' = p_connections ?s \<and> length (p_buff s') = MAXCLIENT \<and>
      (\<forall>i < MAXCLIENT. p_buff s' ! i = (if 0 \<le> i then served w ch ?s i else p_buff ?s ! i))"
    by (rule poll_serve_all) (use assms in simp_all)
  then obtain s' where s': "poll_serve w ?rv [0 + 1..<MAXCLIENT + 1] (?s, w_event w) = Some (Inr s')" "pollfds s' = pollfds s"
      "p_keep s' = p_keep s" "length (p_buff s') = MAXCLIENT"
      "\<forall>i < MAXCLIENT. p_buff s' ! i = served w ch s i"
    by (auto simp: e)
  have "p_buff s' = map (served w ch s) [0..<MAXCLIENT]"
    using s'(4,5) by (intro nth_equalityI) simp_all
  moreover have "poll_iter w s = Some (Inr s')"
    using s'(1) assms(2,6) by (simp add: poll_iter_def poll_accept_def client_num_def del: upt_Suc)
  ultimately show ?thesis using s' by blast
qed

theorem tenk_poll_serves_witness:
  "\<exists>s' w. poll_iter w \<lparr>pollfds = 3 # map (\<lambda>i. i + 4) [0..<MAXCLIENT], p_connections = MAXCLIENT, p_printed = False,
       p_keep = True, p_buff = replicate MAXCLIENT (replicate MAXBUFFLEN 0)\<rparr> = Some (Inr s') \<and>
     take 2 (p_buff s' ! 5) = [9, 9] \<and> p_buff s' ! 6 = replicate MAXBUFFLEN 0"
proof -
  let ?s = "\<lparr>pollfds = 3 # map (\<lambda>i. i + 4) [0..<MAXCLIENT], p_connections = MAXCLIENT, p_printed = False,
       p_keep = True, p_buff = replicate MAXCLIENT (replicate MAXBUFFLEN 0)\<rparr>"
  let ?w = "\<lparr>w_event = 1, w_eintr = False, w_ready = (\<lambda>c. c = 9), w_accept = None, w_nonblock = True,
       w_read = (\<lambda>c i. if i = 0 then RdData [9, 9] else RdAgain)\<rparr>"
  have "{i \<in> {0..<MAXCLIENT}. w_ready ?w (pollfds ?s ! (i + 1))} = {5}"
    by (auto simp: MAXCLIENT_def)
  then have ev: "w_event ?w = int (card {i \<in> {0..<MAXCLIENT}. w_ready ?w (pollfds ?s ! (i + 1))})"
    by simp
  have "\<exists>s'. poll_iter ?w ?s = Some (Inr s') \<and> pollfds s' = pollfds ?s \<and> p_keep s' = p_keep ?s \<and>
      p_buff s' = map (served ?w (\<lambda>_. [[9, 9]]) ?s) [0..<MAXCLIENT]"
    by (rule tenk_poll_serves [OF _ _ _ _ _ _ _ ev]) (auto simp: delivers_def nth_Cons')
  then obtain s' where s': "poll_iter ?w ?s = Some (Inr s')"
      "p_buff s' = map (served ?w (\<lambda>_. [[9, 9]]) ?s) [0..<MAXCLIENT]" by blast
  have "take 2 (p_buff s' ! 5) = [9, 9]" "p_buff s' ! 6 = replicate MAXBUFFLEN 0"
    unfolding s'(2) by (simp_all add: served_def stored_def write_at_def MAXCLIENT_def MAXBUFFLEN_def)
  then show ?thesis using s'(1) by blast
qed

text \<open>
  With all clients connected, the select server writes outside its \<open>fd_set\<close>, since some descriptor is at least 1024. The client writes to the first 101 connections only: threads from the third on have no connections at all.
\<close>

lemma tenk_faults:
  assumes "length cs = MAXCLIENT" "distinct cs" "client_fds s = cs" "2 \<le> tid"
  shows "select_iter w fd s = Some (Inl OutOfBounds) \<and>
    thread_fds 0 = [0..<100] \<and> thread_fds 1 = [100] \<and> thread_fds tid = []"
  using select_fds_fault [OF many_fds [OF assms(2,1)], of fd] assms(3,4)
  by (auto simp: select_iter_def thread_fds_def CLIENTS_PER_THREAD_def)

theorem tenk_faults_witness:
  "(\<forall>w fd. select_iter w fd \<lparr>client_fds = map (\<lambda>i. i + 4) [0..<MAXCLIENT], connections = MAXCLIENT, connections_printed = False,
     keep = True, client_buff = []\<rparr> = Some (Inl OutOfBounds)) \<and> thread_fds 99 = []"
  using tenk_faults [of "map (\<lambda>i. i + 4) [0..<MAXCLIENT]" "\<lparr>client_fds = map (\<lambda>i. i + 4) [0..<MAXCLIENT],
      connections = MAXCLIENT, connections_printed = False, keep = True, client_buff = []\<rparr>" 99]
  by (simp add: distinct_map)

text \<open>
  C18. The servers as a whole. As long as no client closes its connection, the poll and the epoll server run through any sequence of events without leaving an array or stopping in a loop, the number of connections is always the number of slots taken, and all buffers keep their sizes; the select server either does the same or writes outside its \<open>fd_set\<close>.
\<close>

theorem tenk_servers:
  assumes "bufs_ok bufs" "\<forall>w\<in>set ws. world_ok w" "\<forall>es\<in>set ess. \<forall>(w, _)\<in>set es. world_ok w"
  shows "(\<exists>s. run_poll fd bufs ws = Some (Inr s) \<and> psrv_ok s) \<and>
    (\<exists>s. run_epoll fd bufs ess = Some (Inr s) \<and> srv_ok s) \<and>
    (run_select fd bufs ws = Some (Inl OutOfBounds) \<or> (\<exists>s. run_select fd bufs ws = Some (Inr s) \<and> srv_ok s))"
  unfolding run_poll_def run_epoll_def run_select_def
proof (intro conjI)
  show "\<exists>s. keep_loop p_keep poll_iter ws (poll_init fd bufs) = Some (Inr s) \<and> psrv_ok s"
    by (rule keep_loop_total) (use assms poll_iter_ok poll_init_ok in auto)
  show "\<exists>s. keep_loop keep (epoll_iter fd) ess (srv_init bufs) = Some (Inr s) \<and> srv_ok s"
    by (rule keep_loop_total) (use assms epoll_iter_ok srv_init_ok in auto)
  show "keep_loop keep (\<lambda>w. select_iter w fd) ws (srv_init bufs) = Some (Inl OutOfBounds) \<or>
      (\<exists>s. keep_loop keep (\<lambda>w. select_iter w fd) ws (srv_init bufs) = Some (Inr s) \<and> srv_ok s)"
    by (rule keep_loop_ok) (use assms select_iter_ok srv_init_ok in auto)
qed

theorem tenk_servers_witness:
  "\<exists>s. run_epoll 3 (replicate MAXCLIENT (replicate MAXBUFFLEN 0))
      [[(\<lparr>w_event = 1, w_eintr = False, w_ready = (\<lambda>_. False), w_accept = Some 4, w_nonblock = True,
          w_read = (\<lambda>_ _. RdAgain)\<rparr>, True, False, 3)]] = Some (Inr s) \<and> srv_ok s"
  using tenk_servers [of "replicate MAXCLIENT (replicate MAXBUFFLEN 0)" "[]"
    "[[(\<lparr>w_event = 1, w_eintr = False, w_ready = (\<lambda>_. False), w_accept = Some 4, w_nonblock = True,
       w_read = (\<lambda>_ _. RdAgain)\<rparr>, True, False, 3)]]" 3]
  by (simp add: bufs_ok_def world_ok_def)

end
