(* ===== verification/NetDriver.thy ===== *)
theory NetDriver
  imports Deth
begin

text \<open>
  What the Ethernet drivers of the repository share. \<open>kdev-net-veth\<close>, \<open>kneigh\<close>, \<open>kxdp\<close> and \<open>kxfrm\<close> have the pool,
  the queues, the interrupt and the poll function of \<open>kdev-net-eth\<close> (theory \<open>Deth\<close>) and its state; they differ in
  what happens to a frame before it is handed to the other device. The common end of their transmit functions is
  \<open>tx_frame\<close>, the interrupt handler being an argument. The locale \<open>net_driver\<close> is the contract of a transmit
  function: it prepares the frame, which can fail, drop the frame or change its bytes, and sends the result.
\<close>

section \<open>The operations of a driver\<close>

text \<open>
  The functions that the derived drivers take over from \<open>deth.c\<close> word for word come in three groups: the packet
  pool and the receive queue, the interrupt handler and the poll function, and setting up and taking down the devices.
\<close>

record pool_ops =
  op_setup_pool :: "nat \<Rightarrow> nat \<Rightarrow> nat \<Rightarrow> deth \<Rightarrow> deth"
  op_teardown_pool :: "nat \<Rightarrow> deth \<Rightarrow> deth res"
  op_tx_reserve_buffer :: "nat \<Rightarrow> deth \<Rightarrow> (nat option \<times> deth) res"
  op_tx_release_buffer :: "nat \<Rightarrow> deth \<Rightarrow> deth res"
  op_rx_prod_buf :: "nat \<Rightarrow> nat \<Rightarrow> deth \<Rightarrow> deth res"
  op_rx_cons_buf :: "nat \<Rightarrow> deth \<Rightarrow> (nat option \<times> deth) res"
  op_rx_ints :: "nat \<Rightarrow> bool \<Rightarrow> deth \<Rightarrow> deth"

record rx_ops =
  op_napi_interrupt :: "nat \<Rightarrow> deth \<Rightarrow> deth res"
  op_poll :: "(nat \<Rightarrow> bool) \<Rightarrow> nat \<Rightarrow> nat \<Rightarrow> deth \<Rightarrow> (nat \<times> deth) res"

record dev_ops =
  op_stop :: "nat \<Rightarrow> deth \<Rightarrow> int \<times> deth"
  op_tx_timeout :: "nat \<Rightarrow> nat \<Rightarrow> nat \<Rightarrow> deth \<Rightarrow> deth res"
  op_setup :: "nat \<Rightarrow> nat \<Rightarrow> nat \<Rightarrow> deth \<Rightarrow> deth"
  op_init_module :: "nat \<Rightarrow> bool \<Rightarrow> bool \<Rightarrow> int \<Rightarrow> int \<Rightarrow> int \<times> nat list \<times> deth"
  op_cleanup_module :: "deth \<Rightarrow> deth res"

definition deth_pool :: pool_ops where
  "deth_pool = \<lparr>op_setup_pool = deth_setup_pool, op_teardown_pool = deth_teardown_pool,
     op_tx_reserve_buffer = deth_tx_reserve_buffer, op_tx_release_buffer = deth_tx_release_buffer,
     op_rx_prod_buf = deth_rx_prod_buf, op_rx_cons_buf = deth_rx_cons_buf, op_rx_ints = deth_rx_ints\<rparr>"

definition deth_rx :: rx_ops where
  "deth_rx = \<lparr>op_napi_interrupt = deth_napi_interrupt, op_poll = deth_poll\<rparr>"

definition deth_dev :: dev_ops where
  "deth_dev = \<lparr>op_stop = deth_stop, op_tx_timeout = deth_tx_timeout, op_setup = deth_setup,
     op_init_module = deth_init_module, op_cleanup_module = deth_cleanup_module\<rparr>"

section \<open>Transmission\<close>

definition tx_frame :: "(nat \<Rightarrow> deth \<Rightarrow> deth res) \<Rightarrow> nat \<Rightarrow> bytes \<Rightarrow> nat \<Rightarrow> deth \<Rightarrow> deth res" where
  "tx_frame irq lockup buf d s =
     (let len = length buf; dest = other d in
      bindR (deth_tx_reserve_buffer d s) (\<lambda>(tx_buffer, s).
      case tx_buffer of None \<Rightarrow> Inr s
      | Some pkt \<Rightarrow>
        bindR (get_pkt s pkt) (\<lambda>p.
        if len > length (pk_data p) then Inl OutOfBounds
        else let s = s\<lparr>packets := (packets s)(pkt \<mapsto> p\<lparr>datalen := len, pk_data := buf @ drop len (pk_data p)\<rparr>)\<rparr> in
          bindR (deth_rx_prod_buf dest pkt s) (\<lambda>s.
          bindR (if rx_int_enabled (privs s dest)
                 then irq dest (on_priv dest (status_update (\<lambda>x. x OR DETH_RX_INTR)) s) else Inr s) (\<lambda>s.
          let s = on_priv d (\<lambda>r. r\<lparr>tx_packetlen := len, status := status r OR DETH_TX_INTR\<rparr>) s in
          if lockup \<noteq> 0 \<and> unat (tx_packets (privs s d) + 1) mod lockup = 0 then Inr (netif_stop_queue d s)
          else irq d s)))))"

text \<open>The transmit operation of a driver; \<open>hw_tx\<close> is its transmit function.\<close>

definition drv_xmit :: "(bytes \<Rightarrow> nat \<Rightarrow> deth \<Rightarrow> deth res) \<Rightarrow> nat \<Rightarrow> bytes \<Rightarrow> nat \<Rightarrow> deth \<Rightarrow> deth res" where
  "drv_xmit hw_tx b frame d s =
     (let buf = (if length frame < ETH_ZLEN then frame @ replicate (ETH_ZLEN - length frame) 0 else frame) in
      hw_tx buf d (on_priv d (skb_update (\<lambda>_. Some b)) s))"

text \<open>
  The addresses of the two header fields that all transmit functions print: the protocol and, for UDP and TCP,
  the ports.
\<close>

definition read_ports :: "bytes \<Rightarrow> unit res" where
  "read_ports buf = bindR (arr_get buf (14 + 9)) (\<lambda>protocol.
     if protocol = IPPROTO_UDP \<or> protocol = IPPROTO_TCP then bindR (get16 buf 34) (\<lambda>_. bindR (get16 buf 36) (\<lambda>_. Inr ())) else Inr ())"

text \<open>Opening a device with the address \<open>a\<close> and stopping it; \<open>napi\<close> is whether it is polled.\<close>

definition open_dev :: "string \<Rightarrow> bool \<Rightarrow> nat \<Rightarrow> deth \<Rightarrow> deth" where
  "open_dev a napi d s = netif_wake_queue d
     (s\<lparr>dev_addr := (dev_addr s)(d := a), napi_on := (if napi then (napi_on s)(d := True) else napi_on s)\<rparr>)"

definition stop_dev :: "bool \<Rightarrow> nat \<Rightarrow> deth \<Rightarrow> deth" where
  "stop_dev napi d s = (let s = netif_stop_queue d s in if napi then s\<lparr>napi_on := (napi_on s)(d := False)\<rparr> else s)"

text \<open>The kernel's use of a driver, as for \<open>deth\<close>.\<close>

inductive drv_step :: "(bytes \<Rightarrow> nat \<Rightarrow> deth \<Rightarrow> deth res) \<Rightarrow> deth \<Rightarrow> deth \<Rightarrow> bool" for hw_tx where
  drv_xmit: "d < 2 \<Longrightarrow> \<not> stopped (privs s d) \<Longrightarrow> length frame \<le> ETH_DATA_LEN \<Longrightarrow> drv_xmit hw_tx b frame d s = Inr s' \<Longrightarrow> drv_step hw_tx s s'"
| drv_poll: "d < 2 \<Longrightarrow> deth_poll alloc d budget s = Inr (k, s') \<Longrightarrow> drv_step hw_tx s s'"
| drv_stop: "d < 2 \<Longrightarrow> drv_step hw_tx s (stop_dev napi d s)"
| drv_open: "d < 2 \<Longrightarrow> ppool (privs s d) \<noteq> [] \<Longrightarrow> drv_step hw_tx s (open_dev a napi d s)"

section \<open>Lemmas\<close>

lemma drv_xmit_padded: "drv_xmit hw_tx b frame d s = hw_tx (padded frame) d (on_priv d (skb_update (\<lambda>_. Some b)) s)"
  by (simp add: drv_xmit_def padded_def)

lemma read_ports_ok: "ETH_ZLEN \<le> length buf \<Longrightarrow> read_ports buf = Inr ()"
  by (simp add: read_ports_def ETH_ZLEN_def get16_in)

lemma read_ports_padded [simp]: "read_ports (padded frame) = Inr ()"
  by (simp add: read_ports_ok padded_length)

text \<open>On a frame of the minimum length the transmit function of \<open>deth\<close> is its common end.\<close>

lemma deth_hw_tx_frame:
  assumes "ETH_ZLEN \<le> length buf"
  shows "deth_hw_tx lockup buf d s = tx_frame deth_napi_interrupt lockup buf d s"
proof -
  have l: "\<not> length buf < 14 + 20" using assms by (simp add: ETH_ZLEN_def)
  have a: "arr_get buf (14 + 9) = Inr (buf ! 23)" using assms by (simp add: ETH_ZLEN_def)
  have p: "(if c then bindR (get16 buf 34) (\<lambda>_. bindR (get16 buf 36) (\<lambda>_. Inr ())) else Inr ()) = Inr ()" for c
    using assms by (simp add: ETH_ZLEN_def get16_in)
  show ?thesis unfolding deth_hw_tx_def tx_frame_def Let_def a p by (simp only: l if_False bindR_Inr)
qed

lemma inv_skb: "deth_inv n s \<Longrightarrow> deth_inv n (on_priv d (skb_update f) s)"
  by (rule inv_same [of s]) (simp_all add: same_lists_def)

lemma inv_open: "deth_inv n s \<Longrightarrow> ppool (privs s d) \<noteq> [] \<Longrightarrow> deth_inv n (open_dev a napi d s)"
proof -
  assume i: "deth_inv n s" "ppool (privs s d) \<noteq> []"
  have "own (open_dev a napi d s) = own s" by (auto simp: own_def open_dev_def netif_wake_queue_def)
  with i show ?thesis by (auto simp: open_dev_def netif_wake_queue_def deth_inv_def)
qed

lemma inv_stop: "deth_inv n s \<Longrightarrow> deth_inv n (stop_dev napi d s)"
proof -
  assume i: "deth_inv n s"
  have "own (stop_dev napi d s) = own s" by (auto simp: own_def stop_dev_def netif_stop_queue_def Let_def)
  with i show ?thesis by (auto simp: stop_dev_def netif_stop_queue_def deth_inv_def Let_def)
qed

section \<open>The contract of a transmit function\<close>

locale net_driver =
  fixes hw_tx :: "bytes \<Rightarrow> nat \<Rightarrow> deth \<Rightarrow> deth res" and prep :: "nat \<Rightarrow> bytes \<Rightarrow> bytes option res"
  assumes hw_tx_prep: "ETH_ZLEN \<le> length buf \<Longrightarrow> hw_tx buf d s = bindR (prep d buf) (\<lambda>r. case r of None \<Rightarrow> Inr s
      | Some buf' \<Rightarrow> tx_frame deth_napi_interrupt 0 buf' d s)"
    and prep_length: "prep d buf = Inr (Some buf') \<Longrightarrow> length buf' = length buf"
begin

lemma xmit_sends:
  assumes i: "deth_inv n s" and d: "d < 2" "\<not> stopped (privs s d)" and f: "length frame \<le> ETH_DATA_LEN"
    and p: "prep d (padded frame) = Inr (Some buf)"
  shows "\<exists>s'. drv_xmit hw_tx b frame d s = Inr s' \<and> deth_xmit 0 b buf d s = Inr s'"
proof -
  have l: "length buf = length (padded frame)" using prep_length [OF p] .
  then have z: "ETH_ZLEN \<le> length buf" "length buf \<le> ETH_DATA_LEN" using padded_length f by auto
  then have pb: "padded buf = buf" by (simp add: padded_def)
  have "drv_xmit hw_tx b frame d s = deth_xmit 0 b buf d s"
    using hw_tx_prep [OF padded_length(1)] p z(1) by (simp add: drv_xmit_padded xmit_padded pb deth_hw_tx_frame)
  then show ?thesis using xmit_ok [OF i d z(2), of b] by auto
qed

lemma xmit_drops:
  assumes "prep d (padded frame) = Inr None"
  shows "drv_xmit hw_tx b frame d s = Inr (on_priv d (skb_update (\<lambda>_. Some b)) s)"
  using hw_tx_prep [OF padded_length(1)] assms by (simp add: drv_xmit_padded)

lemma xmit_fails:
  assumes "prep d (padded frame) = Inl e"
  shows "drv_xmit hw_tx b frame d s = Inl e"
  using hw_tx_prep [OF padded_length(1)] assms by (simp add: drv_xmit_padded)

lemma drv_step_inv: "drv_step hw_tx s s' \<Longrightarrow> deth_inv n s \<Longrightarrow> deth_inv n s'"
proof (induction rule: drv_step.induct)
  case (drv_xmit d s frame b s')
  show ?case
  proof (cases "prep d (padded frame)")
    case (Inl e)
    then show ?thesis using drv_xmit xmit_fails by simp
  next
    case r: (Inr r)
    show ?thesis
    proof (cases r)
      case None
      then have "s' = on_priv d (skb_update (\<lambda>_. Some b)) s" using drv_xmit.hyps(4) r xmit_drops by simp
      then show ?thesis using drv_xmit.prems by (simp add: inv_skb)
    next
      case (Some buf)
      then have x: "deth_xmit 0 b buf d s = Inr s'"
        using xmit_sends [OF drv_xmit.prems drv_xmit.hyps(1-3), of buf b] r drv_xmit.hyps(4) by auto
      have "length buf \<le> ETH_DATA_LEN" using prep_length r Some padded_length(2) drv_xmit.hyps(3) by metis
      then show ?thesis using step_inv [OF step_xmit [OF drv_xmit.hyps(1,2) _ x] drv_xmit.prems] by simp
    qed
  qed
next
  case (drv_poll d alloc budget s k s')
  then show ?case using step_inv [OF step_poll] by blast
next
  case (drv_stop d s napi)
  then show ?case by (simp add: inv_stop)
next
  case (drv_open d s a napi)
  then show ?case by (simp add: inv_open)
qed

lemma drv_reach_inv: "(drv_step hw_tx)\<^sup>*\<^sup>* s s' \<Longrightarrow> deth_inv n s \<Longrightarrow> deth_inv n s'"
  by (induction rule: rtranclp_induct) (auto intro: drv_step_inv)

text \<open>The driver is safe as long as preparing a frame is.\<close>

lemma safe:
  assumes n: "0 < n" and r: "(drv_step hw_tx)\<^sup>*\<^sup>* (snd (snd (deth_init_module n True True 0 0))) s" and d: "d < 2"
  shows "deth_inv n s \<and> is_ok (deth_poll alloc d budget s) \<and>
    (\<not> stopped (privs s d) \<and> length frame \<le> ETH_DATA_LEN \<longrightarrow>
      is_ok (drv_xmit hw_tx b frame d s) = is_ok (prep d (padded frame)))"
proof (intro conjI impI)
  show i: "deth_inv n s" using drv_reach_inv [OF r init_inv [OF n]] .
  show "is_ok (deth_poll alloc d budget s)" using poll_ok [OF i d, of alloc budget] by (auto simp: is_ok_def)
  assume f: "\<not> stopped (privs s d) \<and> length frame \<le> ETH_DATA_LEN"
  show "is_ok (drv_xmit hw_tx b frame d s) = is_ok (prep d (padded frame))"
  proof (cases "prep d (padded frame)")
    case (Inl e)
    then show ?thesis using xmit_fails by (simp add: is_ok_def)
  next
    case r: (Inr r)
    then show ?thesis
    proof (cases r)
      case None
      then show ?thesis using r xmit_drops by (simp add: is_ok_def)
    next
      case (Some buf)
      then show ?thesis using r f xmit_sends [OF i d, of frame buf b] by (auto simp: is_ok_def)
    qed
  qed
qed

text \<open>A frame that is prepared is what the other device hands up next; a frame that is dropped changes nothing there.\<close>

lemma delivers_prep:
  assumes i: "deth_inv n s" and d: "d < 2" "\<not> stopped (privs s d)" and f: "length frame \<le> ETH_DATA_LEN" and b: "0 < budget"
    and p: "prep d (padded frame) = Inr (Some buf)"
  shows "\<exists>s1 s2. drv_xmit hw_tx b frame d s = Inr s1 \<and>
    deth_poll (\<lambda>_. True) (other d) budget s1 = Inr (min budget (Suc (length (rx_queue (privs s (other d))))), s2) \<and>
    received s2 = (received s)(other d := received s (other d) @
      buf # map (content s) (take (budget - 1) (rx_queue (privs s (other d)))))"
proof -
  have l: "length buf = length (padded frame)" using prep_length [OF p] .
  then have z: "ETH_ZLEN \<le> length buf" "length buf \<le> ETH_DATA_LEN" using padded_length f by auto
  then have "padded buf = buf" by (simp add: padded_def)
  then show ?thesis using xmit_sends [OF i d f p, of b] xmit_polled [OF i d z(2) b, of b] by auto
qed

end

interpretation eth: net_driver "deth_hw_tx 0" "\<lambda>_ buf. Inr (Some buf)"
  by unfold_locales (simp_all add: deth_hw_tx_frame)

end
