(* ===== verification/Veth.thy ===== *)
theory Veth
  imports NetDriver
begin

text \<open>
  The virtual Ethernet driver of \<open>kdev-net-veth\<close>. Its pool, queues, polling and transmission are those of \<open>deth\<close>;
  what it adds is a mode without polling, in which the interrupt handler itself hands up the frame, the functions
  that build the Ethernet header, and the MTU and I/O settings.
\<close>

section \<open>Functions with the text of \<open>deth.c\<close>\<close>

definition dummveth_setup_pool where "dummveth_setup_pool = deth_setup_pool"
definition dummveth_teardown_pool where "dummveth_teardown_pool = deth_teardown_pool"
definition dummveth_get_tx_buffer where "dummveth_get_tx_buffer = deth_tx_reserve_buffer"
definition dummveth_release_buffer where "dummveth_release_buffer = deth_tx_release_buffer"
definition dummveth_enqueue_buf where "dummveth_enqueue_buf = deth_rx_prod_buf"
definition dummveth_dequeue_buf where "dummveth_dequeue_buf = deth_rx_cons_buf"
definition dummveth_rx_ints where "dummveth_rx_ints = deth_rx_ints"
definition dummveth_napi_interrupt where "dummveth_napi_interrupt = deth_napi_interrupt"
definition dummveth_poll where "dummveth_poll = deth_poll"
definition dummveth_cleanup_module where "dummveth_cleanup_module = deth_cleanup_module"

section \<open>The mode without polling\<close>

text \<open>\<open>alloc\<close> is whether the socket buffer can be allocated. The caller holds the lock.\<close>

definition dummveth_rx :: "bool \<Rightarrow> nat \<Rightarrow> nat \<Rightarrow> deth \<Rightarrow> deth res" where
  "dummveth_rx alloc d pkt s =
     bindR (get_pkt s pkt) (\<lambda>p.
     if \<not> alloc then Inr (on_priv d (\<lambda>r. r\<lparr>rx_dropped := rx_dropped r + 1\<rparr>) s)
     else if datalen p > length (pk_data p) then Inl OutOfBounds
     else Inr (on_priv d (\<lambda>r. r\<lparr>rx_packets := rx_packets r + 1, rx_bytes := rx_bytes r + word_of_nat (datalen p)\<rparr>)
       (s\<lparr>received := (received s)(d := received s d @ [take (datalen p) (pk_data p)])\<rparr>)))"

text \<open>The socket buffer of the last transmission is freed and \<open>priv->skb\<close> keeps pointing to it.\<close>

definition kfree_skb :: "nat option \<Rightarrow> deth \<Rightarrow> deth res" where
  "kfree_skb b s = (case b of None \<Rightarrow> Inr s
     | Some b \<Rightarrow> if b \<in> set (freed s) then Inl BadFree else Inr (s\<lparr>freed := freed s @ [b]\<rparr>))"

definition dummveth_regular_interrupt :: "bool \<Rightarrow> nat \<Rightarrow> deth \<Rightarrow> deth res" where
  "dummveth_regular_interrupt alloc d s =
     bindR (spin_lock d s) (\<lambda>s.
     let statusword = status (privs s d); s = on_priv d (status_update (\<lambda>_. 0)) s in
     bindR (if statusword AND DETH_RX_INTR \<noteq> 0 then
              (case rx_queue (privs s d) of [] \<Rightarrow> Inr (None, s)
               | pkt # rest \<Rightarrow> bindR (dummveth_rx alloc d pkt (on_priv d (rx_queue_update (\<lambda>_. rest)) s)) (\<lambda>s. Inr (Some pkt, s)))
            else Inr (None, s)) (\<lambda>(pkt, s).
     bindR (if statusword AND DETH_TX_INTR \<noteq> 0 then
              kfree_skb (skb (privs s d))
                (on_priv d (\<lambda>p. p\<lparr>tx_packets := tx_packets p + 1, tx_bytes := tx_bytes p + word_of_nat (tx_packetlen p)\<rparr>) s)
            else Inr s) (\<lambda>s.
     let s = spin_unlock d s in
     case pkt of None \<Rightarrow> Inr s | Some pkt \<Rightarrow> dummveth_release_buffer pkt s)))"

text \<open>The interrupt handler chosen when the module is loaded.\<close>

definition dummveth_interrupt :: "bool \<Rightarrow> bool \<Rightarrow> nat \<Rightarrow> deth \<Rightarrow> deth res" where
  "dummveth_interrupt use_napi alloc = (if use_napi then dummveth_napi_interrupt else dummveth_regular_interrupt alloc)"

definition dummveth_hw_tx :: "bool \<Rightarrow> bool \<Rightarrow> nat \<Rightarrow> bytes \<Rightarrow> nat \<Rightarrow> deth \<Rightarrow> deth res" where
  "dummveth_hw_tx use_napi alloc lockup buf d s =
     (if length buf < 14 + 20 then Inr s else tx_frame (dummveth_interrupt use_napi alloc) lockup buf d s)"

definition dummveth_xmit :: "bool \<Rightarrow> bool \<Rightarrow> nat \<Rightarrow> nat \<Rightarrow> bytes \<Rightarrow> nat \<Rightarrow> deth \<Rightarrow> deth res" where
  "dummveth_xmit use_napi alloc lockup = drv_xmit (dummveth_hw_tx use_napi alloc lockup)"

section \<open>Headers and settings\<close>

text \<open>
  \<open>skb_push\<close> stops the kernel when the buffer has no room in front of its data. The addresses are pointers to
  6 bytes; the last bit of the destination is flipped.
\<close>

definition ETH_ALEN :: nat where "ETH_ALEN = 6"

definition dummveth_header :: "nat \<Rightarrow> bytes \<Rightarrow> u16 \<Rightarrow> bytes option \<Rightarrow> bytes option \<Rightarrow> bytes \<Rightarrow> (int \<times> bytes) res" where
  "dummveth_header headroom addr ty daddr saddr data =
     (if headroom < 14 then Inl OutOfBounds
      else let src = take ETH_ALEN (case saddr of Some a \<Rightarrow> a | None \<Rightarrow> addr);
               dst = take ETH_ALEN (case daddr of Some a \<Rightarrow> a | None \<Rightarrow> addr)
        in bindR (arr_get dst (ETH_ALEN - 1)) (\<lambda>x.
           Inr (14, dst[ETH_ALEN - 1 := x XOR 1] @ src @ [ucast (drop_bit 8 ty), ucast ty] @ data)))"

definition dummveth_rebuild_header :: "bytes \<Rightarrow> bytes \<Rightarrow> (int \<times> bytes) res" where
  "dummveth_rebuild_header addr data =
     (if length data < 14 then Inl OutOfBounds
      else let src = take ETH_ALEN addr in bindR (arr_get src (ETH_ALEN - 1)) (\<lambda>x.
        Inr (0, src[ETH_ALEN - 1 := x XOR 1] @ src @ drop (2 * ETH_ALEN) data)))"

record ndev =
  nd_mtu :: int
  nd_irq :: nat
  nd_base_addr :: nat
  nd_up :: bool

definition dummveth_change_mtu :: "nat \<Rightarrow> int \<Rightarrow> deth \<Rightarrow> ndev \<Rightarrow> (int \<times> deth \<times> ndev) res" where
  "dummveth_change_mtu d new_mtu s nd =
     (if new_mtu < 68 \<or> new_mtu > 1500 then Inr (-22, s, nd)
      else bindR (spin_lock d s) (\<lambda>s. Inr (0, spin_unlock d s, nd\<lparr>nd_mtu := new_mtu\<rparr>)))"

definition dummveth_set_config :: "nat \<Rightarrow> nat \<Rightarrow> ndev \<Rightarrow> int \<times> ndev" where
  "dummveth_set_config base irq nd =
     (if nd_up nd then (-16, nd)
      else if base \<noteq> nd_base_addr nd then (-95, nd)
      else (0, if irq \<noteq> nd_irq nd then nd\<lparr>nd_irq := irq\<rparr> else nd))"

section \<open>Opening, stopping, timeout, loading\<close>

definition dummveth_open :: "bool \<Rightarrow> nat \<Rightarrow> deth \<Rightarrow> int \<times> deth" where
  "dummveth_open use_napi d s = (0, open_dev (if d = 1 then ''VDETH1'' else ''VDETH0'') use_napi d s)"

definition dummveth_stop :: "bool \<Rightarrow> nat \<Rightarrow> deth \<Rightarrow> int \<times> deth" where
  "dummveth_stop use_napi d s = (0, stop_dev use_napi d s)"

definition dummveth_tx_timeout :: "bool \<Rightarrow> bool \<Rightarrow> nat \<Rightarrow> nat \<Rightarrow> nat \<Rightarrow> deth \<Rightarrow> deth res" where
  "dummveth_tx_timeout use_napi alloc pool_size pool_alloc d s =
     bindR (dummveth_interrupt use_napi alloc d (on_priv d (status_update (\<lambda>x. x OR DETH_TX_INTR)) s)) (\<lambda>s.
     bindR (spin_lock d (on_priv d (\<lambda>r. r\<lparr>tx_errors := tx_errors r + 1\<rparr>) s)) (\<lambda>s.
     bindR (dummveth_teardown_pool d s) (\<lambda>s.
     Inr (netif_wake_queue d (spin_unlock d (dummveth_setup_pool pool_size pool_alloc d s))))))"

definition dummveth_setup :: "nat \<Rightarrow> nat \<Rightarrow> nat \<Rightarrow> deth \<Rightarrow> deth" where
  "dummveth_setup pool_size alloc d s =
     dummveth_setup_pool pool_size alloc d (dummveth_rx_ints d True (on_priv d (\<lambda>_. zero_priv) s))"

text \<open>As in \<open>deth_init_module\<close>, the second part of the result has the devices still allocated.\<close>

definition dummveth_init_module :: "nat \<Rightarrow> bool \<Rightarrow> bool \<Rightarrow> int \<Rightarrow> int \<Rightarrow> int \<times> nat list \<times> deth" where
  "dummveth_init_module pool_size a0 a1 r0 r1 =
     (if \<not> a0 then (-12, [], no_deth)
      else let s = dummveth_setup pool_size pool_size 0 no_deth in
      if \<not> a1 then (-12, [0], s)
      else let s = dummveth_setup pool_size pool_size 1 s in
      if r0 < 0 then (r0, [1], s)
      else if r1 < 0 then (r1, [], s)
      else (0, [0, 1], s))"

section \<open>Specification\<close>

text \<open>Between transmissions without polling no interrupt is pending.\<close>

definition no_intr :: "deth \<Rightarrow> bool" where
  "no_intr s \<longleftrightarrow> (\<forall>d<2. status (privs s d) = 0)"

text \<open>Transmitting the frames \<open>fs\<close>, each with its socket buffer.\<close>

definition xmit_all :: "nat \<Rightarrow> (nat \<times> bytes) list \<Rightarrow> deth \<Rightarrow> deth res" where
  "xmit_all d fs s = foldR (\<lambda>s (b, frame). dummveth_xmit False True 0 b frame d s) s fs"

text \<open>The bytes of a device's address.\<close>

definition addr_bytes :: "deth \<Rightarrow> nat \<Rightarrow> bytes" where
  "addr_bytes s d = map of_char (dev_addr s d)"

text \<open>The interrupt at the receiver: the frame is handed up and its packet goes back to the pool it came from.\<close>

definition rx_done :: "nat \<Rightarrow> nat \<Rightarrow> deth_packet \<Rightarrow> deth \<Rightarrow> deth \<Rightarrow> bool" where
  "rx_done e p k s s' \<longleftrightarrow> (\<forall>x.
     ppool (privs s' x) = (if x = pk_dev k then p # ppool (privs s x) else ppool (privs s x)) \<and>
     rx_queue (privs s' x) = (if x = e then tl (rx_queue (privs s x)) else rx_queue (privs s x)) \<and>
     stopped (privs s' x) = (if x = pk_dev k then stopped (privs s x) \<and> ppool (privs s x) \<noteq> [] else stopped (privs s x)) \<and>
     locked (privs s' x) = locked (privs s x) \<and> rx_int_enabled (privs s' x) = rx_int_enabled (privs s x) \<and>
     status (privs s' x) = (if x = e then 0 else status (privs s x)) \<and> skb (privs s' x) = skb (privs s x)) \<and>
   packets s' = packets s \<and> freed s' = freed s \<and>
   received s' = (received s)(e := received s e @ [take (datalen k) (pk_data k)])"

text \<open>The interrupt at the sender: the socket buffer is freed.\<close>

definition tx_done :: "nat \<Rightarrow> nat \<Rightarrow> deth \<Rightarrow> deth \<Rightarrow> bool" where
  "tx_done d b s s' \<longleftrightarrow> same_lists s s' \<and> freed s' = freed s @ [b] \<and>
     (\<forall>x. status (privs s' x) = (if x = d then 0 else status (privs s x)) \<and> skb (privs s' x) = skb (privs s x))"

section \<open>Lemmas\<close>

lemmas veth_same = dummveth_setup_pool_def dummveth_teardown_pool_def dummveth_get_tx_buffer_def dummveth_release_buffer_def
  dummveth_enqueue_buf_def dummveth_dequeue_buf_def dummveth_rx_ints_def dummveth_napi_interrupt_def dummveth_poll_def
  dummveth_cleanup_module_def

lemma setup_same: "dummveth_setup = deth_setup"
  by (intro ext) (simp add: dummveth_setup_def deth_setup_def veth_same)

lemma init_module_same: "dummveth_init_module = deth_init_module"
  unfolding fun_eq_iff dummveth_init_module_def deth_init_module_def setup_same by (intro allI refl)

interpretation veth: net_driver "dummveth_hw_tx True alloc 0" "\<lambda>_ buf. Inr (Some buf)" for alloc
  by unfold_locales (simp_all add: dummveth_hw_tx_def dummveth_interrupt_def veth_same ETH_ZLEN_def)

lemma intr_bits [simp]: "DETH_RX_INTR \<noteq> 0" "DETH_TX_INTR \<noteq> 0" "DETH_RX_INTR AND DETH_TX_INTR = 0" "DETH_TX_INTR AND DETH_RX_INTR = 0"
  by (simp_all add: DETH_RX_INTR_def DETH_TX_INTR_def)

lemma regular_rx:
  assumes "\<not> locked (privs s e)" "\<not> locked (privs s (pk_dev k))" "e \<noteq> pk_dev k" "status (privs s e) = DETH_RX_INTR"
    and "rx_queue (privs s e) = p # q" "packets s p = Some k" "datalen k \<le> length (pk_data k)"
  shows "\<exists>s'. dummveth_regular_interrupt True e s = Inr s' \<and> rx_done e p k s s'"
proof -
  define s1 where "s1 = spin_unlock e (on_priv e (\<lambda>r. r\<lparr>status := 0, rx_queue := q, rx_packets := rx_packets r + 1,
      rx_bytes := rx_bytes r + word_of_nat (datalen k), locked := True\<rparr>) (s\<lparr>received := (received s)(e := received s e @ [take (datalen k) (pk_data k)])\<rparr>))"
  have 1: "dummveth_regular_interrupt True e s = dummveth_release_buffer p s1"
    using assms by (simp add: dummveth_regular_interrupt_def lock_free Let_def dummveth_rx_def get_pkt_def s1_def on_priv_def spin_unlock_def)
  have l: "\<not> locked (privs s1 (pk_dev k))" "packets s1 p = Some k" using assms by (simp_all add: s1_def)
  let ?s2 = "spin_unlock (pk_dev k) (on_priv (pk_dev k) (\<lambda>r. r\<lparr>ppool := p # ppool r, locked := True,
    stopped := stopped r \<and> ppool r \<noteq> []\<rparr>) s1)"
  have "dummveth_release_buffer p s1 = Inr ?s2" using release_ok [OF l] by (simp add: veth_same)
  moreover have "freed ?s2 = freed s" by (simp add: spin_unlock_def s1_def)
  then have "rx_done e p k s ?s2" using assms(1-3,5) by (auto simp: rx_done_def s1_def)
  ultimately show ?thesis using 1 by auto
qed

lemma regular_tx:
  assumes "\<not> locked (privs s d)" "status (privs s d) = DETH_TX_INTR" "skb (privs s d) = Some b" "b \<notin> set (freed s)"
  shows "\<exists>s'. dummveth_regular_interrupt alloc d s = Inr s' \<and> tx_done d b s s'"
  using assms
  by (simp add: dummveth_regular_interrupt_def lock_free Let_def kfree_skb_def spin_unlock_def tx_done_def same_lists_def)

lemma regular_hw_tx:
  assumes i: "deth_inv n s" and id: "no_intr s" and d: "d < 2" and p: "ppool (privs s d) = p # rest"
    and b: "ETH_ZLEN \<le> length buf" "length buf \<le> ETH_DATA_LEN" and sk: "skb (privs s d) = Some b" "b \<notin> set (freed s)"
  shows "\<exists>s'. dummveth_hw_tx False True 0 buf d s = Inr s' \<and> no_intr s' \<and> freed s' = freed s @ [b] \<and>
    received s' = (received s)(other d := received s (other d) @ [buf]) \<and>
    (\<forall>x. ppool (privs s' x) = ppool (privs s x) \<and> rx_queue (privs s' x) = rx_queue (privs s x) \<and>
      stopped (privs s' x) = (if x = d then stopped (privs s x) \<and> rest \<noteq> [] else stopped (privs s x)) \<and>
      locked (privs s' x) = locked (privs s x) \<and> rx_int_enabled (privs s' x) = rx_int_enabled (privs s x) \<and>
      skb (privs s' x) = skb (privs s x)) \<and>
    (\<exists>k. packets s' = (packets s)(p \<mapsto> k) \<and> pk_dev k = d \<and> length (pk_data k) = ETH_DATA_LEN \<and> datalen k \<le> ETH_DATA_LEN)"
proof -
  let ?o = "other d"
  have "p \<in> set (own s d)" using p by (simp add: own_def)
  then obtain k where k: "packets s p = Some k" "pk_dev k = d" "length (pk_data k) = ETH_DATA_LEN"
    using inv_D(6) [OF i d] by blast
  let ?k = "k\<lparr>datalen := length buf, pk_data := buf @ drop (length buf) (pk_data k)\<rparr>"
  have l: "\<not> locked (privs s d)" "\<not> locked (privs s ?o)" "rx_int_enabled (privs s ?o)" using inv_D(1,2) [OF i] d by simp_all
  define s1 where "s1 = spin_unlock d (on_priv d (\<lambda>r. r\<lparr>ppool := rest, locked := True, stopped := stopped r \<or> rest = []\<rparr>) s)"
  have r: "deth_tx_reserve_buffer d s = Inr (Some p, s1)" unfolding s1_def by (rule reserve_ok [OF l(1) p])
  have g: "get_pkt s1 p = Inr k" using k by (simp add: get_pkt_def s1_def)
  define s2 where "s2 = s1\<lparr>packets := (packets s1)(p \<mapsto> ?k)\<rparr>"
  define s3 where "s3 = spin_unlock ?o (on_priv ?o (rx_queue_update (\<lambda>q. p # q)) (on_priv ?o (locked_update (\<lambda>_. True)) s2))"
  have pr: "deth_rx_prod_buf ?o p s2 = Inr s3"
    using l by (simp add: deth_rx_prod_buf_def lock_free s3_def s2_def s1_def)
  have f3: "freed s3 = freed s" "received s3 = received s" by (simp_all add: s3_def s2_def s1_def spin_unlock_def)
  have e3: "rx_int_enabled (privs s3 ?o)" using l by (simp add: s3_def s2_def s1_def)
  define s4 where "s4 = on_priv ?o (status_update (\<lambda>x. x OR DETH_RX_INTR)) s3"
  have st: "status (privs s d) = 0" "status (privs s ?o) = 0" using id d by (simp_all add: no_intr_def)
  have "\<exists>s5. dummveth_regular_interrupt True ?o s4 = Inr s5 \<and> rx_done ?o p ?k s4 s5"
    by (rule regular_rx [where q = "rx_queue (privs s ?o)"])
      (use l st k b in \<open>simp_all add: s4_def s3_def s2_def s1_def\<close>)
  then obtain s5 where 5: "dummveth_regular_interrupt True ?o s4 = Inr s5" "rx_done ?o p ?k s4 s5" by blast
  define s6 where "s6 = on_priv d (\<lambda>r. r\<lparr>tx_packetlen := length buf, status := status r OR DETH_TX_INTR\<rparr>) s5"
  have "\<exists>s7. dummveth_regular_interrupt True d s6 = Inr s7 \<and> tx_done d b s6 s7"
    by (rule regular_tx)
      (use 5(2) l st sk f3 in \<open>simp_all add: s6_def rx_done_def, simp_all add: s4_def s3_def s2_def s1_def\<close>)
  then obtain s7 where 7: "dummveth_regular_interrupt True d s6 = Inr s7" "tx_done d b s6 s7" by blast
  have hw: "dummveth_hw_tx False True 0 buf d s = Inr s7"
    using b k(3) by (simp add: dummveth_hw_tx_def tx_frame_def dummveth_interrupt_def Let_def r g s2_def [symmetric] pr e3
      s4_def [symmetric] 5(1) s6_def [symmetric] 7(1) ETH_ZLEN_def)
  show ?thesis
  proof (intro exI conjI)
    show "dummveth_hw_tx False True 0 buf d s = Inr s7" by (rule hw)
    show "no_intr s7" using 7(2) 5(2) id d by (auto simp: no_intr_def tx_done_def s6_def rx_done_def s4_def s3_def s2_def s1_def)
    show "freed s7 = freed s @ [b]" using 7(2) 5(2) f3 by (simp add: tx_done_def s6_def rx_done_def s4_def)
    show "received s7 = (received s)(?o := received s ?o @ [buf])"
      using 7(2) 5(2) f3 b by (simp add: tx_done_def same_lists_def s6_def rx_done_def s4_def)
    show "\<forall>x. ppool (privs s7 x) = ppool (privs s x) \<and> rx_queue (privs s7 x) = rx_queue (privs s x) \<and>
      stopped (privs s7 x) = (if x = d then stopped (privs s x) \<and> rest \<noteq> [] else stopped (privs s x)) \<and>
      locked (privs s7 x) = locked (privs s x) \<and> rx_int_enabled (privs s7 x) = rx_int_enabled (privs s x) \<and>
      skb (privs s7 x) = skb (privs s x)"
      using 7(2) 5(2) p l k(2) by (auto simp: tx_done_def same_lists_def s6_def rx_done_def s4_def s3_def s2_def s1_def)
    show "packets s7 = (packets s)(p \<mapsto> ?k)"
      using 7(2) 5(2) by (simp add: tx_done_def same_lists_def s6_def rx_done_def s4_def s3_def s2_def s1_def)
    show "pk_dev ?k = d" "length (pk_data ?k) = ETH_DATA_LEN" "datalen ?k \<le> ETH_DATA_LEN" using k b by simp_all
  qed
qed

lemma regular_xmit:
  assumes i: "deth_inv n s" and id: "no_intr s" and d: "d < 2" "\<not> stopped (privs s d)" and f: "length frame \<le> ETH_DATA_LEN"
    and b: "b \<notin> set (freed s)"
  shows "\<exists>s'. dummveth_xmit False True 0 b frame d s = Inr s' \<and> deth_inv n s' \<and> no_intr s' \<and> freed s' = freed s @ [b] \<and>
    received s' = (received s)(other d := received s (other d) @ [padded frame]) \<and> \<not> stopped (privs s' d) \<and>
    skb (privs s' d) = Some b"
proof -
  let ?s = "on_priv d (skb_update (\<lambda>_. Some b)) s"
  have "ppool (privs s d) \<noteq> []" using inv_D(5) [OF i d(1)] d(2) by blast
  then obtain p rest where p: "ppool (privs s d) = p # rest" by (cases "ppool (privs s d)") auto
  have "\<exists>s'. dummveth_hw_tx False True 0 (padded frame) d ?s = Inr s' \<and> no_intr s' \<and> freed s' = freed ?s @ [b] \<and>
    received s' = (received ?s)(other d := received ?s (other d) @ [padded frame]) \<and>
    (\<forall>x. ppool (privs s' x) = ppool (privs ?s x) \<and> rx_queue (privs s' x) = rx_queue (privs ?s x) \<and>
      stopped (privs s' x) = (if x = d then stopped (privs ?s x) \<and> rest \<noteq> [] else stopped (privs ?s x)) \<and>
      locked (privs s' x) = locked (privs ?s x) \<and> rx_int_enabled (privs s' x) = rx_int_enabled (privs ?s x) \<and>
      skb (privs s' x) = skb (privs ?s x)) \<and>
    (\<exists>k. packets s' = (packets ?s)(p \<mapsto> k) \<and> pk_dev k = d \<and> length (pk_data k) = ETH_DATA_LEN \<and> datalen k \<le> ETH_DATA_LEN)"
    by (rule regular_hw_tx) (use inv_skb [OF i] id d p padded_length f b in \<open>auto simp: no_intr_def\<close>)
  then obtain s' k where s': "dummveth_hw_tx False True 0 (padded frame) d ?s = Inr s'" "no_intr s'" "freed s' = freed s @ [b]"
      "received s' = (received s)(other d := received s (other d) @ [padded frame])"
    and x: "\<And>x. ppool (privs s' x) = ppool (privs s x)" "\<And>x. rx_queue (privs s' x) = rx_queue (privs s x)"
      "\<And>x. stopped (privs s' x) = (if x = d then stopped (privs s x) \<and> rest \<noteq> [] else stopped (privs s x))"
      "\<And>x. locked (privs s' x) = locked (privs s x)" "\<And>x. rx_int_enabled (privs s' x) = rx_int_enabled (privs s x)"
      "skb (privs s' d) = Some b"
    and k: "packets s' = (packets s)(p \<mapsto> k)" "pk_dev k = d" "length (pk_data k) = ETH_DATA_LEN" "datalen k \<le> ETH_DATA_LEN"
    by auto
  have o: "own s' e = own s e" for e by (simp add: own_def x)
  have pd: "\<exists>j. packets s p = Some j \<and> pk_dev j = d" using inv_D(6) [OF i d(1), of p] p by (auto simp: own_def)
  have "deth_inv n s'"
    unfolding deth_inv_def
  proof (intro allI impI)
    fix e :: nat assume e: "e < 2"
    have np: "e \<noteq> d \<Longrightarrow> p \<notin> set (own s e)" using inv_D(6) [OF i e] pd by fastforce
    have st: "ppool (privs s e) = [] \<Longrightarrow> e \<noteq> d" using p by auto
    show "\<not> locked (privs s' e) \<and> rx_int_enabled (privs s' e) \<and> length (own s' e) = n \<and> distinct (own s' e) \<and>
      (ppool (privs s' e) = [] \<longrightarrow> stopped (privs s' e)) \<and>
      (\<forall>i \<in> set (own s' e). \<exists>k. packets s' i = Some k \<and> pk_dev k = e \<and> length (pk_data k) = ETH_DATA_LEN \<and> datalen k \<le> ETH_DATA_LEN)"
      using inv_D [OF i e] k np st unfolding o x by auto
  qed
  then show ?thesis using s' x(3,6) d(2) by (auto simp: dummveth_xmit_def drv_xmit_padded)
qed

lemma header_bytes:
  assumes "length addr = ETH_ALEN" "14 \<le> headroom"
  shows "dummveth_header headroom addr ty None None data =
      Inr (14, addr[5 := addr ! 5 XOR 1] @ addr @ [ucast (drop_bit 8 ty), ucast ty] @ data)"
    and "length peer = ETH_ALEN \<Longrightarrow> dummveth_header headroom addr ty (Some peer) None data =
      Inr (14, peer[5 := peer ! 5 XOR 1] @ addr @ [ucast (drop_bit 8 ty), ucast ty] @ data)"
  using assms by (simp_all add: dummveth_header_def ETH_ALEN_def)

section \<open>Properties\<close>



text \<open>
  Without polling, the socket buffer of a transmission is freed and the device keeps the pointer: a transmit timeout after it frees the buffer a second time. And the header function flips the last bit of the destination whether or not it was given: a header without destination addresses the other device, a header with the address of the other device as destination addresses the sender itself.
\<close>

lemma veth_faults:
  assumes "deth_inv n s" "no_intr s" "d < 2" "\<not> stopped (privs s d)" "length frame \<le> ETH_DATA_LEN" "b \<notin> set (freed s)"
    and "14 \<le> headroom" "dev_addr s 0 = ''VDETH0''" "dev_addr s 1 = ''VDETH1''"
  shows "(\<exists>s'. dummveth_xmit False True 0 b frame d s = Inr s' \<and>
      dummveth_tx_timeout False alloc pool_size pool_alloc d s' = Inl BadFree) \<and>
    dummveth_header headroom (addr_bytes s d) ty None None data =
      Inr (14, addr_bytes s (other d) @ addr_bytes s d @ [ucast (drop_bit 8 ty), ucast ty] @ data) \<and>
    dummveth_header headroom (addr_bytes s d) ty (Some (addr_bytes s (other d))) None data =
      Inr (14, addr_bytes s d @ addr_bytes s d @ [ucast (drop_bit 8 ty), ucast ty] @ data)"
proof (intro conjI)
  obtain s' where s': "dummveth_xmit False True 0 b frame d s = Inr s'" "deth_inv n s'" "no_intr s'" "freed s' = freed s @ [b]"
      "skb (privs s' d) = Some b"
    using regular_xmit [OF assms(1-6)] by blast
  have "\<not> locked (privs s' d)" "status (privs s' d) = 0" using inv_D(1) [OF s'(2) assms(3)] s'(3) assms(3) by (simp_all add: no_intr_def)
  then have "dummveth_tx_timeout False alloc pool_size pool_alloc d s' = Inl BadFree"
    using s'(4,5) by (simp add: dummveth_tx_timeout_def dummveth_interrupt_def dummveth_regular_interrupt_def lock_free Let_def kfree_skb_def)
  then show "\<exists>s'. dummveth_xmit False True 0 b frame d s = Inr s' \<and>
      dummveth_tx_timeout False alloc pool_size pool_alloc d s' = Inl BadFree" using s'(1) by blast
  have a: "addr_bytes s 0 = [0x56, 0x44, 0x45, 0x54, 0x48, 0x30]" "addr_bytes s (Suc 0) = [0x56, 0x44, 0x45, 0x54, 0x48, 0x31]"
    using assms(8,9) by (simp_all add: addr_bytes_def)
  have d: "d = 0 \<or> d = 1" using assms(3) by auto
  show "dummveth_header headroom (addr_bytes s d) ty None None data =
      Inr (14, addr_bytes s (other d) @ addr_bytes s d @ [ucast (drop_bit 8 ty), ucast ty] @ data)"
    using d a header_bytes(1) [OF _ assms(7), of "addr_bytes s d"] by (elim disjE) (simp_all add: other_def ETH_ALEN_def)
  show "dummveth_header headroom (addr_bytes s d) ty (Some (addr_bytes s (other d))) None data =
      Inr (14, addr_bytes s d @ addr_bytes s d @ [ucast (drop_bit 8 ty), ucast ty] @ data)"
    using d a header_bytes(2) [OF _ assms(7), of "addr_bytes s d" "addr_bytes s (other d)"]
    by (elim disjE) (simp_all add: other_def ETH_ALEN_def)
qed

theorem veth_faults_witness:
  "\<exists>s s'. dummveth_open False 1 (snd (dummveth_open False 0 (snd (snd (dummveth_init_module 2 True True 0 0))))) = (0, s) \<and>
     dummveth_xmit False True 0 7 [1, 2] 0 s = Inr s' \<and> dummveth_tx_timeout False True 2 2 0 s' = Inl BadFree"
proof -
  let ?s0 = "snd (snd (dummveth_init_module 2 True True 0 0))"
  define s where "s = snd (dummveth_open False 1 (snd (dummveth_open False 0 ?s0)))"
  have "deth_inv 2 ?s0" unfolding init_module_same by (rule init_inv) simp
  moreover have p: "ppool (privs ?s0 0) = [1, 0]" "ppool (privs ?s0 1) = [3, 2]" "status (privs ?s0 0) = 0" "status (privs ?s0 1) = 0"
    "freed ?s0 = []" unfolding init_module_same by code_simp+
  ultimately have "deth_inv 2 s"
    unfolding s_def dummveth_open_def snd_conv by (intro inv_open) (simp_all add: open_dev_def netif_wake_queue_def)
  moreover have "no_intr s" "\<not> stopped (privs s 0)" "freed s = []" "dev_addr s 0 = ''VDETH0''" "dev_addr s 1 = ''VDETH1''"
    using p by (auto simp: s_def dummveth_open_def open_dev_def netif_wake_queue_def no_intr_def less_2_cases_iff on_priv_def)
  ultimately obtain s' where "dummveth_xmit False True 0 7 [1, 2] 0 s = Inr s'" "dummveth_tx_timeout False True 2 2 0 s' = Inl BadFree"
    using veth_faults [of 2 s 0 "[1, 2]" 7 14 True 2 2 0 "[]"] by (auto simp: ETH_DATA_LEN_def)
  moreover have "dummveth_open False 1 (snd (dummveth_open False 0 ?s0)) = (0, s)" by (simp add: s_def dummveth_open_def)
  ultimately show ?thesis by blast
qed

end
