(* ===== verification/Kneigh.thy ===== *)
theory Kneigh
  imports NetDriver
begin

text \<open>
  The driver of \<open>kneigh\<close>, which looks up the neighbour of a frame's destination before it transmits, and the driver
  of \<open>kxdp/generic\<close>, on which the kernel's generic XDP is tried. Apart from the transmit function and the addresses
  both have the text of \<open>deth.c\<close>.
\<close>

section \<open>\<open>kneigh.c\<close>\<close>

subsection \<open>Functions with the text of \<open>deth.c\<close>\<close>

definition kneigh_pool where "kneigh_pool = deth_pool"
definition kneigh_rx where "kneigh_rx = deth_rx"
definition kneigh_dev where "kneigh_dev = deth_dev"
abbreviation "kneigh_napi_interrupt \<equiv> op_napi_interrupt kneigh_rx"
abbreviation "kneigh_poll \<equiv> op_poll kneigh_rx"
abbreviation "kneigh_init_module \<equiv> op_init_module kneigh_dev"

subsection \<open>Transmission\<close>

text \<open>
  \<open>neigh d a\<close> is whether the kernel has, or can create, a neighbour entry for the address \<open>a\<close> on device \<open>d\<close>. When
  it cannot, the function returns and the socket buffer is not freed.
\<close>

definition kneigh_hw_tx :: "(nat \<Rightarrow> bytes \<Rightarrow> bool) \<Rightarrow> nat \<Rightarrow> bytes \<Rightarrow> nat \<Rightarrow> deth \<Rightarrow> deth res" where
  "kneigh_hw_tx neigh lockup buf d s =
     (if length buf < 14 + 20 then Inr s
      else bindR (get_bytes buf (14 + 16) 4) (\<lambda>daddr.
        if \<not> neigh d daddr then Inr s
        else bindR (read_ports buf) (\<lambda>_. tx_frame kneigh_napi_interrupt lockup buf d s)))"

definition kneigh_xmit :: "(nat \<Rightarrow> bytes \<Rightarrow> bool) \<Rightarrow> nat \<Rightarrow> nat \<Rightarrow> bytes \<Rightarrow> nat \<Rightarrow> deth \<Rightarrow> deth res" where
  "kneigh_xmit neigh lockup = drv_xmit (kneigh_hw_tx neigh lockup)"

definition kneigh_open :: "nat \<Rightarrow> deth \<Rightarrow> int \<times> deth" where
  "kneigh_open d s = (0, open_dev (if d = 1 then ''KNEI01'' else ''KNEI00'') True d s)"

section \<open>\<open>kxdp/generic/kxdp.c\<close>\<close>

subsection \<open>Functions with the text of \<open>deth.c\<close>\<close>

definition generic_kxdp_pool where "generic_kxdp_pool = deth_pool"
definition generic_kxdp_rx where "generic_kxdp_rx = deth_rx"
definition generic_kxdp_dev where "generic_kxdp_dev = deth_dev"
abbreviation "generic_kxdp_napi_interrupt \<equiv> op_napi_interrupt generic_kxdp_rx"

subsection \<open>Transmission\<close>

definition generic_kxdp_hw_tx :: "nat \<Rightarrow> bytes \<Rightarrow> nat \<Rightarrow> deth \<Rightarrow> deth res" where
  "generic_kxdp_hw_tx lockup buf d s =
     (if length buf < 14 + 20 then Inr s
      else bindR (read_ports buf) (\<lambda>_. tx_frame generic_kxdp_napi_interrupt lockup buf d s))"

definition generic_kxdp_xmit :: "nat \<Rightarrow> nat \<Rightarrow> bytes \<Rightarrow> nat \<Rightarrow> deth \<Rightarrow> deth res" where
  "generic_kxdp_xmit lockup = drv_xmit (generic_kxdp_hw_tx lockup)"

definition generic_kxdp_open :: "nat \<Rightarrow> deth \<Rightarrow> int \<times> deth" where
  "generic_kxdp_open d s = (0, open_dev (if d = 1 then ''KXDP01'' else ''KXDP00'') True d s)"

section \<open>Specification\<close>

text \<open>The destination address of a frame's IP header, and the frames \<open>kneigh\<close> sends.\<close>

definition ip_dest :: "bytes \<Rightarrow> bytes" where
  "ip_dest buf = take 4 (drop 30 buf)"

definition neigh_frame :: "(nat \<Rightarrow> bytes \<Rightarrow> bool) \<Rightarrow> nat \<Rightarrow> bytes \<Rightarrow> bytes option res" where
  "neigh_frame neigh d buf = Inr (if neigh d (ip_dest buf) then Some buf else None)"

section \<open>Lemmas\<close>

interpretation kneigh: net_driver "kneigh_hw_tx neigh 0" "neigh_frame neigh" for neigh
  by unfold_locales
    (auto simp: kneigh_hw_tx_def neigh_frame_def ip_dest_def get_bytes_def read_ports_ok ETH_ZLEN_def
      kneigh_rx_def deth_rx_def split: if_splits)

interpretation gxdp: net_driver "generic_kxdp_hw_tx 0" "\<lambda>_ buf. Inr (Some buf)"
  by unfold_locales (simp_all add: generic_kxdp_hw_tx_def read_ports_ok ETH_ZLEN_def generic_kxdp_rx_def deth_rx_def)

section \<open>Properties\<close>

text \<open>
  A frame whose destination has a neighbour entry, or for which one can be made, is handed up by the other device, padded to the minimum length, and the packets stay in order; for any other destination nothing is sent, and the socket buffer stays with the device, not freed.
\<close>

lemma kneigh_neighbours:
  assumes "deth_inv n s" "d < 2" "\<not> stopped (privs s d)" "length frame \<le> ETH_DATA_LEN"
  shows "if neigh d (ip_dest (padded frame)) then
      \<exists>s1 s2. kneigh_xmit neigh 0 b frame d s = Inr s1 \<and> kneigh_poll (\<lambda>_. True) (other d) 1 s1 = Inr (1, s2) \<and>
        received s2 = (received s)(other d := received s (other d) @ [padded frame]) \<and> deth_inv n s2
    else kneigh_xmit neigh 0 b frame d s = Inr (on_priv d (skb_update (\<lambda>_. Some b)) s)"
proof (cases "neigh d (ip_dest (padded frame))")
  case True
  then have p: "neigh_frame neigh d (padded frame) = Inr (Some (padded frame))" by (simp add: neigh_frame_def)
  obtain s1 s2 where 1: "drv_xmit (kneigh_hw_tx neigh 0) b frame d s = Inr s1" "deth_poll (\<lambda>_. True) (other d) 1 s1 = Inr (1, s2)"
    "received s2 = (received s)(other d := received s (other d) @ [padded frame])"
    using kneigh.delivers_prep [OF assms _ p, of 1 b] by auto
  have "deth_inv n s1" by (rule kneigh.drv_step_inv [OF drv_xmit [OF assms(2-4) 1(1)] assms(1)])
  then have "deth_inv n s2" using poll_ok [of n s1 "other d" "\<lambda>_. True" 1] 1(2) by auto
  then show ?thesis using True 1 by (auto simp: kneigh_xmit_def kneigh_rx_def deth_rx_def)
next
  case False
  then have "neigh_frame neigh d (padded frame) = Inr None" by (simp add: neigh_frame_def)
  then show ?thesis using False kneigh.xmit_drops [of neigh d frame b s] by (simp add: kneigh_xmit_def)
qed

theorem kneigh_neighbours_witness:
  "(\<exists>s1 s2. kneigh_xmit (\<lambda>_ a. a = [10, 0, 0, 2]) 0 7 (replicate 30 0 @ [10, 0, 0, 2]) 0 (snd (snd (kneigh_init_module 2 True True 0 0))) = Inr s1 \<and>
     kneigh_poll (\<lambda>_. True) 1 1 s1 = Inr (1, s2)) \<and>
   is_ok (kneigh_xmit (\<lambda>_ _. False) 0 7 [1] 0 (snd (snd (kneigh_init_module 2 True True 0 0))))"
proof -
  let ?s = "snd (snd (kneigh_init_module 2 True True 0 0))"
  have i: "deth_inv 2 ?s" unfolding kneigh_dev_def deth_dev_def dev_ops.simps by (rule init_inv) simp
  have q: "\<not> stopped (privs ?s 0)" "other 0 = 1" "ip_dest (padded (replicate 30 0 @ [10, 0, 0, 2])) = [10, 0, 0, 2]"
    unfolding kneigh_dev_def deth_dev_def dev_ops.simps by code_simp+
  show ?thesis
    using kneigh_neighbours [OF i, of 0 "replicate 30 0 @ [10, 0, 0, 2]" "\<lambda>_ a. a = [10, 0, 0, 2]" 7]
      kneigh_neighbours [OF i, of 0 "[1]" "\<lambda>_ _. False" 7] q by (auto simp: ETH_DATA_LEN_def)
qed

end
