(* ===== verification/KxdpNative.thy ===== *)
theory KxdpNative
  imports NetDriver
begin

text \<open>
  The driver of \<open>kxdp/native\<close>, which runs an XDP program in its poll function. Apart from the poll function, the
  transmit function and the functions that set the program it has the text of \<open>deth.c\<close>. The XDP program is a function
  from the bytes it sees to its verdict and the bytes it leaves; what the kernel's registration functions return is an
  argument.
\<close>

section \<open>Functions with the text of \<open>deth.c\<close>\<close>

definition native_kxdp_pool where "native_kxdp_pool = deth_pool"
definition native_kxdp_napi_interrupt where "native_kxdp_napi_interrupt = deth_napi_interrupt"
definition native_kxdp_dev where "native_kxdp_dev = deth_dev"
abbreviation "native_kxdp_init_module \<equiv> op_init_module native_kxdp_dev"
abbreviation "native_kxdp_tx_release_buffer \<equiv> op_tx_release_buffer native_kxdp_pool"
abbreviation "native_kxdp_rx_cons_buf \<equiv> op_rx_cons_buf native_kxdp_pool"

section \<open>Polling\<close>

text \<open>
  One call handles one packet. It does not check that there is one, nor that the socket buffer was allocated.
  \<open>eth_type_trans\<close> has taken off the Ethernet header when the program runs, and \<open>skb_reset_mac_header\<close> then gives up
  what is left of it; a frame that does not pass is not freed. The result has the frames handed up or lost.
\<close>

definition run_xdp :: "(bytes \<Rightarrow> bool \<times> bytes) option \<Rightarrow> bytes \<Rightarrow> bytes list \<times> bytes list" where
  "run_xdp prog frame =
     (case prog of None \<Rightarrow> ([frame], [])
      | Some f \<Rightarrow> let (pass, data) = f (drop 14 frame) in if pass then ([data], []) else ([], [frame]))"

definition native_kxdp_poll :: "bool \<Rightarrow> (bytes \<Rightarrow> bool \<times> bytes) option \<Rightarrow> nat \<Rightarrow> nat \<Rightarrow> deth \<Rightarrow> (nat \<times> bytes list \<times> deth) res" where
  "native_kxdp_poll alloc prog d budget s =
     bindR (native_kxdp_rx_cons_buf d s) (\<lambda>(pkt, s).
     case pkt of None \<Rightarrow> Inl NullDeref
     | Some pkt \<Rightarrow>
       bindR (get_pkt s pkt) (\<lambda>p.
       if \<not> alloc then Inl NullDeref
       else if datalen p > length (pk_data p) then Inl OutOfBounds
       else let (up, lost) = run_xdp prog (take (datalen p) (pk_data p));
                npackets = length up;
                s = s\<lparr>received := (received s)(d := received s d @ up)\<rparr>;
                s = (if up = [] then s
                     else on_priv d (\<lambda>r. r\<lparr>rx_packets := rx_packets r + 1, rx_bytes := rx_bytes r + word_of_nat (datalen p)\<rparr>) s)
         in bindR (if npackets < budget then
                bindR (spin_lock d s) (\<lambda>s. Inr (spin_unlock d (on_priv d (scheduled_update (\<lambda>_. False)) s)))
              else Inr s) (\<lambda>s.
            bindR (native_kxdp_tx_release_buffer pkt s) (\<lambda>s. Inr (npackets, lost, s)))))"

section \<open>Transmission, opening\<close>

definition native_kxdp_hw_tx :: "nat \<Rightarrow> bytes \<Rightarrow> nat \<Rightarrow> deth \<Rightarrow> deth res" where
  "native_kxdp_hw_tx lockup buf d s =
     (if length buf < 14 + 20 then Inr s
      else bindR (read_ports buf) (\<lambda>_. tx_frame native_kxdp_napi_interrupt lockup buf d s))"

definition native_kxdp_xmit :: "nat \<Rightarrow> nat \<Rightarrow> bytes \<Rightarrow> nat \<Rightarrow> deth \<Rightarrow> deth res" where
  "native_kxdp_xmit lockup = drv_xmit (native_kxdp_hw_tx lockup)"

definition native_kxdp_open :: "nat \<Rightarrow> deth \<Rightarrow> int \<times> deth" where
  "native_kxdp_open d s = (0, open_dev (if d = 1 then ''KXDP01'' else ''KXDP00'') True d s)"

section \<open>Setting the program\<close>

text \<open>
  What a device has for XDP: the program, whether its one receive queue is registered, how often the poll function
  was added, and what decides whether a program can be set.
\<close>

record xdev =
  xd_prog :: "nat option"
  xd_reg :: bool
  xd_napis :: int
  xd_gro :: bool
  xd_wanted_gro :: bool
  xd_up :: bool
  xd_rx_queues :: nat

definition kxdp_gro_requested :: "xdev \<Rightarrow> bool" where
  "kxdp_gro_requested x = xd_wanted_gro x"

fun kxdp_disable_xdp_range :: "nat \<Rightarrow> bool \<Rightarrow> xdev \<Rightarrow> xdev" where
  "kxdp_disable_xdp_range 0 delete_napi x = x"
| "kxdp_disable_xdp_range (Suc n) delete_napi x =
     kxdp_disable_xdp_range n delete_napi (x\<lparr>xd_reg := False, xd_napis := xd_napis x - (if delete_napi then 1 else 0)\<rparr>)"

text \<open>
  The loop over the queues from \<open>i\<close> on, \<open>n\<close> of them; \<open>reg\<close> and \<open>mem\<close> are the results of the two registrations. When
  one fails the queues before \<open>i\<close> are undone, but not the poll function added for \<open>i\<close>.
\<close>

fun enable_loop :: "(nat \<Rightarrow> int) \<Rightarrow> (nat \<Rightarrow> int) \<Rightarrow> bool \<Rightarrow> nat \<Rightarrow> nat \<Rightarrow> xdev \<Rightarrow> int \<times> xdev" where
  "enable_loop reg mem napi_already_on i 0 x = (0, x)"
| "enable_loop reg mem napi_already_on i (Suc n) x =
     (let x = (if napi_already_on then x else x\<lparr>xd_napis := xd_napis x + 1\<rparr>) in
      if reg i < 0 then (reg i, kxdp_disable_xdp_range i (\<not> napi_already_on) x)
      else let x = x\<lparr>xd_reg := True\<rparr> in
      if mem i < 0 then (mem i, kxdp_disable_xdp_range i (\<not> napi_already_on) (x\<lparr>xd_reg := False\<rparr>))
      else enable_loop reg mem napi_already_on (i + 1) n x)"

definition kxdp_enable_xdp :: "(nat \<Rightarrow> int) \<Rightarrow> (nat \<Rightarrow> int) \<Rightarrow> xdev \<Rightarrow> int \<times> xdev" where
  "kxdp_enable_xdp reg mem x =
     (let napi_already_on = (kxdp_gro_requested x \<and> xd_up x) in
      if \<not> xd_reg x then enable_loop reg mem napi_already_on 0 (xd_rx_queues x) x else (0, x))"

text \<open>\<open>peer\<close> is the number of transmit queues of the other device, if it exists.\<close>

definition kxdp_xdp_set :: "(nat \<Rightarrow> int) \<Rightarrow> (nat \<Rightarrow> int) \<Rightarrow> nat option \<Rightarrow> nat option \<Rightarrow> xdev \<Rightarrow> int \<times> xdev" where
  "kxdp_xdp_set reg mem peer prog x =
     (let old_prog = xd_prog x; x = x\<lparr>xd_prog := prog\<rparr> in
      case prog of None \<Rightarrow> (0, x)
      | Some _ \<Rightarrow>
        (case peer of None \<Rightarrow> (-107, x\<lparr>xd_prog := old_prog\<rparr>)
         | Some tx_queues \<Rightarrow>
           if xd_rx_queues x < tx_queues then (-28, x\<lparr>xd_prog := old_prog\<rparr>)
           else let (err, x) = (if xd_up x then kxdp_enable_xdp reg mem x else (0, x)) in
           if err \<noteq> 0 then (err, x\<lparr>xd_prog := old_prog\<rparr>)
           else (0, if old_prog = None \<and> \<not> kxdp_gro_requested x then x\<lparr>xd_gro := True\<rparr> else x)))"

text \<open>Only the command that sets a program is supported.\<close>

definition kxdp_xdp :: "(nat \<Rightarrow> int) \<Rightarrow> (nat \<Rightarrow> int) \<Rightarrow> nat option \<Rightarrow> bool \<Rightarrow> nat option \<Rightarrow> xdev \<Rightarrow> int \<times> xdev" where
  "kxdp_xdp reg mem peer setup_prog prog x = (if setup_prog then kxdp_xdp_set reg mem peer prog x else (-22, x))"

section \<open>Lemmas\<close>

interpretation nxdp: net_driver "native_kxdp_hw_tx 0" "\<lambda>_ buf. Inr (Some buf)"
  by unfold_locales (simp_all add: native_kxdp_hw_tx_def read_ports_ok ETH_ZLEN_def native_kxdp_napi_interrupt_def)

lemma disable_range: "kxdp_disable_xdp_range n del x =
    x\<lparr>xd_reg := (xd_reg x \<and> n = 0), xd_napis := xd_napis x - (if del then int n else 0)\<rparr>"
  by (induction n arbitrary: x) auto

lemma enable_fails:
  assumes "enable_loop reg mem on i n x = (err, x')" "err \<noteq> 0" "xd_reg x \<longrightarrow> i \<noteq> 0"
  shows "err < 0 \<and> x' = x\<lparr>xd_reg := False, xd_napis := xd_napis x + (if on then 0 else 1 - int i)\<rparr>"
  using assms
proof (induction n arbitrary: i x)
  case (Suc n)
  show ?case
  proof (cases "reg i < 0 \<or> mem i < 0")
    case True
    then show ?thesis using Suc.prems by (auto simp: disable_range Let_def split: if_splits)
  next
    case False
    let ?x = "x\<lparr>xd_napis := xd_napis x + (if on then 0 else 1), xd_reg := True\<rparr>"
    have "enable_loop reg mem on (i + 1) n ?x = (err, x')" using Suc.prems(1) False by (simp add: Let_def split: if_splits)
    from Suc.IH [OF this Suc.prems(2)] show ?thesis by simp
  qed
qed simp

lemma enable_works:
  assumes "enable_loop reg mem on i n x = (0, x')" "\<forall>i. reg i \<le> 0 \<and> mem i \<le> 0"
  shows "x' = x\<lparr>xd_reg := (xd_reg x \<or> 0 < n), xd_napis := xd_napis x + (if on then 0 else int n)\<rparr>"
  using assms
proof (induction n arbitrary: i x)
  case (Suc n)
  let ?x = "x\<lparr>xd_napis := xd_napis x + (if on then 0 else 1), xd_reg := True\<rparr>"
  have "enable_loop reg mem on (i + 1) n ?x = (0, x')" using Suc.prems(1) by (auto simp: Let_def split: if_splits)
  from Suc.IH [OF this Suc.prems(2)] show ?case by simp
qed simp

lemma native_poll_step:
  assumes i: "deth_inv n s" and d: "d < 2" and q: "rx_queue (privs s d) = p # rest"
  shows "\<exists>s'. native_kxdp_poll True prog d budget s =
      Inr (length (fst (run_xdp prog (content s p))), snd (run_xdp prog (content s p)), s') \<and> returned d p s s' \<and>
    received s' = (received s)(d := received s d @ fst (run_xdp prog (content s p))) \<and>
    (length (fst (run_xdp prog (content s p))) < budget \<longrightarrow> \<not> scheduled (privs s' d))"
proof -
  let ?o = "other d"
  have "p \<in> set (own s ?o)" using q d by (simp add: own_def)
  then obtain k where k: "packets s p = Some k" "pk_dev k = ?o" "length (pk_data k) = ETH_DATA_LEN" "datalen k \<le> ETH_DATA_LEN"
    using inv_D(6) [OF i, of ?o] by auto
  have l: "\<not> locked (privs s d)" "\<not> locked (privs s ?o)" using inv_D(1) [OF i] d by simp_all
  have c: "content s p = take (datalen k) (pk_data k)" using k(1) by (simp add: content_def)
  obtain up lost where u: "run_xdp prog (content s p) = (up, lost)" by fastforce
  define s1 where "s1 = spin_unlock d (on_priv d (rx_queue_update (\<lambda>_. rest)) (on_priv d (locked_update (\<lambda>_. True)) s))"
  have cb: "native_kxdp_rx_cons_buf d s = Inr (Some p, s1)"
    using l(1) q by (simp add: native_kxdp_pool_def deth_pool_def deth_rx_cons_buf_def lock_free s1_def)
  have g: "get_pkt s1 p = Inr k" using k by (simp add: get_pkt_def s1_def)
  define s2 where "s2 = (let t = s1\<lparr>received := (received s1)(d := received s1 d @ up)\<rparr> in if up = [] then t
     else on_priv d (\<lambda>r. r\<lparr>rx_packets := rx_packets r + 1, rx_bytes := rx_bytes r + word_of_nat (datalen k)\<rparr>) t)"
  define s3 where "s3 = (if length up < budget then spin_unlock d (on_priv d (scheduled_update (\<lambda>_. False)) (on_priv d (locked_update (\<lambda>_. True)) s2))
     else s2)"
  have l2: "\<not> locked (privs s2 d)" by (simp add: s2_def s1_def Let_def)
  have l3: "\<not> locked (privs s3 (pk_dev k))" "packets s3 p = Some k" using l(2) k(1,2) by (simp_all add: s3_def s2_def s1_def Let_def)
  let ?s4 = "spin_unlock (pk_dev k) (on_priv (pk_dev k) (\<lambda>r. r\<lparr>ppool := p # ppool r, locked := True, stopped := stopped r \<and> ppool r \<noteq> []\<rparr>) s3)"
  have rel: "native_kxdp_tx_release_buffer p s3 = Inr ?s4" using release_ok [OF l3] by (simp add: native_kxdp_pool_def deth_pool_def)
  have "native_kxdp_poll True prog d budget s = bindR (if length up < budget then
      bindR (spin_lock d s2) (\<lambda>s. Inr (spin_unlock d (on_priv d (scheduled_update (\<lambda>_. False)) s))) else Inr s2)
      (\<lambda>s. bindR (native_kxdp_tx_release_buffer p s) (\<lambda>s. Inr (length up, lost, s)))"
    using k(3,4) u [unfolded c] by (simp add: native_kxdp_poll_def cb g Let_def s2_def)
  also have "\<dots> = bindR (Inr s3) (\<lambda>s. bindR (native_kxdp_tx_release_buffer p s) (\<lambda>s. Inr (length up, lost, s)))"
    using l2 by (simp add: lock_free s3_def)
  also have "\<dots> = Inr (length up, lost, ?s4)" unfolding bindR_Inr rel ..
  finally have "native_kxdp_poll True prog d budget s = Inr (length up, lost, ?s4)" .
  moreover have "returned d p s ?s4" using l k q by (auto simp: returned_def s3_def s2_def s1_def Let_def)
  moreover have "received ?s4 = (received s)(d := received s d @ up)" by (simp add: s3_def s2_def s1_def Let_def)
  moreover have "length up < budget \<longrightarrow> \<not> scheduled (privs ?s4 d)" using k(2) by (simp add: s3_def)
  ultimately show ?thesis using u by auto
qed

section \<open>Properties\<close>

text \<open>
  The poll function with an XDP program. It handles exactly one packet: what the program passes is handed up, a frame it does not pass is lost, and the packet goes back to the pool; packets behind it stay in the queue and no further poll is scheduled when the budget is above one. Polling an empty queue, or without memory for the frame, follows a null pointer.
\<close>

lemma kxdp_native_poll:
  assumes "deth_inv n s" "d < 2"
  shows "case rx_queue (privs s d) of
      [] \<Rightarrow> native_kxdp_poll alloc prog d budget s = Inl NullDeref
    | p # rest \<Rightarrow>
        if \<not> alloc then native_kxdp_poll alloc prog d budget s = Inl NullDeref
        else \<exists>s'. native_kxdp_poll alloc prog d budget s =
            Inr (length (fst (run_xdp prog (content s p))), snd (run_xdp prog (content s p)), s') \<and> deth_inv n s' \<and>
          received s' = (received s)(d := received s d @ fst (run_xdp prog (content s p))) \<and>
          rx_queue (privs s' d) = rest \<and> (1 < budget \<longrightarrow> \<not> scheduled (privs s' d))"
proof (cases "rx_queue (privs s d)")
  case Nil
  then show ?thesis using inv_D(1) [OF assms]
    by (simp add: native_kxdp_poll_def native_kxdp_pool_def deth_pool_def deth_rx_cons_buf_def lock_free)
next
  case (Cons p rest)
  have "p \<in> set (own s (other d))" using Cons assms(2) by (simp add: own_def)
  then obtain k where k: "packets s p = Some k" using inv_D(6) [OF assms(1), of "other d"] by auto
  have a: "native_kxdp_poll False prog d budget s = Inl NullDeref"
    using Cons inv_D(1) [OF assms] k
    by (simp add: native_kxdp_poll_def native_kxdp_pool_def deth_pool_def deth_rx_cons_buf_def lock_free get_pkt_def)
  obtain s' where s': "native_kxdp_poll True prog d budget s =
      Inr (length (fst (run_xdp prog (content s p))), snd (run_xdp prog (content s p)), s')" "returned d p s s'"
    "received s' = (received s)(d := received s d @ fst (run_xdp prog (content s p)))"
    "length (fst (run_xdp prog (content s p))) < budget \<longrightarrow> \<not> scheduled (privs s' d)"
    using native_poll_step [OF assms Cons] by blast
  have "deth_inv n s'" by (rule returned_inv [OF assms(1) s'(2) assms(2) Cons])
  moreover have "rx_queue (privs s' d) = rest" using s'(2) Cons by (simp add: returned_def)
  moreover have "length (fst (run_xdp prog x)) \<le> 1" for x by (auto simp: run_xdp_def split: option.splits prod.splits)
  then have "1 < budget \<longrightarrow> \<not> scheduled (privs s' d)" using s'(4) by (meson le_less_trans)
  ultimately show ?thesis using Cons a s'(1,3) by simp
qed

theorem kxdp_native_poll_witness:
  "native_kxdp_poll True (Some (\<lambda>x. (True, x))) 1 2 (snd (snd (native_kxdp_init_module 2 True True 0 0))) = Inl NullDeref \<and>
   (\<exists>s1 s2 s3. native_kxdp_xmit 0 7 (replicate 14 1 @ [5]) 0 (snd (snd (native_kxdp_init_module 2 True True 0 0))) = Inr s1 \<and>
     native_kxdp_xmit 0 8 [6] 0 s1 = Inr s2 \<and>
     native_kxdp_poll True (Some (\<lambda>x. (False, x))) 1 2 s2 = Inr (0, [padded [6]], s3) \<and>
     length (rx_queue (privs s3 1)) = 1 \<and> \<not> scheduled (privs s3 1))"
proof -
  let ?s = "snd (snd (native_kxdp_init_module 2 True True 0 0))" and ?f = "replicate 14 1 @ [5] :: bytes"
  have i: "deth_inv 2 ?s" unfolding native_kxdp_dev_def deth_dev_def dev_ops.simps by (rule init_inv) simp
  have q: "\<not> stopped (privs ?s 0)" "rx_queue (privs ?s 1) = []" "other 0 = 1" "length (ppool (privs ?s 0)) = 2"
    unfolding native_kxdp_dev_def deth_dev_def dev_ops.simps by code_simp+
  have e: "native_kxdp_xmit 0 b f 0 s = deth_xmit 0 b f 0 s" for b f s
    using nxdp.hw_tx_prep [OF padded_length(1)]
    by (simp add: native_kxdp_xmit_def drv_xmit_padded xmit_padded deth_hw_tx_frame padded_length)
  obtain p k s1 where 1: "deth_xmit 0 7 ?f 0 ?s = Inr s1" "moved 0 p k ?s s1"
    using xmit_ok [OF i _ q(1), of ?f 7] by (auto simp: ETH_DATA_LEN_def)
  have i1: "deth_inv 2 s1" by (rule step_inv [OF step_xmit [OF _ q(1) _ 1(1)] i]) (simp_all add: ETH_DATA_LEN_def)
  have q1: "\<not> stopped (privs s1 0)" "length (rx_queue (privs s1 1)) = 1" using 1(2) q
    by (cases "ppool (privs ?s 0)"; force simp: moved_def)+
  obtain p2 k2 s2 where 2: "deth_xmit 0 8 [6] 0 s1 = Inr s2" "moved 0 p2 k2 s1 s2" "take (datalen k2) (pk_data k2) = padded [6]"
    using xmit_ok [OF i1 _ q1(1), of "[6]" 8] by (auto simp: ETH_DATA_LEN_def)
  have i2: "deth_inv 2 s2" by (rule step_inv [OF step_xmit [OF _ q1(1) _ 2(1)] i1]) (simp_all add: ETH_DATA_LEN_def)
  have q2: "rx_queue (privs s2 1) = p2 # rx_queue (privs s1 1)" "content s2 p2 = padded [6]"
    using 2(2,3) q(3) by (auto simp: moved_def content_def)
  show ?thesis
    using kxdp_native_poll [OF i, of 1 True "Some (\<lambda>x. (True, x))" 2] kxdp_native_poll [OF i2, of 1 True "Some (\<lambda>x. (False, x))" 2]
      q(2) q2 q1(2) 1(1) 2(1) e by (auto simp: run_xdp_def)
qed

text \<open>
  When setting an XDP program fails, the old program, the registration of the queue and the features are as before; but the poll function has been added once more and is not taken off again when the registration of a queue failed and no receive offload was asked for.
\<close>

lemma kxdp_set_fails:
  assumes "kxdp_xdp_set reg mem peer prog x = (err, x')" "err \<noteq> 0"
  shows "err < 0 \<and> xd_prog x' = xd_prog x \<and> xd_reg x' = xd_reg x \<and> xd_gro x' = xd_gro x \<and>
    xd_napis x' = xd_napis x + (if peer \<noteq> None \<and> the peer \<le> xd_rx_queues x \<and> \<not> xd_wanted_gro x then 1 else 0)"
proof (cases "prog = None \<or> peer = None \<or> xd_rx_queues x < the peer")
  case True
  then show ?thesis using assms by (auto simp: kxdp_xdp_set_def Let_def split: option.splits)
next
  case False
  then obtain p q where pq: "prog = Some p" "peer = Some q" "q \<le> xd_rx_queues x" by auto
  let ?x = "x\<lparr>xd_prog := prog\<rparr>"
  obtain e y where e: "(if xd_up x then kxdp_enable_xdp reg mem ?x else (0, ?x)) = (e, y)" by fastforce
  have x': "e \<noteq> 0" "err = e" "x' = y\<lparr>xd_prog := xd_prog x\<rparr>"
    using assms pq e by (auto simp: kxdp_xdp_set_def Let_def split: if_splits)
  then have u: "xd_up x" "\<not> xd_reg x" and l: "enable_loop reg mem (xd_wanted_gro x) 0 (xd_rx_queues x) ?x = (e, y)"
    using e by (auto simp: kxdp_enable_xdp_def kxdp_gro_requested_def Let_def split: if_splits)
  then show ?thesis using enable_fails [OF l x'(1)] x' pq by simp
qed

theorem kxdp_set_fails_witness:
  "kxdp_xdp_set (\<lambda>_. -12) (\<lambda>_. 0) (Some 1) (Some 5) \<lparr>xd_prog = None, xd_reg = False, xd_napis = 1, xd_gro = False,
      xd_wanted_gro = False, xd_up = True, xd_rx_queues = 1\<rparr> =
    (-12, \<lparr>xd_prog = None, xd_reg = False, xd_napis = 2, xd_gro = False, xd_wanted_gro = False, xd_up = True, xd_rx_queues = 1\<rparr>) \<and>
   (-12 :: int) < 0"
  using kxdp_set_fails [of "\<lambda>_. -12" "\<lambda>_. 0" "Some 1" "Some 5" "\<lparr>xd_prog = None, xd_reg = False, xd_napis = 1, xd_gro = False,
      xd_wanted_gro = False, xd_up = True, xd_rx_queues = 1\<rparr>" "-12"]
  by (simp add: kxdp_xdp_set_def kxdp_enable_xdp_def kxdp_gro_requested_def)

end
