(* ===== verification/Kxfrm.thy ===== *)
theory Kxfrm
  imports Veth Kneigh KxdpNative
begin

text \<open>
  The drivers of \<open>kxfrm/cbc\<close> and \<open>kxfrm/gcm\<close>, which look into ESP packets before they transmit them: the packet is
  authenticated and decrypted with the keys of the kernel's IPsec state, encrypted again, and written back. Apart
  from the transmit function and the addresses both have the text of \<open>deth.c\<close>. The kernel's cryptography is an argument,
  the record \<open>crypto\<close>: whether allocations succeed and what fresh memory holds, the results of the calls that prepare
  a transformation, the transformations themselves and the checksum of an IP header.
\<close>

section \<open>Functions with the text of \<open>deth.c\<close>\<close>

definition gcm_kxfrm_pool where "gcm_kxfrm_pool = deth_pool"
definition gcm_kxfrm_rx where "gcm_kxfrm_rx = deth_rx"
definition gcm_kxfrm_dev where "gcm_kxfrm_dev = deth_dev"
abbreviation "gcm_kxfrm_poll \<equiv> op_poll gcm_kxfrm_rx"
abbreviation "gcm_kxfrm_init_module \<equiv> op_init_module gcm_kxfrm_dev"

definition cbc_kxfrm_pool where "cbc_kxfrm_pool = deth_pool"
definition cbc_kxfrm_rx where "cbc_kxfrm_rx = deth_rx"
definition cbc_kxfrm_dev where "cbc_kxfrm_dev = deth_dev"
abbreviation "cbc_kxfrm_poll \<equiv> op_poll cbc_kxfrm_rx"
abbreviation "cbc_kxfrm_init_module \<equiv> op_init_module cbc_kxfrm_dev"

section \<open>The kernel's side\<close>

definition IPPROTO_ESP :: u8 where "IPPROTO_ESP = 50"

record xfrm_state =
  xs_aalg :: "bytes option"
  xs_ealg :: "bytes option"
  xs_aead :: "bytes option"

record crypto =
  kmalloc_ok :: "nat \<Rightarrow> bool"
  fresh :: "nat \<Rightarrow> nat \<Rightarrow> bytes"
  tfm_ok :: bool
  req_ok :: bool
  authsize_rc :: int
  setkey_rc :: int
  shash_ok :: "nat \<Rightarrow> bool"
  shash_setkey :: "nat \<Rightarrow> int"
  shash_mem :: "nat \<Rightarrow> bool"
  shash_digest :: "nat \<Rightarrow> int"
  hmac :: "bytes \<Rightarrow> bytes \<Rightarrow> bytes"
  cbc_dec :: "bytes \<Rightarrow> bytes \<Rightarrow> bytes \<Rightarrow> int \<times> bytes"
  cbc_enc :: "bytes \<Rightarrow> bytes \<Rightarrow> bytes \<Rightarrow> int \<times> bytes"
  gcm_dec :: "bytes \<Rightarrow> bytes \<Rightarrow> bytes \<Rightarrow> bytes \<Rightarrow> int \<times> bytes"
  gcm_enc :: "bytes \<Rightarrow> bytes \<Rightarrow> bytes \<Rightarrow> bytes \<Rightarrow> int \<times> bytes"
  hdr_csum :: "bytes \<Rightarrow> u16"

text \<open>The result of the \<open>i\<close>th call of \<open>hmac_sha256\<close>; the digest it writes when that is 0 is given by \<open>hmac\<close>.\<close>

definition hmac_rc :: "crypto \<Rightarrow> nat \<Rightarrow> int" where
  "hmac_rc c i = (if \<not> shash_ok c i then -1 else if shash_setkey c i \<noteq> 0 then shash_setkey c i
     else if \<not> shash_mem c i then -12 else shash_digest c i)"

text \<open>A negative size is a huge one for \<open>kmalloc\<close>, which then fails, and for \<open>memcpy\<close>, which then leaves the buffer.\<close>

definition kmalloc_buf :: "crypto \<Rightarrow> nat \<Rightarrow> int \<Rightarrow> bytes option" where
  "kmalloc_buf c i n = (if n < 0 \<or> \<not> kmalloc_ok c i then None else Some (fresh c i (nat n)))"

definition get_n :: "bytes \<Rightarrow> nat \<Rightarrow> int \<Rightarrow> bytes res" where
  "get_n p off n = (if n < 0 then Inl OutOfBounds else get_bytes p off (nat n))"

text \<open>The key array is zero unless the state has a key.\<close>

definition load_key :: "bytes option \<Rightarrow> nat \<Rightarrow> bytes res" where
  "load_key k n = (case k of None \<Rightarrow> Inr (replicate n 0) | Some b \<Rightarrow> get_bytes b 0 n)"

definition ip_send_check :: "crypto \<Rightarrow> bytes \<Rightarrow> bytes res" where
  "ip_send_check c buf =
     bindR (put16 buf (14 + 10) 0) (\<lambda>buf.
     bindR (arr_get buf 14) (\<lambda>b.
     bindR (get_bytes buf 14 (unat (b AND 0x0F) * 4)) (\<lambda>h. put16 buf (14 + 10) (hdr_csum c h))))"

definition get_len :: "bytes \<Rightarrow> nat \<Rightarrow> nat res" where
  "get_len p i = bindR (get16 p i) (\<lambda>x. Inr (unat (bpf_ntohs x)))"

section \<open>CBC with HMAC\<close>

text \<open>
  The packet begins at 34: SPI and sequence number (8 bytes), the initial vector (16 bytes), the payload and the tag
  (16 bytes). Each step gives the error code and the frame: a \<open>goto esp_end\<close> gives the error code of that moment.
\<close>

fun read_on :: "bytes \<Rightarrow> nat \<Rightarrow> nat \<Rightarrow> nat res" where
  "read_on dst pkt_len 0 = Inr pkt_len"
| "read_on dst pkt_len (Suc k) = bindR (arr_get dst pkt_len) (\<lambda>_. read_on dst (pkt_len + 1) k)"

definition cbc_padded_len :: "bytes \<Rightarrow> nat \<Rightarrow> nat res" where
  "cbc_padded_len dst pkt_len =
     (let padtest = (pkt_len + 2) mod 16; padlen = (if padtest \<noteq> 0 then 16 - padtest else 0) in
      bindR (read_on dst pkt_len padlen) (\<lambda>pkt_len. read_on dst pkt_len 2))"

definition cbc_write_back :: "crypto \<Rightarrow> bytes \<Rightarrow> bytes \<Rightarrow> int \<Rightarrow> bytes \<Rightarrow> bytes \<Rightarrow> bytes \<Rightarrow> bytes \<Rightarrow> (int \<times> bytes) res" where
  "cbc_write_back c auth_key nonce_org payloadlen src dst final buf =
     bindR (get_bytes buf 34 8) (\<lambda>h. bindR (put_bytes src 0 h) (\<lambda>src. bindR (put_bytes src 8 nonce_org) (\<lambda>src.
     bindR (get_n final 0 payloadlen) (\<lambda>ct. bindR (put_bytes src (8 + 16) ct) (\<lambda>src.
     bindR (get_n src 0 (8 + 16 + payloadlen)) (\<lambda>msg.
     if hmac_rc c 1 \<noteq> 0 then Inr (hmac_rc c 1, buf)
     else bindR (put_bytes dst 0 (hmac c auth_key msg)) (\<lambda>dst.
       bindR (put_bytes buf (34 + 8 + 16) ct) (\<lambda>buf. bindR (get_bytes dst 0 16) (\<lambda>tag.
       bindR (put_bytes buf (nat (34 + 8 + 16 + payloadlen)) tag) (\<lambda>buf.
       bindR (ip_send_check c buf) (\<lambda>buf. Inr (0, buf)))))))))))) "

definition cbc_reencrypt :: "crypto \<Rightarrow> bytes \<Rightarrow> bytes \<Rightarrow> bytes \<Rightarrow> int \<Rightarrow> bytes \<Rightarrow> bytes \<Rightarrow> bytes \<Rightarrow> bytes \<Rightarrow> (int \<times> bytes) res" where
  "cbc_reencrypt c auth_key key nonce_org payloadlen src dst final buf =
     bindR (get_len dst 2) (\<lambda>pkt_len. bindR (cbc_padded_len dst pkt_len) (\<lambda>pkt_len. bindR (arr_get dst 9) (\<lambda>protocol.
     bindR (if protocol = IPPROTO_UDP \<or> protocol = IPPROTO_TCP then
              bindR (get_bytes dst 0 pkt_len) (\<lambda>pt. let (rc, ct) = cbc_enc c key nonce_org pt in
              if rc \<noteq> 0 then Inr (rc, final) else bindR (put_bytes final 0 ct) (\<lambda>final. Inr (0, final)))
            else Inr (0, final)) (\<lambda>(rc, final).
     if rc \<noteq> 0 then Inr (rc, buf)
     else bindR (get_bytes src 0 16) (\<lambda>a. bindR (get_bytes final 0 16) (\<lambda>b.
       if a \<noteq> b then Inr (0, buf) else cbc_write_back c auth_key nonce_org payloadlen src dst final buf))))))"

definition cbc_decrypt :: "crypto \<Rightarrow> bytes \<Rightarrow> bytes \<Rightarrow> bytes \<Rightarrow> int \<Rightarrow> bytes \<Rightarrow> bytes \<Rightarrow> bytes \<Rightarrow> bytes \<Rightarrow> (int \<times> bytes) res" where
  "cbc_decrypt c auth_key key nonce_org payloadlen src dst final buf =
     bindR (get_n buf (34 + 8 + 16) payloadlen) (\<lambda>ct. bindR (put_bytes src 0 ct) (\<lambda>src.
     if \<not> tfm_ok c then Inr (0, buf)
     else if \<not> req_ok c then Inr (0, buf)
     else if setkey_rc c \<noteq> 0 then Inr (setkey_rc c, buf)
     else let (rc, pt) = cbc_dec c key nonce_org ct in
       if rc \<noteq> 0 then Inr (rc, buf)
       else bindR (put_bytes dst 0 pt) (\<lambda>dst. cbc_reencrypt c auth_key key nonce_org payloadlen src dst final buf)))"

definition cbc_esp :: "crypto \<Rightarrow> xfrm_state \<Rightarrow> bytes \<Rightarrow> (int \<times> bytes) res" where
  "cbc_esp c x buf =
     (let esplen = int (length buf) - 34 - 8 - 16; payloadlen = esplen - 16; buffer_size = esplen * 8 in
      bindR (get_bytes buf 34 8) (\<lambda>_. bindR (load_key (xs_aalg x) 32) (\<lambda>auth_key. bindR (load_key (xs_ealg x) 32) (\<lambda>key.
      bindR (get_bytes buf (34 + 8) 16) (\<lambda>nonce_org.
      case (kmalloc_buf c 0 buffer_size, kmalloc_buf c 1 buffer_size, kmalloc_buf c 2 buffer_size) of
        (Some src, Some dst, Some final) \<Rightarrow>
          bindR (get_n buf 34 (8 + 16 + payloadlen)) (\<lambda>msg.
          if hmac_rc c 0 \<noteq> 0 then Inr (hmac_rc c 0, buf)
          else bindR (put_bytes src 0 (hmac c auth_key msg)) (\<lambda>src.
            bindR (get_bytes buf (nat (34 + 8 + 16 + payloadlen)) 16) (\<lambda>tag. bindR (get_bytes src 0 16) (\<lambda>calc.
            if tag \<noteq> calc then Inr (0, buf)
            else cbc_decrypt c auth_key key nonce_org payloadlen src dst final buf))))
      | _ \<Rightarrow> Inr (-1, buf))))))"

section \<open>GCM\<close>

text \<open>
  Here the initial vector has 8 bytes. The associated data are the first 16 bytes of the packet with the initial vector
  set to zero. The loop over the padding reads every other byte: both its counter and the length grow.
\<close>

fun gcm_padding :: "bytes \<Rightarrow> nat \<Rightarrow> nat \<Rightarrow> nat \<Rightarrow> nat res" where
  "gcm_padding dst pkt_len k 0 = Inr pkt_len"
| "gcm_padding dst pkt_len k (Suc n) = bindR (arr_get dst (8 + 8 + pkt_len + k)) (\<lambda>_. gcm_padding dst (pkt_len + 1) (k + 1) n)"

definition gcm_write_back :: "crypto \<Rightarrow> int \<Rightarrow> bytes \<Rightarrow> bytes \<Rightarrow> bytes \<Rightarrow> (int \<times> bytes) res" where
  "gcm_write_back c payloadlen src final buf =
     bindR (get_bytes src (8 + 8) 16) (\<lambda>a. bindR (get_bytes final (8 + 8) 16) (\<lambda>b.
     if a \<noteq> b then Inr (0, buf)
     else bindR (get_bytes src (nat (8 + 8 + payloadlen)) 16) (\<lambda>a. bindR (get_bytes final (nat (8 + 8 + payloadlen)) 16) (\<lambda>b.
       if a \<noteq> b then Inr (0, buf)
       else bindR (get_n final (8 + 8) payloadlen) (\<lambda>ct. bindR (put_bytes buf (34 + 8 + 8) ct) (\<lambda>buf.
         bindR (put_bytes buf (nat (34 + 8 + 8 + payloadlen)) b) (\<lambda>buf.
         bindR (ip_send_check c buf) (\<lambda>buf. Inr (0, buf)))))))))"

definition gcm_reencrypt :: "crypto \<Rightarrow> bytes \<Rightarrow> bytes \<Rightarrow> int \<Rightarrow> bytes \<Rightarrow> bytes \<Rightarrow> bytes \<Rightarrow> bytes \<Rightarrow> (int \<times> bytes) res" where
  "gcm_reencrypt c key iv payloadlen src dst final buf =
     bindR (get_len dst (8 + 8 + 2)) (\<lambda>pkt_len.
     bindR (arr_get dst (nat (8 + 8 + payloadlen - 2))) (\<lambda>pad_len. bindR (arr_get dst (nat (8 + 8 + payloadlen - 1))) (\<lambda>_.
     bindR (gcm_padding dst pkt_len 0 (unat pad_len)) (\<lambda>_. bindR (arr_get dst (8 + 8 + 9)) (\<lambda>protocol.
     bindR (if protocol = IPPROTO_UDP \<or> protocol = IPPROTO_TCP then
              bindR (get_bytes src 0 16) (\<lambda>ad. bindR (put_bytes dst 0 ad) (\<lambda>dst. bindR (get_n dst (8 + 8) payloadlen) (\<lambda>pt.
              let (rc, ct) = gcm_enc c key iv ad pt in
              if rc \<noteq> 0 then Inr (rc, final) else bindR (put_bytes final (8 + 8) ct) (\<lambda>final. Inr (0, final)))))
            else Inr (0, final)) (\<lambda>(rc, final).
     if rc \<noteq> 0 then Inr (rc, buf) else gcm_write_back c payloadlen src final buf))))))"

definition gcm_decrypt :: "crypto \<Rightarrow> bytes \<Rightarrow> bytes \<Rightarrow> int \<Rightarrow> bytes \<Rightarrow> bytes \<Rightarrow> bytes \<Rightarrow> bytes \<Rightarrow> (int \<times> bytes) res" where
  "gcm_decrypt c key iv payloadlen src dst final buf =
     bindR (get_bytes buf 34 (8 + 8)) (\<lambda>h. bindR (put_bytes src 0 h) (\<lambda>src. bindR (put_bytes src 8 (replicate 8 0)) (\<lambda>src.
     bindR (get_n buf (34 + 8 + 8) payloadlen) (\<lambda>ct. bindR (put_bytes src (8 + 8) ct) (\<lambda>src.
     bindR (get_bytes buf (nat (34 + 8 + 8 + payloadlen)) 16) (\<lambda>tag. bindR (put_bytes src (nat (8 + 8 + payloadlen)) tag) (\<lambda>src.
     if \<not> tfm_ok c then Inr (-1, buf)
     else if authsize_rc c \<noteq> 0 then Inr (authsize_rc c, buf)
     else if setkey_rc c \<noteq> 0 then Inr (setkey_rc c, buf)
     else if \<not> req_ok c then Inr (0, buf)
     else bindR (get_bytes src 0 16) (\<lambda>ad. let (rc, pt) = gcm_dec c key iv ad (ct @ tag) in
       if rc \<noteq> 0 then Inr (rc, buf)
       else bindR (put_bytes dst (8 + 8) pt) (\<lambda>dst. gcm_reencrypt c key iv payloadlen src dst final buf)))))))))"

text \<open>The salt of the nonce is the end of the key; \<open>rfc4106(gcm(aes))\<close> takes it from there.\<close>

definition gcm_esp :: "crypto \<Rightarrow> xfrm_state \<Rightarrow> bytes \<Rightarrow> (int \<times> bytes) res" where
  "gcm_esp c x buf =
     (let esplen = int (length buf) - 34 - 8 - 8; payloadlen = esplen - 16; buffer_size = esplen * 8 in
      bindR (get_bytes buf 34 8) (\<lambda>_. bindR (load_key (xs_aead x) 36) (\<lambda>key. bindR (get_bytes buf (34 + 8) 8) (\<lambda>iv.
      case (kmalloc_buf c 0 buffer_size, kmalloc_buf c 1 buffer_size, kmalloc_buf c 2 buffer_size) of
        (Some src, Some dst, Some final) \<Rightarrow> gcm_decrypt c key iv payloadlen src dst final buf
      | _ \<Rightarrow> Inr (-1, buf)))))"

section \<open>Transmission, opening\<close>

definition htonl :: "u32 \<Rightarrow> u32" where
  "htonl x = push_bit 24 x OR (push_bit 8 x AND 0xFF0000) OR (drop_bit 8 x AND 0xFF00) OR drop_bit 24 x"

text \<open>
  The transmit function of both drivers; \<open>esp\<close> is what it does to an ESP packet, \<open>lookup\<close> finds the IPsec state of
  an SPI. \<open>dev_net\<close> does not give a null pointer.
\<close>

definition kxfrm_hw_tx :: "(xfrm_state \<Rightarrow> bytes \<Rightarrow> (int \<times> bytes) res) \<Rightarrow> (u32 \<Rightarrow> xfrm_state option) \<Rightarrow> (nat \<Rightarrow> u32) \<Rightarrow>
    nat \<Rightarrow> bytes \<Rightarrow> nat \<Rightarrow> deth \<Rightarrow> deth res" where
  "kxfrm_hw_tx esp lookup spi_vals lockup buf d s =
     (if length buf < 14 + 20 then Inr s
      else bindR (arr_get buf (14 + 9)) (\<lambda>protocol.
        if protocol = IPPROTO_ESP then
          (case lookup (htonl (spi_vals d)) of None \<Rightarrow> Inr s
           | Some x \<Rightarrow> bindR (esp x buf) (\<lambda>(err, buf).
               if err \<noteq> 0 then Inr s else tx_frame deth_napi_interrupt lockup buf d s))
        else bindR (read_ports buf) (\<lambda>_. tx_frame deth_napi_interrupt lockup buf d s)))"

definition gcm_kxfrm_hw_tx :: "crypto \<Rightarrow> (u32 \<Rightarrow> xfrm_state option) \<Rightarrow> (nat \<Rightarrow> u32) \<Rightarrow> nat \<Rightarrow> bytes \<Rightarrow> nat \<Rightarrow> deth \<Rightarrow> deth res" where
  "gcm_kxfrm_hw_tx c = kxfrm_hw_tx (gcm_esp c)"

definition cbc_kxfrm_hw_tx :: "crypto \<Rightarrow> (u32 \<Rightarrow> xfrm_state option) \<Rightarrow> (nat \<Rightarrow> u32) \<Rightarrow> nat \<Rightarrow> bytes \<Rightarrow> nat \<Rightarrow> deth \<Rightarrow> deth res" where
  "cbc_kxfrm_hw_tx c = kxfrm_hw_tx (cbc_esp c)"

definition gcm_kxfrm_xmit :: "crypto \<Rightarrow> (u32 \<Rightarrow> xfrm_state option) \<Rightarrow> (nat \<Rightarrow> u32) \<Rightarrow> nat \<Rightarrow> nat \<Rightarrow> bytes \<Rightarrow> nat \<Rightarrow> deth \<Rightarrow> deth res" where
  "gcm_kxfrm_xmit c lookup spi_vals lockup = drv_xmit (gcm_kxfrm_hw_tx c lookup spi_vals lockup)"

definition cbc_kxfrm_xmit :: "crypto \<Rightarrow> (u32 \<Rightarrow> xfrm_state option) \<Rightarrow> (nat \<Rightarrow> u32) \<Rightarrow> nat \<Rightarrow> nat \<Rightarrow> bytes \<Rightarrow> nat \<Rightarrow> deth \<Rightarrow> deth res" where
  "cbc_kxfrm_xmit c lookup spi_vals lockup = drv_xmit (cbc_kxfrm_hw_tx c lookup spi_vals lockup)"

text \<open>Opening also stores the device's SPI.\<close>

definition gcm_kxfrm_open :: "nat \<Rightarrow> deth \<times> (nat \<Rightarrow> u32) \<Rightarrow> int \<times> deth \<times> (nat \<Rightarrow> u32)" where
  "gcm_kxfrm_open d = (\<lambda>(s, spi_vals).
     if d = 1 then (0, open_dev ''KXFRM1'' True d s, spi_vals(1 := 0x02000000))
     else (0, open_dev ''KXFRM0'' True d s, spi_vals(0 := 0x01000000)))"

definition cbc_kxfrm_open :: "nat \<Rightarrow> deth \<times> (nat \<Rightarrow> u32) \<Rightarrow> int \<times> deth \<times> (nat \<Rightarrow> u32)" where
  "cbc_kxfrm_open d = (\<lambda>(s, spi_vals).
     if d = 1 then (0, open_dev ''KXFRM1'' True d s, spi_vals(1 := 0x02000000))
     else (0, open_dev ''KXFRM0'' True d s, spi_vals(0 := 0x01000000)))"

section \<open>Specification\<close>

text \<open>What the two transmit functions send instead of a frame.\<close>

definition esp_frame :: "(xfrm_state \<Rightarrow> bytes \<Rightarrow> (int \<times> bytes) res) \<Rightarrow> (u32 \<Rightarrow> xfrm_state option) \<Rightarrow> (nat \<Rightarrow> u32) \<Rightarrow>
    nat \<Rightarrow> bytes \<Rightarrow> bytes option res" where
  "esp_frame esp lookup spi_vals d buf =
     (if buf ! 23 = IPPROTO_ESP then
        (case lookup (htonl (spi_vals d)) of None \<Rightarrow> Inr None
         | Some x \<Rightarrow> bindR (esp x buf) (\<lambda>(err, buf). Inr (if err \<noteq> 0 then None else Some buf)))
      else Inr (Some buf))"

text \<open>What holds of the kernel's cryptography whenever it works: sizes, and no failing call.\<close>

definition crypto_works :: "crypto \<Rightarrow> bool" where
  "crypto_works c \<longleftrightarrow> (\<forall>i<3. kmalloc_ok c i) \<and> (\<forall>i<2. hmac_rc c i = 0) \<and> tfm_ok c \<and> req_ok c \<and> authsize_rc c = 0 \<and> setkey_rc c = 0"

definition sizes_ok :: "crypto \<Rightarrow> bytes \<Rightarrow> bool" where
  "sizes_ok c buf \<longleftrightarrow> (let n = length buf in
     (\<forall>i<3. length (fresh c i (8 * (n - 58))) = 8 * (n - 58) \<and> length (fresh c i (8 * (n - 50))) = 8 * (n - 50)))"

text \<open>The parts of an ESP packet in CBC mode, and whether its tag is right.\<close>

definition cbc_payload :: "bytes \<Rightarrow> bytes" where
  "cbc_payload buf = take (length buf - 74) (drop 58 buf)"

definition cbc_tag_ok :: "crypto \<Rightarrow> bytes \<Rightarrow> bytes \<Rightarrow> bool" where
  "cbc_tag_ok c auth_key buf \<longleftrightarrow> take 16 (hmac c (take 32 auth_key) (take (length buf - 50) (drop 34 buf))) = drop (length buf - 16) buf"

text \<open>
  A packet as the kernel makes it: the payload decrypts to a UDP or TCP packet, its padding fills the last
  block, encrypting gives the payload again, and the checksum of the outer header is right.
\<close>

definition cbc_valid :: "crypto \<Rightarrow> bytes \<Rightarrow> bytes \<Rightarrow> bytes \<Rightarrow> bool" where
  "cbc_valid c auth_key key buf \<longleftrightarrow>
     (let ct = cbc_payload buf; iv = take 16 (drop 42 buf); (rc, pt) = cbc_dec c (take 32 key) iv ct;
          n = unat (bpf_ntohs (ucast (pt ! 2) OR push_bit 8 (ucast (pt ! 3))))
      in 74 + 32 \<le> length buf \<and> cbc_tag_ok c auth_key buf \<and> rc = 0 \<and> length pt = length ct \<and> cbc_enc c (take 32 key) iv pt = (0, ct) \<and>
        (pt ! 9 = IPPROTO_UDP \<or> pt ! 9 = IPPROTO_TCP) \<and> n + (16 - (n + 2) mod 16) mod 16 + 2 = length ct \<and>
        ip_send_check c buf = Inr buf)"

definition gcm_ad :: "bytes \<Rightarrow> bytes" where
  "gcm_ad buf = take 8 (drop 34 buf) @ replicate 8 0"

definition gcm_valid :: "crypto \<Rightarrow> bytes \<Rightarrow> bytes \<Rightarrow> bool" where
  "gcm_valid c key buf \<longleftrightarrow>
     (let ct = drop 50 buf; iv = take 8 (drop 42 buf); (rc, pt) = gcm_dec c (take 36 key) iv (gcm_ad buf) ct;
          n = unat (bpf_ntohs (ucast (pt ! 2) OR push_bit 8 (ucast (pt ! 3))))
      in 66 + 20 \<le> length buf \<and> rc = 0 \<and> length pt + 16 = length ct \<and> gcm_enc c (take 36 key) iv (gcm_ad buf) pt = (0, ct) \<and>
        (pt ! 9 = IPPROTO_UDP \<or> pt ! 9 = IPPROTO_TCP) \<and> n + unat (pt ! (length pt - 2)) + 2 = length pt \<and>
        ip_send_check c buf = Inr buf)"

text \<open>
  A driver is safe for the frames \<open>ok\<close>: in every state the kernel can bring it to, each packet is in one place, polling
  works, and transmitting works for exactly those frames.
\<close>

definition driver_safe :: "(bytes \<Rightarrow> nat \<Rightarrow> deth \<Rightarrow> deth res) \<Rightarrow> (nat \<Rightarrow> bytes \<Rightarrow> bool) \<Rightarrow> nat \<Rightarrow> bool" where
  "driver_safe hw_tx ok n \<longleftrightarrow> (\<forall>s d frame b alloc budget.
     (drv_step hw_tx)\<^sup>*\<^sup>* (snd (snd (deth_init_module n True True 0 0))) s \<and> d < 2 \<longrightarrow>
     deth_inv n s \<and> is_ok (deth_poll alloc d budget s) \<and>
     (\<not> stopped (privs s d) \<and> length frame \<le> ETH_DATA_LEN \<longrightarrow> is_ok (drv_xmit hw_tx b frame d s) = ok d (padded frame)))"

text \<open>An ESP packet of an IPsec state whose keys have the lengths the drivers use.\<close>

definition keyed :: "xfrm_state \<Rightarrow> bytes \<Rightarrow> bytes \<Rightarrow> bytes \<Rightarrow> bool" where
  "keyed x auth_key key aead_key \<longleftrightarrow> xs_aalg x = Some auth_key \<and> xs_ealg x = Some key \<and> xs_aead x = Some aead_key \<and>
     32 \<le> length auth_key \<and> 32 \<le> length key \<and> 36 \<le> length aead_key"

text \<open>An instance of the kernel's side, with and without working authentication, and two packets for it.\<close>

definition plain_crypto :: "u8 \<Rightarrow> int \<Rightarrow> crypto" where
  "plain_crypto v rc = \<lparr>kmalloc_ok = (\<lambda>_. True), fresh = (\<lambda>_ n. replicate n 0), tfm_ok = True, req_ok = True, authsize_rc = 0, setkey_rc = 0,
     shash_ok = (\<lambda>_. True), shash_setkey = (\<lambda>_. 0), shash_mem = (\<lambda>_. True), shash_digest = (\<lambda>_. 0), hmac = (\<lambda>_ _. replicate 32 v), cbc_dec = (\<lambda>_ _ x. (0, x)), cbc_enc = (\<lambda>_ _ x. (0, x)),
     gcm_dec = (\<lambda>_ _ _ x. (rc, take (length x - 16) x)), gcm_enc = (\<lambda>_ _ _ x. (0, x @ replicate 16 0)), hdr_csum = (\<lambda>_. 0)\<rparr>"

definition plain_state :: xfrm_state where
  "plain_state = \<lparr>xs_aalg = Some (replicate 32 0), xs_ealg = Some (replicate 32 0), xs_aead = Some (replicate 36 0)\<rparr>"

definition cbc_packet :: bytes where
  "cbc_packet = (replicate 106 0)[14 := 0x45, 23 := 50, 61 := 30, 67 := 17]"

definition gcm_packet :: bytes where
  "gcm_packet = (replicate 98 0)[14 := 0x45, 23 := 50, 53 := 30, 59 := 17]"

section \<open>Lemmas\<close>

lemma get_n_in: "0 \<le> n \<Longrightarrow> off + nat n \<le> length p \<Longrightarrow> get_n p off n = Inr (take (nat n) (drop off p))"
  by (simp add: get_n_def get_bytes_def)

lemma get_bytes_in: "off + n \<le> length p \<Longrightarrow> get_bytes p off n = Inr (take n (drop off p))"
  by (simp add: get_bytes_def)

lemma put_bytes_in: "off + length bs \<le> length p \<Longrightarrow> put_bytes p off bs = Inr (take off p @ bs @ drop (off + length bs) p)"
  by (simp add: put_bytes_def)

lemma put_bytes_same:
  assumes "off + length bs \<le> length p" "take (length bs) (drop off p) = bs"
  shows "put_bytes p off bs = Inr p"
proof -
  have "take off p @ take (length bs) (drop off p) @ drop (off + length bs) p = p"
    by (metis append_take_drop_id drop_drop add.commute)
  then show ?thesis using assms by (simp add: put_bytes_def)
qed

lemma read_on_in: "n + k \<le> length dst \<Longrightarrow> read_on dst n k = Inr (n + k)"
  by (induction k arbitrary: n) auto

lemma padded_len_in:
  assumes "n + (16 - (n + 2) mod 16) mod 16 + 2 = m" "m \<le> length dst"
  shows "cbc_padded_len dst n = Inr m"
proof -
  let ?k = "if (n + 2) mod 16 \<noteq> 0 then 16 - (n + 2) mod 16 else 0 :: nat"
  have k: "?k = (16 - (n + 2) mod 16) mod 16" by auto
  have "read_on dst n ?k = Inr (n + ?k)" unfolding k by (rule read_on_in) (use assms in simp)
  moreover have "read_on dst (n + ?k) 2 = Inr m" unfolding k using assms read_on_in [of "n + (16 - (n + 2) mod 16) mod 16" 2 dst] by simp
  ultimately show ?thesis by (simp only: cbc_padded_len_def Let_def bindR_Inr)
qed

lemma gcm_padding_in: "16 + n + k + 2 * m \<le> length dst \<Longrightarrow> gcm_padding dst n k m = Inr (n + m)"
  by (induction m arbitrary: n k) auto

lemma send_check_length: "ip_send_check c buf = Inr buf' \<Longrightarrow> length buf' = length buf"
  by (auto simp: ip_send_check_def bindR_eq_Inr dest!: put16_length)

lemma cbc_write_back_length: "cbc_write_back c ak iv n src dst final buf = Inr (e, buf') \<Longrightarrow> length buf' = length buf"
  by (auto simp: cbc_write_back_def bindR_eq_Inr split: if_splits dest!: put_bytes_length send_check_length)

lemma cbc_reencrypt_length: "cbc_reencrypt c ak key iv n src dst final buf = Inr (e, buf') \<Longrightarrow> length buf' = length buf"
  by (auto simp: cbc_reencrypt_def bindR_eq_Inr split: if_splits prod.splits dest!: cbc_write_back_length)

lemma cbc_decrypt_length: "cbc_decrypt c ak key iv n src dst final buf = Inr (e, buf') \<Longrightarrow> length buf' = length buf"
  by (auto simp: cbc_decrypt_def bindR_eq_Inr split: if_splits prod.splits dest!: cbc_reencrypt_length)

lemma cbc_esp_length: "cbc_esp c x buf = Inr (e, buf') \<Longrightarrow> length buf' = length buf"
  by (auto simp: cbc_esp_def bindR_eq_Inr Let_def split: if_splits option.splits dest!: cbc_decrypt_length)

lemma gcm_write_back_length: "gcm_write_back c n src final buf = Inr (e, buf') \<Longrightarrow> length buf' = length buf"
  by (auto simp: gcm_write_back_def bindR_eq_Inr split: if_splits dest!: put_bytes_length send_check_length)

lemma gcm_reencrypt_length: "gcm_reencrypt c key iv n src dst final buf = Inr (e, buf') \<Longrightarrow> length buf' = length buf"
  by (auto simp: gcm_reencrypt_def bindR_eq_Inr split: if_splits prod.splits dest!: gcm_write_back_length)

lemma gcm_decrypt_length: "gcm_decrypt c key iv n src dst final buf = Inr (e, buf') \<Longrightarrow> length buf' = length buf"
  by (auto simp: gcm_decrypt_def bindR_eq_Inr Let_def case_prod_unfold split: if_splits dest!: gcm_reencrypt_length)

lemma gcm_esp_length: "gcm_esp c x buf = Inr (e, buf') \<Longrightarrow> length buf' = length buf"
  by (auto simp: gcm_esp_def bindR_eq_Inr Let_def split: if_splits option.splits dest!: gcm_decrypt_length)

text \<open>Both drivers keep the contract of a transmit function.\<close>

lemma kxfrm_driver:
  assumes "\<And>x buf e buf'. esp x buf = Inr (e, buf') \<Longrightarrow> length buf' = length buf"
  shows "net_driver (kxfrm_hw_tx esp lookup spi 0) (esp_frame esp lookup spi)"
proof
  fix buf :: bytes and d :: nat and s :: deth
  assume z: "ETH_ZLEN \<le> length buf"
  then have "arr_get buf (14 + 9) = Inr (buf ! 23)" "\<not> length buf < 14 + 20" by (simp_all add: ETH_ZLEN_def)
  then show "kxfrm_hw_tx esp lookup spi 0 buf d s = bindR (esp_frame esp lookup spi d buf) (\<lambda>r. case r of None \<Rightarrow> Inr s
      | Some buf' \<Rightarrow> tx_frame deth_napi_interrupt 0 buf' d s)"
    by (simp add: kxfrm_hw_tx_def esp_frame_def read_ports_ok [OF z] split: option.split bindR_split)
next
  fix d :: nat and buf buf' :: bytes
  assume "esp_frame esp lookup spi d buf = Inr (Some buf')"
  then show "length buf' = length buf" using assms
    by (auto simp: esp_frame_def bindR_eq_Inr split: if_splits option.splits)
qed

interpretation gcm: net_driver "gcm_kxfrm_hw_tx c lookup spi 0" "esp_frame (gcm_esp c) lookup spi" for c lookup spi
  unfolding gcm_kxfrm_hw_tx_def by (rule kxfrm_driver) (rule gcm_esp_length)

interpretation cbc: net_driver "cbc_kxfrm_hw_tx c lookup spi 0" "esp_frame (cbc_esp c) lookup spi" for c lookup spi
  unfolding cbc_kxfrm_hw_tx_def by (rule kxfrm_driver) (rule cbc_esp_length)

lemma cbc_write_back_same:
  assumes l: "length buf = 74 + P" "24 + P \<le> length src" "32 \<le> length dst" "P \<le> length final"
    and f: "take P final = take P (drop 58 buf)" and iv: "iv = take 16 (drop 42 buf)"
    and h: "hmac_rc c 1 = 0" "length (hmac c ak (take (24 + P) (drop 34 buf))) = 32"
      "take 16 (hmac c ak (take (24 + P) (drop 34 buf))) = drop (58 + P) buf"
    and k: "ip_send_check c buf = Inr buf"
  shows "cbc_write_back c ak iv (int P) src dst final buf = Inr (0, buf)"
proof -
  let ?h = "take 8 (drop 34 buf)" and ?ct = "take P (drop 58 buf)" and ?m = "take (24 + P) (drop 34 buf)"
  have m: "?h @ iv @ ?ct = ?m"
    using take_add [of 8 "16 + P" "drop 34 buf"] take_add [of 16 P "drop 42 buf"] l(1) by (simp add: iv)
  define src1 where "src1 = ?h @ drop 8 src"
  define src2 where "src2 = ?h @ iv @ drop 24 src"
  define src3 where "src3 = ?h @ iv @ ?ct @ drop (24 + P) src"
  have lh: "length ?h = 8" "length iv = 16" "length ?ct = P" using l(1) iv by simp_all
  have 1: "put_bytes src 0 ?h = Inr src1" using l lh by (simp add: put_bytes_def src1_def)
  have 2: "put_bytes src1 8 iv = Inr src2" using l lh by (simp add: put_bytes_def src1_def src2_def)
  have 3: "put_bytes src2 (8 + 16) ?ct = Inr src3" using l lh by (simp add: put_bytes_def src2_def src3_def add.commute)
  have "src3 = ?m @ drop (24 + P) src" by (simp add: src3_def m [symmetric])
  moreover have "length ?m = 24 + P" using l(1) by simp
  ultimately have 4: "get_n src3 0 (8 + 16 + int P) = Inr ?m" by (simp add: get_n_def get_bytes_def nat_add_distrib)
  have 5: "get_n final 0 (int P) = Inr ?ct" using l(4) f by (simp add: get_n_def get_bytes_def)
  have 6: "put_bytes buf (34 + 8 + 16) ?ct = Inr buf" by (rule put_bytes_same) (use l lh in simp_all)
  have 7: "put_bytes buf (nat (34 + 8 + 16 + int P)) (drop (58 + P) buf) = Inr buf"
    by (rule put_bytes_same) (use l in \<open>simp_all add: nat_add_distrib\<close>)
  have 8: "put_bytes dst 0 (hmac c ak ?m) = Inr (hmac c ak ?m @ drop 32 dst)" using l(3) h(2) by (simp add: put_bytes_def)
  have 9: "get_bytes (hmac c ak ?m @ drop 32 dst) 0 16 = Inr (drop (58 + P) buf)" using h(2,3) by (simp add: get_bytes_def)
  have 0: "get_bytes buf 34 8 = Inr ?h" using l(1) by (simp add: get_bytes_def)
  show ?thesis unfolding cbc_write_back_def
    by (simp only: 0 1 2 3 4 5 6 7 8 9 h(1) k bindR_Inr if_False not_True_eq_False simp_thms)
qed

lemma cbc_reencrypt_same:
  assumes l: "length buf = 74 + P" "32 \<le> P" "24 + P \<le> length src" "P \<le> length final" "length pt = P" "P \<le> length dst"
    and d: "take P dst = pt" and s: "take P src = take P (drop 58 buf)" and iv: "iv = take 16 (drop 42 buf)"
    and e: "cbc_enc c key iv pt = (0, take P (drop 58 buf))" and p: "pt ! 9 = IPPROTO_UDP \<or> pt ! 9 = IPPROTO_TCP"
    and n: "n = unat (bpf_ntohs (ucast (pt ! 2) OR push_bit 8 (ucast (pt ! 3))))" "n + (16 - (n + 2) mod 16) mod 16 + 2 = P"
    and h: "hmac_rc c 1 = 0" "length (hmac c ak (take (24 + P) (drop 34 buf))) = 32"
      "take 16 (hmac c ak (take (24 + P) (drop 34 buf))) = drop (58 + P) buf"
    and k: "ip_send_check c buf = Inr buf"
  shows "cbc_reencrypt c ak key iv (int P) src dst final buf = Inr (0, buf)"
proof -
  let ?ct = "take P (drop 58 buf)"
  define final' where "final' = ?ct @ drop P final"
  have nth: "dst ! i = pt ! i" if "i < P" for i using d that by (metis nth_take)
  have 1: "get_len dst 2 = Inr n" unfolding get_len_def n(1) using l(2,6) nth [of 2] nth [of 3] by (simp add: get16_in)
  have 2: "cbc_padded_len dst n = Inr P" by (rule padded_len_in [OF n(2) l(6)])
  have 3: "arr_get dst 9 = Inr (pt ! 9)" using l nth [of 9] by simp
  have 4: "get_bytes dst 0 P = Inr pt" using l d by (simp add: get_bytes_def)
  have lc: "length ?ct = P" using l(1) by simp
  have 5: "put_bytes final 0 ?ct = Inr final'" using l lc by (simp add: put_bytes_def final'_def)
  have "take 16 src = take 16 (take P src)" using l(2) by simp
  then have 6: "get_bytes src 0 16 = Inr (take 16 ?ct)" using l(2,3) unfolding s by (simp add: get_bytes_def)
  have 7: "get_bytes final' 0 16 = Inr (take 16 ?ct)" using l lc by (simp add: get_bytes_def final'_def)
  have 8: "cbc_write_back c ak iv (int P) src dst final' buf = Inr (0, buf)"
    by (rule cbc_write_back_same [OF l(1,3) _ _ _ iv h k]) (use l lc in \<open>simp_all add: final'_def\<close>)
  show ?thesis
    unfolding cbc_reencrypt_def 1 bindR_Inr 2 3 if_P [OF p] 4 e Let_def prod.case 5
    by (simp only: not_True_eq_False if_False bindR_Inr prod.case 6 7 8 simp_thms)
qed

lemma cbc_esp_same:
  assumes w: "crypto_works c" "sizes_ok c buf" "\<forall>k m. length (hmac c k m) = 32"
    and x: "xs_aalg x = Some auth_key" "xs_ealg x = Some key" "32 \<le> length auth_key" "32 \<le> length key"
    and v: "cbc_valid c auth_key key buf"
  shows "cbc_esp c x buf = Inr (0, buf)"
proof -
  define P where "P = length buf - 74"
  define ct where "ct = take P (drop 58 buf)"
  define iv where "iv = take 16 (drop 42 buf)"
  obtain rc pt where dec: "cbc_dec c (take 32 key) iv ct = (rc, pt)" by fastforce
  define n where "n = unat (bpf_ntohs (ucast (pt ! 2) OR push_bit 8 (ucast (pt ! 3))))"
  have V: "106 \<le> length buf" "cbc_tag_ok c auth_key buf" "rc = 0" "length pt = P" "cbc_enc c (take 32 key) iv pt = (0, ct)"
    "pt ! 9 = IPPROTO_UDP \<or> pt ! 9 = IPPROTO_TCP" "n + (16 - (n + 2) mod 16) mod 16 + 2 = P" "ip_send_check c buf = Inr buf"
    using v dec by (auto simp: cbc_valid_def cbc_payload_def Let_def P_def ct_def iv_def n_def)
  have l: "length buf = 74 + P" "32 \<le> P" "length buf - 58 = P + 16" using V(1) by (simp_all add: P_def)
  have lc: "length ct = P" using l by (simp add: ct_def)
  define B where "B = 8 * (P + 16)"
  have B: "24 + P \<le> B" "P \<le> B" "32 \<le> B" by (simp_all add: B_def)
  define F where "F i = fresh c i B" for i
  have fr: "length (F i) = B" if "i < 3" for i
    using w(2) that unfolding sizes_ok_def Let_def l(3) F_def B_def by blast
  have km: "kmalloc_buf c i ((int (length buf) - 34 - 8 - 16) * 8) = Some (F i)" if "i < 3" for i
    using w(1) that l(1) by (simp add: kmalloc_buf_def crypto_works_def F_def B_def nat_mult_distrib nat_add_distrib algebra_simps)
  define ak where "ak = take 32 auth_key"
  define ek where "ek = take 32 key"
  define m where "m = take (24 + P) (drop 34 buf)"
  have H: "take 16 (hmac c ak m) = drop (58 + P) buf" using V(2) l by (simp add: cbc_tag_ok_def m_def ak_def)
  have h32: "length (hmac c ak m) = 32" using w(3) by simp
  define src where "src = hmac c ak m @ drop 32 (F 0)"
  define src' where "src' = ct @ drop P src"
  define dst where "dst = pt @ drop P (F 1)"
  have ls: "length src = B" "length src' = B" "length dst = B"
    using fr [of 0] fr [of 1] h32 lc V(4) B by (simp_all add: src_def src'_def dst_def)
  have R: "cbc_reencrypt c ak ek iv (int P) src' dst (F 2) buf = Inr (0, buf)"
  proof (rule cbc_reencrypt_same [where pt = pt and n = n])
    show "take P dst = pt" using V(4) by (simp add: dst_def)
    show "take P src' = take P (drop 58 buf)" using lc by (simp add: src'_def ct_def)
    show "hmac_rc c 1 = 0" using w(1) by (simp add: crypto_works_def)
    show "cbc_enc c ek iv pt = (0, take P (drop 58 buf))" using V(5) by (simp add: ek_def ct_def)
  qed (use l(1,2) B ls fr [of 2] V(4,6-8) in \<open>simp_all only: iv_def n_def H [unfolded m_def] h32 [unfolded m_def]\<close>)
  have 7: "get_n buf (34 + 8 + 16) (int P) = Inr ct" using l(1) by (simp add: get_n_def get_bytes_def ct_def)
  have 8: "put_bytes src 0 ct = Inr src'" using ls(1) lc B by (simp add: put_bytes_def src'_def)
  have 9: "put_bytes (F 1) 0 pt = Inr dst" using fr [of 1] V(4) B by (simp add: put_bytes_def dst_def)
  have dec': "cbc_dec c ek iv ct = (0, pt)" using dec V(3) by (simp add: ek_def)
  have D: "cbc_decrypt c ak ek iv (int P) src (F 1) (F 2) buf = Inr (0, buf)"
    using w(1) unfolding cbc_decrypt_def 7 bindR_Inr 8 dec' Let_def prod.case 9 R by (simp add: crypto_works_def)
  have pl: "int (length buf) - 34 - 8 - 16 - 16 = int P" using l by simp
  have 1: "get_bytes buf 34 8 = Inr (take 8 (drop 34 buf))" "get_bytes buf (34 + 8) 16 = Inr iv" using l by (simp_all add: get_bytes_def iv_def)
  have 2: "load_key (xs_aalg x) 32 = Inr ak" "load_key (xs_ealg x) 32 = Inr ek"
    using x by (simp_all add: load_key_def get_bytes_def ak_def ek_def)
  have 3: "get_n buf 34 (8 + 16 + int P) = Inr m" using l by (simp add: get_n_def get_bytes_def nat_add_distrib m_def)
  have 4: "put_bytes (F 0) 0 (hmac c ak m) = Inr src" using fr [of 0] h32 B by (simp add: put_bytes_def src_def)
  have 5: "get_bytes buf (nat (34 + 8 + 16 + int P)) 16 = Inr (drop (58 + P) buf)" using l by (simp add: get_bytes_def nat_add_distrib)
  have 6: "get_bytes src 0 16 = Inr (drop (58 + P) buf)" using H h32 by (simp add: get_bytes_def src_def)
  have z: "\<not> hmac_rc c 0 \<noteq> 0" using w(1) by (simp add: crypto_works_def)
  have k: "kmalloc_buf c 0 ((int (length buf) - 34 - 8 - 16) * 8) = Some (F 0)"
    "kmalloc_buf c 1 ((int (length buf) - 34 - 8 - 16) * 8) = Some (F 1)"
    "kmalloc_buf c 2 ((int (length buf) - 34 - 8 - 16) * 8) = Some (F 2)" using km by simp_all
  show ?thesis
    unfolding cbc_esp_def Let_def pl 1 2 bindR_Inr k prod.case option.case 3 if_not_P [OF z] 4 5 6 D by simp
qed

lemma gcm_write_back_same:
  assumes l: "length buf = 66 + P" "32 + P \<le> length src" "32 + P \<le> length final"
    and s: "take (16 + P) (drop 16 src) = drop 50 buf" "take (16 + P) (drop 16 final) = drop 50 buf"
    and k: "ip_send_check c buf = Inr buf"
  shows "gcm_write_back c (int P) src final buf = Inr (0, buf)"
proof -
  let ?e = "drop 50 buf"
  have hd: "take j (drop (16 + i) x) = take j (drop i ?e)" if "take (16 + P) (drop 16 x) = ?e" "i + j \<le> 16 + P" for i j and x :: bytes
  proof -
    have "drop i ?e = take (16 + P - i) (drop (16 + i) x)" using that(1) by (metis add.commute drop_drop drop_take)
    then show ?thesis using that(2) by simp
  qed
  have a: "get_bytes x (8 + 8) 16 = Inr (take 16 ?e)" "get_bytes x (nat (8 + 8 + int P)) 16 = Inr (drop P ?e)"
      "get_n x (8 + 8) (int P) = Inr (take P ?e)"
    if "take (16 + P) (drop 16 x) = ?e" "32 + P \<le> length x" for x :: bytes
    using hd [OF that(1), of 0 16] hd [OF that(1), of P 16] hd [OF that(1), of 0 P] that(2) l(1)
    by (simp_all add: get_bytes_def get_n_def nat_add_distrib)
  have 1: "put_bytes buf (34 + 8 + 8) (take P ?e) = Inr buf" by (rule put_bytes_same) (use l(1) in simp_all)
  have 2: "put_bytes buf (nat (34 + 8 + 8 + int P)) (drop P ?e) = Inr buf"
    by (rule put_bytes_same) (use l(1) in \<open>simp_all add: nat_add_distrib add.commute\<close>)
  show ?thesis
    unfolding gcm_write_back_def a [OF s(1) l(2)] a [OF s(2) l(3)] bindR_Inr 1 2 k by simp
qed

lemma gcm_reencrypt_same:
  assumes l: "length buf = 66 + P" "20 \<le> P" "32 + P \<le> length src" "32 + P \<le> length final" "length pt = P" "8 * (P + 16) \<le> length dst"
    and d: "take P (drop 16 dst) = pt" and s: "take (16 + P) (drop 16 src) = drop 50 buf"
    and e: "gcm_enc c key iv (take 16 src) pt = (0, drop 50 buf)" and p: "pt ! 9 = IPPROTO_UDP \<or> pt ! 9 = IPPROTO_TCP"
    and n: "n = unat (bpf_ntohs (ucast (pt ! 2) OR push_bit 8 (ucast (pt ! 3))))" "n + unat (pt ! (P - 2)) + 2 = P"
    and k: "ip_send_check c buf = Inr buf"
  shows "gcm_reencrypt c key iv (int P) src dst final buf = Inr (0, buf)"
proof -
  define ad where "ad = take 16 src"
  define dst' where "dst' = ad @ drop 16 dst"
  define final' where "final' = take 16 final @ drop 50 buf @ drop (32 + P) final"
  have nth: "dst ! (16 + i) = pt ! i" if "i < P" for i
  proof -
    have "pt ! i = drop 16 dst ! i" using d that by (metis nth_take)
    then show ?thesis using l(6) by simp
  qed
  have lb: "length (drop 50 buf) = 16 + P" "length ad = 16" using l by (simp_all add: ad_def)
  have 1: "get_len dst (8 + 8 + 2) = Inr n"
    unfolding get_len_def n(1) using l(2,6) nth [of 2] nth [of 3] by (simp add: get16_in)
  have 2: "arr_get dst (nat (8 + 8 + int P - 2)) = Inr (pt ! (P - 2))" "arr_get dst (nat (8 + 8 + int P - 1)) = Inr (pt ! (P - 1))"
  proof -
    have i: "nat (8 + 8 + int P - 2) = 16 + (P - 2)" "nat (8 + 8 + int P - 1) = 16 + (P - 1)" using l(2) by linarith+
    show "arr_get dst (nat (8 + 8 + int P - 2)) = Inr (pt ! (P - 2))" "arr_get dst (nat (8 + 8 + int P - 1)) = Inr (pt ! (P - 1))"
      unfolding i using l(2,6) nth [of "P - 2"] nth [of "P - 1"] by (simp_all add: arr_get_def)
  qed
  have 3: "gcm_padding dst n 0 (unat (pt ! (P - 2))) = Inr (n + unat (pt ! (P - 2)))"
  proof (rule gcm_padding_in)
    show "16 + n + 0 + 2 * unat (pt ! (P - 2)) \<le> length dst" using n(2) l(6) by simp
  qed
  have 4: "arr_get dst (8 + 8 + 9) = Inr (pt ! 9)" using l(2,6) nth [of 9] by (simp add: arr_get_def)
  have 5: "get_bytes src 0 16 = Inr ad" using l(3) by (simp add: get_bytes_def ad_def)
  have 6: "put_bytes dst 0 ad = Inr dst'" using l(6) lb by (simp add: put_bytes_def dst'_def)
  have 7: "get_n dst' (8 + 8) (int P) = Inr pt" using l(5,6) lb d by (simp add: get_n_def get_bytes_def dst'_def)
  have 8: "put_bytes final (8 + 8) (drop 50 buf) = Inr final'" using l(4) lb by (simp add: put_bytes_def final'_def add.commute)
  have 9: "gcm_write_back c (int P) src final' buf = Inr (0, buf)"
    by (rule gcm_write_back_same [OF l(1,3) _ s _ k]) (use l(4) lb in \<open>simp_all add: final'_def\<close>)
  show ?thesis
    unfolding gcm_reencrypt_def 1 bindR_Inr 2 3 4 if_P [OF p] 5 6 7 e [folded ad_def] Let_def prod.case
    by (simp only: not_True_eq_False if_False bindR_Inr prod.case 8 9 simp_thms)
qed

lemma gcm_esp_same:
  assumes w: "crypto_works c" "sizes_ok c buf"
    and x: "xs_aead x = Some key" "36 \<le> length key" and v: "gcm_valid c key buf"
  shows "gcm_esp c x buf = Inr (0, buf)"
proof -
  define P where "P = length buf - 66"
  define iv where "iv = take 8 (drop 42 buf)"
  define ek where "ek = take 36 key"
  define ad where "ad = gcm_ad buf"
  obtain rc pt where dec: "gcm_dec c ek iv ad (drop 50 buf) = (rc, pt)" by fastforce
  define n where "n = unat (bpf_ntohs (ucast (pt ! 2) OR push_bit 8 (ucast (pt ! 3))))"
  have V: "86 \<le> length buf" "rc = 0" "length pt + 16 = length (drop 50 buf)" "gcm_enc c ek iv ad pt = (0, drop 50 buf)"
    "pt ! 9 = IPPROTO_UDP \<or> pt ! 9 = IPPROTO_TCP" "n + unat (pt ! (length pt - 2)) + 2 = length pt" "ip_send_check c buf = Inr buf"
    using v dec by (simp_all add: gcm_valid_def Let_def iv_def ek_def ad_def n_def)
  have l: "length buf = 66 + P" "20 \<le> P" "length buf - 50 = P + 16" "length pt = P" using V(1,3) by (simp_all add: P_def)
  define B where "B = 8 * (P + 16)"
  have B: "32 + P \<le> B" by (simp add: B_def)
  define F where "F i = fresh c i B" for i
  have fr: "length (F i) = B" if "i < 3" for i
    using w(2) that unfolding sizes_ok_def Let_def l(3) F_def B_def by blast
  have km: "kmalloc_buf c i ((int (length buf) - 34 - 8 - 8) * 8) = Some (F i)" if "i < 3" for i
    using w(1) that l(1) by (simp add: kmalloc_buf_def crypto_works_def F_def B_def nat_mult_distrib nat_add_distrib algebra_simps)
  define h where "h = take 16 (drop 34 buf)"
  define ct where "ct = take P (drop 50 buf)"
  define tag where "tag = drop (50 + P) buf"
  have ct: "ct @ tag = drop 50 buf" "length ct = P" "length tag = 16" "length h = 16" "length ad = 16" "take 8 h @ replicate 8 0 = ad"
    using l(1) by (simp_all add: ct_def tag_def h_def ad_def gcm_ad_def add.commute flip: drop_drop)
  define src3 where "src3 = ad @ ct @ drop (16 + P) (F 0)"
  define src where "src = ad @ ct @ tag @ drop (32 + P) (F 0)"
  define dst where "dst = take 16 (F 1) @ pt @ drop (16 + P) (F 1)"
  have f: "length (F 0) = B" "length (F 1) = B" "length (F 2) = B" using fr by simp_all
  have ls: "length src = B" "length dst = B" using f ct l(4) B by (simp_all add: src_def dst_def)
  have R: "gcm_reencrypt c ek iv (int P) src dst (F 2) buf = Inr (0, buf)"
  proof (rule gcm_reencrypt_same [where pt = pt and n = n])
    show "take P (drop 16 dst) = pt" using l(4) f B by (simp add: dst_def)
    show "take (16 + P) (drop 16 src) = drop 50 buf" using ct by (simp add: src_def ct(1) [symmetric])
    show "gcm_enc c ek iv (take 16 src) pt = (0, drop 50 buf)" using V(4) ct(5) by (simp add: src_def)
    show "n + unat (pt ! (P - 2)) + 2 = P" using V(6) l(4) by simp
  qed (use l B f ls V(5,7) in \<open>simp_all only: n_def B_def\<close>)
  have 1: "get_bytes buf 34 8 = Inr (take 8 (drop 34 buf))" "get_bytes buf (34 + 8) 8 = Inr iv" "get_bytes buf 34 (8 + 8) = Inr h"
    using l by (simp_all add: get_bytes_def iv_def h_def)
  have 2: "load_key (xs_aead x) 36 = Inr ek" using x by (simp add: load_key_def get_bytes_def ek_def)
  have 3: "put_bytes (F 0) 0 h = Inr (h @ drop 16 (F 0))" using f(1) ct B by (simp add: put_bytes_def)
  have 4: "put_bytes (h @ drop 16 (F 0)) 8 (replicate 8 0) = Inr (ad @ drop 16 (F 0))"
    using f(1) ct(4) B by (simp add: put_bytes_def ct(6) [symmetric])
  have 5: "get_n buf (34 + 8 + 8) (int P) = Inr ct" using l by (simp add: get_n_def get_bytes_def ct_def)
  have 6: "put_bytes (ad @ drop 16 (F 0)) (8 + 8) ct = Inr src3" using f(1) ct B by (simp add: put_bytes_def src3_def add.commute)
  have 7: "get_bytes buf (nat (34 + 8 + 8 + int P)) 16 = Inr tag" using l by (simp add: get_bytes_def tag_def nat_add_distrib)
  have 8: "put_bytes src3 (nat (8 + 8 + int P)) tag = Inr src"
    using f(1) ct B by (simp add: put_bytes_def src3_def src_def nat_add_distrib)
  have 9: "get_bytes src 0 16 = Inr ad" using ct B ls by (simp add: get_bytes_def src_def)
  have 10: "put_bytes (F 1) (8 + 8) pt = Inr dst" using f(2) l(4) B by (simp add: put_bytes_def dst_def)
  have dec': "gcm_dec c ek iv ad (ct @ tag) = (0, pt)" using dec V(2) ct(1) by simp
  have D: "gcm_decrypt c ek iv (int P) (F 0) (F 1) (F 2) buf = Inr (0, buf)"
    using w(1) unfolding gcm_decrypt_def 1 bindR_Inr 3 4 5 6 7 8 9 dec' Let_def prod.case 10 R by (simp add: crypto_works_def)
  have pl: "int (length buf) - 34 - 8 - 8 - 16 = int P" using l by simp
  have k: "kmalloc_buf c 0 ((int (length buf) - 34 - 8 - 8) * 8) = Some (F 0)"
    "kmalloc_buf c 1 ((int (length buf) - 34 - 8 - 8) * 8) = Some (F 1)"
    "kmalloc_buf c 2 ((int (length buf) - 34 - 8 - 8) * 8) = Some (F 2)" using km by simp_all
  show ?thesis unfolding gcm_esp_def Let_def pl 1 2 bindR_Inr k prod.case option.case D ..
qed

text \<open>The first steps of both functions, as far as they work on every packet.\<close>

lemma buffers:
  assumes w: "crypto_works c" "sizes_ok c buf" "58 \<le> length buf" "i < 3"
  shows "kmalloc_buf c i ((int (length buf) - 34 - 8 - 16) * 8) = Some (fresh c i (8 * (length buf - 58)))"
    "length (fresh c i (8 * (length buf - 58))) = 8 * (length buf - 58)"
    "kmalloc_buf c i ((int (length buf) - 34 - 8 - 8) * 8) = Some (fresh c i (8 * (length buf - 50)))"
    "length (fresh c i (8 * (length buf - 50))) = 8 * (length buf - 50)"
proof -
  obtain m where m: "length buf = 58 + m" using w(3) by (metis le_iff_add)
  have n: "nat ((int (length buf) - 34 - 8 - 16) * 8) = 8 * (length buf - 58)" "nat ((int (length buf) - 34 - 8 - 8) * 8) = 8 * (length buf - 50)"
    by (simp_all add: m nat_mult_distrib nat_add_distrib)
  show "kmalloc_buf c i ((int (length buf) - 34 - 8 - 16) * 8) = Some (fresh c i (8 * (length buf - 58)))"
    "kmalloc_buf c i ((int (length buf) - 34 - 8 - 8) * 8) = Some (fresh c i (8 * (length buf - 50)))"
    using w(1,3,4) unfolding kmalloc_buf_def n by (auto simp: crypto_works_def)
  show "length (fresh c i (8 * (length buf - 58))) = 8 * (length buf - 58)" "length (fresh c i (8 * (length buf - 50))) = 8 * (length buf - 50)"
    using w(2,4) by (simp_all add: sizes_ok_def Let_def)
qed

lemma keys:
  assumes "keyed x ak ek gk"
  shows "load_key (xs_aalg x) 32 = Inr (take 32 ak)" "load_key (xs_ealg x) 32 = Inr (take 32 ek)" "load_key (xs_aead x) 36 = Inr (take 36 gk)"
  using assms by (simp_all add: keyed_def load_key_def get_bytes_def)

lemma cbc_esp_hmac:
  assumes w: "crypto_works c" "sizes_ok c buf" "\<forall>k m. length (hmac c k m) = 32" and x: "keyed x ak ek gk" and l: "60 \<le> length buf"
  shows "length buf < 62 \<Longrightarrow> cbc_esp c x buf = Inl OutOfBounds"
    and "62 \<le> length buf \<Longrightarrow> \<not> cbc_tag_ok c ak buf \<Longrightarrow> cbc_esp c x buf = Inr (0, buf)"
proof -
  have l58: "58 \<le> length buf" using l by simp
  note bf = buffers [OF w(1,2) l58]
  define F where "F i = fresh c i (8 * (length buf - 58))" for i
  have k: "kmalloc_buf c 0 ((int (length buf) - 34 - 8 - 16) * 8) = Some (F 0)"
    "kmalloc_buf c 1 ((int (length buf) - 34 - 8 - 16) * 8) = Some (F 1)"
    "kmalloc_buf c 2 ((int (length buf) - 34 - 8 - 16) * 8) = Some (F 2)" using bf(1) [of 0] bf(1) [of 1] bf(1) [of 2] by (simp_all add: F_def)
  have f: "length (F 0) = 8 * (length buf - 58)" using bf(2) [of 0] by (simp add: F_def)
  have 1: "get_bytes buf 34 8 = Inr (take 8 (drop 34 buf))" "get_bytes buf (34 + 8) 16 = Inr (take 16 (drop 42 buf))"
    using l by (simp_all add: get_bytes_def)
  define m where "m = take (length buf - 50) (drop 34 buf)"
  have z: "\<not> hmac_rc c 0 \<noteq> 0" using w(1) by (simp add: crypto_works_def)
  have n: "nat (8 + 16 + (int (length buf) - 34 - 8 - 16 - 16)) = length buf - 50"
    "nat (34 + 8 + 16 + (int (length buf) - 34 - 8 - 16 - 16)) = length buf - 16" using l by linarith+
  have 3: "get_n buf 34 (8 + 16 + (int (length buf) - 34 - 8 - 16 - 16)) = Inr m"
    using l unfolding get_n_def n by (simp add: get_bytes_def m_def)
  have h: "length (hmac c (take 32 ak) m) = 32" using w(3) by simp
  note E = cbc_esp_def [of c x buf] Let_def 1 keys [OF x] bindR_Inr k prod.case option.case 3 if_not_P [OF z]
  show "cbc_esp c x buf = Inl OutOfBounds" if "length buf < 62"
  proof -
    have "put_bytes (F 0) 0 (hmac c (take 32 ak) m) = Inl OutOfBounds" using f h that by (simp add: put_bytes_def)
    then show ?thesis unfolding E by simp
  qed
  show "cbc_esp c x buf = Inr (0, buf)" if "62 \<le> length buf" "\<not> cbc_tag_ok c ak buf"
  proof -
    let ?src = "hmac c (take 32 ak) m @ drop 32 (F 0)"
    have 4: "put_bytes (F 0) 0 (hmac c (take 32 ak) m) = Inr ?src" using f h that by (simp add: put_bytes_def)
    have 5: "get_bytes buf (length buf - 16) 16 = Inr (drop (length buf - 16) buf)" using l by (simp add: get_bytes_def)
    have 6: "get_bytes ?src 0 16 = Inr (take 16 (hmac c (take 32 ak) m))" using h by (simp add: get_bytes_def)
    have 7: "drop (length buf - 16) buf \<noteq> take 16 (hmac c (take 32 ak) m)" using that(2) by (auto simp: cbc_tag_ok_def m_def)
    show ?thesis unfolding E n 4 5 6 if_P [OF 7] ..
  qed
qed

lemma gcm_esp_bad:
  assumes w: "crypto_works c" "sizes_ok c buf" and x: "keyed x ak ek gk" and l: "60 \<le> length buf"
  shows "length buf < 66 \<Longrightarrow> gcm_esp c x buf = Inl OutOfBounds"
    and "66 \<le> length buf \<Longrightarrow> gcm_dec c (take 36 gk) (take 8 (drop 42 buf)) (gcm_ad buf) (drop 50 buf) = (rc, pt) \<Longrightarrow> rc \<noteq> 0 \<Longrightarrow>
      gcm_esp c x buf = Inr (rc, buf)"
proof -
  have l58: "58 \<le> length buf" using l by simp
  note bf = buffers [OF w l58]
  define F where "F i = fresh c i (8 * (length buf - 50))" for i
  have k: "kmalloc_buf c 0 ((int (length buf) - 34 - 8 - 8) * 8) = Some (F 0)"
    "kmalloc_buf c 1 ((int (length buf) - 34 - 8 - 8) * 8) = Some (F 1)"
    "kmalloc_buf c 2 ((int (length buf) - 34 - 8 - 8) * 8) = Some (F 2)" using bf(3) [of 0] bf(3) [of 1] bf(3) [of 2] by (simp_all add: F_def)
  have f: "length (F 0) = 8 * (length buf - 50)" using bf(4) [of 0] by (simp add: F_def)
  define h where "h = take 16 (drop 34 buf)"
  define iv where "iv = take 8 (drop 42 buf)"
  have lh: "length h = 16" using l by (simp add: h_def)
  have 1: "get_bytes buf 34 8 = Inr (take 8 (drop 34 buf))" "get_bytes buf (34 + 8) 8 = Inr iv" "get_bytes buf 34 (8 + 8) = Inr h"
    using l by (simp_all add: get_bytes_def h_def iv_def)
  have 2: "put_bytes (F 0) 0 h = Inr (h @ drop 16 (F 0))" using f lh l by (simp add: put_bytes_def)
  have ad: "take 8 h @ replicate 8 0 = gcm_ad buf" by (simp add: gcm_ad_def h_def)
  have 3: "put_bytes (h @ drop 16 (F 0)) 8 (replicate 8 0) = Inr (gcm_ad buf @ drop 16 (F 0))"
    using f lh l by (simp add: put_bytes_def ad [symmetric])
  note E = gcm_esp_def [of c x buf] Let_def 1 keys [OF x] bindR_Inr k prod.case option.case gcm_decrypt_def 2 3
  show "gcm_esp c x buf = Inl OutOfBounds" if "length buf < 66"
  proof -
    have "get_n buf (34 + 8 + 8) (int (length buf) - 34 - 8 - 8 - 16) = Inl OutOfBounds" using that by (simp add: get_n_def)
    then show ?thesis unfolding E by simp
  qed
  show "gcm_esp c x buf = Inr (rc, buf)"
    if "66 \<le> length buf" "gcm_dec c (take 36 gk) (take 8 (drop 42 buf)) (gcm_ad buf) (drop 50 buf) = (rc, pt)" "rc \<noteq> 0"
  proof -
    define P where "P = length buf - 66"
    have p: "int (length buf) - 34 - 8 - 8 - 16 = int P" "length buf = 66 + P" using that(1) by (simp_all add: P_def)
    define ct where "ct = take P (drop 50 buf)"
    define tag where "tag = drop (50 + P) buf"
    have ct: "ct @ tag = drop 50 buf" "length ct = P" "length tag = 16" "length (gcm_ad buf) = 16"
      using p(2) by (simp_all add: ct_def tag_def gcm_ad_def add.commute flip: drop_drop)
    have fB: "32 + P \<le> length (F 0)" using f p(2) by simp
    define src3 where "src3 = gcm_ad buf @ ct @ drop (16 + P) (F 0)"
    define src where "src = gcm_ad buf @ ct @ tag @ drop (32 + P) (F 0)"
    have 4: "get_n buf (34 + 8 + 8) (int P) = Inr ct" using p by (simp add: get_n_def get_bytes_def ct_def)
    have 5: "put_bytes (gcm_ad buf @ drop 16 (F 0)) (8 + 8) ct = Inr src3" using fB ct by (simp add: put_bytes_def src3_def add.commute)
    have 6: "get_bytes buf (nat (34 + 8 + 8 + int P)) 16 = Inr tag" using p by (simp add: get_bytes_def tag_def nat_add_distrib)
    have 7: "put_bytes src3 (nat (8 + 8 + int P)) tag = Inr src" using fB ct by (simp add: put_bytes_def src3_def src_def nat_add_distrib)
    have 8: "get_bytes src 0 16 = Inr (gcm_ad buf)" using ct by (simp add: get_bytes_def src_def)
    have 9: "gcm_dec c (take 36 gk) iv (gcm_ad buf) (ct @ tag) = (rc, pt)" using that(2) ct(1) by (simp add: iv_def)
    show ?thesis using w(1) that(3) unfolding E p(1) 4 5 6 7 8 9 by (simp add: crypto_works_def)
  qed
qed

lemma plain_ok:
  "crypto_works (plain_crypto v rc)" "sizes_ok (plain_crypto v rc) buf" "length (hmac (plain_crypto v rc) k m) = 32"
  "keyed plain_state (replicate 32 0) (replicate 32 0) (replicate 36 0)"
  by (simp_all add: crypto_works_def hmac_rc_def sizes_ok_def plain_crypto_def plain_state_def keyed_def)

lemma packets_padded: "padded cbc_packet = cbc_packet" "padded gcm_packet = gcm_packet" "padded cbc_packet ! 23 = IPPROTO_ESP"
  "padded gcm_packet ! 23 = IPPROTO_ESP" "length cbc_packet = 106" "length gcm_packet = 98"
  by (simp_all add: padded_def cbc_packet_def gcm_packet_def ETH_ZLEN_def IPPROTO_ESP_def)

lemma packets_valid: "cbc_valid (plain_crypto 0 0) (replicate 32 0) (replicate 32 0) cbc_packet" "gcm_valid (plain_crypto 0 0) (replicate 36 0) gcm_packet"
  by code_simp+

lemma packets_forged: "\<not> cbc_tag_ok (plain_crypto 1 (-74)) (replicate 32 0) cbc_packet"
  by code_simp

lemma loaded: "deth_inv 2 (snd (snd (deth_init_module 2 True True 0 0)))" "\<not> stopped (privs (snd (snd (deth_init_module 2 True True 0 0))) 0)"
  "other 0 = 1" "received (snd (snd (deth_init_module 2 True True 0 0))) 1 = []"
  by (rule init_inv, simp, code_simp, code_simp, code_simp)

section \<open>Properties\<close>







text \<open>
  Short ESP packets leave the buffers. Below 62 bytes the CBC driver writes a digest of 32 bytes into a smaller buffer; below 66 bytes the length of the payload is negative and the GCM driver copies that many bytes.
\<close>

lemma kxfrm_short:
  assumes "padded frame ! 23 = IPPROTO_ESP" "lookup (htonl (spi d)) = Some x" "keyed x ak ek gk"
    and "crypto_works c" "sizes_ok c (padded frame)" "\<forall>k m. length (hmac c k m) = 32"
  shows "(length frame < 62 \<longrightarrow> cbc_kxfrm_xmit c lookup spi 0 b frame d s = Inl OutOfBounds) \<and>
    (length frame < 66 \<longrightarrow> gcm_kxfrm_xmit c lookup spi 0 b frame d s = Inl OutOfBounds)"
proof (intro conjI impI)
  have l: "60 \<le> length (padded frame)" by (simp add: padded_def ETH_ZLEN_def)
  {
    assume "length frame < 62"
    then have "length (padded frame) < 62" by (simp add: padded_def ETH_ZLEN_def)
    then have "esp_frame (cbc_esp c) lookup spi d (padded frame) = Inl OutOfBounds"
      using cbc_esp_hmac(1) [OF assms(4-6,3) l] assms(1,2) by (simp add: esp_frame_def)
    then show "cbc_kxfrm_xmit c lookup spi 0 b frame d s = Inl OutOfBounds"
      using cbc.xmit_fails by (simp add: cbc_kxfrm_xmit_def)
  }
  assume "length frame < 66"
  then have "length (padded frame) < 66" by (simp add: padded_def ETH_ZLEN_def)
  then have "esp_frame (gcm_esp c) lookup spi d (padded frame) = Inl OutOfBounds"
    using gcm_esp_bad(1) [OF assms(4,5,3) l] assms(1,2) by (simp add: esp_frame_def)
  then show "gcm_kxfrm_xmit c lookup spi 0 b frame d s = Inl OutOfBounds"
    using gcm.xmit_fails by (simp add: gcm_kxfrm_xmit_def)
qed

theorem kxfrm_short_witness:
  "cbc_kxfrm_xmit (plain_crypto 0 0) (\<lambda>_. Some plain_state) (\<lambda>_. 0) 0 7 (replicate 23 0 @ [50]) 0 no_deth = Inl OutOfBounds \<and>
   gcm_kxfrm_xmit (plain_crypto 0 0) (\<lambda>_. Some plain_state) (\<lambda>_. 0) 0 7 (replicate 23 0 @ [50]) 0 no_deth = Inl OutOfBounds"
proof -
  have "padded (replicate 23 0 @ [50]) ! 23 = IPPROTO_ESP" by (simp add: padded_def IPPROTO_ESP_def nth_append)
  from kxfrm_short [OF this, of "\<lambda>_. Some plain_state" "\<lambda>_. 0", OF _ plain_ok(4) plain_ok(1,2)] plain_ok(3) show ?thesis by simp
qed

end
