(* ===== verification/Echo.thy ===== *)
theory Echo
  imports TenK CString
begin

text \<open>
  The echo servers on \<open>epoll\<close> (\<open>dev-sock-epoll-tcp\<close>, \<open>dev-sock-tcp-thread\<close>), \<open>select\<close>
  (\<open>dev-sock-select-tcp\<close>) and \<open>poll\<close> (\<open>dev-sock-poll-tcp\<close>), one iteration of the event loop each, and their
  client. What the system calls answer is an argument; what a server sends and which descriptors it closes is
  recorded in its state. Descriptors are natural numbers; 0 marks a free slot, as in the code.
\<close>

section \<open>Buffers\<close>

definition MAX_BUFF :: nat where "MAX_BUFF = 1024"
definition MAX_CONN :: nat where "MAX_CONN = 80"

text \<open>The result of one \<open>read\<close>: some bytes (none at the end of the stream), nothing for now, or an error.\<close>

datatype rd = Got string | Again | Failed

definition zeros :: string where
  "zeros = replicate MAX_BUFF nul"

text \<open>A zeroed buffer after a read of at most its size.\<close>

definition read_into :: "rd \<Rightarrow> string" where
  "read_into r = (case r of Got d \<Rightarrow> take MAX_BUFF d @ replicate (MAX_BUFF - length d) nul | _ \<Rightarrow> zeros)"

text \<open>\<open>strcat\<close> onto an array.\<close>

definition strcat :: "string \<Rightarrow> string \<Rightarrow> string res" where
  "strcat dst src = bindR (c_string dst) (\<lambda>d. bindR (c_string src) (\<lambda>s.
     if length d + length s < length dst then Inr (d @ s @ nul # drop (length d + length s + 1) dst) else Inl OutOfBounds))"

text \<open>The answer in a zeroed buffer: a fixed text, then the message.\<close>

definition answer :: "string \<Rightarrow> string \<Rightarrow> string res" where
  "answer pre buff = bindR (strcat zeros (pre @ [nul])) (\<lambda>wbuff. strcat wbuff buff)"

definition RESP :: string where "RESP = ''SERVER RESP: ''"
definition ECHO :: string where "ECHO = ''SERVER ECHO: ''"

section \<open>State\<close>

datatype act = Close nat | Send nat string | Add nat

record server =
  acts :: "act list"
  exited :: bool

definition emit :: "act \<Rightarrow> 'a server_scheme \<Rightarrow> 'a server_scheme" where
  "emit a s = s\<lparr>acts := acts s @ [a]\<rparr>"

text \<open>\<open>flags\<close> is what the first \<open>fcntl\<close> returns (nothing on an error), \<open>setfl\<close> whether the second one succeeds.\<close>

definition make_socket_non_blocking :: "int option \<Rightarrow> bool \<Rightarrow> int" where
  "make_socket_non_blocking flags setfl = (if flags = None then -1 else if \<not> setfl then -2 else 0)"

section \<open>The servers on epoll\<close>

definition EPOLLIN :: "32 word" where "EPOLLIN = 1"
definition EPOLLERR :: "32 word" where "EPOLLERR = 8"
definition EPOLLHUP :: "32 word" where "EPOLLHUP = 16"

record epoll_srv = server +
  CLIENT_SOCKET :: "(nat \<times> 32 word) list"

text \<open>
  A connection that \<open>accept\<close> returns: the descriptor, the results of \<open>fcntl\<close>, and whether it can be added to
  the \<open>epoll\<close> instance. After the last one \<open>accept\<close> fails.
\<close>

record conn =
  c_fd :: nat
  c_flags :: "int option"
  c_setfl :: bool
  c_add :: bool

fun handle_conn :: "conn list \<Rightarrow> 'a server_scheme \<Rightarrow> 'a server_scheme" where
  "handle_conn [] s = s"
| "handle_conn (c # cs) s =
     (if make_socket_non_blocking (c_flags c) (c_setfl c) < 0 then s\<lparr>exited := True\<rparr>
      else if \<not> c_add c then s\<lparr>exited := True\<rparr>
      else handle_conn cs (emit (Add (c_fd c)) s))"

definition handle_client :: "rd \<Rightarrow> nat \<Rightarrow> 'a server_scheme \<Rightarrow> 'a server_scheme res" where
  "handle_client r fd s =
     (let done = (case r of Got d \<Rightarrow> d = [] | _ \<Rightarrow> True); buff = read_into r in
      bindR (answer RESP buff) (\<lambda>wbuff.
      bindR (c_string wbuff) (\<lambda>t.
      let s = emit (Send fd t) s in
      Inr (if done then emit (Close fd) s else s))))"

text \<open>What the system answers for the event in each place of the array.\<close>

record eworld =
  e_conns :: "nat \<Rightarrow> conn list"
  e_read :: "nat \<Rightarrow> rd"

definition echo_event :: "eworld \<Rightarrow> nat \<Rightarrow> epoll_srv \<Rightarrow> nat \<Rightarrow> epoll_srv res" where
  "echo_event w sockfd s i =
     (if exited s then Inr s
      else bindR (arr_get (CLIENT_SOCKET s) i) (\<lambda>(fd, events).
        if events AND EPOLLERR \<noteq> 0 \<or> events AND EPOLLHUP \<noteq> 0 \<or> events AND EPOLLIN = 0 then Inr (emit (Close fd) s)
        else if sockfd = fd then Inr (handle_conn (e_conns w i) s)
        else handle_client (e_read w i) fd s))"

text \<open>\<open>epoll_wait\<close> fills the first places of the array; on an error it returns -1 and fills none.\<close>

definition epoll_wait :: "(nat \<times> 32 word) list \<Rightarrow> epoll_srv \<Rightarrow> epoll_srv" where
  "epoll_wait evs s = s\<lparr>CLIENT_SOCKET := evs @ drop (length evs) (CLIENT_SOCKET s)\<rparr>"

text \<open>\<open>dev-sock-epoll-tcp\<close> looks at the events returned, \<open>dev-sock-tcp-thread\<close> at the whole array.\<close>

definition echo_epoll_iter :: "eworld \<Rightarrow> nat \<Rightarrow> (nat \<times> 32 word) list \<Rightarrow> epoll_srv \<Rightarrow> epoll_srv res" where
  "echo_epoll_iter w sockfd evs s = foldR (echo_event w sockfd) (epoll_wait evs s) [0..<length evs]"

definition thandle_conn :: "conn list \<Rightarrow> 'a server_scheme \<Rightarrow> 'a server_scheme" where
  "thandle_conn = handle_conn"

definition thandle_client :: "rd \<Rightarrow> nat \<Rightarrow> 'a server_scheme \<Rightarrow> 'a server_scheme res" where
  "thandle_client = handle_client"

definition Worker_event :: "eworld \<Rightarrow> nat \<Rightarrow> epoll_srv \<Rightarrow> nat \<Rightarrow> epoll_srv res" where
  "Worker_event w sockfd s i =
     (if exited s then Inr s
      else bindR (arr_get (CLIENT_SOCKET s) i) (\<lambda>(fd, events).
        if events AND EPOLLERR \<noteq> 0 \<or> events AND EPOLLHUP \<noteq> 0 \<or> events AND EPOLLIN = 0 then Inr (emit (Close fd) s)
        else if sockfd = fd then Inr (thandle_conn (e_conns w i) s)
        else thandle_client (e_read w i) fd s))"

definition Worker_iter :: "eworld \<Rightarrow> nat \<Rightarrow> (nat \<times> 32 word) list \<Rightarrow> epoll_srv \<Rightarrow> epoll_srv res" where
  "Worker_iter w sockfd evs s = foldR (Worker_event w sockfd) (epoll_wait evs s) [0..<MAX_CONN]"

definition epoll_start :: epoll_srv where
  "epoll_start = \<lparr>acts = [], exited = False, CLIENT_SOCKET = replicate MAX_CONN (0, 0)\<rparr>"

section \<open>The server on select\<close>

record sel_srv = server +
  client_socket :: "nat list"
  sock_added :: bool

text \<open>
  What the system answers in one iteration: the ready descriptors, the new connection (if \<open>accept\<close> returns one),
  the results of \<open>fcntl\<close> on it, whether closing works, and the reads.
\<close>

record sworld =
  s_ready :: "nat \<Rightarrow> bool"
  s_accept :: "nat option"
  s_flags :: "int option"
  s_setfl :: bool
  s_close :: bool
  s_read :: "nat \<Rightarrow> rd"

definition comm_slot :: "sworld \<Rightarrow> sel_srv \<Rightarrow> nat \<Rightarrow> sel_srv res" where
  "comm_slot w s i = bindR (arr_get (client_socket s) i) (\<lambda>sd.
     if \<not> sd < FD_SETSIZE then Inl OutOfBounds
     else if s_ready w sd then
       (if s_read w sd = Got [] then Inr (emit (Close sd) (s\<lparr>client_socket := (client_socket s)[i := 0]\<rparr>))
        else bindR (answer RESP (read_into (s_read w sd))) (\<lambda>wbuff.
          bindR (c_string wbuff) (\<lambda>t. Inr (emit (Send sd t) s))))
     else Inr s)"

definition comm :: "sworld \<Rightarrow> sel_srv \<Rightarrow> sel_srv res" where
  "comm w s = foldR (comm_slot w) s [0..<MAX_CONN]"

text \<open>The part that accepts a connection; the flag is whether the iteration goes on to \<open>comm\<close>.\<close>

definition sel_accept :: "sworld \<Rightarrow> nat \<Rightarrow> sel_srv \<Rightarrow> bool \<times> sel_srv" where
  "sel_accept w sockfd s =
     (if \<not> s_ready w sockfd then (True, s)
      else case s_accept w of
        None \<Rightarrow> (False, s\<lparr>exited := True\<rparr>)
      | Some c \<Rightarrow>
          if make_socket_non_blocking (s_flags w) (s_setfl w) < 0 then (False, s)
          else let s = (case upd_first (\<lambda>x. x = 0) (\<lambda>_. c) (client_socket s) of
                   None \<Rightarrow> s | Some cs \<Rightarrow> s\<lparr>client_socket := cs, sock_added := True\<rparr>) in
            if \<not> sock_added s then
              (if s_close w then (False, (emit (Close c) s)\<lparr>exited := True\<rparr>) else (True, s))
            else (True, s\<lparr>sock_added := False\<rparr>))"

definition echo_select_iter :: "sworld \<Rightarrow> nat \<Rightarrow> sel_srv \<Rightarrow> sel_srv res" where
  "echo_select_iter w sockfd s =
     (if exited s then Inr s
      else bindR (select_fds sockfd (client_socket s)) (\<lambda>_.
        case sel_accept w sockfd s of (go, s) \<Rightarrow> if go then comm w s else Inr s))"

section \<open>The server on poll\<close>

definition MAX_CLIENTS :: nat where "MAX_CLIENTS = 10"
definition POLLIN :: "16 word" where "POLLIN = 1"
definition POLLPRI :: "16 word" where "POLLPRI = 2"

text \<open>The conditions that \<open>poll\<close> reports without being asked: error, hang-up and invalid descriptor.\<close>

definition POLL_ALWAYS :: "16 word" where "POLL_ALWAYS = 8 OR 16 OR 32"

record pollfd =
  pfd :: nat
  pevents :: "16 word"
  prevents :: "16 word"

record poll_srv = server +
  poll_table :: "pollfd list"
  useClient :: int

record pworld =
  p_result :: int
  p_cond :: "nat \<Rightarrow> 16 word"
  p_accept :: "nat option"
  p_flags :: "int option"
  p_setfl :: bool
  p_read :: "nat \<Rightarrow> rd"

text \<open>\<open>poll\<close> reports the conditions of each entry that were asked for.\<close>

definition poll_revents :: "(nat \<Rightarrow> 16 word) \<Rightarrow> pollfd list \<Rightarrow> pollfd list" where
  "poll_revents cond fds = map (\<lambda>(i, p). p\<lparr>prevents := cond i AND (pevents p OR POLL_ALWAYS)\<rparr>) (enumerate 0 fds)"

definition poll_slot :: "pworld \<Rightarrow> poll_srv \<Rightarrow> nat \<Rightarrow> poll_srv res" where
  "poll_slot w s i = bindR (arr_get (poll_table s) i) (\<lambda>p.
     if pfd p > 0 \<and> prevents p AND POLLIN \<noteq> 0 then
       (let drop_client = Inr (s\<lparr>poll_table := (poll_table s)[i := \<lparr>pfd = 0, pevents = 0, prevents = 0\<rparr>], useClient := useClient s - 1\<rparr>) in
        case p_read w i of
          Got d \<Rightarrow> if d = [] then drop_client
            else bindR (c_string (read_into (Got d))) (\<lambda>_.
              bindR (answer ECHO (read_into (Got d))) (\<lambda>wbuf. Inr (emit (Send (pfd p) wbuf) s)))
        | _ \<Rightarrow> drop_client)
     else Inr s)"

text \<open>A new client takes the first free slot; without one it is forgotten.\<close>

definition poll_add :: "nat \<Rightarrow> poll_srv \<Rightarrow> poll_srv" where
  "poll_add c s = (case upd_first (\<lambda>p. pfd p = 0) (pfd_update (\<lambda>_. c)) (tl (poll_table s)) of
     None \<Rightarrow> s
   | Some fds \<Rightarrow> s\<lparr>poll_table := hd (poll_table s) # fds, useClient := useClient s + 1\<rparr>)"

text \<open>The part that accepts; nothing when the iteration ends there.\<close>

definition echo_poll_accept :: "pworld \<Rightarrow> poll_srv \<Rightarrow> poll_srv option" where
  "echo_poll_accept w s =
     (if prevents (poll_table s ! 0) AND POLLIN \<noteq> 0 then
        (case p_accept w of
           None \<Rightarrow> None
         | Some c \<Rightarrow> if make_socket_non_blocking (p_flags w) (p_setfl w) < 0 then None else Some (poll_add c s))
      else Some s)"

definition wait_client_iter :: "pworld \<Rightarrow> poll_srv \<Rightarrow> poll_srv res" where
  "wait_client_iter w s =
     (if p_result w > 0 then
        (let s = s\<lparr>poll_table := poll_revents (p_cond w) (poll_table s)\<rparr> in
         case echo_poll_accept w s of
           None \<Rightarrow> Inr s
         | Some s \<Rightarrow> foldR (poll_slot w) s [1..<MAX_CLIENTS + 1])
      else Inr s)"

definition wait_client_start :: "nat \<Rightarrow> poll_srv" where
  "wait_client_start server_socket =
     \<lparr>acts = [], exited = False,
      poll_table = \<lparr>pfd = server_socket, pevents = POLLIN OR POLLPRI, prevents = 0\<rparr> #
        replicate MAX_CLIENTS \<lparr>pfd = 0, pevents = POLLIN OR POLLPRI, prevents = 0\<rparr>,
      useClient = 0\<rparr>"

definition wait_client :: "nat \<Rightarrow> pworld list \<Rightarrow> poll_srv res" where
  "wait_client server_socket ws = foldR (\<lambda>s w. wait_client_iter w s) (wait_client_start server_socket) ws"

section \<open>The client\<close>

definition EINTR :: int where "EINTR = 4"
definition EWOULDBLOCK :: int where "EWOULDBLOCK = 11"
definition EINPROGRESS :: int where "EINPROGRESS = 115"

text \<open>
  What the system answers: the calls before \<open>connect\<close>, in their order, \<open>connect\<close> (0 or the error), for each
  round of the loop the milliseconds since it began, the result of \<open>poll\<close>, whether \<open>getsockopt\<close> works and the pending
  error, and the last \<open>fcntl\<close>.
\<close>

record conn_env =
  ce_socket :: bool
  ce_pton :: bool
  ce_rcvtimeo :: bool
  ce_sndtimeo :: bool
  ce_getfl :: int
  ce_setfl :: bool
  ce_connect :: int
  ce_elapsed :: "nat \<Rightarrow> int"
  ce_poll :: "nat \<Rightarrow> int \<Rightarrow> int"
  ce_getsockopt :: "nat \<Rightarrow> bool"
  ce_error :: "nat \<Rightarrow> int"
  ce_restore :: bool

text \<open>The loop goes on while the pending error is an interrupted call. \<open>poll\<close> is given the elapsed time as its limit.\<close>

partial_function (option) connect_loop :: "conn_env \<Rightarrow> int \<Rightarrow> nat \<Rightarrow> int option" where
  "connect_loop e timeout k =
     (let ms_until_deadline = ce_elapsed e k in
      if ms_until_deadline > timeout then Some (-10)
      else let rc = ce_poll e k ms_until_deadline; error = (if ce_getsockopt e k then ce_error e k else 0) in
        if rc > 0 \<and> error \<noteq> 0 then
          (if error = EINTR then connect_loop e timeout (k + 1) else Some (-11))
        else Some rc)"

definition connect_with_timeout :: "conn_env \<Rightarrow> int \<Rightarrow> int option" where
  "connect_with_timeout e timeout =
     (if \<not> ce_socket e then Some (-1)
      else if \<not> ce_pton e then Some (-2)
      else if \<not> ce_rcvtimeo e then Some (-3)
      else if \<not> ce_sndtimeo e then Some (-4)
      else if ce_getfl e < 0 then Some (-5)
      else if \<not> ce_setfl e then Some (-6)
      else case (if ce_connect e = 0 then Some 0
                 else if ce_connect e \<noteq> EWOULDBLOCK \<and> ce_connect e \<noteq> EINPROGRESS then Some (-11)
                 else connect_loop e timeout 0) of
        None \<Rightarrow> None
      | Some rc \<Rightarrow> Some (if ce_restore e then rc else -20))"

text \<open>
  The clients of the other servers have the same text; the one on \<open>select\<close> calls \<open>select\<close> with a limit of one
  second instead of \<open>poll\<close>.
\<close>

definition epoll_connect_with_timeout :: "conn_env \<Rightarrow> int \<Rightarrow> int option" where
  "epoll_connect_with_timeout = connect_with_timeout"

definition pool_connect_with_timeout :: "conn_env \<Rightarrow> int \<Rightarrow> int option" where
  "pool_connect_with_timeout = connect_with_timeout"

definition thread_connect_with_timeout :: "conn_env \<Rightarrow> int \<Rightarrow> int option" where
  "thread_connect_with_timeout = connect_with_timeout"

definition select_connect_with_timeout :: "conn_env \<Rightarrow> int \<Rightarrow> int option" where
  "select_connect_with_timeout e = connect_with_timeout (e\<lparr>ce_poll := (\<lambda>k _. ce_poll e k 1000)\<rparr>)"

text \<open>
  A session of the client: a line of the input goes out in a buffer of 1024 bytes, the answer is printed. \<open>srv\<close> is what
  the server answers to a buffer. The session ends when an answer starts with \<open>exit\<close>; the flag is whether it did.
\<close>

definition fgets_line :: "string \<Rightarrow> string" where
  "fgets_line l = (let l = take (MAX_BUFF - 1) l in l @ replicate (MAX_BUFF - length l) nul)"

fun client_comm :: "(string \<Rightarrow> rd res) \<Rightarrow> string list \<Rightarrow> (string list \<times> bool) res" where
  "client_comm srv [] = Inr ([], False)"
| "client_comm srv (l # ls) =
     bindR (srv (fgets_line l)) (\<lambda>r.
     bindR (c_string (read_into r)) (\<lambda>t.
       if take 4 (read_into r) = ''exit'' then Inr ([t], True)
       else bindR (client_comm srv ls) (\<lambda>(ts, e). Inr (t # ts, e))))"

section \<open>Specification\<close>

text \<open>The message in what was read, up to its first null, and whether the answer to it fits into the buffer.\<close>

definition text_of :: "rd \<Rightarrow> string" where
  "text_of r = (case r of Got d \<Rightarrow> takeWhile (\<lambda>c. c \<noteq> nul) (take MAX_BUFF d) | _ \<Rightarrow> [])"

definition fits :: "string \<Rightarrow> rd \<Rightarrow> bool" where
  "fits pre r \<longleftrightarrow> length pre + length (text_of r) < MAX_BUFF"

definition ended :: "rd \<Rightarrow> bool" where
  "ended r \<longleftrightarrow> r = Again \<or> r = Failed \<or> r = Got []"

definition conn_ok :: "conn \<Rightarrow> bool" where
  "conn_ok c \<longleftrightarrow> c_flags c \<noteq> None \<and> c_setfl c \<and> c_add c"

definition event_bad :: "32 word \<Rightarrow> bool" where
  "event_bad events \<longleftrightarrow> events AND EPOLLERR \<noteq> 0 \<or> events AND EPOLLHUP \<noteq> 0 \<or> events AND EPOLLIN = 0"

definition event_acts :: "eworld \<Rightarrow> nat \<Rightarrow> nat \<Rightarrow> nat \<times> 32 word \<Rightarrow> act list" where
  "event_acts w sockfd i = (\<lambda>(fd, events).
     if event_bad events then [Close fd]
     else if sockfd = fd then map (\<lambda>c. Add (c_fd c)) (e_conns w i)
     else Send fd (RESP @ text_of (e_read w i)) # (if ended (e_read w i) then [Close fd] else []))"

definition event_ok :: "eworld \<Rightarrow> nat \<Rightarrow> nat \<Rightarrow> nat \<times> 32 word \<Rightarrow> bool" where
  "event_ok w sockfd i = (\<lambda>(fd, events). event_bad events \<or>
     (if sockfd = fd then list_all conn_ok (e_conns w i) else fits RESP (e_read w i)))"

text \<open>The slots of the select server after an iteration, and what it sends and closes.\<close>

definition slot_after :: "sworld \<Rightarrow> nat \<Rightarrow> nat" where
  "slot_after w sd = (if s_ready w sd \<and> s_read w sd = Got [] then 0 else sd)"

definition slot_acts :: "sworld \<Rightarrow> nat \<Rightarrow> act list" where
  "slot_acts w sd =
     (if \<not> s_ready w sd then [] else if s_read w sd = Got [] then [Close sd] else [Send sd (RESP @ text_of (s_read w sd))])"

definition sel_wf :: "sel_srv \<Rightarrow> bool" where
  "sel_wf s \<longleftrightarrow> length (client_socket s) = MAX_CONN \<and> (\<forall>sd\<in>set (client_socket s). sd < FD_SETSIZE) \<and> \<not> sock_added s"

text \<open>The table of the poll server.\<close>

definition poll_wf :: "poll_srv \<Rightarrow> bool" where
  "poll_wf s \<longleftrightarrow> length (poll_table s) = MAX_CLIENTS + 1 \<and> useClient s = int (length (filter (\<lambda>p. pfd p \<noteq> 0) (tl (poll_table s))))"

text \<open>A slot after an iteration, and what is sent to its client.\<close>

definition poll_after :: "pworld \<Rightarrow> nat \<Rightarrow> pollfd \<Rightarrow> pollfd" where
  "poll_after w i p = (if pfd p > 0 \<and> prevents p AND POLLIN \<noteq> 0 \<and> ended (p_read w i) then \<lparr>pfd = 0, pevents = 0, prevents = 0\<rparr> else p)"

definition poll_acts :: "pworld \<Rightarrow> nat \<Rightarrow> pollfd \<Rightarrow> act list" where
  "poll_acts w i p = (if pfd p > 0 \<and> prevents p AND POLLIN \<noteq> 0 \<and> \<not> ended (p_read w i)
     then [Send (pfd p) (ECHO @ text_of (p_read w i) @ replicate (MAX_BUFF - 13 - length (text_of (p_read w i))) nul)] else [])"

text \<open>A slot that \<open>poll\<close> is not asked to watch.\<close>

definition dead_slot :: "pollfd \<Rightarrow> bool" where
  "dead_slot p \<longleftrightarrow> pevents p = 0 \<and> prevents p AND POLLIN = 0"

text \<open>What concerns one descriptor.\<close>

definition about :: "nat \<Rightarrow> act \<Rightarrow> bool" where
  "about c a = (case a of Send f _ \<Rightarrow> f = c | Close f \<Rightarrow> f = c | Add f \<Rightarrow> f = c)"

text \<open>A client in a slot that is not watched, with all that concerns the client so far.\<close>

definition forgotten :: "nat \<Rightarrow> nat \<Rightarrow> act list \<Rightarrow> poll_srv \<Rightarrow> bool" where
  "forgotten i c as s \<longleftrightarrow> length (poll_table s) = MAX_CLIENTS + 1 \<and> pevents (poll_table s ! i) = 0 \<and> pfd (poll_table s ! i) = c \<and>
     (\<forall>j < MAX_CLIENTS + 1. j \<noteq> i \<longrightarrow> pfd (poll_table s ! j) \<noteq> c) \<and> filter (about c) (acts s) = as"

text \<open>The server on \<open>epoll\<close> as its client sees it.\<close>

definition echo_server :: "string \<Rightarrow> rd res" where
  "echo_server buf = bindR (handle_client (Got buf) 4 \<lparr>acts = [], exited = False\<rparr>) (\<lambda>s.
     case acts s of Send _ t # _ \<Rightarrow> Inr (Got t) | _ \<Rightarrow> Inr Failed)"

section \<open>Lemmas\<close>

subsection \<open>Answers\<close>

lemma read_into_length [simp]: "length (read_into r) = MAX_BUFF"
  by (auto simp: read_into_def zeros_def split: rd.split)

lemma takeWhile_replicate_nul [simp]: "takeWhile (\<lambda>c. c \<noteq> x) (replicate n x) = []"
  by (cases n) auto

lemma takeWhile_pad: "takeWhile (\<lambda>c. c \<noteq> x) (d @ replicate n x) = takeWhile (\<lambda>c. c \<noteq> x) d"
  by (induction d) auto

lemma in_set_takeWhile_length: "x \<in> set d \<longleftrightarrow> length (takeWhile (\<lambda>c. c \<noteq> x) d) < length d"
  by (induction d) auto

lemma read_into_text: "takeWhile (\<lambda>c. c \<noteq> nul) (read_into r) = text_of r"
  by (simp add: read_into_def text_of_def takeWhile_pad zeros_def split: rd.split)

lemma c_string_read_into: "c_string (read_into r) = (if length (text_of r) < MAX_BUFF then Inr (text_of r) else Inl OutOfBounds)"
  using in_set_takeWhile_length [of nul "read_into r"] by (simp add: c_string_def read_into_text)

lemma nul_text_of [simp]: "nul \<notin> set (text_of r)"
  by (auto simp: text_of_def dest: set_takeWhileD split: rd.splits)

lemma c_string_proper: "nul \<notin> set t \<Longrightarrow> c_string (t @ nul # z) = Inr t"
  by (induction t) (auto simp: c_string_def)

lemma answer_eq:
  assumes "nul \<notin> set pre" "0 < length pre" "length pre < MAX_BUFF"
  shows "answer pre (read_into r) =
    (if fits pre r then Inr ((pre @ text_of r) @ nul # replicate (MAX_BUFF - length pre - length (text_of r) - 1) nul) else Inl OutOfBounds)"
proof -
  have z: "c_string zeros = Inr []" "length zeros = MAX_BUFF" "drop k zeros = replicate (MAX_BUFF - k) nul" for k
    by (simp_all add: zeros_def c_string_def MAX_BUFF_def)
  have 1: "strcat zeros (pre @ [nul]) = Inr (pre @ nul # replicate (MAX_BUFF - length pre - 1) nul)"
    using assms by (simp add: strcat_def z c_string_proper)
  show ?thesis
    unfolding answer_def 1 bindR_Inr
    unfolding strcat_def c_string_proper [OF assms(1)] c_string_read_into using assms by (auto simp: fits_def)
qed

lemma RESP_facts [simp]: "nul \<notin> set RESP" "length RESP = 13"
  by (simp_all add: RESP_def nul_def)

lemma ECHO_facts [simp]: "nul \<notin> set ECHO" "length ECHO = 13"
  by (simp_all add: ECHO_def nul_def)

lemma answer_RESP:
  "bindR (answer RESP (read_into r)) (\<lambda>wbuff. bindR (c_string wbuff) f) = (if fits RESP r then f (RESP @ text_of r) else Inl OutOfBounds)"
proof -
  have "c_string ((RESP @ text_of r) @ nul # z) = Inr (RESP @ text_of r)" for z by (rule c_string_proper) simp
  moreover have "13 < MAX_BUFF" by (simp add: MAX_BUFF_def)
  ultimately show ?thesis by (simp add: answer_eq del: append_assoc)
qed

subsection \<open>The servers on epoll\<close>

lemma emit_facts [simp]: "acts (emit a s) = acts s @ [a]" "exited (emit a s) = exited s"
  by (simp_all add: emit_def)

lemma emit_socket [simp]: "CLIENT_SOCKET (emit a s) = CLIENT_SOCKET s"
  by (simp add: emit_def)

lemma handle_client_eq:
  "handle_client r fd s = (if fits RESP r then
     Inr (if ended r then emit (Close fd) (emit (Send fd (RESP @ text_of r)) s) else emit (Send fd (RESP @ text_of r)) s)
     else Inl OutOfBounds)"
  by (simp add: handle_client_def answer_RESP ended_def split: rd.split)

lemma handle_conn_ok:
  "list_all conn_ok cs \<Longrightarrow>
   acts (handle_conn cs s) = acts s @ map (\<lambda>c. Add (c_fd c)) cs \<and> exited (handle_conn cs s) = exited s"
  by (induction cs arbitrary: s) (simp_all add: conn_ok_def make_socket_non_blocking_def)

lemma handle_conn_socket: "CLIENT_SOCKET (handle_conn cs s) = CLIENT_SOCKET s"
  by (induction cs arbitrary: s) simp_all

lemma echo_event_ok:
  assumes "\<not> exited s" "i < length (CLIENT_SOCKET s)" "event_ok w sockfd i (CLIENT_SOCKET s ! i)"
  shows "\<exists>s'. echo_event w sockfd s i = Inr s' \<and> acts s' = acts s @ event_acts w sockfd i (CLIENT_SOCKET s ! i) \<and>
    \<not> exited s' \<and> CLIENT_SOCKET s' = CLIENT_SOCKET s"
proof (cases "CLIENT_SOCKET s ! i")
  case (Pair fd events)
  then show ?thesis
    unfolding echo_event_def event_bad_def [symmetric] using assms handle_conn_ok [of "e_conns w i" s]
    by (auto simp: event_ok_def event_acts_def handle_client_eq handle_conn_socket)
qed

lemma echo_events_ok:
  assumes "\<not> exited s" "\<forall>i\<in>set is. i < length (CLIENT_SOCKET s) \<and> event_ok w sockfd i (CLIENT_SOCKET s ! i)"
  shows "\<exists>s'. foldR (echo_event w sockfd) s is = Inr s' \<and>
    acts s' = acts s @ concat (map (\<lambda>i. event_acts w sockfd i (CLIENT_SOCKET s ! i)) is) \<and>
    \<not> exited s' \<and> CLIENT_SOCKET s' = CLIENT_SOCKET s"
  using assms
proof (induction "is" arbitrary: s)
  case (Cons i "is")
  obtain s1 where 1: "echo_event w sockfd s i = Inr s1" "acts s1 = acts s @ event_acts w sockfd i (CLIENT_SOCKET s ! i)"
    "\<not> exited s1" "CLIENT_SOCKET s1 = CLIENT_SOCKET s"
    using echo_event_ok [OF Cons.prems(1), of i w sockfd] Cons.prems(2) by auto
  then show ?case using Cons.IH [of s1] Cons.prems(2) by auto
qed simp

lemma Worker_event_same: "Worker_event = echo_event"
  unfolding fun_eq_iff Worker_event_def echo_event_def thandle_conn_def thandle_client_def by simp

lemmas event_simps = event_ok_def event_acts_def event_bad_def EPOLLERR_def EPOLLHUP_def EPOLLIN_def conn_ok_def fits_def ended_def
  text_of_def MAX_BUFF_def nul_def

subsection \<open>Loops over the slots of a table\<close>

text \<open>Each step looks at one slot, changes only that slot and adds to the output.\<close>

lemma foldR_slots:
  assumes step: "\<And>s i. i \<in> set is \<Longrightarrow> Q s \<Longrightarrow> i < length (arr s) \<Longrightarrow> R i (arr s ! i) \<Longrightarrow>
      \<exists>s'. f s i = Inr s' \<and> arr s' = (arr s)[i := g i (arr s ! i)] \<and> out s' = out s @ h i (arr s ! i) \<and> Q s'"
    and "distinct is" "Q s" "\<forall>i\<in>set is. i < length (arr s) \<and> R i (arr s ! i)"
  shows "\<exists>s'. foldR f s is = Inr s' \<and> length (arr s') = length (arr s) \<and>
    (\<forall>i < length (arr s). arr s' ! i = (if i \<in> set is then g i (arr s ! i) else arr s ! i)) \<and>
    out s' = out s @ concat (map (\<lambda>i. h i (arr s ! i)) is) \<and> Q s'"
  using assms
proof (induction "is" arbitrary: s)
  case (Cons i "is")
  have i: "i < length (arr s)" "R i (arr s ! i)" using Cons.prems(4) by auto
  obtain s1 where 1: "f s i = Inr s1" "arr s1 = (arr s)[i := g i (arr s ! i)]" "out s1 = out s @ h i (arr s ! i)" "Q s1"
    using Cons.prems(1) [OF _ Cons.prems(3) i] by auto
  have same: "arr s1 ! j = arr s ! j" if "j \<in> set is" for j using that Cons.prems(2) by (cases "j = i") (auto simp: 1(2))
  obtain s2 where 2: "foldR f s1 is = Inr s2" "length (arr s2) = length (arr s1)"
    "\<forall>j < length (arr s1). arr s2 ! j = (if j \<in> set is then g j (arr s1 ! j) else arr s1 ! j)"
    "out s2 = out s1 @ concat (map (\<lambda>j. h j (arr s1 ! j)) is)" "Q s2"
    using Cons.IH [of s1] Cons.prems 1 same by fastforce
  have m: "map (\<lambda>j. h j (arr s1 ! j)) is = map (\<lambda>j. h j (arr s ! j)) is" using same by simp
  have o: "out s2 = out s @ concat (map (\<lambda>j. h j (arr s ! j)) (i # is))" unfolding 2(4) 1(3) m by simp
  have "arr s2 ! j = (if j \<in> set (i # is) then g j (arr s ! j) else arr s ! j)" if "j < length (arr s)" for j
    using that 2(3) same [of j] i(1) Cons.prems(2) unfolding 1(2) by (cases "j = i") auto
  then show ?case using 1(1,2) 2(1,2,5) o by simp
qed simp

subsection \<open>The server on select\<close>

lemma emit_sel [simp]: "client_socket (emit a s) = client_socket s" "sock_added (emit a s) = sock_added s"
  by (simp_all add: emit_def)

lemma comm_slot_ok:
  assumes "i < length (client_socket s)" "client_socket s ! i < FD_SETSIZE"
    "s_ready w (client_socket s ! i) \<Longrightarrow> fits RESP (s_read w (client_socket s ! i))"
  shows "\<exists>s'. comm_slot w s i = Inr s' \<and> client_socket s' = (client_socket s)[i := slot_after w (client_socket s ! i)] \<and>
    acts s' = acts s @ slot_acts w (client_socket s ! i) \<and> exited s' = exited s \<and> sock_added s' = sock_added s"
  using assms by (simp add: comm_slot_def answer_RESP slot_after_def slot_acts_def)

lemma comm_ok:
  assumes "sel_wf s" "\<forall>sd\<in>set (client_socket s). s_ready w sd \<longrightarrow> fits RESP (s_read w sd)"
  shows "\<exists>s'. comm w s = Inr s' \<and> client_socket s' = map (slot_after w) (client_socket s) \<and>
    acts s' = acts s @ concat (map (slot_acts w) (client_socket s)) \<and> exited s' = exited s \<and> sock_added s' = sock_added s"
proof -
  let ?n = "length (client_socket s)"
  let ?Q = "\<lambda>t. exited t = exited s \<and> sock_added t = sock_added s"
  let ?R = "\<lambda>(i :: nat) sd. sd < FD_SETSIZE \<and> (s_ready w sd \<longrightarrow> fits RESP (s_read w sd))"
  have "\<exists>s'. foldR (comm_slot w) s [0..<?n] = Inr s' \<and> length (client_socket s') = ?n \<and>
    (\<forall>i < ?n. client_socket s' ! i = (if i \<in> set [0..<?n] then slot_after w (client_socket s ! i) else client_socket s ! i)) \<and>
    acts s' = acts s @ concat (map (\<lambda>i. slot_acts w (client_socket s ! i)) [0..<?n]) \<and> ?Q s'"
  proof (rule foldR_slots [where f = "comm_slot w" and arr = client_socket and out = acts and Q = ?Q and R = ?R and
        g = "\<lambda>_. slot_after w" and h = "\<lambda>_. slot_acts w"])
    fix t :: sel_srv and i :: nat
    assume a: "?Q t" "i < length (client_socket t)" "?R i (client_socket t ! i)"
    obtain t' where "comm_slot w t i = Inr t'" "client_socket t' = (client_socket t)[i := slot_after w (client_socket t ! i)]"
      "acts t' = acts t @ slot_acts w (client_socket t ! i)" "exited t' = exited t" "sock_added t' = sock_added t"
      using comm_slot_ok [OF a(2), of w] a(3) by blast
    then show "\<exists>t'. comm_slot w t i = Inr t' \<and> client_socket t' = (client_socket t)[i := slot_after w (client_socket t ! i)] \<and>
        acts t' = acts t @ slot_acts w (client_socket t ! i) \<and> ?Q t'"
      using a(1) by metis
  next
    show "\<forall>i\<in>set [0..<?n]. i < ?n \<and> ?R i (client_socket s ! i)" using assms by (simp add: sel_wf_def)
  qed simp_all
  then obtain s' where s': "foldR (comm_slot w) s [0..<?n] = Inr s'" "length (client_socket s') = ?n"
    "\<forall>i < ?n. client_socket s' ! i = slot_after w (client_socket s ! i)"
    "acts s' = acts s @ concat (map (\<lambda>i. slot_acts w (client_socket s ! i)) [0..<?n])" "?Q s'"
    unfolding atLeast_upt [symmetric] by (elim exE conjE) simp
  have "client_socket s' = map (slot_after w) (client_socket s)" using s'(2,3) by (simp add: list_eq_iff_nth_eq)
  moreover have "map (\<lambda>i. slot_acts w (client_socket s ! i)) [0..<?n] = map (slot_acts w) (client_socket s)"
    by (rule nth_equalityI) simp_all
  ultimately show ?thesis using s'(1,4,5) assms(1) by (simp add: comm_def sel_wf_def)
qed

lemma select_fds_ok:
  assumes "sockfd < FD_SETSIZE" "\<forall>sd\<in>set cs. sd < FD_SETSIZE"
  shows "\<exists>m. select_fds sockfd cs = Inr m"
proof -
  have "\<exists>m'. foldR (\<lambda>m c. bindR (if c > 0 then FD_SET c else Inr ()) (\<lambda>_. Inr (if c > m then c else m))) m cs = Inr m' \<and> True" for m
    by (rule foldR_invariant) (use assms in \<open>auto simp: FD_SET_def\<close>)
  then show ?thesis using assms(1) by (auto simp: select_fds_def FD_SET_def)
qed

subsection \<open>The server on poll\<close>

lemma emit_poll [simp]: "poll_table (emit a s) = poll_table s" "useClient (emit a s) = useClient s"
  by (simp_all add: emit_def)

lemma poll_revents_nth:
  "i < length fds \<Longrightarrow> poll_revents cond fds ! i = (fds ! i)\<lparr>prevents := cond i AND (pevents (fds ! i) OR POLL_ALWAYS)\<rparr>"
  by (simp add: poll_revents_def nth_enumerate_eq)

lemma poll_revents_length [simp]: "length (poll_revents cond fds) = length fds"
  by (simp add: poll_revents_def)

lemma poll_always_in: "(cond AND POLL_ALWAYS) AND POLLIN = 0"
proof -
  have "POLL_ALWAYS AND POLLIN = 0" by (simp add: POLL_ALWAYS_def POLLIN_def)
  then show ?thesis by (simp add: and.assoc)
qed

lemma poll_revents_dead: "i < length fds \<Longrightarrow> pevents (fds ! i) = 0 \<Longrightarrow> dead_slot (poll_revents cond fds ! i)"
  by (simp add: poll_revents_nth dead_slot_def poll_always_in)

lemma poll_revents_fds: "map pfd (poll_revents cond fds) = map pfd fds"
  by (rule nth_equalityI) (simp_all add: poll_revents_nth)

lemma filter_fds: "map pfd xs = map pfd ys \<Longrightarrow> length (filter (\<lambda>p. pfd p \<noteq> 0) xs) = length (filter (\<lambda>p. pfd p \<noteq> 0) ys)"
proof (induction xs arbitrary: ys)
  case (Cons x xs)
  then show ?case by (cases ys) auto
qed simp

text \<open>One slot: a client that has ended is dropped, the others get their answer.\<close>

lemma poll_slot_cases:
  assumes "i < length (poll_table s)"
  shows "poll_slot w s i =
    (let p = poll_table s ! i; r = p_read w i in
     if pfd p = 0 \<or> prevents p AND POLLIN = 0 then Inr s
     else if ended r then Inr (s\<lparr>poll_table := (poll_table s)[i := \<lparr>pfd = 0, pevents = 0, prevents = 0\<rparr>], useClient := useClient s - 1\<rparr>)
     else if fits ECHO r then Inr (emit (Send (pfd p) (ECHO @ text_of r @ replicate (MAX_BUFF - 13 - length (text_of r)) nul)) s)
     else Inl OutOfBounds)"
proof -
  have m: "13 < MAX_BUFF" by (simp add: MAX_BUFF_def)
  have n: "nul # replicate (MAX_BUFF - 13 - length (text_of r) - 1) nul = replicate (MAX_BUFF - 13 - length (text_of r)) nul" if "fits ECHO r" for r
    using that by (simp add: fits_def replicate_Suc [symmetric] del: replicate_Suc)
  have "bindR (c_string (read_into r)) (\<lambda>_. bindR (answer ECHO (read_into r)) f) =
    (if fits ECHO r then f (ECHO @ text_of r @ replicate (MAX_BUFF - 13 - length (text_of r)) nul) else Inl OutOfBounds)" for r and f :: "string \<Rightarrow> poll_srv res"
    using m n [of r] by (auto simp: c_string_read_into answer_eq fits_def)
  then show ?thesis using assms by (auto simp: poll_slot_def Let_def ended_def split: rd.split)
qed

lemma filter_drop_one:
  "i < length xs \<Longrightarrow> P (xs ! i) \<Longrightarrow> \<not> P y \<Longrightarrow> int (length (filter P (xs[i := y]))) = int (length (filter P xs)) - 1"
proof (induction xs arbitrary: i)
  case (Cons x xs)
  then show ?case by (cases i) auto
qed simp

lemma tl_list_update: "0 < i \<Longrightarrow> tl (xs[i := y]) = (tl xs)[i - 1 := y]"
  by (cases xs; cases i) auto

lemma poll_slot_ok:
  assumes "poll_wf s" "1 \<le> i" "i < length (poll_table s)" "fits ECHO (p_read w i)"
  shows "\<exists>s'. poll_slot w s i = Inr s' \<and> poll_table s' = (poll_table s)[i := poll_after w i (poll_table s ! i)] \<and>
    acts s' = acts s @ poll_acts w i (poll_table s ! i) \<and> poll_wf s'"
proof -
  have "int (length (filter (\<lambda>p. pfd p \<noteq> 0) (tl ((poll_table s)[i := \<lparr>pfd = 0, pevents = 0, prevents = 0\<rparr>])))) =
      int (length (filter (\<lambda>p. pfd p \<noteq> 0) (tl (poll_table s)))) - 1" if "pfd (poll_table s ! i) \<noteq> 0"
    using that assms(2,3) filter_drop_one [of "i - 1" "tl (poll_table s)" "\<lambda>p. pfd p \<noteq> 0"] by (simp add: tl_list_update nth_tl)
  then show ?thesis
    using assms by (auto simp: poll_slot_cases Let_def poll_after_def poll_acts_def poll_wf_def)
qed

lemma poll_slots_ok:
  assumes "poll_wf s" "\<forall>i. fits ECHO (p_read w i)"
  shows "\<exists>s'. foldR (poll_slot w) s [1..<MAX_CLIENTS + 1] = Inr s' \<and> length (poll_table s') = length (poll_table s) \<and>
    (\<forall>i < length (poll_table s). poll_table s' ! i = (if i \<in> set [1..<MAX_CLIENTS + 1] then poll_after w i (poll_table s ! i) else poll_table s ! i)) \<and>
    acts s' = acts s @ concat (map (\<lambda>i. poll_acts w i (poll_table s ! i)) [1..<MAX_CLIENTS + 1]) \<and> poll_wf s'"
proof (rule foldR_slots [where f = "poll_slot w" and arr = poll_table and out = acts and Q = poll_wf and
      R = "\<lambda>_ _. True" and g = "poll_after w" and h = "poll_acts w"])
  fix t :: poll_srv and i :: nat
  assume "i \<in> set [1..<MAX_CLIENTS + 1]" "poll_wf t" "i < length (poll_table t)"
  then show "\<exists>t'. poll_slot w t i = Inr t' \<and> poll_table t' = (poll_table t)[i := poll_after w i (poll_table t ! i)] \<and>
      acts t' = acts t @ poll_acts w i (poll_table t ! i) \<and> poll_wf t'"
    using poll_slot_ok [of t i w] assms(2) by auto
qed (use assms in \<open>auto simp: poll_wf_def\<close>)

lemma poll_wf_revents: "poll_wf s \<Longrightarrow> poll_wf (s\<lparr>poll_table := poll_revents cond (poll_table s)\<rparr>)"
  using filter_fds [of "tl (poll_revents cond (poll_table s))" "tl (poll_table s)"] poll_revents_fds [of cond "poll_table s"]
  by (simp add: poll_wf_def map_tl)

lemma poll_add_wf:
  assumes "poll_wf s" "c \<noteq> 0"
  shows "poll_wf (poll_add c s)"
proof (cases "upd_first (\<lambda>p. pfd p = 0) (pfd_update (\<lambda>_. c)) (tl (poll_table s))")
  case (Some fds)
  then obtain as x bs where t: "tl (poll_table s) = as @ x # bs" "fds = as @ pfd_update (\<lambda>_. c) x # bs" "pfd x = 0"
    unfolding upd_first_Some by blast
  have "length (as @ x # bs) = MAX_CLIENTS" using assms(1) t(1) [symmetric] by (simp add: poll_wf_def)
  then have "length fds = MAX_CLIENTS" by (simp add: t(2))
  moreover have "length (filter (\<lambda>p. pfd p \<noteq> 0) fds) = Suc (length (filter (\<lambda>p. pfd p \<noteq> 0) (tl (poll_table s))))"
    unfolding t(1,2) using t(3) assms(2) by simp
  ultimately show ?thesis using assms(1) by (simp add: poll_wf_def poll_add_def Some)
qed (simp add: assms poll_add_def)

lemma poll_add_acts [simp]: "acts (poll_add c s) = acts s"
  by (simp add: poll_add_def split: option.split)

lemma echo_poll_accept_wf:
  assumes "poll_wf s" "p_accept w \<noteq> Some 0" "echo_poll_accept w s = Some s'"
  shows "poll_wf s'" "acts s' = acts s"
proof -
  consider "s' = s" | c where "p_accept w = Some c" "s' = poll_add c s"
    using assms(3) unfolding echo_poll_accept_def by (cases "p_accept w") (simp_all split: if_splits)
  then have "poll_wf s' \<and> acts s' = acts s" using assms(1,2) poll_add_wf by cases auto
  then show "poll_wf s'" "acts s' = acts s" by auto
qed

lemma forgotten_slot:
  assumes "forgotten i c as s" "prevents (poll_table s ! i) AND POLLIN = 0" "c \<noteq> 0" "j < MAX_CLIENTS + 1" "poll_slot w s j = Inr s'"
  shows "forgotten i c as s' \<and> prevents (poll_table s' ! i) AND POLLIN = 0"
proof (cases "j = i")
  case True
  then show ?thesis using assms by (simp add: forgotten_def poll_slot_cases Let_def)
next
  case False
  then have j: "pfd (poll_table s ! j) \<noteq> c" "j < length (poll_table s)" using assms(1,4) by (simp_all add: forgotten_def)
  consider "s' = s" | "s' = s\<lparr>poll_table := (poll_table s)[j := \<lparr>pfd = 0, pevents = 0, prevents = 0\<rparr>], useClient := useClient s - 1\<rparr>"
    | t where "s' = emit (Send (pfd (poll_table s ! j)) t) s"
    using assms(5) unfolding poll_slot_cases [OF j(2)] Let_def by (auto split: if_splits)
  then show ?thesis
  proof cases
    case 2
    then show ?thesis using assms(1-3) False j(2) by (simp add: forgotten_def nth_list_update)
  next
    case 3
    then show ?thesis using assms(1,2) j(1) by (simp add: forgotten_def about_def)
  qed (use assms in simp)
qed

lemma forgotten_slots:
  "forgotten i c as s \<Longrightarrow> prevents (poll_table s ! i) AND POLLIN = 0 \<Longrightarrow> c \<noteq> 0 \<Longrightarrow> \<forall>j\<in>set js. j < MAX_CLIENTS + 1 \<Longrightarrow>
   foldR (poll_slot w) s js = Inr s' \<Longrightarrow> forgotten i c as s'"
proof (induction js arbitrary: s)
  case (Cons j js)
  obtain s1 where 1: "poll_slot w s j = Inr s1" "foldR (poll_slot w) s1 js = Inr s'" using Cons.prems(5) by (auto simp: bindR_eq_Inr)
  have "forgotten i c as s1 \<and> prevents (poll_table s1 ! i) AND POLLIN = 0"
    using forgotten_slot [OF Cons.prems(1-3) _ 1(1)] Cons.prems(4) by simp
  then show ?case using Cons.IH [of s1] Cons.prems(3,4) 1(2) by simp
qed simp

lemma forgotten_add:
  assumes "forgotten i c as s" "1 \<le> i" "i < MAX_CLIENTS + 1" "c \<noteq> 0" "d \<noteq> c"
  shows "forgotten i c as (poll_add d s) \<and> prevents (poll_table (poll_add d s) ! i) = prevents (poll_table s ! i)"
proof (cases "upd_first (\<lambda>p. pfd p = 0) (pfd_update (\<lambda>_. d)) (tl (poll_table s))")
  case (Some fds)
  then obtain xs x ys where t: "tl (poll_table s) = xs @ x # ys" "fds = xs @ pfd_update (\<lambda>_. d) x # ys" "pfd x = 0"
    unfolding upd_first_Some by blast
  define k where "k = Suc (length xs)"
  have l: "length (poll_table s) = MAX_CLIENTS + 1" using assms(1) by (simp add: forgotten_def)
  then have e: "poll_table s = hd (poll_table s) # xs @ x # ys" using t(1) by (cases "poll_table s") auto
  have k: "poll_table s ! k = x" "k < length (poll_table s)" by (subst e, simp add: k_def nth_append)+
  have "hd (poll_table s) # fds = (poll_table s)[k := pfd_update (\<lambda>_. d) x]" by (subst (2) e) (simp add: t(2) k_def list_update_append)
  then have p: "poll_table (poll_add d s) = (poll_table s)[k := pfd_update (\<lambda>_. d) x]" by (simp add: poll_add_def Some)
  have "k \<noteq> i" using assms(1,4) k(1) t(3) by (auto simp: forgotten_def)
  then show ?thesis using assms(1,5) l k(2) by (auto simp: forgotten_def p nth_list_update)
qed (simp add: assms poll_add_def)

lemma forgotten_iter:
  assumes "forgotten i c as s" "1 \<le> i" "i < MAX_CLIENTS + 1" "c \<noteq> 0" "p_accept w \<noteq> Some c" "wait_client_iter w s = Inr s'"
  shows "forgotten i c as s'"
proof (cases "p_result w > 0")
  case True
  define t where "t = s\<lparr>poll_table := poll_revents (p_cond w) (poll_table s)\<rparr>"
  have l: "i < length (poll_table s)" using assms(1,3) by (simp add: forgotten_def)
  have t: "forgotten i c as t" "prevents (poll_table t ! i) AND POLLIN = 0"
    using assms(1) poll_revents_dead [OF l, of "p_cond w"] l by (auto simp: forgotten_def t_def poll_revents_nth dead_slot_def)
  show ?thesis
  proof (cases "echo_poll_accept w t")
    case None
    then show ?thesis using assms(6) True t(1) by (simp add: wait_client_iter_def Let_def t_def)
  next
    case (Some u)
    have "u = t \<or> (\<exists>d. p_accept w = Some d \<and> u = poll_add d t)"
      using Some unfolding echo_poll_accept_def by (cases "p_accept w") (simp_all split: if_splits)
    then have u: "forgotten i c as u" "prevents (poll_table u ! i) AND POLLIN = 0"
      using t forgotten_add [OF t(1) assms(2,3,4)] assms(5) by auto
    have "foldR (poll_slot w) u [1..<MAX_CLIENTS + 1] = Inr s'" using assms(6) True Some by (simp add: wait_client_iter_def Let_def t_def)
    moreover have "\<forall>j\<in>set [1..<MAX_CLIENTS + 1]. j < MAX_CLIENTS + 1" unfolding set_upt by simp
    ultimately show ?thesis using forgotten_slots [OF u assms(4)] by blast
  qed
qed (use assms in \<open>simp add: wait_client_iter_def\<close>)

subsection \<open>The client\<close>

lemma connect_loop_round:
  "connect_loop e timeout k =
    (if ce_elapsed e k > timeout then Some (-10)
     else if ce_poll e k (ce_elapsed e k) > 0 \<and> ce_getsockopt e k \<and> ce_error e k \<noteq> 0 then
       (if ce_error e k = EINTR then connect_loop e timeout (k + 1) else Some (-11))
     else Some (ce_poll e k (ce_elapsed e k)))"
  unfolding connect_loop.simps [of e timeout k] Let_def by (cases "ce_getsockopt e k") simp_all

lemma connect_loop_ends: "ce_error e (k + n) \<noteq> EINTR \<Longrightarrow> \<exists>rc. connect_loop e timeout k = Some rc"
proof (induction n arbitrary: k)
  case 0
  then show ?case unfolding connect_loop_round [of e timeout k] by simp
next
  case (Suc n)
  have "\<exists>rc. connect_loop e timeout (k + 1) = Some rc" using Suc.IH [of "k + 1"] Suc.prems by simp
  then show ?case unfolding connect_loop_round [of e timeout k] by simp
qed

lemma fgets_line_text: "nul \<notin> set l \<Longrightarrow> text_of (Got (fgets_line l)) = take (MAX_BUFF - 1) l"
proof -
  assume "nul \<notin> set l"
  then have "nul \<notin> set (take (MAX_BUFF - 1) l)" by (meson in_set_takeD)
  then have "takeWhile (\<lambda>c. c \<noteq> nul) (take (MAX_BUFF - 1) l) = take (MAX_BUFF - 1) l"
    unfolding takeWhile_eq_all_conv by blast
  then show ?thesis by (simp add: text_of_def fgets_line_def Let_def takeWhile_pad)
qed

section \<open>Properties\<close>



text \<open>
  C_. The server with threads goes through its whole array whatever the number of events: the entries behind them, of earlier rounds or never filled, are handled as events again, so that a fresh server closes descriptor 0 in its first round.
\<close>

lemma Worker_stale:
  assumes "length (CLIENT_SOCKET s) = MAX_CONN" "\<not> exited s" "length evs \<le> MAX_CONN"
    "\<forall>i < MAX_CONN. event_ok w sockfd i ((evs @ drop (length evs) (CLIENT_SOCKET s)) ! i)"
  shows "\<exists>s'. Worker_iter w sockfd evs s = Inr s' \<and>
    acts s' = acts s @ concat (map (\<lambda>i. event_acts w sockfd i ((evs @ drop (length evs) (CLIENT_SOCKET s)) ! i)) [0..<MAX_CONN])"
proof -
  have "\<forall>i\<in>set [0..<MAX_CONN]. i < length (CLIENT_SOCKET (epoll_wait evs s)) \<and> event_ok w sockfd i (CLIENT_SOCKET (epoll_wait evs s) ! i)"
    using assms by (simp add: epoll_wait_def)
  then show ?thesis
    using echo_events_ok [of "epoll_wait evs s" "[0..<MAX_CONN]" w sockfd] assms(2)
    unfolding Worker_iter_def Worker_event_same by (auto simp: epoll_wait_def)
qed

theorem Worker_stale_witness:
  "\<exists>s'. Worker_iter \<lparr>e_conns = (\<lambda>_. []), e_read = (\<lambda>_. Got ''hi'')\<rparr> 3 [(5, 1)] epoll_start = Inr s' \<and>
     Send 5 ''SERVER RESP: hi'' \<in> set (acts s') \<and> Close 0 \<in> set (acts s')"
proof -
  let ?w = "\<lparr>e_conns = (\<lambda>_. []), e_read = (\<lambda>_. Got ''hi'')\<rparr>"
  let ?evs = "[(5, 1)] :: (nat \<times> 32 word) list"
  define all where "all = ?evs @ drop (length ?evs) (CLIENT_SOCKET epoll_start)"
  have l: "length (CLIENT_SOCKET epoll_start) = MAX_CONN" "\<not> exited epoll_start" "length ?evs \<le> MAX_CONN"
    by (simp_all add: epoll_start_def MAX_CONN_def)
  have all: "all ! i = (if i = 0 then (5, 1) else (0, 0))" if "i < MAX_CONN" for i
    using that by (cases i) (simp_all add: all_def epoll_start_def)
  have h: "\<forall>i < MAX_CONN. event_ok ?w 3 i (all ! i)" by (simp add: all event_simps)
  obtain s' where s': "Worker_iter ?w 3 ?evs epoll_start = Inr s'"
    "acts s' = acts epoll_start @ concat (map (\<lambda>i. event_acts ?w 3 i (all ! i)) [0..<MAX_CONN])"
    using Worker_stale [OF l h [unfolded all_def]] unfolding all_def by blast
  have m: "0 < MAX_CONN" "1 < MAX_CONN" by (simp_all add: MAX_CONN_def)
  have "Send 5 ''SERVER RESP: hi'' \<in> set (event_acts ?w 3 0 (all ! 0))" "Close 0 \<in> set (event_acts ?w 3 1 (all ! 1))"
    using m by (simp_all add: all event_simps RESP_def)
  then have "Send 5 ''SERVER RESP: hi'' \<in> set (acts s')" "Close 0 \<in> set (acts s')"
    unfolding s'(2) set_append set_concat set_map set_upt using m by (blast intro: atLeastLessThan_iff [THEN iffD2])+
  then show ?thesis using s'(1) by blast
qed

text \<open>
  C20. A session of the client with the epoll server: each line comes back behind the fixed text, and since that text is in front the session does not end at the word \<open>exit\<close>; a line of 1011 characters or more makes the server leave its buffer.
\<close>

theorem echo_session:
  assumes "\<forall>l\<in>set ls. nul \<notin> set l"
  shows "client_comm echo_server ls =
    (if \<forall>l\<in>set ls. length l < 1011 then Inr (map (\<lambda>l. RESP @ l) ls, False) else Inl OutOfBounds)"
  using assms
proof (induction ls)
  case (Cons l ls)
  have t: "text_of (Got (fgets_line l)) = take 1023 l" using fgets_line_text [of l] Cons.prems by (simp add: MAX_BUFF_def)
  have f: "fits RESP (Got (fgets_line l)) \<longleftrightarrow> length l < 1011" by (auto simp: fits_def t MAX_BUFF_def)
  show ?case
  proof (cases "length l < 1011")
    case True
    have ne: "\<not> ended (Got (fgets_line l))" by (simp add: ended_def fgets_line_def Let_def MAX_BUFF_def)
    have s: "echo_server (fgets_line l) = Inr (Got (RESP @ l))"
      using True f ne t by (simp add: echo_server_def handle_client_eq emit_def)
    have r: "text_of (Got (RESP @ l)) = RESP @ l"
      using True Cons.prems by (auto simp: text_of_def MAX_BUFF_def takeWhile_eq_all_conv simp del: RESP_facts intro!: takeWhile_eq_all_conv [THEN iffD2])
        (auto simp: RESP_def nul_def)
    have c: "c_string (read_into (Got (RESP @ l))) = Inr (RESP @ l)" unfolding c_string_read_into r using True by (simp add: MAX_BUFF_def)
    have x: "take 4 (read_into (Got (RESP @ l))) \<noteq> ''exit''" by (simp add: read_into_def RESP_def MAX_BUFF_def)
    show ?thesis using Cons.IH Cons.prems True c x by (simp add: s)
  next
    case False
    then have "echo_server (fgets_line l) = Inl OutOfBounds" using f by (simp add: echo_server_def handle_client_eq)
    then show ?thesis using False by simp
  qed
qed simp

theorem echo_session_witness:
  "client_comm echo_server [''exit'', ''a''] = Inr ([''SERVER RESP: exit'', ''SERVER RESP: a''], False) \<and>
   client_comm echo_server [replicate 1011 CHR ''a''] = Inl OutOfBounds"
  using echo_session [of "[''exit'', ''a'']"] echo_session [of "[replicate 1011 CHR ''a'']"] by (simp add: nul_def RESP_def)



text \<open>
  C_. When all slots are taken, a new connection ends the select server: the check of the result of \<open>close\<close> is inverted.
\<close>

lemma echo_select_full:
  assumes "sel_wf s" "\<not> exited s" "sockfd < FD_SETSIZE" "0 \<notin> set (client_socket s)"
    "s_ready w sockfd" "s_accept w = Some c" "s_flags w \<noteq> None" "s_setfl w" "s_close w"
  shows "\<exists>s'. echo_select_iter w sockfd s = Inr s' \<and> exited s' \<and> acts s' = acts s @ [Close c]"
proof -
  obtain m where m: "select_fds sockfd (client_socket s) = Inr m"
    using select_fds_ok [OF assms(3), of "client_socket s"] assms(1) unfolding sel_wf_def by blast
  have "upd_first (\<lambda>x. x = 0) (\<lambda>_. c) (client_socket s) = None" unfolding upd_first_None using assms(4) by metis
  then show ?thesis
    using assms m by (simp add: echo_select_iter_def sel_accept_def make_socket_non_blocking_def sel_wf_def Let_def)
qed

theorem echo_select_full_witness:
  "\<exists>s'. echo_select_iter \<lparr>s_ready = (\<lambda>f. f = 3), s_accept = Some 90, s_flags = Some 2, s_setfl = True, s_close = True, s_read = (\<lambda>_. Again)\<rparr> 3
     \<lparr>acts = [], exited = False, client_socket = [4..<84], sock_added = False\<rparr> = Inr s' \<and> exited s' \<and> acts s' = [Close 90]"
  using echo_select_full [of "\<lparr>acts = [], exited = False, client_socket = [4..<84], sock_added = False\<rparr>" 3
      "\<lparr>s_ready = (\<lambda>f. f = 3), s_accept = Some 90, s_flags = Some 2, s_setfl = True, s_close = True, s_read = (\<lambda>_. Again)\<rparr>" 90]
  by (simp add: sel_wf_def MAX_CONN_def FD_SETSIZE_def)

text \<open>
  C_. One iteration of the poll server, when the answers fit: the number of clients stays right, every client with input gets its answer in a full buffer, and a client that has ended gives up its slot.
\<close>

lemma echo_poll:
  assumes "poll_wf s" "p_accept w \<noteq> Some 0" "\<forall>i. fits ECHO (p_read w i)"
  shows "\<exists>s'. wait_client_iter w s = Inr s' \<and> poll_wf s' \<and>
    (\<forall>u. p_result w > 0 \<longrightarrow> echo_poll_accept w (s\<lparr>poll_table := poll_revents (p_cond w) (poll_table s)\<rparr>) = Some u \<longrightarrow>
      acts s' = acts s @ concat (map (\<lambda>i. poll_acts w i (poll_table u ! i)) [1..<MAX_CLIENTS + 1]) \<and>
      (\<forall>i\<in>{1..MAX_CLIENTS}. poll_table s' ! i = poll_after w i (poll_table u ! i)))"
proof (cases "p_result w > 0")
  case True
  define t where "t = s\<lparr>poll_table := poll_revents (p_cond w) (poll_table s)\<rparr>"
  have t: "poll_wf t" "acts t = acts s" using poll_wf_revents [OF assms(1)] by (simp_all add: t_def)
  show ?thesis
  proof (cases "echo_poll_accept w t")
    case None
    then show ?thesis using True t unfolding wait_client_iter_def Let_def t_def [symmetric] by simp
  next
    case (Some u)
    have u: "poll_wf u" "acts u = acts s" using echo_poll_accept_wf [OF t(1) assms(2) Some] t(2) by simp_all
    obtain s' where s': "foldR (poll_slot w) u [1..<MAX_CLIENTS + 1] = Inr s'"
      "\<forall>i < length (poll_table u). poll_table s' ! i = (if i \<in> set [1..<MAX_CLIENTS + 1] then poll_after w i (poll_table u ! i) else poll_table u ! i)"
      "acts s' = acts u @ concat (map (\<lambda>i. poll_acts w i (poll_table u ! i)) [1..<MAX_CLIENTS + 1])" "poll_wf s'"
      using poll_slots_ok [OF u(1) assms(3)] by blast
    have i: "\<forall>i\<in>{1..MAX_CLIENTS}. poll_table s' ! i = poll_after w i (poll_table u ! i)"
      using s'(2) u(1) unfolding poll_wf_def set_upt by auto
    have "wait_client_iter w s = Inr s'" using True s'(1) Some unfolding wait_client_iter_def Let_def t_def [symmetric] by simp
    then show ?thesis using s'(3,4) u(2) i Some unfolding t_def [symmetric] by auto
  qed
qed (use assms in \<open>simp add: wait_client_iter_def\<close>)

theorem echo_poll_witness:
  "\<exists>s'. wait_client_iter \<lparr>p_result = 1, p_cond = (\<lambda>i. if i = 0 then 1 else 0), p_accept = Some 5, p_flags = Some 2, p_setfl = True,
     p_read = (\<lambda>_. Got ''hi'')\<rparr> (wait_client_start 3) = Inr s' \<and> poll_wf s'"
proof -
  have "poll_wf (wait_client_start 3)" by (simp add: poll_wf_def wait_client_start_def)
  moreover have "fits ECHO (Got ''hi'')" by (simp add: fits_def text_of_def MAX_BUFF_def nul_def)
  ultimately show ?thesis
    using echo_poll [of "wait_client_start 3" "\<lparr>p_result = 1, p_cond = (\<lambda>i. if i = 0 then 1 else 0), p_accept = Some 5, p_flags = Some 2,
      p_setfl = True, p_read = (\<lambda>_. Got ''hi'')\<rparr>"] by auto
qed



text \<open>
  C_. A message of 1011 bytes or more before its first null makes each of the four servers write outside its buffer.
\<close>

lemma echo_overflow:
  assumes "length d \<ge> 1011" "nul \<notin> set (take 1011 d)"
  shows "handle_client (Got d) fd s = Inl OutOfBounds \<and> thandle_client (Got d) fd s = Inl OutOfBounds \<and>
    (i < length (client_socket t) \<and> client_socket t ! i < FD_SETSIZE \<and> s_ready w (client_socket t ! i) \<and>
       s_read w (client_socket t ! i) = Got d \<longrightarrow> comm_slot w t i = Inl OutOfBounds) \<and>
    (j < length (poll_table u) \<and> pfd (poll_table u ! j) > 0 \<and> prevents (poll_table u ! j) AND POLLIN \<noteq> 0 \<and>
       p_read v j = Got d \<longrightarrow> poll_slot v u j = Inl OutOfBounds)"
proof -
  have e: "take MAX_BUFF d = take 1011 d @ take (MAX_BUFF - 1011) (drop 1011 d)" by (simp add: MAX_BUFF_def take_add [symmetric])
  have "takeWhile (\<lambda>c. c \<noteq> nul) (take MAX_BUFF d) = take 1011 d @ takeWhile (\<lambda>c. c \<noteq> nul) (take (MAX_BUFF - 1011) (drop 1011 d))"
    unfolding e by (rule takeWhile_append2) (use assms(2) in blast)
  then have "length (text_of (Got d)) \<ge> 1011" using assms(1) by (simp add: text_of_def)
  then have f: "\<not> fits RESP (Got d)" "\<not> fits ECHO (Got d)" by (simp_all add: fits_def MAX_BUFF_def)
  have ne: "d \<noteq> []" using assms(1) by auto
  have "handle_client (Got d) fd s = Inl OutOfBounds" "thandle_client (Got d) fd s = Inl OutOfBounds"
    using f by (simp_all add: thandle_client_def handle_client_eq)
  moreover have "comm_slot w t i = Inl OutOfBounds" if "i < length (client_socket t)" "client_socket t ! i < FD_SETSIZE"
      "s_ready w (client_socket t ! i)" "s_read w (client_socket t ! i) = Got d"
    using f ne that by (simp add: comm_slot_def answer_RESP)
  moreover have "poll_slot v u j = Inl OutOfBounds" if "j < length (poll_table u)" "pfd (poll_table u ! j) > 0"
      "prevents (poll_table u ! j) AND POLLIN \<noteq> 0" "p_read v j = Got d"
    using f ne that by (simp add: poll_slot_cases ended_def)
  ultimately show ?thesis by blast
qed

theorem echo_overflow_witness:
  "handle_client (Got (replicate 1011 CHR ''a'')) 5 \<lparr>acts = [], exited = False\<rparr> = Inl OutOfBounds \<and>
   poll_slot \<lparr>p_result = 1, p_cond = (\<lambda>_. 1), p_accept = None, p_flags = None, p_setfl = False, p_read = (\<lambda>_. Got (replicate 1011 CHR ''a''))\<rparr>
     \<lparr>acts = [], exited = False, poll_table = [\<lparr>pfd = 5, pevents = 1, prevents = 1\<rparr>], useClient = 1\<rparr> 0 = Inl OutOfBounds"
proof -
  have h: "length (replicate 1011 CHR ''a'') \<ge> 1011" "nul \<notin> set (take 1011 (replicate 1011 CHR ''a''))" by (simp_all add: nul_def)
  show ?thesis
    using echo_overflow [OF h, of 5 "\<lparr>acts = [], exited = False\<rparr>" _ _ _ 0
        "\<lparr>acts = [], exited = False, poll_table = [\<lparr>pfd = 5, pevents = 1, prevents = 1\<rparr>], useClient = 1\<rparr>"
        "\<lparr>p_result = 1, p_cond = (\<lambda>_. 1), p_accept = None, p_flags = None, p_setfl = False, p_read = (\<lambda>_. Got (replicate 1011 CHR ''a''))\<rparr>"]
    by (simp add: POLLIN_def)
qed

text \<open>
  C35. When the connection is in progress, the client's first \<open>poll\<close> is limited by the time that has passed, so it reports success when nothing has happened yet; a pending error other than an interrupted call is reported, and the function returns unless the calls are interrupted for ever.
\<close>

theorem connect_reports:
  assumes "ce_socket e" "ce_pton e" "ce_rcvtimeo e" "ce_sndtimeo e" "ce_getfl e \<ge> 0" "ce_setfl e" "ce_restore e"
    "ce_connect e = EINPROGRESS" "ce_elapsed e 0 \<le> timeout"
  shows "(ce_poll e 0 (ce_elapsed e 0) = 0 \<longrightarrow> connect_with_timeout e timeout = Some 0) \<and>
    (ce_poll e 0 (ce_elapsed e 0) > 0 \<and> ce_getsockopt e 0 \<and> ce_error e 0 \<noteq> 0 \<and> ce_error e 0 \<noteq> EINTR \<longrightarrow>
      connect_with_timeout e timeout = Some (-11)) \<and>
    (ce_error e n \<noteq> EINTR \<longrightarrow> (\<exists>rc. connect_with_timeout e timeout = Some rc))"
proof -
  have c: "connect_with_timeout e timeout = connect_loop e timeout 0"
    using assms by (simp add: connect_with_timeout_def EINPROGRESS_def EWOULDBLOCK_def split: option.split)
  have "ce_error e n \<noteq> EINTR \<longrightarrow> (\<exists>rc. connect_with_timeout e timeout = Some rc)"
    unfolding c using connect_loop_ends [of e 0 n timeout] by simp
  moreover have "ce_poll e 0 (ce_elapsed e 0) = 0 \<longrightarrow> connect_with_timeout e timeout = Some 0"
    "ce_poll e 0 (ce_elapsed e 0) > 0 \<and> ce_getsockopt e 0 \<and> ce_error e 0 \<noteq> 0 \<and> ce_error e 0 \<noteq> EINTR \<longrightarrow>
      connect_with_timeout e timeout = Some (-11)"
    using assms(9) unfolding c connect_loop_round [of e timeout 0] by simp_all
  ultimately show ?thesis by blast
qed

theorem connect_reports_witness:
  "connect_with_timeout \<lparr>ce_socket = True, ce_pton = True, ce_rcvtimeo = True, ce_sndtimeo = True, ce_getfl = 2, ce_setfl = True,
     ce_connect = EINPROGRESS, ce_elapsed = (\<lambda>_. 0), ce_poll = (\<lambda>_ ms. if ms < 100 then 0 else 1), ce_getsockopt = (\<lambda>_. True),
     ce_error = (\<lambda>_. 111), ce_restore = True\<rparr> 5000 = Some 0"
  by (rule connect_reports [THEN conjunct1, THEN mp]) simp_all

end
