(* ===== verification/AsyncPool.thy ===== *)
theory AsyncPool
  imports Echo
begin

text \<open>
  The echo server with worker pools (\<open>dev-sock-epoll-tcp-async-pool\<close>). The event loop reads a message of 1024 bytes and
  puts it on the stack of a worker thread, which copies it and puts the copy on the stack of a writer thread, which sends
  it. There is such a pair of threads for each place of the event array; the model is one pair. What a thread does while
  it holds the mutex of a pool is one step; \<open>pthread_cond_signal\<close> wakes the thread if it waits, and
  \<open>pthread_cond_wait\<close> may return without a signal.
\<close>

section \<open>Reading a message\<close>

text \<open>
  The loop of the handler: \<open>k\<close> counts the calls of \<open>read\<close>. A failed call counts as minus one byte. The result is whether
  the connection has ended, and the buffer.
\<close>

partial_function (option) pool_read :: "(nat \<Rightarrow> rd) \<Rightarrow> nat \<Rightarrow> int \<Rightarrow> bool \<Rightarrow> string \<Rightarrow> (bool \<times> string) res option" where
  "pool_read r k valread done buff =
     (if valread = int MAX_BUFF then Some (Inr (done, buff))
      else case r k of
        Got d \<Rightarrow>
          if d = [] then pool_read r (k + 1) valread True buff
          else if valread < 0 then Some (Inl OutOfBounds)
          else let v = nat valread; d = take (MAX_BUFF - v) d in
            pool_read r (k + 1) (valread + int (length d)) done (take v buff @ d @ drop (v + length d) buff)
      | _ \<Rightarrow> pool_read r (k + 1) (valread - 1) True buff)"

section \<open>Pools\<close>

text \<open>
  A pool: the descriptor of the last message, the array of pointers to messages (nothing once it is freed; an entry is
  nothing until it is set), and the index of the top.
\<close>

record thread_pool =
  pool_fd :: nat
  pool_data :: "nat option list option"
  pool_idx :: int

text \<open>
  Where a thread is: before locking its pool, waiting, woken, or on its way to the next pool with a descriptor and a
  message.
\<close>

datatype tstate = Locking | Waiting | Woken | Passing nat nat

record pair =
  apool :: thread_pool
  awpool :: thread_pool
  msgs :: "nat \<rightharpoonup> string"
  next_buf :: nat
  wk :: tstate
  wr :: tstate
  written :: "(nat \<times> string) list"
  shut :: "nat list"

definition pool_start :: thread_pool where
  "pool_start = \<lparr>pool_fd = 0, pool_data = Some (replicate MAX_BUFF None), pool_idx = 0\<rparr>"

definition pair_start :: pair where
  "pair_start = \<lparr>apool = pool_start, awpool = pool_start, msgs = Map.empty, next_buf = 0, wk = Locking, wr = Locking, written = [], shut = []\<rparr>"

definition wake :: "tstate \<Rightarrow> tstate" where
  "wake t = (if t = Waiting then Woken else t)"

text \<open>Putting a message on a pool; nothing while the pool counts as full, in which case the caller tries again.\<close>

definition to_pool :: "nat \<Rightarrow> nat \<Rightarrow> thread_pool \<Rightarrow> thread_pool res option" where
  "to_pool fd b p =
     (if pool_idx p = int MAX_BUFF then None
      else let idx = pool_idx p + 1 in
        Some (case pool_data p of
            None \<Rightarrow> Inl UseAfterFree
          | Some d \<Rightarrow> if idx < 0 \<or> int (length d) \<le> idx then Inl OutOfBounds
              else Inr \<lparr>pool_fd = fd, pool_data = Some (d[nat idx := Some b]), pool_idx = idx\<rparr>))"

text \<open>Taking the top message off a pool, if the index is not negative: the message, its descriptor and the pool.\<close>

definition take_top :: "thread_pool \<Rightarrow> (nat \<times> nat \<times> thread_pool) res option" where
  "take_top p =
     (if pool_idx p < 0 then None
      else Some (case pool_data p of
          None \<Rightarrow> Inl UseAfterFree
        | Some d \<Rightarrow> bindR (arr_get d (nat (pool_idx p))) (\<lambda>e.
            case e of None \<Rightarrow> Inl Uninit | Some b \<Rightarrow> Inr (b, pool_fd p, p\<lparr>pool_idx := pool_idx p - 1\<rparr>))))"

definition to_worker :: "nat \<Rightarrow> nat \<Rightarrow> pair \<Rightarrow> pair res option" where
  "to_worker fd b s = map_option (\<lambda>r. bindR r (\<lambda>p. Inr (s\<lparr>apool := p, wk := wake (wk s)\<rparr>))) (to_pool fd b (apool s))"

definition to_writer :: "nat \<Rightarrow> nat \<Rightarrow> pair \<Rightarrow> pair res option" where
  "to_writer fd b s = map_option (\<lambda>r. bindR r (\<lambda>p. Inr (s\<lparr>awpool := p, wr := wake (wr s)\<rparr>))) (to_pool fd b (awpool s))"

section \<open>Steps\<close>

text \<open>The handler after its loop: an ended connection is closed, a message is copied and handed to the worker.\<close>

definition pool_handle_client :: "(nat \<Rightarrow> rd) \<Rightarrow> nat \<Rightarrow> pair \<Rightarrow> pair res option" where
  "pool_handle_client r fd s =
     (case pool_read r 0 0 False zeros of
        None \<Rightarrow> None
      | Some (Inl e) \<Rightarrow> Some (Inl e)
      | Some (Inr (done, buff)) \<Rightarrow>
          if done then Some (Inr (s\<lparr>shut := shut s @ [fd]\<rparr>))
          else to_worker fd (next_buf s) (s\<lparr>msgs := (msgs s)(next_buf s \<mapsto> buff), next_buf := next_buf s + 1\<rparr>))"

text \<open>The worker after it was woken: the message is copied, freed and printed as a string.\<close>

definition worker :: "pair \<Rightarrow> pair res option" where
  "worker s =
     (if wk s \<noteq> Woken then None
      else Some (case take_top (apool s) of
          None \<Rightarrow> Inr (s\<lparr>wk := Locking\<rparr>)
        | Some r \<Rightarrow> bindR r (\<lambda>(b, fd, p).
            case msgs s b of
              None \<Rightarrow> Inl UseAfterFree
            | Some t \<Rightarrow> bindR (c_string t) (\<lambda>_.
                Inr (s\<lparr>apool := p, msgs := (msgs s)(b := None, next_buf s \<mapsto> t), next_buf := next_buf s + 1,
                  wk := Passing fd (next_buf s)\<rparr>)))))"

text \<open>The worker hands the copy on.\<close>

definition worker_pass :: "pair \<Rightarrow> pair res option" where
  "worker_pass s = (case wk s of Passing fd b \<Rightarrow> to_writer fd b (s\<lparr>wk := Locking\<rparr>) | _ \<Rightarrow> None)"

text \<open>The writer after it was woken: the message is copied, the array of the pool is freed, the copy is printed as a string,
  sent and freed.\<close>

definition writer :: "pair \<Rightarrow> pair res option" where
  "writer s =
     (if wr s \<noteq> Woken then None
      else Some (case take_top (awpool s) of
          None \<Rightarrow> Inr (s\<lparr>wr := Locking\<rparr>)
        | Some r \<Rightarrow> bindR r (\<lambda>(b, fd, p).
            case msgs s b of
              None \<Rightarrow> Inl UseAfterFree
            | Some t \<Rightarrow> bindR (c_string t) (\<lambda>_.
                Inr (s\<lparr>awpool := p\<lparr>pool_data := None\<rparr>, wr := Locking, written := written s @ [(fd, t)]\<rparr>)))))"

datatype label = Client "nat \<Rightarrow> rd" nat | WorkerWait | WorkerSpurious | WorkerTake | WorkerPass | WriterWait | WriterSpurious | WriterTake

text \<open>One step; nothing if it cannot happen in this state.\<close>

fun pair_step :: "label \<Rightarrow> pair \<Rightarrow> pair res option" where
  "pair_step (Client r fd) s = pool_handle_client r fd s"
| "pair_step WorkerWait s = (if wk s = Locking then Some (Inr (s\<lparr>wk := Waiting\<rparr>)) else None)"
| "pair_step WorkerSpurious s = (if wk s = Waiting then Some (Inr (s\<lparr>wk := Woken\<rparr>)) else None)"
| "pair_step WorkerTake s = worker s"
| "pair_step WorkerPass s = worker_pass s"
| "pair_step WriterWait s = (if wr s = Locking then Some (Inr (s\<lparr>wr := Waiting\<rparr>)) else None)"
| "pair_step WriterSpurious s = (if wr s = Waiting then Some (Inr (s\<lparr>wr := Woken\<rparr>)) else None)"
| "pair_step WriterTake s = writer s"

inductive pair_run :: "pair \<Rightarrow> label list \<Rightarrow> pair \<Rightarrow> bool" where
  pair_nil: "pair_run s [] s"
| pair_cons: "pair_step l s = Some (Inr t) \<Longrightarrow> pair_run t ls u \<Longrightarrow> pair_run s (l # ls) u"

section \<open>Specification\<close>

text \<open>What can be in the buffers: messages that a client sent in full.\<close>

definition received_by :: "label list \<Rightarrow> string set" where
  "received_by ls = {b. \<exists>r fd. Client r fd \<in> set ls \<and> pool_read r 0 0 False zeros = Some (Inr (False, b))}"

text \<open>A stream of chunks that are not empty, and what comes after it.\<close>

definition chunks :: "string list \<Rightarrow> (nat \<Rightarrow> rd) \<Rightarrow> nat \<Rightarrow> rd" where
  "chunks ds after k = (if k < length ds then Got (ds ! k) else after (k - length ds))"

definition pair_inv :: "string set \<Rightarrow> pair \<Rightarrow> bool" where
  "pair_inv M s \<longleftrightarrow> (\<forall>b t. msgs s b = Some t \<longrightarrow> t \<in> M) \<and> (\<forall>x \<in> set (written s). snd x \<in> M) \<and>
     length (written s) \<le> 1 \<and> (\<forall>d. pool_data (awpool s) = Some d \<longrightarrow> length d = MAX_BUFF) \<and>
     (written s \<noteq> [] \<longrightarrow> pool_data (awpool s) = None \<and> pool_idx (awpool s) < int MAX_BUFF)"

text \<open>A message that comes before the worker waits is not noticed.\<close>

definition unnoticed :: "pair \<Rightarrow> bool" where
  "unnoticed s \<longleftrightarrow> (wk s = Locking \<or> wk s = Waiting) \<and> awpool s = pool_start \<and> written s = []"

section \<open>Lemmas\<close>

inductive_cases pair_run_ConsE: "pair_run s (l # ls) u"
inductive_cases pair_run_NilE: "pair_run s [] u"

lemma to_pool_data: "to_pool fd b p = Some (Inr q) \<Longrightarrow> \<exists>d e. pool_data p = Some d \<and> pool_data q = Some e \<and> length e = length d"
  by (auto simp: to_pool_def Let_def split: if_splits option.splits)

lemma take_top_data:
  "take_top p = Some (Inr (b, fd, q)) \<Longrightarrow> \<exists>d. pool_data p = Some d \<and> pool_idx p < int (length d) \<and> q = p\<lparr>pool_idx := pool_idx p - 1\<rparr>"
  by (auto simp: take_top_def arr_get_def split: if_splits option.splits)

lemma to_worker_inv: "to_worker fd b s = Some (Inr t) \<Longrightarrow> pair_inv M s \<Longrightarrow> pair_inv M t"
  by (auto simp: to_worker_def bindR_eq_Inr pair_inv_def)

lemma to_writer_inv:
  assumes "to_writer fd b s = Some (Inr t)" "pair_inv M s"
  shows "pair_inv M t"
proof -
  obtain p where p: "to_pool fd b (awpool s) = Some (Inr p)" "t = s\<lparr>awpool := p, wr := wake (wr s)\<rparr>"
    using assms(1) by (auto simp: to_writer_def bindR_eq_Inr)
  then show ?thesis using to_pool_data [OF p(1)] assms(2) by (auto simp: pair_inv_def)
qed

lemma worker_inv:
  assumes "worker s = Some (Inr t)" "pair_inv M s"
  shows "pair_inv M t"
proof -
  consider "t = s\<lparr>wk := Locking\<rparr>" | p b c fd x where "msgs s b = Some x"
      "t = s\<lparr>apool := p, msgs := (msgs s)(b := None, c \<mapsto> x), next_buf := c + 1, wk := Passing fd c\<rparr>"
    using assms(1) by (fastforce simp: worker_def bindR_eq_Inr split: if_splits option.splits)
  then show ?thesis using assms(2) by cases (auto simp: pair_inv_def)
qed

lemma writer_inv:
  assumes "writer s = Some (Inr t)" "pair_inv M s"
  shows "pair_inv M t"
proof -
  consider "t = s\<lparr>wr := Locking\<rparr>" | p b fd x where "take_top (awpool s) = Some (Inr (b, fd, p))" "msgs s b = Some x"
      "t = s\<lparr>awpool := p\<lparr>pool_data := None\<rparr>, wr := Locking, written := written s @ [(fd, x)]\<rparr>"
    using assms(1) by (fastforce simp: writer_def bindR_eq_Inr split: if_splits option.splits)
  then show ?thesis
  proof cases
    case 1
    then show ?thesis using assms(2) by (simp add: pair_inv_def)
  next
    case 2
    obtain d where "pool_data (awpool s) = Some d" "pool_idx (awpool s) < int (length d)" "p = awpool s\<lparr>pool_idx := pool_idx (awpool s) - 1\<rparr>"
      using take_top_data [OF 2(1)] by blast
    then show ?thesis using assms(2) 2(2) unfolding pair_inv_def 2(3) by auto
  qed
qed

lemma client_inv:
  assumes "pool_handle_client r fd s = Some (Inr t)" "pair_inv M s" "\<And>b. pool_read r 0 0 False zeros = Some (Inr (False, b)) \<Longrightarrow> b \<in> M"
  shows "pair_inv M t"
proof -
  obtain dn buff where p: "pool_read r 0 0 False zeros = Some (Inr (dn, buff))"
    using assms(1) by (auto simp: pool_handle_client_def split: option.splits sum.splits)
  show ?thesis
  proof (cases dn)
    case True
    then show ?thesis using assms(1,2) p by (auto simp: pool_handle_client_def pair_inv_def)
  next
    case False
    let ?s = "s\<lparr>msgs := (msgs s)(next_buf s \<mapsto> buff), next_buf := next_buf s + 1\<rparr>"
    have "pair_inv M ?s" using assms(2,3) p False by (auto simp: pair_inv_def)
    moreover have "to_worker fd (next_buf s) ?s = Some (Inr t)" using assms(1) p False by (simp add: pool_handle_client_def)
    ultimately show ?thesis using to_worker_inv by blast
  qed
qed

lemma pair_step_inv:
  assumes "pair_step l s = Some (Inr t)" "pair_inv M s"
    "\<And>r fd b. l = Client r fd \<Longrightarrow> pool_read r 0 0 False zeros = Some (Inr (False, b)) \<Longrightarrow> b \<in> M"
  shows "pair_inv M t"
proof (cases l)
  case (Client r fd)
  then show ?thesis using assms client_inv [of r fd s t M] by auto
next
  case WorkerPass
  then obtain fd b where "to_writer fd b (s\<lparr>wk := Locking\<rparr>) = Some (Inr t)"
    using assms(1) by (auto simp: worker_pass_def split: tstate.splits)
  moreover have "pair_inv M (s\<lparr>wk := Locking\<rparr>)" using assms(2) by (simp add: pair_inv_def)
  ultimately show ?thesis by (rule to_writer_inv)
next
  case WorkerTake
  then show ?thesis using assms worker_inv by auto
next
  case WriterTake
  then show ?thesis using assms writer_inv by auto
qed (use assms in \<open>auto simp: pair_inv_def split: if_splits\<close>)

lemma pair_run_inv:
  "pair_run s ls t \<Longrightarrow> pair_inv M s \<Longrightarrow> received_by ls \<subseteq> M \<Longrightarrow> pair_inv M t"
proof (induction rule: pair_run.induct)
  case (pair_cons l s t ls u)
  have "b \<in> M" if "l = Client r fd" "pool_read r 0 0 False zeros = Some (Inr (False, b))" for r fd b
    using pair_cons.prems(2) that by (auto simp: received_by_def)
  then have "pair_inv M t" using pair_step_inv [OF pair_cons.hyps(1) pair_cons.prems(1)] by blast
  moreover have "received_by ls \<subseteq> M" using pair_cons.prems(2) by (auto simp: received_by_def)
  ultimately show ?case by (rule pair_cons.IH)
qed

subsection \<open>Reading\<close>

lemma pool_read_done: "pool_read r k (int MAX_BUFF) dn buff = Some (Inr (dn, buff))"
  by (subst pool_read.simps) simp

lemma pool_read_data:
  "r k = Got d \<Longrightarrow> d \<noteq> [] \<Longrightarrow> v < MAX_BUFF \<Longrightarrow> pool_read r k (int v) dn buff =
   pool_read r (k + 1) (int (v + length (take (MAX_BUFF - v) d))) dn (take v buff @ take (MAX_BUFF - v) d @ drop (v + length (take (MAX_BUFF - v) d)) buff)"
  by (subst pool_read.simps) (simp add: Let_def)

lemma pool_read_again: "r k = Again \<Longrightarrow> valread < int MAX_BUFF \<Longrightarrow> pool_read r k valread dn buff = pool_read r (k + 1) (valread - 1) True buff"
  by (subst pool_read.simps) simp

lemma pool_read_chunks:
  assumes "\<forall>i < length ds. r (k + i) = Got (ds ! i) \<and> ds ! i \<noteq> []" "v \<le> MAX_BUFF" "MAX_BUFF \<le> v + length (concat ds)" "length buff = MAX_BUFF"
  shows "pool_read r k (int v) dn buff = Some (Inr (dn, take v buff @ take (MAX_BUFF - v) (concat ds)))"
  using assms
proof (induction ds arbitrary: k v buff)
  case Nil
  then show ?case using pool_read_done by simp
next
  case (Cons d ds)
  show ?case
  proof (cases "v = MAX_BUFF")
    case True
    then show ?thesis using pool_read_done Cons.prems(4) by simp
  next
    case False
    then have v: "v < MAX_BUFF" using Cons.prems(2) by simp
    have d: "r k = Got d" "d \<noteq> []" using Cons.prems(1) by force+
    define d' where "d' = take (MAX_BUFF - v) d"
    define b' where "b' = take v buff @ d' @ drop (v + length d') buff"
    have l: "length b' = MAX_BUFF" "v + length d' \<le> MAX_BUFF" using v Cons.prems(4) by (auto simp: b'_def d'_def)
    have r: "\<forall>i < length ds. r (k + 1 + i) = Got (ds ! i) \<and> ds ! i \<noteq> []" using Cons.prems(1) by (metis Suc_less_eq add.assoc length_Cons nth_Cons_Suc plus_1_eq_Suc)
    have "pool_read r k (int v) dn buff = pool_read r (k + 1) (int (v + length d')) dn b'"
      unfolding d'_def b'_def by (rule pool_read_data [of r k d v dn buff, OF d v])
    also have "\<dots> = Some (Inr (dn, take (v + length d') b' @ take (MAX_BUFF - (v + length d')) (concat ds)))"
      by (rule Cons.IH [OF r l(2) _ l(1)]) (use Cons.prems(3) in \<open>auto simp: d'_def\<close>)
    also have "take (v + length d') b' = take v buff @ d'" using v Cons.prems(4) by (simp add: b'_def)
    also have "(take v buff @ d') @ take (MAX_BUFF - (v + length d')) (concat ds) = take v buff @ take (MAX_BUFF - v) (concat (d # ds))"
      by (cases "length d \<le> MAX_BUFF - v") (simp_all add: d'_def min_def)
    finally show ?thesis .
  qed
qed

lemma pool_read_agains:
  "\<forall>i < n. r (k + i) = Again \<Longrightarrow> valread < int MAX_BUFF \<Longrightarrow> 0 < n \<Longrightarrow> pool_read r k valread dn buff = pool_read r (k + n) (valread - int n) True buff"
proof (induction n arbitrary: k valread dn)
  case (Suc n)
  have 1: "pool_read r k valread dn buff = pool_read r (k + 1) (valread - 1) True buff" using Suc.prems by (intro pool_read_again) auto
  show ?case
  proof (cases "n = 0")
    case False
    have "\<forall>i < n. r (k + 1 + i) = Again" using Suc.prems(1) by auto
    then have "pool_read r (k + 1) (valread - 1) True buff = pool_read r (k + 1 + n) (valread - 1 - int n) True buff"
      using Suc.IH [of "k + 1" "valread - 1" True] Suc.prems(2) False by simp
    then show ?thesis using 1 by (simp add: algebra_simps)
  qed (use 1 in simp)
qed simp

text \<open>Once no more data comes, the loop does not end.\<close>

lemma pool_read_returns:
  assumes "pool_read r k valread dn buff = Some y"
  shows "(\<forall>i. k \<le> i \<longrightarrow> r i = Again \<or> r i = Got []) \<longrightarrow> valread \<ge> int MAX_BUFF"
proof (rule pool_read.raw_induct [where P = "\<lambda>r k valread dn buff y. (\<forall>i. k \<le> i \<longrightarrow> r i = Again \<or> r i = Got []) \<longrightarrow> valread \<ge> int MAX_BUFF", OF _ assms],
    intro impI, rule ccontr)
  fix f :: "(nat \<Rightarrow> rd) \<Rightarrow> nat \<Rightarrow> int \<Rightarrow> bool \<Rightarrow> string \<Rightarrow> (bool \<times> string) res option"
    and r :: "nat \<Rightarrow> rd" and k :: nat and valread :: int and dn :: bool and buff :: string and y :: "(bool \<times> string) res"
  assume IH: "\<And>r k valread dn buff y. f r k valread dn buff = Some y \<Longrightarrow> (\<forall>i. k \<le> i \<longrightarrow> r i = Again \<or> r i = Got []) \<longrightarrow> valread \<ge> int MAX_BUFF"
    and body: "(if valread = int MAX_BUFF then Some (Inr (dn, buff))
      else case r k of
        Got d \<Rightarrow> if d = [] then f r (k + 1) valread True buff
          else if valread < 0 then Some (Inl OutOfBounds)
          else let v = nat valread; d = take (MAX_BUFF - v) d in
            f r (k + 1) (valread + int (length d)) dn (take v buff @ d @ drop (v + length d) buff)
      | Again \<Rightarrow> f r (k + 1) (valread - 1) True buff | Failed \<Rightarrow> f r (k + 1) (valread - 1) True buff) = Some y"
    and r: "\<forall>i. k \<le> i \<longrightarrow> r i = Again \<or> r i = Got []" and v: "\<not> int MAX_BUFF \<le> valread"
  have r': "\<forall>i. k + 1 \<le> i \<longrightarrow> r i = Again \<or> r i = Got []" using r by simp
  have "r k = Again \<or> r k = Got []" using r by simp
  then have "f r (k + 1) (valread - 1) True buff = Some y \<or> f r (k + 1) valread True buff = Some y" using body v by auto
  then show False using IH r' v by fastforce
qed

lemma chunks_after: "k \<ge> length ds \<Longrightarrow> chunks ds a k = a (k - length ds)"
  by (simp add: chunks_def)

lemma message_read:
  assumes "[] \<notin> set ds" "MAX_BUFF \<le> length (concat ds)"
  shows "pool_read (chunks ds a) 0 0 False zeros = Some (Inr (False, take MAX_BUFF (concat ds)))"
proof -
  have "\<forall>i < length ds. chunks ds a (0 + i) = Got (ds ! i) \<and> ds ! i \<noteq> []" using assms(1) by (auto simp: chunks_def dest: nth_mem)
  from pool_read_chunks [OF this, of 0 zeros False] assms(2) show ?thesis by (simp add: zeros_def)
qed

lemma short_message:
  assumes "d \<noteq> []" "length d < MAX_BUFF" "length d < n" "e \<noteq> []"
  shows "pool_read (\<lambda>k. if k = 0 then Got d else if k \<le> n then Again else Got e) 0 0 False zeros = Some (Inl OutOfBounds)"
proof -
  let ?r = "\<lambda>k. if k = 0 then Got d else if k \<le> n then Again else Got e"
  obtain b where 1: "pool_read ?r 0 0 False zeros = pool_read ?r 1 (int (length d)) False b"
    using pool_read_data [of ?r 0 d 0 False zeros] assms(1,2) by (auto simp: MAX_BUFF_def)
  have "\<forall>i < n. ?r (1 + i) = Again" by simp
  from pool_read_agains [OF this, of "int (length d)" False b] assms(2,3)
  have 2: "pool_read ?r 1 (int (length d)) False b = pool_read ?r (1 + n) (int (length d) - int n) True b" by simp
  have "pool_read ?r (1 + n) (int (length d) - int n) True b = Some (Inl OutOfBounds)"
    using assms(3,4) by (subst pool_read.simps) (simp add: MAX_BUFF_def)
  then show ?thesis using 1 2 by simp
qed

subsection \<open>Steps\<close>

lemma pair_start_inv: "pair_inv M pair_start"
  by (simp add: pair_inv_def pair_start_def pool_start_def)

lemma unnoticed_step:
  assumes "unnoticed s" "pair_step l s = Some (Inr t)" "l \<noteq> WorkerSpurious" "\<forall>r fd. l \<noteq> Client r fd"
  shows "unnoticed t"
proof (cases l)
  case WriterTake
  then show ?thesis using assms(1,2)
    by (auto simp: unnoticed_def writer_def take_top_def pool_start_def MAX_BUFF_def bindR_eq_Inr arr_get_def split: if_splits)
qed (use assms in \<open>auto simp: unnoticed_def worker_def worker_pass_def split: if_splits\<close>)

lemma unnoticed_run:
  "pair_run s ls t \<Longrightarrow> unnoticed s \<Longrightarrow> WorkerSpurious \<notin> set ls \<Longrightarrow> \<forall>r fd. Client r fd \<notin> set ls \<Longrightarrow> unnoticed t"
proof (induction rule: pair_run.induct)
  case (pair_cons l s t ls u)
  have "unnoticed t" by (rule unnoticed_step [OF pair_cons.prems(1) pair_cons.hyps(1)]) (use pair_cons.prems in auto)
  then show ?case using pair_cons by auto
qed

section \<open>Properties\<close>

text \<open>C19. In every run of a pair of threads each answer is a message that a client sent in full, and there is at most one answer: once one is sent, handing on the next message uses the freed array of the writer's pool.\<close>

theorem async_one_answer:
  assumes "pair_run pair_start ls s"
  shows "length (written s) \<le> 1 \<and> snd ` set (written s) \<subseteq> received_by ls \<and>
    (written s \<noteq> [] \<and> wk s = Passing fd b \<longrightarrow> pair_step WorkerPass s = Some (Inl UseAfterFree))"
proof -
  have i: "pair_inv (received_by ls) s" by (rule pair_run_inv [OF assms pair_start_inv]) simp
  then have "pool_data (awpool s) = None" "pool_idx (awpool s) \<noteq> int MAX_BUFF" if "written s \<noteq> []" using that by (auto simp: pair_inv_def)
  then have "written s \<noteq> [] \<and> wk s = Passing fd b \<longrightarrow> pair_step WorkerPass s = Some (Inl UseAfterFree)"
    by (auto simp: worker_pass_def to_writer_def to_pool_def Let_def)
  then show ?thesis using i by (auto simp: pair_inv_def)
qed

theorem async_one_answer_witness:
  "\<exists>s. pair_run pair_start [WorkerWait, WorkerSpurious] s \<and> length (written s) \<le> 1"
proof -
  have "pair_run pair_start [WorkerWait, WorkerSpurious] (pair_start\<lparr>wk := Woken\<rparr>)"
    by (rule pair_cons [where t = "pair_start\<lparr>wk := Waiting\<rparr>"], simp add: pair_start_def,
      rule pair_cons [where t = "pair_start\<lparr>wk := Woken\<rparr>"], simp, rule pair_nil)
  then show ?thesis using async_one_answer by blast
qed

text \<open>C_. A message whose chunks make up 1024 bytes or more is answered by its first 1024 bytes, if they contain a null and both threads wait when it comes.\<close>

lemma async_delivers:
  assumes "[] \<notin> set ds" "MAX_BUFF \<le> length (concat ds)" "nul \<in> set (take MAX_BUFF (concat ds))"
  shows "\<exists>s. pair_run pair_start [WorkerWait, WriterWait, Client (chunks ds a) fd, WorkerTake, WorkerPass, WriterTake] s \<and>
    written s = [(fd, take MAX_BUFF (concat ds))]"
proof -
  define m where "m = take MAX_BUFF (concat ds)"
  have h: "pool_read (chunks ds a) 0 0 False zeros = Some (Inr (False, m))" unfolding m_def by (rule message_read [OF assms(1,2)])
  have c: "c_string m = Inr (takeWhile (\<lambda>c. c \<noteq> nul) m)" using assms(3) by (simp add: c_string_def m_def)
  let ?d = "(replicate MAX_BUFF None)[1 := Some 0] :: nat option list" and ?e = "(replicate MAX_BUFF None)[1 := Some 1] :: nat option list"
  let ?s1 = "pair_start\<lparr>wk := Waiting, wr := Waiting\<rparr>"
  let ?s2 = "?s1\<lparr>apool := \<lparr>pool_fd = fd, pool_data = Some ?d, pool_idx = 1\<rparr>, msgs := [0 \<mapsto> m], next_buf := 1, wk := Woken\<rparr>"
  let ?s3 = "?s2\<lparr>apool := \<lparr>pool_fd = fd, pool_data = Some ?d, pool_idx = 0\<rparr>, msgs := [1 \<mapsto> m], next_buf := 2, wk := Passing fd 1\<rparr>"
  let ?s4 = "?s3\<lparr>awpool := \<lparr>pool_fd = fd, pool_data = Some ?e, pool_idx = 1\<rparr>, wk := Locking, wr := Woken\<rparr>"
  let ?s5 = "?s4\<lparr>awpool := \<lparr>pool_fd = fd, pool_data = None, pool_idx = 0\<rparr>, wr := Locking, written := [(fd, m)]\<rparr>"
  have l: "1 < MAX_BUFF" by (simp add: MAX_BUFF_def)
  have 1: "pair_step WorkerWait pair_start = Some (Inr (pair_start\<lparr>wk := Waiting\<rparr>))"
    "pair_step WriterWait (pair_start\<lparr>wk := Waiting\<rparr>) = Some (Inr ?s1)" by (simp_all add: pair_start_def)
  have 2: "pair_step (Client (chunks ds a) fd) ?s1 = Some (Inr ?s2)"
    using l by (simp add: pool_handle_client_def h to_worker_def to_pool_def Let_def pair_start_def pool_start_def wake_def)
  have 3: "pair_step WorkerTake ?s2 = Some (Inr ?s3)"
    using l by (simp add: worker_def take_top_def fun_upd_twist c)
  have 4: "pair_step WorkerPass ?s3 = Some (Inr ?s4)"
    using l by (simp add: worker_pass_def to_writer_def to_pool_def Let_def pair_start_def pool_start_def wake_def)
  have 5: "pair_step WriterTake ?s4 = Some (Inr ?s5)"
    using l by (simp add: writer_def take_top_def pair_start_def c)
  have "pair_run pair_start [WorkerWait, WriterWait, Client (chunks ds a) fd, WorkerTake, WorkerPass, WriterTake] ?s5"
    by (intro pair_cons [OF 1(1)] pair_cons [OF 1(2)] pair_cons [OF 2] pair_cons [OF 3] pair_cons [OF 4] pair_cons [OF 5] pair_nil)
  then show ?thesis unfolding m_def by (intro exI conjI) (assumption, simp)
qed

theorem async_delivers_witness:
  "\<exists>s. pair_run pair_start [WorkerWait, WriterWait, Client (chunks [replicate 1000 CHR ''a'', replicate 24 CHR 0x00] (\<lambda>_. Again)) 5,
     WorkerTake, WorkerPass, WriterTake] s \<and> written s = [(5, replicate 1000 CHR ''a'' @ replicate 24 CHR 0x00)]"
  using async_delivers [of "[replicate 1000 CHR ''a'', replicate 24 CHR 0x00]" "\<lambda>_. Again" 5] by (simp add: MAX_BUFF_def nul_def)

text \<open>C_. The condition variables are waited for without looking at the pool: a message that comes while the worker is not waiting is never answered unless there is another message or a spurious wake-up, and a spurious wake-up before the first message makes the worker follow an uninitialised pointer.\<close>

lemma async_wakeups:
  assumes "[] \<notin> set ds" "MAX_BUFF \<le> length (concat ds)" "WorkerSpurious \<notin> set ls" "\<forall>r f. Client r f \<notin> set ls"
  shows "(\<exists>s. pair_run pair_start [Client (chunks ds a) fd] s \<and> (\<forall>t. pair_run s ls t \<longrightarrow> written t = [])) \<and>
    (\<exists>s. pair_run pair_start [WorkerWait, WorkerSpurious] s \<and> pair_step WorkerTake s = Some (Inl Uninit))"
proof
  define m where "m = take MAX_BUFF (concat ds)"
  have h: "pool_read (chunks ds a) 0 0 False zeros = Some (Inr (False, m))" unfolding m_def by (rule message_read [OF assms(1,2)])
  let ?s = "pair_start\<lparr>apool := \<lparr>pool_fd = fd, pool_data = Some ((replicate MAX_BUFF None)[1 := Some 0]), pool_idx = 1\<rparr>, msgs := [0 \<mapsto> m], next_buf := 1\<rparr>"
  have "pair_step (Client (chunks ds a) fd) pair_start = Some (Inr ?s)"
    by (simp add: pool_handle_client_def h to_worker_def to_pool_def Let_def pair_start_def pool_start_def wake_def MAX_BUFF_def)
  then have "pair_run pair_start [Client (chunks ds a) fd] ?s" by (rule pair_cons [OF _ pair_nil])
  moreover have "unnoticed ?s" by (simp add: unnoticed_def pair_start_def)
  ultimately show "\<exists>s. pair_run pair_start [Client (chunks ds a) fd] s \<and> (\<forall>t. pair_run s ls t \<longrightarrow> written t = [])"
    using unnoticed_run [of ?s ls] assms(3,4) unfolding unnoticed_def by blast
next
  have "pair_run pair_start [WorkerWait, WorkerSpurious] (pair_start\<lparr>wk := Woken\<rparr>)"
    by (rule pair_cons [where t = "pair_start\<lparr>wk := Waiting\<rparr>"], simp add: pair_start_def,
      rule pair_cons [where t = "pair_start\<lparr>wk := Woken\<rparr>"], simp, rule pair_nil)
  moreover have "pair_step WorkerTake (pair_start\<lparr>wk := Woken\<rparr>) = Some (Inl Uninit)"
    by (simp add: worker_def take_top_def pair_start_def pool_start_def MAX_BUFF_def)
  ultimately show "\<exists>s. pair_run pair_start [WorkerWait, WorkerSpurious] s \<and> pair_step WorkerTake s = Some (Inl Uninit)" by blast
qed

theorem async_wakeups_witness:
  "\<exists>s. pair_run pair_start [Client (chunks [replicate 1024 CHR ''a''] (\<lambda>_. Again)) 5] s \<and> (\<forall>t. pair_run s [WorkerWait, WriterWait] t \<longrightarrow> written t = [])"
  using async_wakeups [of "[replicate 1024 CHR ''a'']" "[WorkerWait, WriterWait]" "\<lambda>_. Again" 5] by (simp add: MAX_BUFF_def)

text \<open>C_. A message that does not fill the buffer at once: when the rest comes only after more failed reads than there are bytes, it is written in front of the buffer, and when nothing more comes the handler and with it the server does not return.\<close>

lemma pool_read_short:
  assumes "d \<noteq> []" "length d < MAX_BUFF" "length d < n" "e \<noteq> []"
  shows "pool_handle_client (\<lambda>k. if k = 0 then Got d else if k \<le> n then Again else Got e) fd s = Some (Inl OutOfBounds) \<and>
    pool_handle_client (\<lambda>k. if k = 0 then Got d else Again) fd s = None \<and>
    pool_handle_client (\<lambda>k. if k = 0 then Got d else Got []) fd s = None"
proof -
  have n: "pool_read r 0 0 False zeros = None" if r: "r 0 = Got d" "\<forall>i. 1 \<le> i \<longrightarrow> r i = Again \<or> r i = Got []" for r
  proof -
    obtain b where "pool_read r 0 0 False zeros = pool_read r 1 (int (length d)) False b"
      using pool_read_data [of r 0 d 0 False zeros] assms(1,2) r(1) by (auto simp: MAX_BUFF_def)
    then show ?thesis using pool_read_returns [of r 1 "int (length d)" False b] r(2) assms(2) by (cases "pool_read r 1 (int (length d)) False b") auto
  qed
  show ?thesis using short_message [OF assms] n [of "\<lambda>k. if k = 0 then Got d else Again"] n [of "\<lambda>k. if k = 0 then Got d else Got []"]
    by (simp add: pool_handle_client_def)
qed

theorem pool_read_short_witness:
  "pool_handle_client (\<lambda>k. if k = 0 then Got ''hi'' else if k \<le> 3 then Again else Got ''x'') 5 pair_start = Some (Inl OutOfBounds) \<and>
   pool_handle_client (\<lambda>k. if k = 0 then Got ''hi'' else Again) 5 pair_start = None"
  using pool_read_short [of "''hi''" 3 "''x''" 5 pair_start] by (simp add: MAX_BUFF_def)

end
