(* ===== verification/CharDev.thy ===== *)
theory CharDev
  imports Kfs CString
begin

text \<open>
  Two character drivers that only one process can have open: \<open>kdev-char/char_dev_driver.c\<close>, which hands out a
  message that counts how often it was opened, and \<open>kdev-char-storage/chr_store.c\<close>, which keeps what is written to
  it in blocks of 4096 bytes. What the kernel decides (whether an allocation succeeds, what new memory contains, how many
  bytes of the user's buffer cannot be accessed) is an argument.
\<close>

section \<open>The greeting device\<close>

definition BUF_LEN :: nat where "BUF_LEN = 80"
definition EBUSY :: int where "EBUSY = 16"

record hello =
  h_open :: int
  h_counter :: int
  h_msg :: string
  h_ptr :: nat

definition hello_load :: hello where
  "hello_load = \<lparr>h_open = 0, h_counter = 0, h_msg = replicate BUF_LEN nul, h_ptr = 0\<rparr>"

definition greeting :: "int \<Rightarrow> string" where
  "greeting n = ''I already told you '' @ fmt_d n @ '' times Hello world!'' @ [newline]"

definition hello_open :: "hello \<Rightarrow> (int \<times> hello) res" where
  "hello_open s =
     (if h_open s \<noteq> 0 then Inr (- EBUSY, s)
      else let t = greeting (h_counter s) in
        if h_counter s \<ge> 2 ^ 31 - 1 then Inl Overflow
        else if \<not> length t < length (h_msg s) then Inl OutOfBounds
        else Inr (0, s\<lparr>h_open := h_open s + 1, h_counter := h_counter s + 1,
          h_msg := t @ nul # drop (length t + 1) (h_msg s), h_ptr := 0\<rparr>))"

definition hello_release :: "hello \<Rightarrow> int \<times> hello" where
  "hello_release s = (0, s\<lparr>h_open := h_open s - 1\<rparr>)"

text \<open>The loop over the message; what it copies is the result.\<close>

fun put_loop :: "nat \<Rightarrow> string \<Rightarrow> string res" where
  "put_loop 0 m = Inr []"
| "put_loop (Suc n) [] = Inl OutOfBounds"
| "put_loop (Suc n) (c # m) = (if c = nul then Inr [] else bindR (put_loop n m) (\<lambda>r. Inr (c # r)))"

definition hello_read :: "nat \<Rightarrow> hello \<Rightarrow> (string \<times> hello) res" where
  "hello_read len s = bindR (arr_get (h_msg s) (h_ptr s)) (\<lambda>c.
     if c = nul then Inr ([], s)
     else bindR (put_loop len (drop (h_ptr s) (h_msg s))) (\<lambda>out. Inr (out, s\<lparr>h_ptr := h_ptr s + length out\<rparr>)))"

definition hello_write :: "hello \<Rightarrow> int \<times> hello" where
  "hello_write s = (- EINVAL, s)"

section \<open>The storage device\<close>

definition BLK_LEN :: nat where "BLK_LEN = 4096"
definition MAX_LEN :: nat where "MAX_LEN = 256"

text \<open>What the pointer \<open>msg\<close> points to.\<close>

datatype blk = Null | Block string | Freed

record store =
  st_open :: int
  blk_count :: nat
  st_msg :: blk

definition store_load :: store where
  "store_load = \<lparr>st_open = 0, blk_count = 0, st_msg = Null\<rparr>"

definition store_open :: "store \<Rightarrow> int \<times> store" where
  "store_open s = (if st_open s \<noteq> 0 then (- EBUSY, s) else (0, s\<lparr>st_open := st_open s + 1\<rparr>))"

definition store_release :: "store \<Rightarrow> int \<times> store" where
  "store_release s = (0, s\<lparr>st_open := st_open s - 1\<rparr>)"

definition blocks :: "nat \<Rightarrow> nat" where
  "blocks len = len div BLK_LEN + (if len mod BLK_LEN \<noteq> 0 then 1 else 0)"

text \<open>Reading: \<open>n\<close> is the number of bytes that cannot be copied. The bytes copied, and the value returned.\<close>

definition store_read :: "nat \<Rightarrow> nat \<Rightarrow> store \<Rightarrow> (string \<times> int) res" where
  "store_read len n s =
     (if blk_count s = 0 then Inr ([], 0)
      else if blocks len > MAX_LEN then Inr ([], - EINVAL)
      else case st_msg s of
        Null \<Rightarrow> Inl NullDeref
      | Freed \<Rightarrow> Inl UseAfterFree
      | Block m \<Rightarrow> if len > length m then Inl OutOfBounds else Inr (take (len - n) m, int (len - n)))"

text \<open>\<open>copy_from_user\<close> to the start of the memory, all but the last \<open>n\<close> bytes.\<close>

definition fill_msg :: "string \<Rightarrow> nat \<Rightarrow> blk \<Rightarrow> blk res" where
  "fill_msg buf n b = (case b of
       Null \<Rightarrow> Inl NullDeref
     | Freed \<Rightarrow> Inl UseAfterFree
     | Block m \<Rightarrow> if length buf > length m then Inl OutOfBounds
         else let d = take (length buf - n) buf in Inr (Block (d @ drop (length d) m)))"

text \<open>\<open>krealloc\<close>: \<open>fresh\<close> is what memory behind the old contents holds; on a failure the result is null.\<close>

definition krealloc :: "blk \<Rightarrow> nat \<Rightarrow> bool \<Rightarrow> (nat \<Rightarrow> char) \<Rightarrow> blk res" where
  "krealloc b k ok fresh = (case b of
       Freed \<Rightarrow> Inl BadFree
     | _ \<Rightarrow> if \<not> ok then Inr Null
         else let m = (case b of Block m \<Rightarrow> m | _ \<Rightarrow> []) in Inr (Block (take k m @ map fresh [length m..<k])))"

text \<open>
  Writing. The \<open>memset\<close> of the source has its last two arguments exchanged and sets no byte.
\<close>

definition store_write :: "bool \<Rightarrow> (nat \<Rightarrow> char) \<Rightarrow> string \<Rightarrow> nat \<Rightarrow> store \<Rightarrow> (int \<times> store) res" where
  "store_write ok fresh buf n s =
     (let len = length buf; b = blocks len in
      if b > MAX_LEN then Inr (- EINVAL, s)
      else if b = 0 then
        (case st_msg s of
           Null \<Rightarrow> Inr (0, s)
         | Freed \<Rightarrow> Inl BadFree
         | Block _ \<Rightarrow> Inr (0, s\<lparr>blk_count := 0, st_msg := Freed\<rparr>))
      else if st_msg s = Null then
        (if \<not> ok then Inr (- ENOMEM, s)
         else bindR (fill_msg buf n (Block (replicate (b * BLK_LEN) nul))) (\<lambda>m.
           Inr (int (len - n), s\<lparr>blk_count := b, st_msg := m\<rparr>)))
      else
        bindR (if blk_count s \<noteq> b then krealloc (st_msg s) (b * BLK_LEN) ok fresh else Inr (st_msg s)) (\<lambda>m.
        bindR (fill_msg buf n m) (\<lambda>m. Inr (int (len - n), s\<lparr>blk_count := b, st_msg := m\<rparr>))))"

datatype whence = SEEK_SET | SEEK_CUR | SEEK_END

definition store_llseek :: "whence \<Rightarrow> store \<Rightarrow> int res" where
  "store_llseek wh s =
     (if blk_count s = 0 then Inr 0
      else case wh of
        SEEK_END \<Rightarrow> (case st_msg s of
            Null \<Rightarrow> Inl NullDeref
          | Freed \<Rightarrow> Inl UseAfterFree
          | Block m \<Rightarrow> bindR (c_string m) (\<lambda>t. Inr (int (length t))))
      | _ \<Rightarrow> Inr 0)"

definition store_exit :: "store \<Rightarrow> store res" where
  "store_exit s = (case st_msg s of Null \<Rightarrow> Inr s | Freed \<Rightarrow> Inl BadFree | Block _ \<Rightarrow> Inr (s\<lparr>st_msg := Freed\<rparr>))"

section \<open>Specification\<close>

definition store_inv :: "store \<Rightarrow> bool" where
  "store_inv s \<longleftrightarrow> (case st_msg s of
       Null \<Rightarrow> blk_count s = 0
     | Freed \<Rightarrow> False
     | Block m \<Rightarrow> 0 < blk_count s \<and> blk_count s \<le> MAX_LEN \<and> length m = blk_count s * BLK_LEN)"

definition kept :: "store \<Rightarrow> string" where
  "kept s = (case st_msg s of Block m \<Rightarrow> m | _ \<Rightarrow> [])"

text \<open>Several reads of the greeting.\<close>

fun hello_reads :: "nat list \<Rightarrow> hello \<Rightarrow> (string \<times> hello) res" where
  "hello_reads [] s = Inr ([], s)"
| "hello_reads (n # ns) s = bindR (hello_read n s) (\<lambda>(a, s). bindR (hello_reads ns s) (\<lambda>(b, s). Inr (a @ b, s)))"

section \<open>Lemmas\<close>

subsection \<open>The greeting device\<close>

lemma digits_length: "2 \<le> b \<Longrightarrow> n < b ^ Suc k \<Longrightarrow> length (digits b n) \<le> Suc k"
proof (induction k arbitrary: n)
  case 0
  then show ?case by (subst digits.simps) simp
next
  case (Suc k)
  have "n div b < b ^ Suc k" using Suc.prems by (simp add: div_less_iff_less_mult mult.commute)
  then have "length (digits b (n div b)) \<le> Suc k" using Suc by blast
  then show ?case by (subst digits.simps) simp
qed

lemma digit_nul:
  assumes "d < 10"
  shows "digit d \<noteq> nul"
proof -
  have "of_char (digit d) = (48 + d :: nat)" using assms by (simp add: digit_def)
  moreover have "of_char nul = (0 :: nat)" by (simp add: nul_def)
  ultimately show ?thesis by auto
qed

lemma digits_nul: "nul \<notin> set (digits 10 n)"
proof (induction n rule: less_induct)
  case (less n)
  show ?case
  proof (cases "n < 10")
    case True
    then show ?thesis using digit_nul [of n] by (subst digits.simps) auto
  next
    case False
    then show ?thesis using less [of "n div 10"] digit_nul [of "n mod 10"] by (subst digits.simps) auto
  qed
qed

lemma greeting_nul: "0 \<le> n \<Longrightarrow> nul \<notin> set (greeting n)"
  using digits_nul by (simp add: greeting_def fmt_d_def newline_def nul_def)

lemma greeting_fits:
  assumes "0 \<le> n" "n < 2 ^ 31 - 1"
  shows "length (greeting n) < BUF_LEN"
proof -
  have "nat n < 10 ^ Suc 9" using assms by (simp add: nat_less_iff)
  then have "length (digits 10 (nat n)) \<le> 10" using digits_length [of 10 "nat n" 9] by simp
  then show ?thesis using assms(1) by (simp add: greeting_def fmt_d_def BUF_LEN_def)
qed

lemma put_loop_eq: "nul \<notin> set t \<Longrightarrow> put_loop n (t @ nul # z) = Inr (take n t)"
  by (induction n "t @ nul # z" arbitrary: t rule: put_loop.induct) (auto simp: Cons_eq_append_conv)

subsection \<open>The storage device\<close>

lemma blocks_bound: "len \<le> blocks len * BLK_LEN" "0 < len \<Longrightarrow> 0 < blocks len"
  by (auto simp: blocks_def BLK_LEN_def)

lemma blocks_le:
  assumes "len \<le> k * BLK_LEN"
  shows "blocks len \<le> k"
proof (cases "len mod BLK_LEN = 0")
  case True
  then show ?thesis using div_le_mono [OF assms, of BLK_LEN] by (simp add: blocks_def BLK_LEN_def)
next
  case False
  then have "len \<noteq> k * BLK_LEN" by auto
  then have "len div BLK_LEN < k" using assms by (simp add: less_mult_imp_div_less)
  then show ?thesis by (simp add: blocks_def)
qed

lemma fill_msg_ok:
  "length buf \<le> length m \<Longrightarrow> fill_msg buf 0 (Block m) = Inr (Block (buf @ drop (length buf) m))"
  by (simp add: fill_msg_def)

lemma store_write_ok:
  assumes "store_inv s" "buf \<noteq> []" "blocks (length buf) \<le> MAX_LEN"
  shows "\<exists>m. store_write True fresh buf 0 s = Inr (int (length buf), s\<lparr>blk_count := blocks (length buf), st_msg := Block m\<rparr>) \<and>
    length m = blocks (length buf) * BLK_LEN \<and> take (length buf) m = buf \<and>
    (blk_count s = blocks (length buf) \<longrightarrow> m = buf @ drop (length buf) (kept s))"
proof -
  have b: "length buf \<le> blocks (length buf) * BLK_LEN" "0 < blocks (length buf)" using blocks_bound assms(2) by auto
  have fin: ?thesis if "store_write True fresh buf 0 s = Inr (int (length buf), s\<lparr>blk_count := blocks (length buf), st_msg := Block (buf @ drop (length buf) M)\<rparr>)"
      "length M = blocks (length buf) * BLK_LEN" "blk_count s = blocks (length buf) \<longrightarrow> M = kept s" for M
    using that b(1) by (intro exI [of _ "buf @ drop (length buf) M"]) simp
  have n: "\<not> MAX_LEN < blocks (length buf)" "blocks (length buf) \<noteq> 0" using b(2) assms(3) by simp_all
  show ?thesis
  proof (cases "st_msg s")
    case Null
    then have "blk_count s = 0" using assms(1) by (simp add: store_inv_def)
    then show ?thesis using n b Null
      by (intro fin [of "replicate (blocks (length buf) * BLK_LEN) nul"]) (simp_all add: store_write_def Let_def fill_msg_ok)
  next
    case (Block m)
    then have m: "length m = blk_count s * BLK_LEN" using assms(1) by (simp add: store_inv_def)
    show ?thesis
    proof (cases "blk_count s = blocks (length buf)")
      case True
      then show ?thesis using n b m Block by (intro fin [of m]) (simp_all add: store_write_def Let_def fill_msg_ok kept_def)
    next
      case False
      define M where "M = take (blocks (length buf) * BLK_LEN) m @ map fresh [length m..<blocks (length buf) * BLK_LEN]"
      have l: "length M = blocks (length buf) * BLK_LEN" by (simp add: M_def)
      have "krealloc (st_msg s) (blocks (length buf) * BLK_LEN) True fresh = Inr (Block M)" by (simp add: krealloc_def Block M_def)
      then show ?thesis using n b l Block False by (intro fin [of M]) (simp_all add: store_write_def Let_def fill_msg_ok)
    qed
  next
    case Freed
    then show ?thesis using assms(1) by (simp add: store_inv_def)
  qed
qed

lemma store_write_inv:
  assumes "store_inv s" "blocks (length buf) \<le> MAX_LEN" "buf \<noteq> []" "store_write True fresh buf 0 s = Inr (k, s')"
  shows "store_inv s'"
  using store_write_ok [OF assms(1,3,2), of fresh] assms(2,3,4) blocks_bound(2) [of "length buf"] by (auto simp: store_inv_def)

lemma store_read_ok:
  assumes "store_inv s" "len \<le> length (kept s)" "blk_count s \<noteq> 0"
  shows "store_read len 0 s = Inr (take len (kept s), int len)"
proof -
  obtain m where m: "st_msg s = Block m" using assms(1,3) by (cases "st_msg s") (auto simp: store_inv_def)
  have l: "length m = blk_count s * BLK_LEN" "blk_count s \<le> MAX_LEN" using assms(1) m by (simp_all add: store_inv_def)
  have "len \<le> blk_count s * BLK_LEN" using assms(2) l m by (simp add: kept_def)
  also have "\<dots> \<le> MAX_LEN * BLK_LEN" using l(2) by (rule mult_le_mono1)
  finally have "len \<le> MAX_LEN * BLK_LEN" .
  then have "\<not> MAX_LEN < blocks len" using blocks_le by (simp add: not_less)
  then show ?thesis using assms(2,3) m by (simp add: store_read_def kept_def)
qed

section \<open>Properties\<close>

text \<open>C_. After opening, the greeting device hands out its message in pieces of any sizes, in order and without a gap, and nothing after its end; while it is open nobody else can open it.\<close>

lemma hello_reads_greeting:
  assumes "hello_open s = Inr (0, s')" "length (h_msg s) = BUF_LEN" "0 \<le> h_counter s"
  shows "(\<exists>u. hello_reads ns s' = Inr (take (sum_list ns) (greeting (h_counter s)), u)) \<and>
    (0 \<le> h_open s \<longrightarrow> hello_open s' = Inr (- EBUSY, s'))"
proof -
  have s: "h_open s = 0" "length (greeting (h_counter s)) < BUF_LEN" 
    "s' = s\<lparr>h_open := h_open s + 1, h_counter := h_counter s + 1,
          h_msg := greeting (h_counter s) @ nul # drop (length (greeting (h_counter s)) + 1) (h_msg s), h_ptr := 0\<rparr>"
    using assms(1,2) by (auto simp: hello_open_def Let_def EBUSY_def split: if_splits)
  define t where "t = greeting (h_counter s)"
  have t0: "nul \<notin> set t" unfolding t_def by (rule greeting_nul [OF assms(3)])
  have "\<exists>u. hello_reads ns v = Inr (take (sum_list ns) (drop (h_ptr v) t), u)" if "h_msg v = t @ nul # z" "h_ptr v \<le> length t" for v z
    using that
  proof (induction ns arbitrary: v)
    case (Cons n ns)
    show ?case
    proof (cases "h_ptr v = length t")
      case True
      then have "hello_read n v = Inr ([], v)" using Cons.prems(1) by (simp add: hello_read_def)
      then show ?thesis using Cons.IH [OF Cons.prems] True by auto
    next
      case False
      then have p: "h_ptr v < length t" using Cons.prems(2) by simp
      have "t ! h_ptr v \<noteq> nul" using t0 p nth_mem by metis
      moreover have "drop (h_ptr v) (h_msg v) = drop (h_ptr v) t @ nul # z" using p Cons.prems(1) by simp
      moreover have "nul \<notin> set (drop (h_ptr v) t)" using t0 by (meson in_set_dropD)
      ultimately have r: "hello_read n v = Inr (take n (drop (h_ptr v) t), v\<lparr>h_ptr := h_ptr v + length (take n (drop (h_ptr v) t))\<rparr>)"
        using p Cons.prems(1) by (simp add: hello_read_def put_loop_eq nth_append)
      define w where "w = v\<lparr>h_ptr := h_ptr v + length (take n (drop (h_ptr v) t))\<rparr>"
      have w: "h_msg w = t @ nul # z" "h_ptr w \<le> length t" using p Cons.prems(1) by (simp_all add: w_def)
      obtain u where u: "hello_reads ns w = Inr (take (sum_list ns) (drop (h_ptr w) t), u)" using Cons.IH [OF w] by blast
      have "take n (drop (h_ptr v) t) @ take (sum_list ns) (drop (h_ptr w) t) = take (n + sum_list ns) (drop (h_ptr v) t)"
        by (cases "n \<le> length t - h_ptr v") (simp_all add: w_def take_add min_def add.commute)
      then show ?thesis using r u unfolding w_def [symmetric] by simp
    qed
  qed simp
  from this [of s'] have "\<exists>u. hello_reads ns s' = Inr (take (sum_list ns) t, u)" using s(3) by (simp add: t_def)
  moreover have "hello_open s' = Inr (- EBUSY, s')" using s(1,3) by (simp add: hello_open_def)
  ultimately show ?thesis by (simp add: t_def)
qed


theorem hello_reads_greeting_witness:
  "\<exists>s' u. hello_open hello_load = Inr (0, s') \<and> hello_reads [5, 100] s' = Inr (greeting 0, u) \<and> hello_open s' = Inr (- EBUSY, s')"
proof -
  have g: "length (greeting 0) < BUF_LEN" using greeting_fits [of 0] by simp
  obtain s' where s': "hello_open hello_load = Inr (0, s')" using g by (simp add: hello_open_def hello_load_def Let_def)
  have "take (sum_list [5, 100]) (greeting 0) = greeting 0" using g by (simp add: BUF_LEN_def)
  then show ?thesis using s' hello_reads_greeting [OF s', of "[5, 100]"] by (auto simp: hello_load_def)
qed



text \<open>C_. What goes wrong with the storage device: a write of no bytes leaves a dangling pointer, so that the next write and unloading free or use it again; a read beyond what is stored copies foreign memory; a text that fills its blocks has no end to seek to; and the rest of a longer text stays behind a shorter one.\<close>

lemma store_faults:
  assumes "store_inv s" "st_msg s = Block m" "buf \<noteq> []" "length buf \<le> MAX_LEN * BLK_LEN"
  shows "(\<exists>s'. store_write ok fresh [] 0 s = Inr (0, s') \<and> \<not> is_ok (store_write ok fresh buf 0 s') \<and> store_exit s' = Inl BadFree) \<and>
    (length m < len \<and> len \<le> MAX_LEN * BLK_LEN \<longrightarrow> store_read len 0 s = Inl OutOfBounds) \<and>
    (nul \<notin> set m \<longrightarrow> store_llseek SEEK_END s = Inl OutOfBounds) \<and>
    (blocks (length buf) = blk_count s \<longrightarrow>
      store_write ok fresh buf 0 s = Inr (int (length buf), s\<lparr>st_msg := Block (buf @ drop (length buf) m)\<rparr>))"
proof -
  have b: "blocks (length buf) \<le> MAX_LEN" "0 < blocks (length buf)" using blocks_le [OF assms(4)] blocks_bound(2) assms(3) by auto
  have k: "0 < blk_count s" "length m = blk_count s * BLK_LEN" using assms(1,2) by (simp_all add: store_inv_def)
  let ?s = "s\<lparr>blk_count := 0, st_msg := Freed\<rparr>"
  have "store_write ok fresh [] 0 s = Inr (0, ?s)" using assms(2) by (simp add: store_write_def blocks_def)
  moreover have "\<not> is_ok (store_write ok fresh buf 0 ?s)" using b by (simp add: store_write_def Let_def krealloc_def)
  moreover have "store_exit ?s = Inl BadFree" by (simp add: store_exit_def)
  moreover have "store_read len 0 s = Inl OutOfBounds" if "length m < len" "len \<le> MAX_LEN * BLK_LEN"
    using that blocks_le [OF that(2)] k(1) assms(2) by (simp add: store_read_def)
  moreover have "store_llseek SEEK_END s = Inl OutOfBounds" if "nul \<notin> set m"
    using that k(1) assms(2) by (simp add: store_llseek_def c_string_def)
  moreover have "store_write ok fresh buf 0 s = Inr (int (length buf), s\<lparr>st_msg := Block (buf @ drop (length buf) m)\<rparr>)"
    if e: "blocks (length buf) = blk_count s"
  proof -
    have "length buf \<le> length m" using blocks_bound(1) [of "length buf"] k(2) e by simp
    then show ?thesis using b assms(2) e by (simp add: store_write_def Let_def fill_msg_ok)
  qed
  ultimately show ?thesis by blast
qed

theorem store_faults_witness:
  "\<exists>s'. store_write True (\<lambda>_. nul) [] 0 \<lparr>st_open = 1, blk_count = 1, st_msg = Block (replicate 4096 CHR ''a'')\<rparr> = Inr (0, s') \<and>
     store_exit s' = Inl BadFree"
  using store_faults [of "\<lparr>st_open = 1, blk_count = 1, st_msg = Block (replicate 4096 CHR ''a'')\<rparr>" "replicate 4096 CHR ''a''" "''b''" True "\<lambda>_. nul"]
  by (auto simp: store_inv_def MAX_LEN_def BLK_LEN_def)

end
