(* ===== verification/Spec2Isabelle.thy ===== *)
theory Spec2Isabelle
  imports Cmap RingQueue DynQueue RcuCmap RcuList Grep TextTools Firewall Deth XskForward SecretDrv Kfs GpioLink TenK Kxfrm AsyncPool CharDev
begin

text \<open>
  The repository is a collection of C programs and kernel modules for Linux, one directory each: data structures
  and threads (\<open>data-\<close>), network and device programs (\<open>dev-\<close>), kernel modules (\<open>k...\<close>) and small tools (\<open>var-\<close>).
  The programs do not call each other; what they share is copied text. This development models the ones that have a
  state and logic of their own. File names below are relative to \<open>src/\<close>.

  \<^bold>\<open>How C is modelled.\<close> \<open>Prelude\<close> has the result type \<open>'a res\<close>, that is \<open>fault + 'a\<close>: a null or dangling pointer, an
  access outside an array, a double free, an uninitialised value, a division by zero, a deadlock and an overflow are
  values \<open>Inl\<close> of it, so that "no fault" is a statement about a function. \<open>bindR\<close> and \<open>foldR\<close> chain and iterate such
  functions, \<open>arr_get\<close> and \<open>arr_set\<close> are checked accesses. Machine integers keep their width as words where
  they can wrap. What the kernel, a library or the machine decides (does an allocation succeed, what does \<open>read\<close>
  return, which descriptors are ready) is an argument. A loop that may run for ever is a \<open>partial_function (option)\<close>.
  \<open>CHeap\<close> is a C heap on which freed addresses are not used again, \<open>CString\<close> the string functions of the C library on
  buffers that may lack the terminating null, \<open>Packet\<close> checked access to the bytes of a packet.

  \<^bold>\<open>Interfaces.\<close> The contracts that several components share are locales: \<open>key_map\<close> and \<open>key_map_replace\<close>
  (\<open>Interfaces\<close>, for the two hash maps), \<open>spsc_queue\<close> and \<open>spsc_robust\<close> (\<open>Spsc\<close>, a queue between one producer and one
  consumer, without and with spurious wake-ups), \<open>ring_dims\<close> and \<open>dyn_dims\<close> (the parameters of the queues),
  \<open>string_vector\<close> (\<open>Vector\<close>), \<open>secret_device\<close> (\<open>SecretDrv\<close>) and \<open>net_driver\<close> (\<open>NetDriver\<close>, the transmit function of an
  Ethernet driver). Each is interpreted on the definitions that model the code.

  \<^bold>\<open>Data structures.\<close>
  \<^item> \<open>Cmap\<close>: the hash map of \<open>data-hashmap-concurrent\<close>, with its hash, its callbacks, both thread functions and
    \<open>main\<close>. It refines a finite map, and the program ends with all values 0 under every interleaving of its threads.
  \<^item> \<open>Spsc\<close>, \<open>RingQueue\<close>, \<open>DynQueue\<close>: the queues of \<open>data-queue-concurrent\<close> (\<open>static.c\<close>, \<open>dynamic.c\<close>) and
    \<open>data-queue-channel\<close> with their two threads. Order of delivery, no deadlock, a bound on the number of steps; where the
    code relies on the absence of spurious wake-ups the theorem says so. Loops over the linked queue have fuel; the length
    of the list is enough, and \<open>dyn_spsc_total\<close> shows that freeing it succeeds.
  \<^item> \<open>RcuCmap\<close>, \<open>RcuList\<close>: the kernel map of \<open>ksync-rcu-cmap\<close> and the list of books of \<open>ksync-rcu\<close>, with the nodes handed
    to \<open>call_rcu\<close>. A reader never holds a freed node, under every interleaving with writers and grace periods.
  \<^item> \<open>Vector\<close>, \<open>Grep\<close>, \<open>TextTools\<close>: the vectors of \<open>data-vector\<close> and the tools \<open>var-grep\<close>, \<open>var-wc\<close>, \<open>var-cat\<close> and
    \<open>data-stream\<close>, on the C heap: results, error codes, leaks, and the input sizes from which on they leave a buffer.

  \<^bold>\<open>Packets.\<close>
  \<^item> \<open>Packet\<close>, \<open>Xdp\<close>: the parsing and rewriting helpers and the XDP programs of \<open>dev-net-ebpf-xdp/kernel\<close>. All accesses
    are inside the packet, parsing inverts building a frame, popping inverts pushing a VLAN tag.
  \<^item> \<open>Firewall\<close>: the filters of \<open>dev-net-firewall\<close> and \<open>knetfilter\<close>.
  \<^item> \<open>Checksum\<close>, \<open>Bpool\<close>, \<open>XskForward\<close>: the AF-XDP forwarder \<open>dev-net-ebpf-xdp/xsk\<close>: its checksums are the Internet
    checksum, and no packet buffer is lost or used twice whatever the kernel does within its contract. The loop
    that waits for room in a ring is a partial function and is shown to end once the ring has room.

  \<^bold>\<open>Ethernet drivers.\<close>
  \<^item> \<open>Deth\<close>: the pair of devices of \<open>kdev-net-eth\<close>: pools, queues, interrupts, polling, loading. The invariant
    \<open>deth_inv\<close> says that no lock is held and each packet is in one pool or one queue.
  \<^item> \<open>NetDriver\<close>: what the derived drivers share. Functions they take over word for word are collected in records of
    operations, so that \<open>kneigh_pool = deth_pool\<close> and the like tell which text is the same.
  \<^item> \<open>Veth\<close>, \<open>Kneigh\<close>, \<open>KxdpNative\<close>, \<open>Kxfrm\<close>: the drivers of \<open>kdev-net-veth\<close>, \<open>kneigh\<close>, \<open>kxdp\<close> and \<open>kxfrm\<close>. The latter
    decrypt and encrypt ESP packets; the kernel's ciphers and digests are a record of functions, and the theorems assume
    of it that calls succeed, that outputs have their documented lengths and, for a valid packet, that encrypting its
    plaintext again gives its ciphertext.
  \<^item> \<open>GpioLink\<close>: the driver of \<open>kdev-gpio-irqsock\<close>, which sends frames over two lines pulse by pulse.

  \<^bold>\<open>Character devices and kernel files.\<close>
  \<^item> \<open>SecretDrv\<close>: the three drivers \<open>kdev-misc\<close>, \<open>ksync-mutex\<close> and \<open>ksync-spin\<close> and their user program.
  \<^item> \<open>Kfs\<close>: \<open>kfs-sys\<close>, \<open>kfs-proc\<close>, \<open>kfs-debug\<close> and \<open>kioctl\<close>: ranges of the settings, unwinding of a failed load.
  \<^item> \<open>CharDev\<close>: the devices of \<open>kdev-char\<close> and \<open>kdev-char-storage\<close>, with the memory the latter keeps.

  \<^bold>\<open>Servers.\<close>
  \<^item> \<open>TenK\<close>: the servers for ten thousand connections and the client threads of \<open>var-ten-k\<close>.
  \<^item> \<open>Echo\<close>: the echo servers \<open>dev-sock-epoll-tcp\<close>, \<open>dev-sock-tcp-thread\<close>, \<open>dev-sock-select-tcp\<close> and
    \<open>dev-sock-poll-tcp\<close>, and the client that talks to them: the answers, the slots, and what goes wrong with long
    messages, stale events and reused slots.
  \<^item> \<open>AsyncPool\<close>: the server of \<open>dev-sock-epoll-tcp-async-pool\<close>, with its pools and one pair of worker and writer thread
    under every interleaving, lost and spurious wake-ups included.

  \<^bold>\<open>Bounds.\<close> Sizes are those of the source (1024 bytes for the echo buffers, 65536 for a client of \<open>var-ten-k\<close>, 1 MiB
  for \<open>data-stream\<close>, 128 bytes for a secret). Sequences of operations, frames, events and schedules are of
  any length; where a theorem counts steps the number is in its statement.

  \<^bold>\<open>Simplifications.\<close> Log and trace output is left out. A critical section is one step, since the code
  holds the lock throughout. Memory is sequentially consistent. \<open>realloc\<close> always moves the block.

  \<^bold>\<open>Not modelled.\<close> Programs that only call OpenSSL, liboqs, QUIC or DTLS libraries, civetweb, libcurl,
  DPDK or liburing (\<open>data-crypt-\<close>, \<open>dev-sock-tls\<close>, \<open>dev-sock-quic\<close> and the like): their behaviour is that of the library.
  Programs that drive hardware (\<open>dev-gpio-rpi\<close>, \<open>dev-serial-\<close>, \<open>dev-infrared\<close>, \<open>var-camera-rtmp\<close>). Modules that show one
  call of the kernel and log its result (\<open>kmem-\<close>, \<open>kirq-\<close>, \<open>ktimer\<close>, \<open>ksysinfo\<close> and others). Samples of one system call
  (\<open>data-fork-\<close>, \<open>data-signal\<close>, \<open>data-pipe-fifo\<close> and others). Scripts, configuration and the samples in other languages
  under \<open>0xetc\<close>. Spin locks built from atomic operations, which need a weaker memory model. Of the remaining C programs,
  \<open>var-ncat\<close>, \<open>dev-sock-raw-mmap-packet-ip\<close>, \<open>dev-sock-netlink\<close>,
  \<open>dev-net-ip-netfilter\<close>, \<open>data-hex\<close>, \<open>data-sync-coroutine\<close> and the ARP programs have logic of their
  own that could be modelled in the same way and is not.
\<close>

end
